(* ===== verification/Prelude.thy ===== *)
theory Prelude
  imports Main "HOL-Library.Word" "HOL-Library.Monad_Syntax"
begin

text \<open>
  What the components share: the process abort as a value, unsigned 64-bit
  arithmetic on natural numbers with the wrap-around written out, masks, and the
  generic lemmas on lists and finite sums that several proofs use.

  The allocator's sizes, page numbers and byte counts are \<open>size_t\<close>, \<open>uintptr_t\<close> and
  \<open>uint64_t\<close>. They are natural numbers below \<open>2 ^ 64\<close> here, and an operation of the
  source that can leave that range is one of \<open>add64\<close>, \<open>sub64\<close>, \<open>shl64\<close>, \<open>not64\<close>,
  which reduce their result modulo \<open>2 ^ 64\<close>. The collection \<open>u64\<close> holds the
  conditional equations that turn them into ordinary arithmetic where the operands
  are known to be in range.
\<close>

unbundle bit_operations_syntax

named_theorems u64 \<open>rules that remove the wrap-around from in-range arithmetic\<close>

subsection \<open>Aborting the process\<close>

text \<open>
  \<open>CHECK_CONDITION\<close> and \<open>Log(kCrash, ...)\<close> end the process. Where a component can
  reach one of them its result is \<open>crash + 'a\<close>, with the failing site named;
  \<open>Diverges\<close> stands for a loop that never ends.
\<close>

datatype crash = CheckFailed string | LogCrash string | Diverges

subsection \<open>Unsigned 64-bit arithmetic\<close>

definition add64 :: "nat \<Rightarrow> nat \<Rightarrow> nat" where
  "add64 a b = (a + b) mod 2 ^ 64"

definition sub64 :: "nat \<Rightarrow> nat \<Rightarrow> nat" where
  "sub64 a b = (a + (2 ^ 64 - b mod 2 ^ 64)) mod 2 ^ 64"

definition mul64 :: "nat \<Rightarrow> nat \<Rightarrow> nat" where
  "mul64 a b = (a * b) mod 2 ^ 64"

definition shl64 :: "nat \<Rightarrow> nat \<Rightarrow> nat" where
  "shl64 a k = (a * 2 ^ k) mod 2 ^ 64"

definition not64 :: "nat \<Rightarrow> nat" where
  "not64 a = 2 ^ 64 - 1 - a"

text \<open>The conversion of a signed value to \<open>size_t\<close>.\<close>

definition u64_of_int :: "int \<Rightarrow> nat" where
  "u64_of_int i = nat (i mod 2 ^ 64)"

text \<open>The value of a signed variable of 32 and of 64 bits after an assignment.\<close>

definition i32 :: "int \<Rightarrow> int" where
  "i32 x = (x + 2 ^ 31) mod 2 ^ 32 - 2 ^ 31"

definition ssize64 :: "int \<Rightarrow> int" where
  "ssize64 x = (x + 2 ^ 63) mod 2 ^ 64 - 2 ^ 63"

lemma ssize64_id [simp]: "- (2 ^ 63) \<le> x \<Longrightarrow> x < 2 ^ 63 \<Longrightarrow> ssize64 x = x"
  by (simp add: ssize64_def)

lemma i32_id: "- (2 ^ 31) \<le> x \<Longrightarrow> x < 2 ^ 31 \<Longrightarrow> i32 x = x"
  by (simp add: i32_def)

lemma add64_eq [u64]: "a + b < 2 ^ 64 \<Longrightarrow> add64 a b = a + b"
  by (simp add: add64_def)

lemma add64_bound: "add64 a b < 2 ^ 64"
  by (simp add: add64_def)

lemma sub64_eq [u64]:
  assumes "b \<le> a" and "a < 2 ^ 64"
  shows "sub64 a b = a - b"
proof -
  have "sub64 a b = ((a - b) + 2 ^ 64) mod 2 ^ 64"
    using assms by (simp add: sub64_def)
  also have "\<dots> = (a - b) mod 2 ^ 64"
    by (rule mod_add_self2)
  finally show ?thesis
    using assms by simp
qed

lemma sub64_bound: "sub64 a b < 2 ^ 64"
  by (simp add: sub64_def)

lemma mul64_eq [u64]: "a * b < 2 ^ 64 \<Longrightarrow> mul64 a b = a * b"
  by (simp add: mul64_def)

lemma shl64_eq [u64]: "a * 2 ^ k < 2 ^ 64 \<Longrightarrow> shl64 a k = a * 2 ^ k"
  by (simp add: shl64_def)

lemma shl64_bound: "shl64 a k < 2 ^ 64"
  by (simp add: shl64_def)

lemma u64_of_int_nonneg [u64]: "0 \<le> i \<Longrightarrow> i < 2 ^ 64 \<Longrightarrow> u64_of_int i = nat i"
  by (simp add: u64_of_int_def)

text \<open>An addition that wraps gives less than either operand: the test the code uses.\<close>

lemma add64_overflow_iff:
  assumes "a < 2 ^ 64" and "b < 2 ^ 64"
  shows "add64 a b < a \<longleftrightarrow> 2 ^ 64 \<le> a + b"
proof (cases "a + b < 2 ^ 64")
  case True
  then show ?thesis by (simp add: add64_def)
next
  case False
  then have "(a + b) mod 2 ^ 64 = a + b - 2 ^ 64"
    using assms by (simp add: mod_if)
  with False assms show ?thesis by (simp add: add64_def)
qed

subsection \<open>Masks\<close>

lemma and_low_mask: "(x::nat) AND (2 ^ k - 1) = x mod 2 ^ k"
  by (metis mask_eq_exp_minus_1 take_bit_eq_mask take_bit_eq_mod)

lemma high_mask_push:
  "k \<le> 64 \<Longrightarrow> (2::nat) ^ 64 - 2 ^ k = push_bit k (mask (64 - k))"
  by (simp add: push_bit_eq_mult mask_eq_exp_minus_1 algebra_simps flip: power_add)

text \<open>Clearing the low \<open>k\<close> bits of a 64-bit value.\<close>

lemma and_high_mask:
  assumes "k \<le> 64" and "x < 2 ^ 64"
  shows "(x::nat) AND (2 ^ 64 - 2 ^ k) = x - x mod 2 ^ k"
proof -
  have x: "take_bit 64 x = x"
    using assms by (simp add: take_bit_nat_eq_self)
  have "x AND push_bit k (mask (64 - k)) = push_bit k (drop_bit k x)"
  proof (rule bit_eqI)
    fix n
    have "bit x n \<Longrightarrow> n < 64"
      using x by (metis bit_take_bit_iff)
    then show "bit (x AND push_bit k (mask (64 - k))) n
        \<longleftrightarrow> bit (push_bit k (drop_bit k x)) n"
      by (auto simp: bit_and_iff bit_push_bit_iff bit_mask_iff bit_drop_bit_eq)
  qed
  also have "\<dots> = x - x mod 2 ^ k"
    by (simp add: push_bit_eq_mult drop_bit_eq_div minus_mod_eq_div_mult)
  finally show ?thesis
    by (simp only: high_mask_push [OF assms(1)])
qed

lemma not64_mask: "k \<le> 64 \<Longrightarrow> not64 (2 ^ k - 1) = 2 ^ 64 - 2 ^ k"
  by (simp add: not64_def)

text \<open>The usual test for a power of two.\<close>

lemma pow2_and_pred: "((2::nat) ^ k) AND (2 ^ k - 1) = 0"
  by (simp only: and_low_mask) simp

subsection \<open>Outcomes of operations that may abort\<close>

text \<open>
  \<open>outcome D r P\<close> says that a result satisfies \<open>P\<close>, and that there is one unless \<open>D\<close>: with
  \<open>D\<close> false the operation returns, with \<open>D\<close> true it may also abort.
\<close>

definition outcome :: "bool \<Rightarrow> 'a option \<Rightarrow> ('a \<Rightarrow> bool) \<Rightarrow> bool" where
  "outcome D r P \<longleftrightarrow> (case r of None \<Rightarrow> D | Some x \<Rightarrow> P x)"

lemma outcome_simps [simp]:
  "outcome D (Some x) P = P x"
  "outcome D None P = D"
  by (simp_all add: outcome_def)

lemma outcome_bind: "outcome D (r \<bind> f) P = outcome D r (\<lambda>x. outcome D (f x) P)"
  by (cases r) auto

lemma outcome_bind_prod:
  "outcome D (r \<bind> (\<lambda>(a, b). f a b)) P = outcome D r (\<lambda>(a, b). outcome D (f a b) P)"
  "outcome D (q \<bind> (\<lambda>(a, b, c). g a b c)) P = outcome D q (\<lambda>(a, b, c). outcome D (g a b c) P)"
  by (cases r; force) (cases q; force)

lemma outcome_bindI:
  "outcome D r P \<Longrightarrow> (\<And>x. r = Some x \<Longrightarrow> P x \<Longrightarrow> outcome D (f x) Q) \<Longrightarrow> outcome D (r \<bind> f) Q"
  by (cases r) auto

lemma outcome_mono: "outcome D r P \<Longrightarrow> (\<And>x. r = Some x \<Longrightarrow> P x \<Longrightarrow> Q x) \<Longrightarrow> outcome D r Q"
  by (cases r) auto

lemma outcome_weaken: "outcome D r P \<Longrightarrow> (D \<Longrightarrow> D') \<Longrightarrow> outcome D' r P"
  by (cases r) auto

lemma outcomeD: "outcome D r P \<Longrightarrow> r = Some x \<Longrightarrow> P x"
  by simp

lemma outcome_total: "outcome False r P \<longleftrightarrow> (\<exists>x. r = Some x \<and> P x)"
  by (cases r) auto

lemma outcomeI: "(\<And>x. r = Some x \<Longrightarrow> P x) \<Longrightarrow> (r = None \<Longrightarrow> D) \<Longrightarrow> outcome D r P"
  by (cases r) auto

end
