(* ===== verification/SizeMap.thy ===== *)
theory SizeMap
  imports Prelude
begin

text \<open>
  The size classes: \<open>src/common.h\<close> and \<open>src/common.cc\<close>. \<open>SizeMap::Init\<close> builds three
  tables (object size, pages per span and objects per transfer of each class) and the
  flattened array that maps a request to its class. The tables are functions on the
  class number; the static storage of the source starts as zero. The configuration is
  the default one (\<open>kPageShift\<close> 13, \<open>kMinAlign\<close> 16); the native page size and the
  transfer flag, which come from the environment, stay arguments.
\<close>

subsection \<open>Configuration\<close>

definition kMinAlign :: nat where
  [simp]: "kMinAlign = 16"

definition kPageShift :: nat where
  [simp]: "kPageShift = 13"

definition kClassSizesMax :: nat where
  [simp]: "kClassSizesMax = 128"

definition kPageSize :: nat where
  [simp]: "kPageSize = 2 ^ kPageShift"

definition kMaxSize :: nat where
  [simp]: "kMaxSize = 256 * 1024"

definition kAlignment :: nat where
  [simp]: "kAlignment = 8"

definition kMaxPages :: nat where
  [simp]: "kMaxPages = 2 ^ (20 - kPageShift)"

definition kMaxSmallSize :: nat where
  [simp]: "kMaxSmallSize = 1024"

definition kClassArraySize :: nat where
  [simp]: "kClassArraySize = (kMaxSize + 127 + 120 * 2 ^ 7) div 2 ^ 7 + 1"

text \<open>Bytes to pages, rounded up.\<close>

definition pages :: "nat \<Rightarrow> nat" where
  "pages bytes = bytes div 2 ^ kPageShift + (if bytes AND (kPageSize - 1) > 0 then 1 else 0)"

subsection \<open>Alignment and transfer counts\<close>

text \<open>The loop of \<open>LgFloor\<close>; the argument \<open>Suc i\<close> is the iteration of the source's \<open>i\<close>.\<close>

primrec LgFloor_loop :: "nat \<Rightarrow> nat \<Rightarrow> nat \<Rightarrow> nat" where
  "LgFloor_loop 0 n log = log"
| "LgFloor_loop (Suc i) n log =
     (let shift = 2 ^ i; x = n div 2 ^ shift
      in if x \<noteq> 0 then LgFloor_loop i x (log + shift) else LgFloor_loop i n log)"

definition LgFloor :: "nat \<Rightarrow> nat" where
  "LgFloor n = LgFloor_loop 5 n 0"

definition AlignmentForSize :: "nat \<Rightarrow> crash + nat" where
  "AlignmentForSize sz =
     (let a0 = (if sz > kMaxSize then kPageSize
                else if sz \<ge> 128 then (2 ^ LgFloor sz) div 8
                else if sz \<ge> kMinAlign then kMinAlign
                else kAlignment);
          alignment = (if a0 > kPageSize then kPageSize else a0)
      in if \<not> (sz < kMinAlign \<or> alignment \<ge> kMinAlign) then Inl (CheckFailed ''min align'')
         else if alignment AND (alignment - 1) \<noteq> 0 then Inl (CheckFailed ''power of two'')
         else Inr alignment)"

text \<open>
  \<open>static_cast<int>(64.0 * 1024.0 / size)\<close> truncates an exact quotient of integers
  below \<open>2 ^ 53\<close>. The first argument is \<open>FLAGS_tcmalloc_transfer_num_objects\<close>.
\<close>

definition NumMoveSize :: "int \<Rightarrow> nat \<Rightarrow> int" where
  "NumMoveSize flag sz =
     (if sz = 0 then 0
      else let num = int ((64 * 1024) div sz);
               num = (if num < 2 then 2 else num)
           in if num > flag then flag else num)"

text \<open>\<open>strtol\<close> of the environment variable is the argument; absent means 32.\<close>

definition InitTCMallocTransferNumObjects :: "int option \<Rightarrow> int \<Rightarrow> int" where
  "InitTCMallocTransferNumObjects envval flag =
     (if flag = 0 then (case envval of None \<Rightarrow> 32 | Some v \<Rightarrow> i32 v) else flag)"

subsection \<open>From a size to an index\<close>

definition SmallSizeClass :: "nat \<Rightarrow> nat" where
  "SmallSizeClass s = (s mod 2 ^ 32 + 7) div 2 ^ 3"

definition LargeSizeClass :: "nat \<Rightarrow> nat" where
  "LargeSizeClass s = (s mod 2 ^ 32 + 127 + 120 * 2 ^ 7) div 2 ^ 7"

definition ClassIndexMaybe :: "nat \<Rightarrow> nat option" where
  "ClassIndexMaybe s =
     (if s \<le> kMaxSmallSize then Some ((s mod 2 ^ 32 + 7) div 2 ^ 3)
      else if s \<le> kMaxSize then Some ((s mod 2 ^ 32 + 127 + 120 * 2 ^ 7) div 2 ^ 7)
      else None)"

definition ClassIndex :: "nat \<Rightarrow> nat" where
  "ClassIndex s = (if s \<le> kMaxSmallSize then SmallSizeClass s else LargeSizeClass s)"

record sizemap =
  class_array :: "nat \<Rightarrow> nat"
  num_objects_to_move :: "nat \<Rightarrow> int"
  class_to_size :: "nat \<Rightarrow> nat"
  class_to_pages :: "nat \<Rightarrow> nat"
  min_span_size_in_pages :: nat
  num_size_classes :: nat

definition sizemap_static :: sizemap where
  "sizemap_static = \<lparr>class_array = (\<lambda>_. 0), num_objects_to_move = (\<lambda>_. 0),
     class_to_size = (\<lambda>_. 0), class_to_pages = (\<lambda>_. 0),
     min_span_size_in_pages = 0, num_size_classes = 0\<rparr>"

definition SizeClass :: "sizemap \<Rightarrow> nat \<Rightarrow> nat" where
  "SizeClass sm sz = class_array sm (ClassIndex sz)"

definition GetSizeClass :: "sizemap \<Rightarrow> nat \<Rightarrow> nat option" where
  "GetSizeClass sm sz =
     (case ClassIndexMaybe sz of None \<Rightarrow> None | Some idx \<Rightarrow> Some (class_array sm idx))"

definition ByteSizeForClass :: "sizemap \<Rightarrow> nat \<Rightarrow> nat" where
  "ByteSizeForClass sm cl = class_to_size sm cl"

subsection \<open>Pages per span\<close>

text \<open>
  The inner \<open>while\<close> adds spans of the smallest size until the leftover is at most an
  eighth; the enclosing \<open>do ... while\<close> goes on until the span holds \<open>blocks_to_move\<close> objects.
  The sums wrap at 64 bits and nothing in the source bounds the loops, so each is a partial
  function: \<^term>\<open>None\<close> is a loop that never ends.
\<close>

partial_function (option) fit_waste :: "nat \<Rightarrow> nat \<Rightarrow> nat \<Rightarrow> nat option" where
  "fit_waste min_span_size sz psize =
     (if psize mod sz > psize div 2 ^ 3
      then fit_waste min_span_size sz (add64 psize min_span_size) else Some psize)"

partial_function (option) span_bytes :: "nat \<Rightarrow> nat \<Rightarrow> nat \<Rightarrow> nat \<Rightarrow> nat option" where
  "span_bytes min_span_size sz blocks psize =
     (case fit_waste min_span_size sz (add64 psize min_span_size) of
        None \<Rightarrow> None
      | Some p \<Rightarrow> if p div sz < blocks then span_bytes min_span_size sz blocks p else Some p)"

text \<open>\<open>NumMoveSize(size) / 4\<close> truncates towards zero and is then compared as \<open>size_t\<close>.\<close>

definition blocks_to_move :: "int \<Rightarrow> nat \<Rightarrow> nat" where
  "blocks_to_move flag sz =
     u64_of_int (let n = NumMoveSize flag sz in sgn n * (\<bar>n\<bar> div 4))"

definition pages_for_size :: "nat \<Rightarrow> int \<Rightarrow> nat \<Rightarrow> nat option" where
  "pages_for_size min_span_size flag sz =
     (case span_bytes min_span_size sz (blocks_to_move flag sz) 0 of
        None \<Rightarrow> None
      | Some psize \<Rightarrow> Some (psize div 2 ^ kPageShift))"

lemma AlignmentForSize_pos: "AlignmentForSize sz = Inr a \<Longrightarrow> 0 < a"
  by (auto simp: AlignmentForSize_def Let_def split: if_splits)


subsection \<open>SizeMap::Init\<close>

text \<open>
  The loop that assigns classes. A size whose span has as many pages as the previous
  class's and holds as many objects widens the previous class; any other opens a class.
\<close>

function assign_classes ::
  "nat \<Rightarrow> int \<Rightarrow> nat \<Rightarrow> nat \<Rightarrow> sizemap \<Rightarrow> crash + (nat \<times> sizemap)" where
  "assign_classes min_span_size flag sz sc sm =
     (if sz \<le> kMaxSize then
        (case AlignmentForSize sz of
           Inl e \<Rightarrow> Inl e
         | Inr alignment \<Rightarrow>
             if sz mod alignment \<noteq> 0 then Inl (CheckFailed ''size alignment'')
             else
               (case pages_for_size min_span_size flag sz of
                  None \<Rightarrow> Inl Diverges
                | Some my_pages \<Rightarrow>
                   if sc > 1 \<and> my_pages = class_to_pages sm (sc - 1)
                      \<and> (my_pages * 2 ^ kPageShift) div sz
                          = (class_to_pages sm (sc - 1) * 2 ^ kPageShift)
                              div class_to_size sm (sc - 1)
                   then assign_classes min_span_size flag (sz + alignment) sc
                          (sm\<lparr>class_to_size := (class_to_size sm)(sc - 1 := sz)\<rparr>)
                   else assign_classes min_span_size flag (sz + alignment) (sc + 1)
                          (sm\<lparr>class_to_pages := (class_to_pages sm)(sc := my_pages),
                              class_to_size := (class_to_size sm)(sc := sz)\<rparr>)))
      else Inr (sc, sm))"
  by pat_completeness auto
termination
  by (relation "measure (\<lambda>(m, flag, sz, sc, sm). kMaxSize + 1 - sz)")
     (auto dest!: AlignmentForSize_pos)

declare assign_classes.simps [simp del]

text \<open>The two loops that fill \<open>class_array_\<close>.\<close>

function fill_class :: "nat \<Rightarrow> nat \<Rightarrow> nat \<Rightarrow> (nat \<Rightarrow> nat) \<Rightarrow> (nat \<Rightarrow> nat)" where
  "fill_class s max_size_in_class c arr =
     (if s \<le> max_size_in_class
      then fill_class (s + kAlignment) max_size_in_class c (arr(ClassIndex s := c))
      else arr)"
  by pat_completeness auto
termination
  by (relation "measure (\<lambda>(s, m, c, arr). m + 1 - s)") auto

declare fill_class.simps [simp del]

function fill_classes :: "nat \<Rightarrow> nat \<Rightarrow> sizemap \<Rightarrow> sizemap" where
  "fill_classes c next_size sm =
     (if c < num_size_classes sm
      then let max_size_in_class = class_to_size sm c
           in fill_classes (c + 1) (max_size_in_class + kAlignment)
                (sm\<lparr>class_array := fill_class next_size max_size_in_class c (class_array sm)\<rparr>)
      else sm)"
  by pat_completeness auto
termination
  by (relation "measure (\<lambda>(c, n, sm). num_size_classes sm - c)") auto

declare fill_classes.simps [simp del]

text \<open>The double-check over all sizes: the first failing test, if any.\<close>

function check_sizes :: "sizemap \<Rightarrow> nat \<Rightarrow> crash option" where
  "check_sizes sm sz =
     (if sz \<le> kMaxSize then
        (let sc = SizeClass sm sz; s = class_to_size sm sc
         in if sc = 0 \<or> sc \<ge> num_size_classes sm then Some (LogCrash ''Bad size class'')
            else if sc > 1 \<and> sz \<le> class_to_size sm (sc - 1)
              then Some (LogCrash ''Allocating unnecessarily large class'')
            else if sz > s \<or> s = 0 then Some (LogCrash ''Bad (class, size, requested)'')
            else check_sizes sm (if sz \<le> kMaxSmallSize then sz + 8 else sz + 128))
      else None)"
  by pat_completeness auto
termination
  by (relation "measure (\<lambda>(sm, sz). kMaxSize + 1 - sz)") auto

declare check_sizes.simps [simp del]

text \<open>The check that naturally aligned requests get naturally aligned objects.\<close>

function check_align :: "sizemap \<Rightarrow> nat \<Rightarrow> nat \<Rightarrow> bool" where
  "check_align sm align sz =
     (if sz < kPageSize \<and> 0 < align
      then class_to_size sm (SizeClass sm sz) mod align = 0 \<and> check_align sm align (sz + align)
      else True)"
  by pat_completeness auto
termination
  by (relation "measure (\<lambda>(sm, a, sz). kPageSize - sz)") auto

declare check_align.simps [simp del]

function check_aligns :: "sizemap \<Rightarrow> nat \<Rightarrow> bool" where
  "check_aligns sm align =
     (if align \<le> kPageSize \<and> 0 < align
      then check_align sm align align \<and> check_aligns sm (2 * align) else True)"
  by pat_completeness auto
termination
  by (relation "measure (\<lambda>(sm, a). kPageSize + 1 - a)") auto

declare check_aligns.simps [simp del]

text \<open>The smallest span: the larger of the two page sizes, unless they do not fit.\<close>

definition min_span_size :: "nat \<Rightarrow> nat" where
  "min_span_size native_page_size =
     (let m = max native_page_size kPageSize
      in if m > kPageSize \<and> m mod kPageSize \<noteq> 0 then kPageSize else m)"

definition SizeMap_Init :: "nat \<Rightarrow> int \<Rightarrow> crash + sizemap" where
  "SizeMap_Init native_page_size flag =
     (let m = min_span_size native_page_size;
          sm0 = sizemap_static\<lparr>min_span_size_in_pages := m div kPageSize\<rparr>
      in if ClassIndex 0 \<noteq> 0 then Inl (LogCrash ''Invalid class index for size 0'')
         else if ClassIndex kMaxSize \<ge> kClassArraySize
           then Inl (LogCrash ''Invalid class index for kMaxSize'')
         else if \<not> kAlignment \<le> kMinAlign then Inl (CheckFailed ''kAlignment'')
         else (case assign_classes m flag kAlignment 1 sm0 of
             Inl e \<Rightarrow> Inl e
           | Inr (sc, sm1) \<Rightarrow>
               if sc > kClassSizesMax then Inl (LogCrash ''too many size classes'')
               else
                 (let sm2 = fill_classes 1 0 (sm1\<lparr>num_size_classes := sc\<rparr>)
                  in case check_sizes sm2 0 of
                       Some e \<Rightarrow> Inl e
                     | None \<Rightarrow>
                         if \<not> check_aligns sm2 kMinAlign then Inl (CheckFailed ''natural alignment'')
                         else Inr (sm2\<lparr>num_objects_to_move :=
                                (\<lambda>cl. if 1 \<le> cl \<and> cl < sc
                                      then NumMoveSize flag (class_to_size sm2 cl)
                                      else num_objects_to_move sm2 cl)\<rparr>))))"

end
