(* ===== verification/SizeClasses.thy ===== *)
theory SizeClasses
  imports SizeMap
begin

text \<open>
  Correctness of \<open>SizeMap::Init\<close> (the definitions of \<^verbatim>\<open>SizeMap\<close>): the integer logarithm, the
  class index, the choice of pages per span, the assignment of classes, the flattened array
  and the self-checks of the source, for every native page size and transfer flag; and the
  evaluation of the default configuration.
\<close>

subsection \<open>Notions used by the proofs\<close>

text \<open>
  The two loops that choose the pages of a span, in exact arithmetic and as total functions
  (the positivity tests are what makes the recursion total). The loops of the source agree
  with them as long as the sums stay below \<open>2 ^ 64\<close>.
\<close>

function fit_exact :: "nat \<Rightarrow> nat \<Rightarrow> nat \<Rightarrow> nat" where
  "fit_exact m sz psize =
     (if psize mod sz > psize div 2 ^ 3 \<and> 0 < m \<and> 0 < sz
      then fit_exact m sz (psize + m) else psize)"
  by pat_completeness auto
termination
proof (relation "measure (\<lambda>(m, sz, psize). 8 * sz - psize)", goal_cases)
  case (2 m sz psize)
  then have "psize div 2 ^ 3 < psize mod sz" and "psize mod sz < sz"
    by auto
  then have "psize < 8 * sz"
    by simp
  with 2 show ?case by auto
qed simp

declare fit_exact.simps [simp del]

lemma fit_exact_ge: "psize \<le> fit_exact m sz psize"
proof (induction m sz psize rule: fit_exact.induct)
  case (1 m sz psize)
  then show ?case
    by (subst fit_exact.simps) auto
qed

function span_exact :: "nat \<Rightarrow> nat \<Rightarrow> nat \<Rightarrow> nat \<Rightarrow> nat" where
  "span_exact m sz blocks psize =
     (let p = fit_exact m sz (psize + m)
      in if p div sz < blocks \<and> 0 < m \<and> 0 < sz
         then span_exact m sz blocks p else p)"
  by pat_completeness auto
termination
proof (relation "measure (\<lambda>(m, sz, blocks, psize). blocks * sz - psize)", goal_cases)
  case (2 m sz blocks psize p)
  have "psize + m \<le> p"
    using 2 fit_exact_ge by simp
  moreover have "p < blocks * sz"
    using 2 by (auto simp: div_less_iff_less_mult)
  ultimately show ?case
    using 2 by auto
qed simp

declare span_exact.simps [simp del]

definition span_pages :: "nat \<Rightarrow> int \<Rightarrow> nat \<Rightarrow> nat" where
  "span_pages m flag sz = span_exact m sz (blocks_to_move flag sz) 0 div 2 ^ kPageShift"

text \<open>The configurations in which those loops end.\<close>

definition config_ok :: "nat \<Rightarrow> int \<Rightarrow> bool" where
  "config_ok m flag \<longleftrightarrow> 0 < m \<and> m < 2 ^ 63 \<and> -4 < flag"

text \<open>The exponent of the alignment that \<open>AlignmentForSize\<close> computes, without its crash checks.\<close>

definition align_of :: "nat \<Rightarrow> nat" where
  "align_of sz = (if sz < 16 then 3 else if sz < 128 then 4 else min 13 (LgFloor sz - 3))"

text \<open>The sizes at which a class may end: where \<open>ClassIndex\<close> moves to the next index.\<close>

definition boundary :: "nat \<Rightarrow> bool" where
  "boundary b \<longleftrightarrow> 8 dvd b \<and> (1024 < b \<longrightarrow> 128 dvd b)"

text \<open>The first \<open>n\<close> classes: ending on a boundary, increasing, each with its number of pages.\<close>

definition classes_ok :: "nat \<Rightarrow> int \<Rightarrow> nat \<Rightarrow> sizemap \<Rightarrow> bool" where
  "classes_ok m flag n sm \<longleftrightarrow>
     (\<forall>c. 1 \<le> c \<and> c < n \<longrightarrow> boundary (class_to_size sm c) \<and> 8 \<le> class_to_size sm c
        \<and> class_to_size sm c \<le> kMaxSize
        \<and> class_to_pages sm c = span_pages m flag (class_to_size sm c))
   \<and> (\<forall>c. 1 < c \<and> c < n \<longrightarrow> class_to_size sm (c - 1) < class_to_size sm c)"

text \<open>The invariant of the loop that assigns classes, and what it establishes.\<close>

definition assigning :: "nat \<Rightarrow> int \<Rightarrow> nat \<Rightarrow> nat \<Rightarrow> sizemap \<Rightarrow> bool" where
  "assigning m flag sz sc sm \<longleftrightarrow>
     config_ok m flag \<and> classes_ok m flag sc sm \<and> 1 \<le> sc \<and> 8 \<le> sz \<and> 2 ^ align_of sz dvd sz
   \<and> (if sc = 1 then sz = 8
      else let p = class_to_size sm (sc - 1)
           in sz = p + 2 ^ align_of p \<and> 2 ^ align_of p dvd p)"

definition assigned :: "nat \<Rightarrow> int \<Rightarrow> sizemap \<Rightarrow> crash + (nat \<times> sizemap) \<Rightarrow> bool" where
  "assigned m flag sm r \<longleftrightarrow>
     (\<exists>n sm'. r = Inr (n, sm') \<and> classes_ok m flag n sm'
        \<and> 2 \<le> n \<and> class_to_size sm' (n - 1) = kMaxSize
        \<and> min_span_size_in_pages sm' = min_span_size_in_pages sm
        \<and> num_objects_to_move sm' = num_objects_to_move sm)"

text \<open>The class a request deserves: large enough, and its predecessor is not.\<close>

definition class_of :: "sizemap \<Rightarrow> nat \<Rightarrow> nat \<Rightarrow> bool" where
  "class_of sm s c \<longleftrightarrow> s \<le> class_to_size sm c \<and> (1 < c \<longrightarrow> class_to_size sm (c - 1) < s)"

text \<open>The flattened array serves every request up to the size of class \<open>c\<close>.\<close>

definition filled_upto :: "sizemap \<Rightarrow> nat \<Rightarrow> bool" where
  "filled_upto sm c \<longleftrightarrow>
     (\<forall>s. (if c = 0 then False else s \<le> class_to_size sm c)
        \<longrightarrow> 1 \<le> SizeClass sm s \<and> SizeClass sm s \<le> c \<and> class_of sm s (SizeClass sm s))"

text \<open>What \<open>Init\<close> leaves behind for its clients.\<close>

definition sizemap_ok :: "sizemap \<Rightarrow> bool" where
  "sizemap_ok sm \<longleftrightarrow>
     (\<forall>s \<le> kMaxSize. 1 \<le> SizeClass sm s \<and> SizeClass sm s < num_size_classes sm
        \<and> class_of sm s (SizeClass sm s))
   \<and> (\<forall>c. 1 \<le> c \<and> c < num_size_classes sm \<longrightarrow> 8 \<le> class_to_size sm c)"

text \<open>A reference definition of the assignment over a list of (size, pages) pairs, last class first: it is what the default configuration is evaluated on.\<close>

fun push_class :: "nat \<Rightarrow> nat \<Rightarrow> (nat \<times> nat) list \<Rightarrow> (nat \<times> nat) list" where
  "push_class sz pg [] = [(sz, pg)]"
| "push_class sz pg ((s, p) # r) =
     (if pg = p \<and> (pg * 8192) div sz = (p * 8192) div s then (sz, p) # r else (sz, pg) # (s, p) # r)"

function class_list :: "nat \<Rightarrow> int \<Rightarrow> nat \<Rightarrow> (nat \<times> nat) list \<Rightarrow> (nat \<times> nat) list" where
  "class_list m flag sz acc =
     (if sz \<le> 262144
      then class_list m flag (sz + 2 ^ align_of sz) (push_class sz (span_pages m flag sz) acc)
      else acc)"
  by pat_completeness auto
termination
  by (relation "measure (\<lambda>(m, flag, sz, acc). 262145 - sz)") (auto intro: diff_less_mono2)

declare class_list.simps [simp del]

text \<open>The tables hold the list.\<close>

definition tabled :: "(nat \<times> nat) list \<Rightarrow> nat \<Rightarrow> sizemap \<Rightarrow> bool" where
  "tabled acc sc sm \<longleftrightarrow> sc = Suc (length acc)
     \<and> (\<forall>c. 1 \<le> c \<and> c < sc \<longrightarrow> (class_to_size sm c, class_to_pages sm c) = acc ! (sc - 1 - c))"

text \<open>The class sizes of the default configuration.\<close>

definition default_sizes :: "nat list" where
  "default_sizes =
    [8, 16, 32, 48, 64, 80, 96, 112, 128, 144, 160, 176, 192, 208, 224, 240, 256, 288, 320,
     352, 384, 416, 448, 480, 512, 576, 640, 704, 768, 896, 1024, 1152, 1280, 1408, 1536,
     1792, 2048, 2304, 2560, 2816, 3072, 3328, 4096, 4608, 5120, 6144, 6656, 8192, 9216,
     10240, 12288, 13312, 16384, 20480, 24576, 26624, 32768, 40960, 49152, 57344, 65536,
     73728, 81920, 90112, 98304, 106496, 114688, 122880, 131072, 139264, 147456, 155648,
     163840, 172032, 180224, 188416, 196608, 204800, 212992, 221184, 229376, 237568,
     245760, 253952, 262144]"

text \<open>No multiple of \<open>a\<close> below a page ends in a class of another alignment.\<close>

definition aligned_gap :: "nat \<Rightarrow> nat \<times> nat \<Rightarrow> bool" where
  "aligned_gap a = (\<lambda>(lo, hi). hi div a * a \<le> lo \<or> hi mod a = 0 \<or> kPageSize \<le> lo)"

subsection \<open>Lemmas\<close>

lemma LgFloor_loop_bounds:
  assumes "0 < n" and "n < 2 ^ 2 ^ i"
  shows "\<exists>k. LgFloor_loop i n log = log + k \<and> 2 ^ k \<le> n \<and> n < 2 ^ Suc k"
  using assms
proof (induction i arbitrary: n log)
  case 0
  then have "n = 1" by simp
  then show ?case by (intro exI [of _ 0]) simp
next
  case (Suc i)
  let ?s = "2 ^ i :: nat"
  let ?x = "n div 2 ^ ?s"
  show ?case
  proof (cases "?x = 0")
    case True
    then have "n < 2 ^ ?s" by (simp add: div_eq_0_iff)
    with Suc.IH [OF Suc.prems(1)] True show ?thesis by (simp add: Let_def)
  next
    case False
    have "(2::nat) ^ 2 ^ Suc i = 2 ^ ?s * 2 ^ ?s"
      by (simp add: mult_2 flip: power_add)
    with Suc.prems(2) have "?x < 2 ^ ?s"
      by (simp only: div_less_iff_less_mult zero_less_power zero_less_numeral)
    with Suc.IH [of ?x "log + ?s"] False obtain k where
      k: "LgFloor_loop i ?x (log + ?s) = log + ?s + k" "2 ^ k \<le> ?x" "?x < 2 ^ Suc k"
      by auto
    from k(2) have "2 ^ k * 2 ^ ?s \<le> ?x * 2 ^ ?s" by simp
    also have "\<dots> \<le> n" by (rule div_times_less_eq_dividend)
    finally have lo: "2 ^ (?s + k) \<le> n" by (simp add: power_add mult.commute)
    from k(3) have "n < 2 ^ Suc k * 2 ^ ?s"
      by (subst (asm) div_less_iff_less_mult) simp_all
    then have hi: "n < 2 ^ Suc (?s + k)" by (simp add: power_add mult.commute mult.left_commute)
    show ?thesis
      by (intro exI [of _ "?s + k"]) (use False k(1) lo hi in \<open>simp add: Let_def add.assoc\<close>)
  qed
qed

lemma LgFloor_bounds:
  assumes "0 < n" and "n < 2 ^ 32"
  shows "2 ^ LgFloor n \<le> n \<and> n < 2 ^ Suc (LgFloor n)"
proof -
  have "n < 2 ^ 2 ^ 5" using assms by simp
  from LgFloor_loop_bounds [OF assms(1) this, of 0] show ?thesis
    by (auto simp: LgFloor_def simp del: LgFloor_loop.simps)
qed

lemma LgFloor_eq:
  assumes "2 ^ k \<le> n" and "n < 2 ^ Suc k" and "k < 32"
  shows "LgFloor n = k"
proof -
  have "(2::nat) ^ Suc k \<le> 2 ^ 32" using assms(3) by (intro power_increasing) auto
  with assms have n: "0 < n" "n < 2 ^ 32" by (auto intro: less_le_trans)
  from LgFloor_bounds [OF n] have b: "2 ^ LgFloor n \<le> n" "n < 2 ^ Suc (LgFloor n)" by blast+
  from le_less_trans [OF b(1) assms(2)] le_less_trans [OF assms(1) b(2)] have "LgFloor n < Suc k" "k < Suc (LgFloor n)"
    by (auto simp only: power_strict_increasing_iff)
  then show ?thesis by simp
qed

lemma AlignmentForSize_eq:
  assumes "sz \<le> kMaxSize"
  shows "AlignmentForSize sz = Inr (2 ^ align_of sz)"
proof (cases "sz < 128")
  case True
  have "(16::nat) AND 15 = 0" "(8::nat) AND 7 = 0"
    using pow2_and_pred [of 4] pow2_and_pred [of 3] by simp_all
  with True show ?thesis by (simp add: AlignmentForSize_def align_of_def)
next
  case False
  let ?L = "LgFloor sz"
  from False assms LgFloor_bounds [of sz] have b: "2 ^ ?L \<le> sz" "sz < 2 ^ Suc ?L" by simp_all
  have "(2::nat) ^ 7 < 2 ^ Suc ?L" using False b(2) by (auto intro: le_less_trans)
  then have L: "7 \<le> ?L" by (simp only: power_strict_increasing_iff)
  then obtain k where k: "?L = 3 + k" and k4: "4 \<le> k" using le_Suc_ex [of 3 ?L] by auto
  have q: "(2::nat) ^ ?L div 8 = 2 ^ k" by (simp add: k power_add)
  have ge: "(16::nat) \<le> 2 ^ k" using power_increasing [OF k4, of "2::nat"] by simp
  show ?thesis
  proof (cases "k \<le> 13")
    case True
    then have "(2::nat) ^ k \<le> 2 ^ 13" by (intro power_increasing) auto
    then show ?thesis
      using False assms q ge True pow2_and_pred [of k]
      by (simp add: AlignmentForSize_def align_of_def k)
  next
    case k13: False
    then have "(2::nat) ^ 14 \<le> 2 ^ k" by (intro power_increasing) auto
    then show ?thesis
      using False assms q ge k13 pow2_and_pred [of 13]
      by (simp add: AlignmentForSize_def align_of_def k)
  qed
qed

lemma align_of_step:
  assumes "sz \<le> kMaxSize" and "8 \<le> sz" and "2 ^ align_of sz dvd sz"
  shows "2 ^ align_of (sz + 2 ^ align_of sz) dvd sz + 2 ^ align_of sz"
proof (cases "sz < 128")
  case True
  show ?thesis
  proof (cases "sz < 16")
    case True
    with assms have "sz = 8" by (auto simp: align_of_def)
    then show ?thesis by (simp add: align_of_def)
  next
    case False
    with True assms(3) have "16 dvd sz" by (simp add: align_of_def)
    moreover from this have "sz + 16 \<le> 128" using True by (auto elim!: dvdE)
    moreover have "LgFloor 128 = 7" by (rule LgFloor_eq) simp_all
    ultimately show ?thesis using True False by (auto simp: align_of_def)
  qed
next
  case False
  let ?L = "LgFloor sz"
  from False assms(1) LgFloor_bounds [of sz] have b: "2 ^ ?L \<le> sz" "sz < 2 ^ Suc ?L" by simp_all
  have "(2::nat) ^ 7 < 2 ^ Suc ?L" using False b(2) by (auto intro: le_less_trans)
  then have L: "7 \<le> ?L" by (simp only: power_strict_increasing_iff)
  have "(2::nat) ^ ?L < 2 ^ 19" using b(1) assms(1) by (auto intro: le_less_trans)
  then have L19: "?L < 19" by (simp only: power_strict_increasing_iff)
  show ?thesis
  proof (cases "16 \<le> ?L")
    case True
    then have a: "align_of sz = 13" using False by (simp add: align_of_def)
    have "align_of (sz + 2 ^ 13) \<le> 13" by (simp add: align_of_def)
    moreover have "2 ^ 13 dvd sz + 2 ^ 13" using assms(3) a by simp
    ultimately show ?thesis using a by (metis dvd_trans le_imp_power_dvd)
  next
    case small: False
    then obtain k where k: "?L = k + 3" and k4: "4 \<le> k" "k < 13"
      using L le_Suc_ex [of 3 ?L] by auto
    have a: "align_of sz = k" using False small k by (simp add: align_of_def)
    with assms(3) obtain q where q: "sz = 2 ^ k * q" by (auto elim: dvdE)
    from b(2) k have "sz < 2 ^ Suc (k + 3)" by simp
    with q have "q < 16" by (simp add: power_add)
    have next_eq: "sz + 2 ^ k = 2 ^ k * (q + 1)" by (simp add: q algebra_simps)
    have le: "2 ^ (k + 3) \<le> sz + 2 ^ k" using b(1) k by simp
    show ?thesis
    proof (cases "q + 1 = 16")
      case True
      then have "sz + 2 ^ k = 2 ^ (k + 4)" by (simp only: next_eq power_add) simp
      moreover have "align_of (2 ^ (k + 4)) \<le> 13" "13 \<le> k + 4 \<or> align_of (2 ^ (k + 4)) \<le> k + 4"
      proof -
        have "LgFloor (2 ^ (k + 4)) = k + 4" by (rule LgFloor_eq) (use k4 in simp_all)
        moreover have "(2::nat) ^ 7 \<le> 2 ^ (k + 4)" using k4 by (intro power_increasing) auto
        ultimately show "align_of (2 ^ (k + 4)) \<le> 13" "13 \<le> k + 4 \<or> align_of (2 ^ (k + 4)) \<le> k + 4"
          by (auto simp: align_of_def)
      qed
      ultimately show ?thesis by (simp only: a) (rule le_imp_power_dvd, linarith)
    next
      case nq: False
      then have "sz + 2 ^ k < 2 ^ Suc (k + 3)"
        using \<open>q < 16\<close> by (simp only: next_eq) (simp add: power_add)
      with le have "LgFloor (sz + 2 ^ k) = k + 3" by (intro LgFloor_eq) (use k4 in simp_all)
      then have "align_of (sz + 2 ^ k) = k" using False k4 by (simp add: align_of_def)
      then show ?thesis by (simp only: a next_eq) simp
    qed
  qed
qed

lemma align_of_boundary:
  assumes "sz \<le> kMaxSize" and "2 ^ align_of sz dvd sz"
  shows "boundary sz"
proof -
  have "2 ^ 3 dvd sz"
  proof (rule dvd_trans [OF le_imp_power_dvd assms(2)])
    have "128 \<le> sz \<Longrightarrow> (2::nat) ^ 7 < 2 ^ Suc (LgFloor sz)"
      using LgFloor_bounds [of sz] assms(1) by (auto intro: le_less_trans)
    then have "128 \<le> sz \<Longrightarrow> 7 < Suc (LgFloor sz)" by (simp only: power_strict_increasing_iff)
    then show "3 \<le> align_of sz" by (auto simp: align_of_def)
  qed
  moreover have "2 ^ 7 dvd sz" if "1024 < sz"
  proof (rule dvd_trans [OF le_imp_power_dvd assms(2)])
    have "(2::nat) ^ 10 < 2 ^ Suc (LgFloor sz)"
      using LgFloor_bounds [of sz] assms(1) that by (auto intro: less_trans)
    then have "10 < Suc (LgFloor sz)" by (simp only: power_strict_increasing_iff)
    then show "7 \<le> align_of sz" using that by (auto simp: align_of_def)
  qed
  ultimately show ?thesis by (simp add: boundary_def)
qed

lemma ClassIndex_eq:
  "s \<le> kMaxSize \<Longrightarrow>
    ClassIndex s = (if s \<le> 1024 then (s + 7) div 8 else (s + 15487) div 128)"
  by (simp add: ClassIndex_def SmallSizeClass_def LargeSizeClass_def add.commute)

lemma ClassIndex_mono: "s \<le> t \<Longrightarrow> t \<le> kMaxSize \<Longrightarrow> ClassIndex s \<le> ClassIndex t"
  using ClassIndex_eq [of s] ClassIndex_eq [of t] by (auto simp: div_le_mono)

lemma ClassIndex_bound: "s \<le> kMaxSize \<Longrightarrow> ClassIndex s < kClassArraySize"
  using ClassIndex_eq [of s] by auto

lemma ClassIndex_boundary:
  assumes "boundary b" and "b < s" and "s \<le> kMaxSize"
  shows "ClassIndex b < ClassIndex s"
proof (cases "b \<le> 1024")
  case True
  then obtain j where b: "b = 8 * j" using assms(1) by (auto simp: boundary_def)
  then have "ClassIndex b = j" using True ClassIndex_eq [of b] by simp
  then show ?thesis
    using True b assms(2,3) ClassIndex_eq [of s] by (cases "s \<le> 1024") auto
next
  case False
  then obtain j where b: "b = 128 * j" using assms(1) by (auto simp: boundary_def)
  then have "ClassIndex b = j + 120"
    using False assms(2,3) ClassIndex_eq [of b] by simp
  then show ?thesis
    using False b assms(2,3) ClassIndex_eq [of s] by simp
qed

lemma ClassIndex_round8:
  assumes "s \<le> kMaxSize"
  shows "ClassIndex (8 * ((s + 7) div 8)) = ClassIndex s" and "8 * ((s + 7) div 8) \<le> kMaxSize"
proof -
  let ?m = "(s + 7) div 8"
  show le: "8 * ?m \<le> kMaxSize" using assms by simp
  have div128: "(x::nat) div 128 = (x div 8) div 16" for x
    by (simp flip: div_mult2_eq)
  have "(s + 15487) div 8 = ?m + 1935" by simp
  moreover have "(8 * ?m + 15487) div 8 = ?m + 1935" by simp
  ultimately have "(8 * ?m + 15487) div 128 = (s + 15487) div 128"
    by (simp only: div128)
  moreover have "8 * ?m \<le> 1024 \<longleftrightarrow> s \<le> 1024" by auto
  ultimately show "ClassIndex (8 * ?m) = ClassIndex s"
    using ClassIndex_eq [OF assms] ClassIndex_eq [OF le] by auto
qed

lemma fit_exact_post:
  "0 < m \<Longrightarrow> 0 < sz \<Longrightarrow> fit_exact m sz p mod sz \<le> fit_exact m sz p div 8"
proof (induction m sz p rule: fit_exact.induct)
  case (1 m sz p)
  then show ?case
    by (subst (1 2) fit_exact.simps) (auto simp: not_less)
qed

lemma fit_exact_dvd: "m dvd p \<Longrightarrow> m dvd fit_exact m sz p"
proof (induction m sz p rule: fit_exact.induct)
  case (1 m sz p)
  then show ?case
    by (subst fit_exact.simps) auto
qed

lemma span_exact_ge: "p \<le> span_exact m sz blocks p"
proof (induction m sz blocks p rule: span_exact.induct)
  case (1 m sz blocks p)
  let ?p = "fit_exact m sz (p + m)"
  have "p \<le> ?p" using fit_exact_ge [of "p + m" m sz] by simp
  with 1 show ?case
    by (subst span_exact.simps) (auto simp: Let_def)
qed

lemma span_exact_post:
  assumes "0 < m" and "0 < sz" and "m dvd p"
  shows "span_exact m sz blocks p mod sz \<le> span_exact m sz blocks p div 8
       \<and> blocks \<le> span_exact m sz blocks p div sz
       \<and> m dvd span_exact m sz blocks p \<and> p < span_exact m sz blocks p"
  using assms
proof (induction m sz blocks p rule: span_exact.induct)
  case (1 m sz blocks p)
  let ?p = "fit_exact m sz (p + m)"
  have d: "m dvd ?p" using 1(4) by (intro fit_exact_dvd) simp
  have g: "p < ?p" using fit_exact_ge [of "p + m" m sz] 1(2) by simp
  show ?case
  proof (cases "?p div sz < blocks")
    case True
    with 1 d g show ?thesis
      by (subst (1 2 3 4 5) span_exact.simps) (auto simp: Let_def)
  next
    case False
    with 1(2,3) d g fit_exact_post [of m sz "p + m"] show ?thesis
      by (subst (1 2 3 4 5) span_exact.simps) (auto simp: Let_def)
  qed
qed

lemma align_of_le: "align_of sz \<le> 13"
  by (simp add: align_of_def)

lemma align_of_reach_max:
  assumes "p \<le> kMaxSize" and "2 ^ align_of p dvd p" and "kMaxSize < p + 2 ^ align_of p"
  shows "p = kMaxSize"
proof -
  obtain i j where i: "p = 2 ^ align_of p * i" and j: "(2::nat) ^ 13 = 2 ^ align_of p * j"
    using assms(2) le_imp_power_dvd [OF align_of_le, of 2 p] by (auto elim!: dvdE)
  have "kMaxSize = 2 ^ 13 * 32" by simp
  then have k: "kMaxSize = 2 ^ align_of p * (j * 32)" by (simp only: j mult.assoc)
  from assms(1) have "i \<le> j * 32" by (subst (asm) k, subst (asm) i) simp
  moreover have "j * 32 < i + 1"
  proof -
    have "2 ^ align_of p * (j * 32) < 2 ^ align_of p * (i + 1)"
      using assms(3) i by (simp only: k [symmetric]) (simp add: distrib_left)
    then show ?thesis by (simp only: mult_less_cancel1)
  qed
  ultimately have "i = j * 32" by simp
  then show ?thesis using i k by metis
qed

lemma classes_okD:
  "classes_ok m flag n sm \<Longrightarrow> 1 \<le> c \<Longrightarrow> c < n \<Longrightarrow>
    boundary (class_to_size sm c) \<and> 8 \<le> class_to_size sm c \<and> class_to_size sm c \<le> kMaxSize
    \<and> class_to_pages sm c = span_pages m flag (class_to_size sm c)"
  unfolding classes_ok_def by blast

lemma classes_ok_increasing:
  "classes_ok m flag n sm \<Longrightarrow> 1 < c \<Longrightarrow> c < n \<Longrightarrow> class_to_size sm (c - 1) < class_to_size sm c"
  unfolding classes_ok_def by blast

lemma classes_ok_widen:
  assumes ok: "classes_ok m flag sc sm" and "1 < sc" and "boundary sz" "8 \<le> sz" "sz \<le> kMaxSize"
    and "class_to_pages sm (sc - 1) = span_pages m flag sz"
    and lt: "class_to_size sm (sc - 1) < sz"
  shows "classes_ok m flag sc (sm\<lparr>class_to_size := (class_to_size sm)(sc - 1 := sz)\<rparr>)"
proof -
  have "((class_to_size sm)(sc - 1 := sz)) (c - 1) < ((class_to_size sm)(sc - 1 := sz)) c"
    if "1 < c" "c < sc" for c
    using classes_ok_increasing [OF ok that] that lt by auto
  then show ?thesis
    using assms by (simp add: classes_ok_def)
qed

lemma classes_ok_open:
  assumes ok: "classes_ok m flag sc sm" and "1 \<le> sc" and "boundary sz" "8 \<le> sz" "sz \<le> kMaxSize"
    and lt: "1 < sc \<Longrightarrow> class_to_size sm (sc - 1) < sz"
  shows "classes_ok m flag (sc + 1)
           (sm\<lparr>class_to_pages := (class_to_pages sm)(sc := span_pages m flag sz),
               class_to_size := (class_to_size sm)(sc := sz)\<rparr>)"
proof -
  have "((class_to_size sm)(sc := sz)) (c - 1) < ((class_to_size sm)(sc := sz)) c"
    if "1 < c" "c < sc + 1" for c
    using classes_ok_increasing [OF ok that(1)] that lt by (cases "c = sc") auto
  then show ?thesis
    using assms by (simp add: classes_ok_def)
qed

lemma assigning_step:
  assumes "assigning m flag sz sc sm" and "sz \<le> kMaxSize"
  shows "boundary sz" and "2 ^ align_of (sz + 2 ^ align_of sz) dvd sz + 2 ^ align_of sz"
    and "1 < sc \<Longrightarrow> class_to_size sm (sc - 1) < sz"
proof -
  from assms(1) have sz: "8 \<le> sz" "2 ^ align_of sz dvd sz" by (simp_all add: assigning_def)
  show "boundary sz" by (rule align_of_boundary [OF assms(2) sz(2)])
  show "2 ^ align_of (sz + 2 ^ align_of sz) dvd sz + 2 ^ align_of sz"
    by (rule align_of_step [OF assms(2) sz])
  show "1 < sc \<Longrightarrow> class_to_size sm (sc - 1) < sz"
    using assms(1) by (auto simp: assigning_def Let_def)
qed

lemma assigning_widen:
  assumes "assigning m flag sz sc sm" and "sz \<le> kMaxSize" and "1 < sc"
    and "span_pages m flag sz = class_to_pages sm (sc - 1)"
  shows "assigning m flag (sz + 2 ^ align_of sz) sc
           (sm\<lparr>class_to_size := (class_to_size sm)(sc - 1 := sz)\<rparr>)"
proof -
  note step = assigning_step [OF assms(1,2)]
  have "classes_ok m flag sc (sm\<lparr>class_to_size := (class_to_size sm)(sc - 1 := sz)\<rparr>)"
    using assms step by (intro classes_ok_widen) (simp_all add: assigning_def)
  then show ?thesis
    using assms(1,3) step(2) by (simp add: assigning_def)
qed

lemma assigning_open:
  assumes "assigning m flag sz sc sm" and "sz \<le> kMaxSize"
  shows "assigning m flag (sz + 2 ^ align_of sz) (sc + 1)
           (sm\<lparr>class_to_pages := (class_to_pages sm)(sc := span_pages m flag sz),
               class_to_size := (class_to_size sm)(sc := sz)\<rparr>)"
proof -
  note step = assigning_step [OF assms]
  have "classes_ok m flag (sc + 1)
           (sm\<lparr>class_to_pages := (class_to_pages sm)(sc := span_pages m flag sz),
               class_to_size := (class_to_size sm)(sc := sz)\<rparr>)"
    using assms step by (intro classes_ok_open) (simp_all add: assigning_def)
  then show ?thesis
    using assms(1) step(2) by (simp add: assigning_def)
qed

lemma NumMoveSize_low: "-4 < flag \<Longrightarrow> -4 < NumMoveSize flag sz"
  by (simp add: NumMoveSize_def Let_def)

lemma NumMoveSize_high: "\<not> NumMoveSize flag sz < 4 \<Longrightarrow> NumMoveSize flag sz \<le> int (65536 div sz)"
  by (simp add: NumMoveSize_def Let_def split: if_splits)

lemma blocks_to_move_le:
  assumes "0 \<le> NumMoveSize flag sz"
  shows "blocks_to_move flag sz \<le> nat (NumMoveSize flag sz div 4)"
proof -
  let ?n = "NumMoveSize flag sz"
  have "sgn ?n * (\<bar>?n\<bar> div 4) = ?n div 4" using assms by (cases "?n = 0") simp_all
  moreover have "nat (?n div 4 mod 2 ^ 64) \<le> nat (?n div 4)"
    using assms by (intro nat_mono zmod_le_nonneg_dividend) simp
  ultimately show ?thesis by (simp add: blocks_to_move_def Let_def u64_of_int_def)
qed

lemma blocks_to_move_bound:
  assumes "-4 < flag"
  shows "blocks_to_move flag sz * sz \<le> 16384"
proof (cases "NumMoveSize flag sz < 4")
  case True
  with NumMoveSize_low [OF assms, of sz] have "\<bar>NumMoveSize flag sz\<bar> div 4 = 0" by simp
  then show ?thesis by (simp add: blocks_to_move_def Let_def u64_of_int_def)
next
  case False
  then have "0 \<le> NumMoveSize flag sz" by simp
  from zdiv_mono1 [OF NumMoveSize_high [OF False], of 4]
  have "nat (NumMoveSize flag sz div 4) \<le> 65536 div sz div 4"
    by (simp add: zdiv_int nat_le_iff)
  with blocks_to_move_le [OF \<open>0 \<le> NumMoveSize flag sz\<close>]
  have "blocks_to_move flag sz * sz \<le> 65536 div sz div 4 * sz" by simp
  also have "65536 div sz div 4 = 65536 div (4::nat) div sz"
    by (metis div_mult2_eq mult.commute)
  also have "65536 div 4 div sz * sz \<le> 65536 div 4" by (rule div_times_less_eq_dividend)
  finally show ?thesis by simp
qed

lemma fit_exact_bound: "fit_exact m sz p \<le> max p (8 * sz + m)"
proof (induction m sz p rule: fit_exact.induct)
  case (1 m sz p)
  show ?case
  proof (cases "p mod sz > p div 2 ^ 3 \<and> 0 < m \<and> 0 < sz")
    case True
    then have "p div 2 ^ 3 < p mod sz" and "p mod sz < sz" by simp_all
    then have "p < 8 * sz" by simp
    with 1 True show ?thesis by (subst fit_exact.simps) simp
  next
    case False
    then show ?thesis by (subst fit_exact.simps) auto
  qed
qed

lemma span_exact_bound: "span_exact m sz blocks p \<le> max (p + m) (max (blocks * sz) (8 * sz) + m)"
proof (induction m sz blocks p rule: span_exact.induct)
  case (1 m sz blocks p)
  let ?p = "fit_exact m sz (p + m)"
  show ?case
  proof (cases "?p div sz < blocks \<and> 0 < m \<and> 0 < sz")
    case True
    then have "?p < blocks * sz" by (auto simp: div_less_iff_less_mult)
    with 1 True show ?thesis by (subst span_exact.simps) (simp add: Let_def)
  next
    case False
    then have "span_exact m sz blocks p = ?p" by (subst span_exact.simps) (auto simp: Let_def)
    then show ?thesis using fit_exact_bound [of m sz "p + m"] by simp
  qed
qed

lemma fit_waste_exact:
  assumes "fit_exact m sz p < 2 ^ 64" and "0 < m" and "0 < sz"
  shows "fit_waste m sz p = Some (fit_exact m sz p)"
  using assms
proof (induction m sz p rule: fit_exact.induct)
  case (1 m sz p)
  show ?case
  proof (cases "p mod sz > p div 2 ^ 3")
    case True
    then have e: "fit_exact m sz p = fit_exact m sz (p + m)"
      using "1.prems" by (subst fit_exact.simps) simp
    have "p + m < 2 ^ 64" using fit_exact_ge [of "p + m" m sz] "1.prems"(1) e by simp
    then have "fit_waste m sz p = fit_waste m sz (p + m)"
      using True by (subst fit_waste.simps) (simp add: u64)
    then show ?thesis using 1 True e by simp
  next
    case False
    then show ?thesis by (subst fit_waste.simps, subst fit_exact.simps) simp
  qed
qed

lemma span_bytes_exact:
  assumes "span_exact m sz blocks p < 2 ^ 64" and "0 < m" and "0 < sz"
  shows "span_bytes m sz blocks p = Some (span_exact m sz blocks p)"
  using assms
proof (induction m sz blocks p rule: span_exact.induct)
  case (1 m sz blocks p)
  let ?p = "fit_exact m sz (p + m)"
  have le: "?p \<le> span_exact m sz blocks p"
  proof (cases "?p div sz < blocks")
    case True
    then have "span_exact m sz blocks p = span_exact m sz blocks ?p"
      using "1.prems" by (subst span_exact.simps) (simp add: Let_def)
    then show ?thesis using span_exact_ge [of ?p m sz blocks] by simp
  qed (subst span_exact.simps, simp add: Let_def)
  then have p: "?p < 2 ^ 64" using "1.prems" by simp
  with fit_exact_ge [of "p + m" m sz] have "add64 p m = p + m" by (simp add: u64)
  with fit_waste_exact [OF p "1.prems"(2,3)]
  have step: "span_bytes m sz blocks p = (if ?p div sz < blocks then span_bytes m sz blocks ?p else Some ?p)"
    by (subst span_bytes.simps) simp
  show ?case
  proof (cases "?p div sz < blocks")
    case True
    have e: "span_exact m sz blocks p = span_exact m sz blocks ?p"
      using True "1.prems" by (subst span_exact.simps) (simp add: Let_def)
    show ?thesis using step True e 1 by simp
  next
    case False
    then show ?thesis using step by (subst span_exact.simps) (simp add: Let_def)
  qed
qed

lemma pages_for_size_exact:
  assumes "config_ok m flag" and "0 < sz" and "sz \<le> kMaxSize"
  shows "pages_for_size m flag sz = Some (span_pages m flag sz)"
proof -
  have "span_exact m sz (blocks_to_move flag sz) 0
      \<le> max (0 + m) (max (blocks_to_move flag sz * sz) (8 * sz) + m)" by (rule span_exact_bound)
  also have "\<dots> < 2 ^ 64"
    using assms blocks_to_move_bound [of flag sz] by (auto simp: config_ok_def max_def)
  finally have "span_bytes m sz (blocks_to_move flag sz) 0 = Some (span_exact m sz (blocks_to_move flag sz) 0)"
    using assms by (intro span_bytes_exact) (simp_all add: config_ok_def)
  then show ?thesis by (simp add: pages_for_size_def span_pages_def)
qed

lemma assign_classes_step:
  assumes "sz \<le> kMaxSize" and "AlignmentForSize sz = Inr a" and "sz mod a = 0"
    and "pages_for_size m flag sz = Some (span_pages m flag sz)"
  shows "assign_classes m flag sz sc sm =
     (if 1 < sc \<and> span_pages m flag sz = class_to_pages sm (sc - 1)
       \<and> (span_pages m flag sz * 2 ^ kPageShift) div sz
           = (class_to_pages sm (sc - 1) * 2 ^ kPageShift) div class_to_size sm (sc - 1)
      then assign_classes m flag (sz + a) sc
             (sm\<lparr>class_to_size := (class_to_size sm)(sc - 1 := sz)\<rparr>)
      else assign_classes m flag (sz + a) (sc + 1)
             (sm\<lparr>class_to_pages := (class_to_pages sm)(sc := span_pages m flag sz),
                 class_to_size := (class_to_size sm)(sc := sz)\<rparr>))"
  by (subst assign_classes.simps)
     (simp only: assms sum.case option.case if_True not_True_eq_False if_False simp_thms)

lemma assigned_update:
  "assigned m flag (sm\<lparr>class_to_size := f\<rparr>) r = assigned m flag sm r"
  "assigned m flag (sm\<lparr>class_to_pages := g\<rparr>) r = assigned m flag sm r"
  by (simp_all add: assigned_def)

lemma assign_classes_ok:
  assumes "assigning m flag sz sc sm"
  shows "assigned m flag sm (assign_classes m flag sz sc sm)"
  using assms
proof (induction m flag sz sc sm rule: assign_classes.induct)
  case (1 m flag sz sc sm)
  show ?case
  proof (cases "sz \<le> kMaxSize")
    case True
    note a = AlignmentForSize_eq [OF True]
    have d: "sz mod 2 ^ align_of sz = 0" using "1.prems" by (simp add: assigning_def)
    then have nd: "\<not> sz mod 2 ^ align_of sz \<noteq> 0" by simp
    have pg: "pages_for_size m flag sz = Some (span_pages m flag sz)"
      using "1.prems" True by (intro pages_for_size_exact) (simp_all add: assigning_def)
    let ?widen = "1 < sc \<and> span_pages m flag sz = class_to_pages sm (sc - 1)
       \<and> (span_pages m flag sz * 2 ^ kPageShift) div sz
           = (class_to_pages sm (sc - 1) * 2 ^ kPageShift) div class_to_size sm (sc - 1)"
    show ?thesis
    proof (cases ?widen)
      case w: True
      show ?thesis
        unfolding trans [OF assign_classes_step [OF True a d pg] if_P [OF w]]
        using "1.IH"(1) [OF True a nd pg w assigning_widen [OF "1.prems" True]] w
        by (simp only: assigned_update simp_thms)
    next
      case w: False
      show ?thesis
        unfolding trans [OF assign_classes_step [OF True a d pg] if_not_P [OF w]]
        using "1.IH"(2) [OF True a nd pg w assigning_open [OF "1.prems" True]]
        by (simp only: assigned_update simp_thms)
    qed
  next
    case False
    have "sc \<noteq> 1" using "1.prems" False by (auto simp: assigning_def)
    then have sc: "1 < sc" using "1.prems" by (simp add: assigning_def)
    then have "class_to_size sm (sc - 1) = kMaxSize"
      using "1.prems" False align_of_reach_max [of "class_to_size sm (sc - 1)"]
      by (auto simp: assigning_def classes_ok_def Let_def)
    then show ?thesis
      using "1.prems" False sc
      by (subst assign_classes.simps) (auto simp: assigning_def assigned_def)
  qed
qed

lemma fill_class_nth:
  "fill_class s m c arr idx =
     (if \<exists>k. s + 8 * k \<le> m \<and> ClassIndex (s + 8 * k) = idx then c else arr idx)"
proof (induction s m c arr rule: fill_class.induct)
  case (1 s m c arr)
  have split: "(\<exists>k. s + 8 * k \<le> m \<and> ClassIndex (s + 8 * k) = idx)
      \<longleftrightarrow> (s \<le> m \<and> ClassIndex s = idx)
          \<or> (\<exists>k. (s + 8) + 8 * k \<le> m \<and> ClassIndex ((s + 8) + 8 * k) = idx)"
    (is "?l \<longleftrightarrow> ?a \<or> ?r")
  proof
    assume ?l
    then obtain k where k: "s + 8 * k \<le> m" "ClassIndex (s + 8 * k) = idx" by blast
    show "?a \<or> ?r"
    proof (cases k)
      case 0
      with k show ?thesis by simp
    next
      case (Suc j)
      with k have "(s + 8) + 8 * j \<le> m \<and> ClassIndex ((s + 8) + 8 * j) = idx"
        by (simp add: algebra_simps)
      then show ?thesis by blast
    qed
  next
    assume "?a \<or> ?r"
    then show ?l
    proof
      assume ?a
      then show ?l by (intro exI [of _ 0]) simp
    next
      assume ?r
      then obtain k where "(s + 8) + 8 * k \<le> m" "ClassIndex ((s + 8) + 8 * k) = idx" by blast
      then show ?l by (intro exI [of _ "Suc k"]) (simp add: algebra_simps)
    qed
  qed
  show ?case
  proof (cases "s \<le> m")
    case True
    have "fill_class s m c arr idx = fill_class (s + 8) m c (arr(ClassIndex s := c)) idx"
      using True by (subst fill_class.simps) simp
    also have "\<dots> = (if \<exists>k. (s + 8) + 8 * k \<le> m \<and> ClassIndex ((s + 8) + 8 * k) = idx
        then c else (arr(ClassIndex s := c)) idx)"
      using "1.IH" True by (simp only: kAlignment_def simp_thms)
    also have "\<dots> = (if \<exists>k. s + 8 * k \<le> m \<and> ClassIndex (s + 8 * k) = idx then c else arr idx)"
      using True by (simp only: split) auto
    finally show ?thesis .
  next
    case False
    then show ?thesis by (subst fill_class.simps) simp
  qed
qed

lemma fill_class_covers:
  assumes "boundary p" and "boundary m" and "m \<le> kMaxSize" and "p < s" "s \<le> m"
  shows "fill_class (p + 8) m c arr (ClassIndex s) = c"
proof -
  let ?t = "8 * ((s + 7) div 8)"
  from assms obtain i j where i: "p = 8 * i" and j: "m = 8 * j"
    unfolding boundary_def by (blast elim: dvdE)
  with assms(4,5) have "i + 1 \<le> (s + 7) div 8" "(s + 7) div 8 \<le> j" by simp_all
  with i j have "p + 8 \<le> ?t" "?t \<le> m" by simp_all
  moreover from i this have "?t = (p + 8) + 8 * ((s + 7) div 8 - i - 1)" by simp
  moreover have "ClassIndex ?t = ClassIndex s" using assms by (intro ClassIndex_round8) simp
  ultimately show ?thesis unfolding fill_class_nth by metis
qed

lemma fill_class_zero:
  assumes "boundary m" and "m \<le> kMaxSize" and "s \<le> m"
  shows "fill_class 0 m c arr (ClassIndex s) = c"
proof -
  let ?t = "8 * ((s + 7) div 8)"
  from assms obtain j where "m = 8 * j" by (auto simp: boundary_def)
  with assms(3) have "?t \<le> m" by auto
  moreover have "ClassIndex ?t = ClassIndex s" using assms by (intro ClassIndex_round8) simp
  ultimately show ?thesis unfolding fill_class_nth by (metis add_0)
qed

lemma fill_class_keeps:
  assumes "boundary p" and "m \<le> kMaxSize" and "s \<le> p"
  shows "fill_class (p + 8) m c arr (ClassIndex s) = arr (ClassIndex s)"
proof -
  have "ClassIndex (p + 8 + 8 * k) \<noteq> ClassIndex s" if "p + 8 + 8 * k \<le> m" for k
  proof -
    have "ClassIndex p < ClassIndex (p + 8 + 8 * k)"
      using assms that by (intro ClassIndex_boundary) auto
    moreover have "ClassIndex s \<le> ClassIndex p"
      using assms that by (intro ClassIndex_mono) auto
    ultimately show ?thesis by simp
  qed
  then show ?thesis unfolding fill_class_nth by auto
qed

lemma fill_classes_frame [simp]:
  "class_to_size (fill_classes c n sm) = class_to_size sm"
  "class_to_pages (fill_classes c n sm) = class_to_pages sm"
  "num_size_classes (fill_classes c n sm) = num_size_classes sm"
  "num_objects_to_move (fill_classes c n sm) = num_objects_to_move sm"
  "min_span_size_in_pages (fill_classes c n sm) = min_span_size_in_pages sm"
  by (induction c n sm rule: fill_classes.induct; subst fill_classes.simps; simp add: Let_def)+

lemma filled_upto_step:
  assumes ok: "classes_ok m flag n sm" and c: "1 \<le> c" "c < n" and filled: "filled_upto sm (c - 1)"
  shows "filled_upto (sm\<lparr>class_array :=
           fill_class (if c = 1 then 0 else class_to_size sm (c - 1) + 8)
             (class_to_size sm c) c (class_array sm)\<rparr>) c"
proof -
  let ?z = "class_to_size sm"
  have b: "boundary (?z c)" "?z c \<le> kMaxSize" using ok c by (simp_all add: classes_ok_def)
  show ?thesis
  proof (cases "c = 1")
    case True
    then show ?thesis
      using fill_class_zero [OF b] by (auto simp: filled_upto_def SizeClass_def class_of_def)
  next
    case False
    then have p: "boundary (?z (c - 1))" "?z (c - 1) < ?z c"
      using c classes_ok_increasing [OF ok, of c] classes_okD [OF ok, of "c - 1"] by simp_all
    have new: "fill_class (?z (c - 1) + 8) (?z c) c (class_array sm) (ClassIndex s) = c"
      if "?z (c - 1) < s" "s \<le> ?z c" for s
      using fill_class_covers [OF p(1) b that] .
    have old: "fill_class (?z (c - 1) + 8) (?z c) c (class_array sm) (ClassIndex s)
        = class_array sm (ClassIndex s)" if "s \<le> ?z (c - 1)" for s
      using fill_class_keeps [OF p(1) b(2) that] .
    have "1 \<le> c - 1" using False c by simp
    then have oldc: "1 \<le> class_array sm (ClassIndex s) \<and> class_array sm (ClassIndex s) \<le> c - 1
        \<and> class_of sm s (class_array sm (ClassIndex s))" if "s \<le> ?z (c - 1)" for s
      using filled that by (simp add: filled_upto_def SizeClass_def)
    have "1 \<le> k \<and> k \<le> c \<and> class_of sm s k"
      if "s \<le> ?z c" "k = fill_class (?z (c - 1) + 8) (?z c) c (class_array sm) (ClassIndex s)" for s k
    proof (cases "s \<le> ?z (c - 1)")
      case True
      then have "k = class_array sm (ClassIndex s)" using old that(2) by simp
      with oldc [OF True] show ?thesis by auto
    next
      case s: False
      then have "k = c" using new that by simp
      with s that(1) c show ?thesis by (simp add: class_of_def)
    qed
    then show ?thesis
      using False c by (simp add: filled_upto_def SizeClass_def class_of_def)
  qed
qed

lemma fill_classes_ok:
  assumes "classes_ok m flag (num_size_classes sm) sm" and "1 \<le> c" "c \<le> num_size_classes sm"
    and "filled_upto sm (c - 1)"
  shows "filled_upto (fill_classes c (if c = 1 then 0 else class_to_size sm (c - 1) + 8) sm)
           (num_size_classes sm - 1)"
  using assms
proof (induction "num_size_classes sm - c" arbitrary: c sm)
  case 0
  then show ?case by (subst fill_classes.simps) simp
next
  case (Suc k)
  define n where "n = (if c = 1 then 0 else class_to_size sm (c - 1) + 8)"
  define sm1 where "sm1 = sm\<lparr>class_array := fill_class n (class_to_size sm c) c (class_array sm)\<rparr>"
  have c: "c < num_size_classes sm" using Suc.hyps(2) by simp
  have step: "fill_classes c n sm = fill_classes (c + 1) (class_to_size sm c + 8) sm1"
    using c by (subst fill_classes.simps) (simp add: Let_def sm1_def)
  have filled: "filled_upto sm1 c"
    unfolding sm1_def n_def by (rule filled_upto_step [OF Suc.prems(1,2) c Suc.prems(4)])
  have frame: "num_size_classes sm1 = num_size_classes sm" "class_to_size sm1 = class_to_size sm"
    "class_to_pages sm1 = class_to_pages sm"
    by (simp_all add: sm1_def)
  then have "classes_ok m flag (num_size_classes sm1) sm1"
    using Suc.prems(1) by (simp add: classes_ok_def)
  then have "filled_upto (fill_classes (c + 1) (class_to_size sm c + 8) sm1)
      (num_size_classes sm - 1)"
    using Suc.hyps(1) [of sm1 "c + 1"] Suc.hyps(2) Suc.prems(2) c filled frame by simp
  then show ?case unfolding n_def [symmetric] step .
qed

lemma check_sizes_None: "sizemap_ok sm \<Longrightarrow> check_sizes sm s = None"
proof (induction sm s rule: check_sizes.induct)
  case (1 sm sz)
  show ?case
  proof (cases "sz \<le> kMaxSize")
    case True
    then have ok: "1 \<le> SizeClass sm sz" "SizeClass sm sz < num_size_classes sm"
      "class_of sm sz (SizeClass sm sz)" "8 \<le> class_to_size sm (SizeClass sm sz)"
      using "1.prems" by (simp_all add: sizemap_ok_def)
    show ?thesis
      using True ok 1 by (subst check_sizes.simps) (auto simp: Let_def class_of_def)
  next
    case False
    then show ?thesis by (subst check_sizes.simps) simp
  qed
qed

lemma LgFloor_loop_numeral:
  "LgFloor_loop (numeral k) n log =
     (let shift = 2 ^ pred_numeral k; x = n div 2 ^ shift
      in if x \<noteq> 0 then LgFloor_loop (pred_numeral k) x (log + shift)
         else LgFloor_loop (pred_numeral k) n log)"
  by (simp add: numeral_eq_Suc)

lemmas class_eval = align_of_def LgFloor_def LgFloor_loop_numeral
  span_pages_def blocks_to_move_def NumMoveSize_def u64_of_int_def span_exact.simps fit_exact.simps

lemma default_class_list: "rev (map fst (class_list 8192 32 8 [])) = default_sizes"
  by (simp add: default_sizes_def class_list.simps class_eval)

lemma check_align_iff:
  assumes "0 < a"
  shows "check_align sm a s \<longleftrightarrow>
    (\<forall>k. s + k * a < kPageSize \<longrightarrow> class_to_size sm (SizeClass sm (s + k * a)) mod a = 0)"
  using assms
proof (induction sm a s rule: check_align.induct)
  case (1 sm a s)
  show ?case
  proof (cases "s < kPageSize")
    case True
    let ?P = "\<lambda>x. class_to_size sm (SizeClass sm x) mod a = 0"
    have "check_align sm a s \<longleftrightarrow> ?P s \<and> check_align sm a (s + a)"
      using True "1.prems" by (subst check_align.simps) simp
    also have "\<dots> \<longleftrightarrow> ?P s \<and> (\<forall>k. (s + a) + k * a < kPageSize \<longrightarrow> ?P ((s + a) + k * a))"
      using "1.IH" True "1.prems" by simp
    also have "\<dots> \<longleftrightarrow> (\<forall>k. s + k * a < kPageSize \<longrightarrow> ?P (s + k * a))"
    proof (intro iffI allI impI conjI)
      fix k
      assume h: "?P s \<and> (\<forall>k. (s + a) + k * a < kPageSize \<longrightarrow> ?P ((s + a) + k * a))"
        and k: "s + k * a < kPageSize"
      show "?P (s + k * a)"
      proof (cases k)
        case 0
        then show ?thesis using h by simp
      next
        case (Suc j)
        then show ?thesis using h [THEN conjunct2, rule_format, of j] k by (simp add: algebra_simps)
      qed
    next
      assume h: "\<forall>k. s + k * a < kPageSize \<longrightarrow> ?P (s + k * a)"
      from h [rule_format, of 0] True show "?P s" by simp
      fix k
      assume "(s + a) + k * a < kPageSize"
      then show "?P ((s + a) + k * a)"
        using h [rule_format, of "Suc k"] by (simp add: algebra_simps)
    qed
    finally show ?thesis .
  next
    case False
    then show ?thesis by (subst check_align.simps) simp
  qed
qed

lemma check_aligns_pow2:
  assumes "\<And>j. 4 \<le> j \<Longrightarrow> j \<le> 13 \<Longrightarrow> check_align sm (2 ^ j) (2 ^ j)" and "4 \<le> i" and "i \<le> 14"
  shows "check_aligns sm (2 ^ i)"
  using assms(2,3)
proof (induction "14 - i" arbitrary: i)
  case 0
  then show ?case by (subst check_aligns.simps) simp
next
  case (Suc d)
  then have "d = 14 - Suc i" "4 \<le> Suc i" "Suc i \<le> 14" by simp_all
  then have "check_aligns sm (2 ^ Suc i)" by (rule Suc.hyps(1))
  moreover have "check_align sm (2 ^ i) (2 ^ i)" using Suc by (intro assms(1)) simp_all
  ultimately show ?case by (subst check_aligns.simps) simp
qed

lemma tabled_widen:
  assumes "tabled ((s, p) # r) sc sm"
  shows "tabled ((sz, p) # r) sc (sm\<lparr>class_to_size := (class_to_size sm)(sc - 1 := sz)\<rparr>)"
  using assms by (auto simp: tabled_def nth_Cons split: nat.splits)

lemma tabled_open:
  assumes "tabled acc sc sm"
  shows "tabled ((sz, pg) # acc) (sc + 1)
     (sm\<lparr>class_to_pages := (class_to_pages sm)(sc := pg), class_to_size := (class_to_size sm)(sc := sz)\<rparr>)"
  using assms by (auto simp: tabled_def nth_Cons less_Suc_eq Suc_diff_le split: nat.splits)

lemma tabled_push:
  assumes "tabled acc sc sm"
  shows "if 1 < sc \<and> pg = class_to_pages sm (sc - 1)
       \<and> (pg * 2 ^ kPageShift) div sz
           = (class_to_pages sm (sc - 1) * 2 ^ kPageShift) div class_to_size sm (sc - 1)
     then tabled (push_class sz pg acc) sc
            (sm\<lparr>class_to_size := (class_to_size sm)(sc - 1 := sz)\<rparr>)
     else tabled (push_class sz pg acc) (sc + 1)
            (sm\<lparr>class_to_pages := (class_to_pages sm)(sc := pg), class_to_size := (class_to_size sm)(sc := sz)\<rparr>)"
proof (cases acc)
  case Nil
  with assms show ?thesis using tabled_open [OF assms, of sz pg] by (simp add: tabled_def)
next
  case (Cons a r)
  obtain s p where a: "a = (s, p)" by (cases a)
  from assms Cons a have "class_to_size sm (sc - 1) = s" "class_to_pages sm (sc - 1) = p" "1 < sc"
    by (auto simp: tabled_def)
  then show ?thesis
    using tabled_open [OF assms, of sz pg] tabled_widen [of s p r sc sm sz] assms Cons a by auto
qed

lemma assign_classes_list:
  assumes "tabled acc sc sm" and "8 \<le> sz" and "2 ^ align_of sz dvd sz" and "config_ok m flag"
  shows "\<exists>n sm'. assign_classes m flag sz sc sm = Inr (n, sm') \<and> tabled (class_list m flag sz acc) n sm'"
  using assms
proof (induction m flag sz acc arbitrary: sc sm rule: class_list.induct)
  case (1 m flag sz acc)
  show ?case
  proof (cases "sz \<le> 262144")
    case True
    then have le: "sz \<le> kMaxSize" by simp
    have d: "sz mod 2 ^ align_of sz = 0" using "1.prems"(3) by simp
    have "0 < sz" using "1.prems"(2) by simp
    note step = assign_classes_step [OF le AlignmentForSize_eq [OF le] d
        pages_for_size_exact [OF "1.prems"(4) this le]]
    note IH = "1.IH" [OF True _ trans_le_add1 [OF "1.prems"(2)] align_of_step [OF le "1.prems"(2,3)] "1.prems"(4)]
    have cl: "class_list m flag sz acc
        = class_list m flag (sz + 2 ^ align_of sz) (push_class sz (span_pages m flag sz) acc)"
      using True by (subst class_list.simps) simp
    let ?widen = "1 < sc \<and> span_pages m flag sz = class_to_pages sm (sc - 1)
       \<and> (span_pages m flag sz * 2 ^ kPageShift) div sz
           = (class_to_pages sm (sc - 1) * 2 ^ kPageShift) div class_to_size sm (sc - 1)"
    note push = tabled_push [OF "1.prems"(1), of "span_pages m flag sz" sz]
    show ?thesis
    proof (cases ?widen)
      case w: True
      show ?thesis unfolding trans [OF step if_P [OF w]] cl
        by (rule IH [OF push [unfolded if_P [OF w]]])
    next
      case w: False
      show ?thesis unfolding trans [OF step if_not_P [OF w]] cl
        by (rule IH [OF push [unfolded if_not_P [OF w]]])
    qed
  next
    case False
    then show ?thesis
      using "1.prems" by (subst assign_classes.simps, subst class_list.simps) simp
  qed
qed

lemma sizemap_ok_fill:
  assumes ok: "classes_ok m flag sc sm" and "2 \<le> sc" and top: "class_to_size sm (sc - 1) = kMaxSize"
  shows "sizemap_ok (fill_classes 1 0 (sm\<lparr>num_size_classes := sc\<rparr>))"
proof -
  let ?sm = "sm\<lparr>num_size_classes := sc\<rparr>"
  have ok': "classes_ok m flag (num_size_classes ?sm) ?sm" using ok by (simp add: classes_ok_def)
  have "filled_upto (fill_classes 1 0 ?sm) (sc - 1)"
    using fill_classes_ok [OF ok', of 1] assms(2) by (simp add: filled_upto_def)
  then have "1 \<le> SizeClass (fill_classes 1 0 ?sm) s \<and> SizeClass (fill_classes 1 0 ?sm) s \<le> sc - 1
      \<and> class_of (fill_classes 1 0 ?sm) s (SizeClass (fill_classes 1 0 ?sm) s)" if "s \<le> kMaxSize" for s
    using that top assms(2) by (simp add: filled_upto_def)
  moreover have "8 \<le> class_to_size sm c" if "1 \<le> c" "c < sc" for c
    using classes_okD [OF ok that] by simp
  ultimately show ?thesis using assms(2) by (force simp: sizemap_ok_def)
qed

lemma SizeMap_Init_eq:
  fixes native :: nat and flag :: int
  defines "m \<equiv> min_span_size native"
  assumes "config_ok m flag"
  shows "\<exists>sc sm1 sm2.
     assign_classes m flag kAlignment 1 (sizemap_static\<lparr>min_span_size_in_pages := m div kPageSize\<rparr>) = Inr (sc, sm1)
   \<and> classes_ok m flag sc sm1 \<and> 2 \<le> sc \<and> class_to_size sm1 (sc - 1) = kMaxSize
   \<and> sm2 = fill_classes 1 0 (sm1\<lparr>num_size_classes := sc\<rparr>) \<and> sizemap_ok sm2
   \<and> min_span_size_in_pages sm2 = m div kPageSize
   \<and> SizeMap_Init native flag =
       (if sc > kClassSizesMax then Inl (LogCrash ''too many size classes'')
        else if \<not> check_aligns sm2 kMinAlign then Inl (CheckFailed ''natural alignment'')
        else Inr (sm2\<lparr>num_objects_to_move :=
               (\<lambda>cl. if 1 \<le> cl \<and> cl < sc then NumMoveSize flag (class_to_size sm2 cl)
                     else num_objects_to_move sm2 cl)\<rparr>))"
proof -
  let ?sm0 = "sizemap_static\<lparr>min_span_size_in_pages := m div kPageSize\<rparr>"
  have "assigning m flag kAlignment 1 ?sm0"
    using assms(2) by (simp add: assigning_def classes_ok_def align_of_def)
  from assign_classes_ok [OF this] obtain sc sm1 where a:
    "assign_classes m flag kAlignment 1 ?sm0 = Inr (sc, sm1)" "classes_ok m flag sc sm1" "2 \<le> sc"
    "class_to_size sm1 (sc - 1) = kMaxSize" "min_span_size_in_pages sm1 = m div kPageSize"
    unfolding assigned_def by auto
  define sm2 where "sm2 = fill_classes 1 0 (sm1\<lparr>num_size_classes := sc\<rparr>)"
  have ok: "sizemap_ok sm2" unfolding sm2_def by (rule sizemap_ok_fill [OF a(2-4)])
  have idx: "ClassIndex 0 = 0" "\<not> ClassIndex kMaxSize \<ge> kClassArraySize" "kAlignment \<le> kMinAlign"
    by (simp_all add: ClassIndex_eq)
  have init: "SizeMap_Init native flag =
       (if sc > kClassSizesMax then Inl (LogCrash ''too many size classes'')
        else if \<not> check_aligns sm2 kMinAlign then Inl (CheckFailed ''natural alignment'')
        else Inr (sm2\<lparr>num_objects_to_move :=
               (\<lambda>cl. if 1 \<le> cl \<and> cl < sc then NumMoveSize flag (class_to_size sm2 cl)
                     else num_objects_to_move sm2 cl)\<rparr>))"
    unfolding SizeMap_Init_def m_def [symmetric] Let_def a(1) sum.case prod.case sm2_def [symmetric]
      check_sizes_None [OF ok] option.case
    using idx by (simp del: kClassSizesMax_def kMaxSize_def kClassArraySize_def kAlignment_def kMinAlign_def)
  have ms: "min_span_size_in_pages sm2 = m div kPageSize" by (simp add: sm2_def a(5))
  show ?thesis by (intro exI conjI) (rule a(1-4) sm2_def ok ms init)+
qed

lemma check_align_update:
  "check_align (sm\<lparr>num_objects_to_move := f\<rparr>) a s = check_align sm a s"
proof (induction sm a s rule: check_align.induct)
  case (1 sm a s)
  then show ?case
    by (subst (1 2) check_align.simps) (simp add: SizeClass_def)
qed

lemma check_aligns_update:
  "check_aligns (sm\<lparr>num_objects_to_move := f\<rparr>) a = check_aligns sm a"
proof (induction sm a rule: check_aligns.induct)
  case (1 sm a)
  then show ?case
    by (subst (1 2) check_aligns.simps) (simp add: check_align_update)
qed

lemma SizeMap_Init_ok:
  assumes "SizeMap_Init native flag = Inr sm" and "config_ok (min_span_size native) flag"
  shows "sizemap_ok sm \<and> classes_ok (min_span_size native) flag (num_size_classes sm) sm
       \<and> num_size_classes sm \<le> kClassSizesMax \<and> check_aligns sm kMinAlign
       \<and> (\<forall>c. 1 \<le> c \<and> c < num_size_classes sm \<longrightarrow> num_objects_to_move sm c = NumMoveSize flag (class_to_size sm c))"
proof -
  let ?m = "min_span_size native"
  obtain sc sm1 sm2 where "classes_ok ?m flag sc sm1" "sizemap_ok sm2"
    and sm2: "sm2 = fill_classes 1 0 (sm1\<lparr>num_size_classes := sc\<rparr>)"
    and init: "SizeMap_Init native flag =
       (if sc > kClassSizesMax then Inl (LogCrash ''too many size classes'')
        else if \<not> check_aligns sm2 kMinAlign then Inl (CheckFailed ''natural alignment'')
        else Inr (sm2\<lparr>num_objects_to_move :=
               (\<lambda>cl. if 1 \<le> cl \<and> cl < sc then NumMoveSize flag (class_to_size sm2 cl)
                     else num_objects_to_move sm2 cl)\<rparr>))"
    using SizeMap_Init_eq [OF assms(2)] by blast
  let ?f = "\<lambda>cl. if 1 \<le> cl \<and> cl < sc then NumMoveSize flag (class_to_size sm2 cl)
                     else num_objects_to_move sm2 cl"
  from assms(1) init have le: "sc \<le> kClassSizesMax" and al: "check_aligns sm2 kMinAlign"
    and sm: "sm = sm2\<lparr>num_objects_to_move := ?f\<rparr>"
    by (simp_all only: split: if_splits) auto
  have n: "num_size_classes sm = sc" "class_to_size sm = class_to_size sm1"
    "class_to_pages sm = class_to_pages sm1"
    by (simp_all add: sm sm2)
  have "sizemap_ok sm" using \<open>sizemap_ok sm2\<close>
    by (simp add: sm sizemap_ok_def SizeClass_def class_of_def)
  moreover have "classes_ok ?m flag (num_size_classes sm) sm"
    using \<open>classes_ok ?m flag sc sm1\<close> by (simp add: classes_ok_def n)
  moreover have "check_aligns sm kMinAlign" using al by (simp only: sm check_aligns_update)
  ultimately show ?thesis using le by (simp add: n) (simp add: sm sm2)
qed

lemma default_gaps:
  assumes "4 \<le> j" and "j \<le> 13"
  shows "list_all (aligned_gap (2 ^ j)) (zip (0 # default_sizes) default_sizes)"
proof -
  have "list_all (\<lambda>j. list_all (aligned_gap (2 ^ j)) (zip (0 # default_sizes) default_sizes)) [4..<14]"
    by (simp add: aligned_gap_def default_sizes_def)
  moreover have "j \<in> set [4..<14]" using assms by (simp only: set_upt atLeastLessThan_iff) simp
  ultimately show ?thesis unfolding list_all_iff by blast
qed

lemma aligned_gapD:
  assumes "aligned_gap a (lo, hi)" and "lo < q * a" and "q * a \<le> hi" and "q * a < kPageSize"
  shows "hi mod a = 0"
proof (cases "a = 0")
  case False
  then have "q \<le> hi div a" using assms(3) by (simp add: less_eq_div_iff_mult_less_eq)
  then have "q * a \<le> hi div a * a" by simp
  with assms show ?thesis by (simp add: aligned_gap_def)
qed (use assms in simp)

lemma check_align_gaps:
  assumes ok: "sizemap_ok sm" and "0 < a"
    and gaps: "\<And>c. 1 \<le> c \<Longrightarrow> c < num_size_classes sm \<Longrightarrow>
      aligned_gap a (if c = 1 then 0 else class_to_size sm (c - 1), class_to_size sm c)"
  shows "check_align sm a a"
  unfolding check_align_iff [OF assms(2)]
proof (intro allI impI)
  fix k
  assume "a + k * a < kPageSize"
  then have k: "Suc k * a < kPageSize" by simp
  define c where "c = SizeClass sm (Suc k * a)"
  have "Suc k * a \<le> kMaxSize" using k by simp
  then have c: "1 \<le> c" "c < num_size_classes sm" "Suc k * a \<le> class_to_size sm c"
    "1 < c \<Longrightarrow> class_to_size sm (c - 1) < Suc k * a"
    using ok unfolding c_def sizemap_ok_def class_of_def by blast+
  have "(if c = 1 then 0 else class_to_size sm (c - 1)) < Suc k * a" using c assms(2) by simp
  from aligned_gapD [OF gaps [OF c(1,2)] this c(3) k]
  show "class_to_size sm (SizeClass sm (a + k * a)) mod a = 0" by (simp add: c_def)
qed

lemma tabled_sizes:
  assumes "tabled acc sc sm" and "rev (map fst acc) = zs"
  shows "sc = Suc (length zs)" and "1 \<le> c \<Longrightarrow> c < sc \<Longrightarrow> class_to_size sm c = zs ! (c - 1)"
proof -
  show sc: "sc = Suc (length zs)" using assms by (auto simp: tabled_def)
  assume c: "1 \<le> c" "c < sc"
  with assms(1) have "(class_to_size sm c, class_to_pages sm c) = acc ! (sc - 1 - c)"
    by (simp add: tabled_def)
  then have "class_to_size sm c = fst (acc ! (sc - 1 - c))" by (metis fst_conv)
  also have "\<dots> = zs ! (c - 1)" using c assms by (auto simp: tabled_def rev_nth)
  finally show "class_to_size sm c = zs ! (c - 1)" .
qed

lemma table_gap:
  assumes "map z [1..<n] = zs" and "list_all (aligned_gap a) (zip (0 # zs) zs)" and "1 \<le> c" "c < n"
  shows "aligned_gap a (if c = 1 then 0 else z (c - 1), z c)"
proof -
  have len: "length zs = n - 1" using assms(1) by auto
  have "zs ! (c - 1) = z c" using assms(3,4) by (simp flip: assms(1))
  moreover have "c \<noteq> 1 \<Longrightarrow> zs ! (c - 2) = z (c - 1)"
    using assms(3,4) by (simp flip: assms(1)) (simp add: numeral_2_eq_2 Suc_diff_Suc)
  ultimately have "zip (0 # zs) zs ! (c - 1) = (if c = 1 then 0 else z (c - 1), z c)"
    using assms(3,4) len by (simp add: nth_Cons' numeral_2_eq_2)
  moreover have "c - 1 < length (zip (0 # zs) zs)" using assms(3,4) len by simp
  ultimately show ?thesis using assms(2) unfolding list_all_length by metis
qed

lemma default_Init:
  "\<exists>sm. SizeMap_Init 4096 32 = Inr sm \<and> map (class_to_size sm) [1..<num_size_classes sm] = default_sizes"
proof -
  have ms: "min_span_size 4096 = 8192" by (simp add: min_span_size_def)
  have cfg: "config_ok 8192 32" by (simp add: config_ok_def)
  obtain sc sm1 sm2 where a: "assign_classes 8192 32 kAlignment 1
       (sizemap_static\<lparr>min_span_size_in_pages := 8192 div kPageSize\<rparr>) = Inr (sc, sm1)"
    and ok: "sizemap_ok sm2"
    and sm2: "sm2 = fill_classes 1 0 (sm1\<lparr>num_size_classes := sc\<rparr>)"
    and init: "SizeMap_Init 4096 32 =
       (if sc > kClassSizesMax then Inl (LogCrash ''too many size classes'')
        else if \<not> check_aligns sm2 kMinAlign then Inl (CheckFailed ''natural alignment'')
        else Inr (sm2\<lparr>num_objects_to_move :=
               (\<lambda>cl. if 1 \<le> cl \<and> cl < sc then NumMoveSize 32 (class_to_size sm2 cl)
                     else num_objects_to_move sm2 cl)\<rparr>))"
    using SizeMap_Init_eq [of 4096 32] unfolding ms using cfg by blast
  have "tabled (class_list 8192 32 8 []) sc sm1"
    using assign_classes_list [of "[]" 1 "sizemap_static\<lparr>min_span_size_in_pages := 8192 div kPageSize\<rparr>"
      kAlignment 8192 32] a cfg
    by (auto simp: align_of_def tabled_def [of "[]"])
  note tab = tabled_sizes [OF this default_class_list]
  have sizes: "map (class_to_size sm2) [1..<num_size_classes sm2] = default_sizes"
    by (rule nth_equalityI) (use tab in \<open>simp_all add: sm2 del: upt_Suc\<close>)
  have "check_align sm2 (2 ^ j) (2 ^ j)" if "4 \<le> j" "j \<le> 13" for j
    by (rule check_align_gaps [OF ok _ table_gap [OF sizes default_gaps [OF that]]]) simp
  from check_aligns_pow2 [OF this, of 4] have al: "check_aligns sm2 kMinAlign" by simp
  have "\<not> sc > kClassSizesMax" by (simp add: tab(1) default_sizes_def)
  with init al have "SizeMap_Init 4096 32 = Inr (sm2\<lparr>num_objects_to_move :=
               (\<lambda>cl. if 1 \<le> cl \<and> cl < sc then NumMoveSize 32 (class_to_size sm2 cl)
                     else num_objects_to_move sm2 cl)\<rparr>)"
    by (simp only: if_False simp_thms)
  then show ?thesis
    by (rule exI [where x = "sm2\<lparr>num_objects_to_move := _\<rparr>", OF conjI]) (use sizes in simp)
qed

lemma classes_ok_strict_mono:
  assumes "classes_ok m flag n sm" and "1 \<le> c" and "c < d" and "d < n"
  shows "class_to_size sm c < class_to_size sm d"
  using assms(3,4)
proof (induction d)
  case (Suc d)
  from assms(2) Suc.prems have d: "1 < Suc d" by simp
  have "class_to_size sm d < class_to_size sm (Suc d)"
    using classes_ok_increasing [OF assms(1) d Suc.prems(2)] by simp
  with Suc show ?case by (cases "c = d") auto
qed simp

lemma min_span_size_pages: "0 < min_span_size native" "kPageSize dvd min_span_size native"
  by (auto simp: min_span_size_def Let_def max_def)

lemma span_pages_bytes:
  assumes "0 < sz"
  shows "span_pages (min_span_size native) flag sz * kPageSize
       = span_exact (min_span_size native) sz (blocks_to_move flag sz) 0"
proof -
  let ?m = "min_span_size native"
  have "?m dvd span_exact ?m sz (blocks_to_move flag sz) 0"
    using span_exact_post [OF min_span_size_pages(1) [of native] assms, of 0] by simp
  with min_span_size_pages(2) [of native] show ?thesis
    unfolding span_pages_def kPageSize_def by (intro dvd_div_mult_self) (rule dvd_trans)
qed

lemma check_align_of_aligns:
  assumes "check_aligns sm (2 ^ i)" and "i \<le> j" and "j \<le> 13"
  shows "check_align sm (2 ^ j) (2 ^ j)"
  using assms
proof (induction "j - i" arbitrary: i)
  case 0
  have "(2::nat) ^ j \<le> 2 ^ 13" using 0 by (intro power_increasing) auto
  with 0 show ?case by (subst (asm) check_aligns.simps) simp
next
  case (Suc d)
  have "(2::nat) ^ i \<le> 2 ^ 13" using Suc by (intro power_increasing) auto
  with Suc.prems(1) have "check_aligns sm (2 ^ Suc i)"
    by (subst (asm) check_aligns.simps) simp
  then show ?case using Suc by (intro Suc.hyps(1) [of "Suc i"]) auto
qed

lemma config_ok_min_span:
  "native < 2 ^ 63 \<Longrightarrow> -4 < flag \<Longrightarrow> config_ok (min_span_size native) flag"
  by (auto simp: config_ok_def min_span_size_def Let_def)

lemma span_bytes_result:
  assumes "span_bytes m sz blocks p = Some r"
  shows "blocks \<le> r div sz \<and> r < 2 ^ 64"
proof -
  have fit: "p < 2 ^ 64 \<longrightarrow> r < 2 ^ 64" if "fit_waste m sz p = Some r" for m sz p r
  proof (rule fit_waste.raw_induct [OF _ that], goal_cases)
    case (1 f m sz p r)
    then show ?case
      using 1(1) [of m sz "add64 p m" r] add64_bound [of p m] by (auto split: if_splits)
  qed
  have "blocks \<le> r div sz \<and> r < 2 ^ 64"
  proof (rule span_bytes.raw_induct [OF _ assms], goal_cases)
    case (1 f m sz blocks p r)
    then show ?case
      using fit [of m sz "add64 p m"] add64_bound [of p m] by (auto split: if_splits option.splits)
  qed
  then show ?thesis .
qed

subsection \<open>Properties\<close>

text \<open>C3. After a successful initialisation every request up to the largest small size gets
  the smallest class that can hold it, and the class number indexes the tables.\<close>

theorem SizeClass_smallest_fit:
  assumes "native < 2 ^ 63" and "-4 < flag" and init: "SizeMap_Init native flag = Inr sm"
    and "s \<le> kMaxSize"
  shows "1 \<le> SizeClass sm s \<and> SizeClass sm s < num_size_classes sm
       \<and> num_size_classes sm \<le> kClassSizesMax
       \<and> s \<le> class_to_size sm (SizeClass sm s)
       \<and> (\<forall>c. 1 \<le> c \<and> c < SizeClass sm s \<longrightarrow> class_to_size sm c < s)"
proof -
  from SizeMap_Init_ok [OF init config_ok_min_span [OF assms(1,2)]] have ok: "sizemap_ok sm"
    and cl: "classes_ok (min_span_size native) flag (num_size_classes sm) sm"
    and n: "num_size_classes sm \<le> kClassSizesMax" by blast+
  let ?c = "SizeClass sm s"
  from ok assms(4) have c: "1 \<le> ?c" "?c < num_size_classes sm" "class_of sm s ?c"
    by (simp_all only: sizemap_ok_def)
  have "class_to_size sm d < s" if d: "1 \<le> d" "d < ?c" for d
  proof (cases "d = ?c - 1")
    case True
    with c(3) d show ?thesis by (simp add: class_of_def)
  next
    case False
    with d c have "class_to_size sm d < class_to_size sm (?c - 1)"
      by (intro classes_ok_strict_mono [OF cl]) auto
    with c(3) d show ?thesis by (simp add: class_of_def)
  qed
  with c n show ?thesis by (simp add: class_of_def)
qed

theorem SizeClass_smallest_fit_witness:
  "\<exists>sm. SizeMap_Init 4096 32 = Inr sm \<and> (100000::nat) \<le> kMaxSize
     \<and> 100000 \<le> class_to_size sm (SizeClass sm 100000)
     \<and> (\<forall>c. 1 \<le> c \<and> c < SizeClass sm 100000 \<longrightarrow> class_to_size sm c < 100000)"
proof -
  obtain sm where sm: "SizeMap_Init 4096 32 = Inr sm" using default_Init by blast
  from SizeClass_smallest_fit [OF _ _ this, of 100000] sm show ?thesis by auto
qed

text \<open>C12. Spans are never wasteful: in a successfully initialised map each class has at least
  one page, a whole number of smallest spans, leaves at most an eighth of the span unused and
  holds at least \<open>blocks_to_move\<close> objects, a quarter of the objects that one transfer moves.\<close>

theorem class_span_waste:
  assumes "native < 2 ^ 63" and "-4 < flag" and init: "SizeMap_Init native flag = Inr sm"
    and "1 \<le> c" and "c < num_size_classes sm"
  shows "let bytes = class_to_pages sm c * kPageSize; sz = class_to_size sm c
         in 0 < class_to_pages sm c \<and> min_span_size native dvd bytes
            \<and> bytes mod sz \<le> bytes div 8 \<and> blocks_to_move flag sz \<le> bytes div sz"
proof -
  let ?m = "min_span_size native" and ?sz = "class_to_size sm c"
  from SizeMap_Init_ok [OF init config_ok_min_span [OF assms(1,2)]] 
  have "classes_ok ?m flag (num_size_classes sm) sm" by blast
  from classes_okD [OF this assms(4,5)] have sz: "0 < ?sz"
    and pg: "class_to_pages sm c = span_pages ?m flag ?sz" by auto
  note post = span_exact_post [OF min_span_size_pages(1) [of native] sz, of 0 "blocks_to_move flag ?sz",
      folded span_pages_bytes [OF sz, of native flag], folded pg]
  then show ?thesis by (auto simp: Let_def)
qed

theorem class_span_waste_witness:
  "\<exists>sm. SizeMap_Init 4096 32 = Inr sm \<and> 42 < num_size_classes sm
     \<and> (class_to_pages sm 42 * kPageSize) mod class_to_size sm 42
         \<le> (class_to_pages sm 42 * kPageSize) div 8"
proof -
  obtain sm where sm: "SizeMap_Init 4096 32 = Inr sm"
    and z: "map (class_to_size sm) [1..<num_size_classes sm] = default_sizes"
    using default_Init by blast
  from arg_cong [OF z, of length] have n: "42 < num_size_classes sm" by (simp add: default_sizes_def)
  from class_span_waste [OF _ _ sm _ n] sm n show ?thesis by (auto simp: Let_def)
qed

text \<open>C13. Naturally aligned requests are served naturally aligned: below a page, a request
  that is a positive multiple of a power of two from \<open>kMinAlign\<close> to \<open>kPageSize\<close> gets a class
  whose size is a multiple of that power.\<close>

theorem SizeClass_natural_alignment:
  assumes "native < 2 ^ 63" and "-4 < flag" and init: "SizeMap_Init native flag = Inr sm"
    and "4 \<le> j" and "j \<le> 13"
    and "2 ^ j dvd s" and "0 < s" and "s < kPageSize"
  shows "2 ^ j dvd class_to_size sm (SizeClass sm s)"
proof -
  from SizeMap_Init_ok [OF init config_ok_min_span [OF assms(1,2)]] have "check_aligns sm (2 ^ 4)" by simp
  from check_align_of_aligns [OF this assms(4,5)] have ca: "check_align sm (2 ^ j) (2 ^ j)" .
  from assms(6,7) obtain q where q: "s = 2 ^ j * q" "0 < q" by (auto elim: dvdE)
  then obtain k where "q = Suc k" by (auto simp: gr0_conv_Suc)
  with q have s: "s = 2 ^ j + k * 2 ^ j" by simp
  have "class_to_size sm (SizeClass sm s) mod 2 ^ j = 0"
    using ca [unfolded check_align_iff [OF zero_less_power [OF zero_less_numeral]], rule_format, of k]
      assms(8) by (simp only: s)
  then show ?thesis by (simp only: mod_0_imp_dvd)
qed

theorem SizeClass_natural_alignment_witness:
  "\<exists>sm. SizeMap_Init 4096 32 = Inr sm \<and> 512 dvd class_to_size sm (SizeClass sm 1536)"
proof -
  obtain sm where sm: "SizeMap_Init 4096 32 = Inr sm" using default_Init by blast
  have "(2::nat) ^ 9 dvd 1536" "(1536::nat) < kPageSize" by simp_all
  from SizeClass_natural_alignment [OF _ _ sm _ _ this(1) _ this(2)] sm show ?thesis by auto
qed

text \<open>C15. The default configuration (4096-byte native pages, 32 objects per transfer) passes
  every check of \<open>Init\<close> and has exactly the 85 classes of \<open>default_sizes\<close> beside class 0.\<close>

theorem SizeMap_Init_default:
  "\<exists>sm. SizeMap_Init 4096 32 = Inr sm \<and> num_size_classes sm = 86
      \<and> map (class_to_size sm) [1..<86] = default_sizes"
proof -
  obtain sm where sm: "SizeMap_Init 4096 32 = Inr sm"
    and z: "map (class_to_size sm) [1..<num_size_classes sm] = default_sizes"
    using default_Init by blast
  from arg_cong [OF z, of length] have "num_size_classes sm = 86" by (simp add: default_sizes_def)
  with sm z show ?thesis by auto
qed

text \<open>C14. With a transfer flag above -4 and any native page size below \<open>2 ^ 63\<close>, \<open>Init\<close> ends:
  with a map of at least one class whose checks over all sizes cannot fail, or with one of two
  crashes (too many classes, or a class that breaks natural alignment); the other checks of
  \<open>Init\<close> never fire.\<close>

theorem SizeMap_Init_outcomes:
  assumes "native < 2 ^ 63" and "-4 < flag"
  shows "case SizeMap_Init native flag of
     Inl e \<Rightarrow> e = LogCrash ''too many size classes'' \<or> e = CheckFailed ''natural alignment''
   | Inr sm \<Rightarrow> 2 \<le> num_size_classes sm \<and> check_sizes sm 0 = None
       \<and> class_to_size sm (num_size_classes sm - 1) = kMaxSize"
proof -
  note cfg = config_ok_min_span [OF assms]
  show ?thesis
  proof (cases "SizeMap_Init native flag")
    case (Inl e)
    then show ?thesis using SizeMap_Init_eq [OF cfg] by (auto split: if_splits)
  next
    case (Inr sm)
    from SizeMap_Init_ok [OF Inr cfg] have "check_sizes sm 0 = None"
      by (intro check_sizes_None) blast
    moreover have "2 \<le> num_size_classes sm \<and> class_to_size sm (num_size_classes sm - 1) = kMaxSize"
      using SizeMap_Init_eq [OF cfg] Inr by (auto split: if_splits)
    ultimately show ?thesis using Inr by simp
  qed
qed

theorem SizeMap_Init_outcomes_witness:
  "case SizeMap_Init 65536 7 of
     Inl e \<Rightarrow> e = LogCrash ''too many size classes'' \<or> e = CheckFailed ''natural alignment''
   | Inr sm \<Rightarrow> 2 \<le> num_size_classes sm \<and> check_sizes sm 0 = None
       \<and> class_to_size sm (num_size_classes sm - 1) = kMaxSize"
  using SizeMap_Init_outcomes [of 65536 7] by simp

text \<open>C16. A transfer flag of -4 or less makes \<open>Init\<close> run forever: the number of objects a span has
  to hold becomes a huge unsigned number, which no 64-bit span size can reach.\<close>

theorem SizeMap_Init_hangs:
  assumes "- (2 ^ 31) \<le> flag" and "flag \<le> -4"
  shows "SizeMap_Init native flag = Inl Diverges"
proof -
  let ?m = "min_span_size native"
  have n: "NumMoveSize flag 8 = flag" using assms by (simp add: NumMoveSize_def)
  define k where "k = - flag div 4"
  have k: "1 \<le> k" "k \<le> 2 ^ 29" using assms by (simp_all add: k_def)
  have "(- k) mod 2 ^ 64 = (- k + 2 ^ 64) mod 2 ^ 64" by simp
  also have "\<dots> = - k + 2 ^ 64" using k by (intro mod_pos_pos_trivial) simp_all
  finally have "2 ^ 63 \<le> nat ((- k) mod 2 ^ 64)" using k by (simp only:) simp
  then have "2 ^ 63 \<le> blocks_to_move flag 8"
    using assms by (simp add: blocks_to_move_def n u64_of_int_def k_def)
  then have "span_bytes ?m 8 (blocks_to_move flag 8) 0 = None"
    using span_bytes_result [of ?m 8 "blocks_to_move flag 8" 0]
    by (cases "span_bytes ?m 8 (blocks_to_move flag 8) 0") force+
  then have "pages_for_size ?m flag 8 = None" by (simp add: pages_for_size_def)
  moreover have "AlignmentForSize 8 = Inr 8" by (simp add: AlignmentForSize_eq align_of_def)
  ultimately have "assign_classes ?m flag 8 1 sm = Inl Diverges" for sm
    by (subst assign_classes.simps) simp
  then show ?thesis by (simp add: SizeMap_Init_def Let_def ClassIndex_eq)
qed

theorem SizeMap_Init_hangs_witness: "SizeMap_Init 4096 (-8) = Inl Diverges"
  using SizeMap_Init_hangs [of "-8" 4096] by simp

end
