(* ===== verification/PageMap.thy ===== *)
theory PageMap
  imports Prelude
begin

text \<open>
  The page maps: \<^verbatim>\<open>pagemap.h\<close>, three radix maps from page numbers to pointers. \<open>BITS\<close> is an
  argument; a stored pointer is a value of type \<open>'v option\<close> with \<^term>\<open>None\<close> for \<open>nullptr\<close>.
  A node belongs to exactly one slot of its parent, so a pointer to a node is the node itself
  or \<^term>\<open>None\<close>. The \<open>allocator\<close> is a function from a byte count and its own state to an
  address, or \<open>nullptr\<close>, and the next state. A write through a null or out-of-range slot has no
  result (\<^term>\<open>None\<close>).
\<close>

type_synonym 's allocator = "nat \<Rightarrow> 's \<Rightarrow> nat option \<times> 's"

type_synonym 'v leaf = "nat \<Rightarrow> 'v option"

definition empty_leaf :: "'v leaf" where
  "empty_leaf = (\<lambda>_. None)"

subsection \<open>Single-level array\<close>

type_synonym 'v pm1 = "'v leaf"

definition PageMap1_ctor :: "nat \<Rightarrow> 's allocator \<Rightarrow> 's \<Rightarrow> 'v pm1 option \<times> 's" where
  "PageMap1_ctor bits allocator s =
     (case allocator (8 * 2 ^ bits) s of
        (None, s') \<Rightarrow> (None, s')
      | (Some _, s') \<Rightarrow> (Some empty_leaf, s'))"

definition PageMap1_Ensure :: "nat \<Rightarrow> nat \<Rightarrow> nat \<Rightarrow> bool" where
  "PageMap1_Ensure bits x n \<longleftrightarrow> n \<le> sub64 (2 ^ bits) x"

definition PageMap1_get :: "nat \<Rightarrow> 'v pm1 \<Rightarrow> nat \<Rightarrow> 'v option" where
  "PageMap1_get bits array k = (if k div 2 ^ bits > 0 then None else array k)"

definition PageMap1_set :: "nat \<Rightarrow> 'v pm1 \<Rightarrow> nat \<Rightarrow> 'v option \<Rightarrow> 'v pm1 option" where
  "PageMap1_set bits array k v = (if k < 2 ^ bits then Some (array(k := v)) else None)"

function PageMap1_Next :: "nat \<Rightarrow> 'v pm1 \<Rightarrow> nat \<Rightarrow> 'v option" where
  "PageMap1_Next bits array k =
     (if k < 2 ^ bits
      then if array k \<noteq> None then array k else PageMap1_Next bits array (k + 1)
      else None)"
  by pat_completeness auto
termination
  by (relation "measure (\<lambda>(bits, array, k). 2 ^ bits - k)") auto

declare PageMap1_Next.simps [simp del]

subsection \<open>Two-level radix tree\<close>

type_synonym 'v pm2 = "nat \<Rightarrow> 'v leaf option"

definition LEAF_BITS2 :: "nat \<Rightarrow> nat" where
  "LEAF_BITS2 bits = (bits + 1) div 2"

definition ROOT_BITS2 :: "nat \<Rightarrow> nat" where
  "ROOT_BITS2 bits = bits - LEAF_BITS2 bits"

definition PageMap2_ctor :: "'v pm2" where
  "PageMap2_ctor = (\<lambda>_. None)"

definition PageMap2_get :: "nat \<Rightarrow> 'v pm2 \<Rightarrow> nat \<Rightarrow> 'v option" where
  "PageMap2_get bits root k =
     (let i1 = k div 2 ^ LEAF_BITS2 bits; i2 = k mod 2 ^ LEAF_BITS2 bits
      in if k div 2 ^ bits > 0 then None
         else case root i1 of None \<Rightarrow> None | Some leaf \<Rightarrow> leaf i2)"

definition PageMap2_set :: "nat \<Rightarrow> 'v pm2 \<Rightarrow> nat \<Rightarrow> 'v option \<Rightarrow> 'v pm2 option" where
  "PageMap2_set bits root k v =
     (let i1 = k div 2 ^ LEAF_BITS2 bits; i2 = k mod 2 ^ LEAF_BITS2 bits
      in if i1 \<ge> 2 ^ ROOT_BITS2 bits then None
         else case root i1 of None \<Rightarrow> None | Some leaf \<Rightarrow> Some (root(i1 \<mapsto> leaf(i2 := v))))"

lemma next_key: "0 < b \<Longrightarrow> (key::nat) < (key div b + 1) * b"
  by (metis Suc_eq_plus1 dividend_less_div_times add.commute mult_Suc)

lemma key_below: "key div 2 ^ a < 2 ^ b \<Longrightarrow> (key::nat) < 2 ^ (a + b)"
  by (simp add: power_add div_less_iff_less_mult mult.commute)

text \<open>
  The body of the loop of \<open>Ensure\<close> for one key, with its two early returns as \<^term>\<open>False\<close>;
  then the loop, where \<open>limit\<close> is \<open>start + n - 1\<close>.
\<close>

definition Ensure2_key ::
  "nat \<Rightarrow> 's allocator \<Rightarrow> nat \<Rightarrow> 'v pm2 \<Rightarrow> 's \<Rightarrow> bool \<times> 'v pm2 \<times> 's" where
  "Ensure2_key bits allocator key root s =
     (let i1 = key div 2 ^ LEAF_BITS2 bits
      in if i1 \<ge> 2 ^ ROOT_BITS2 bits then (False, root, s)
         else case root i1 of
             Some leaf \<Rightarrow> (True, root, s)
           | None \<Rightarrow>
               (case allocator (8 * 2 ^ LEAF_BITS2 bits) s of
                  (None, s') \<Rightarrow> (False, root, s')
                | (Some addr, s') \<Rightarrow> (True, root(i1 \<mapsto> empty_leaf), s')))"

lemma Ensure2_key_range:
  "fst (Ensure2_key bits allocator key root s)
    \<Longrightarrow> key div 2 ^ LEAF_BITS2 bits < 2 ^ ROOT_BITS2 bits"
  by (auto simp: Ensure2_key_def Let_def split: if_splits)

function Ensure2_loop ::
  "nat \<Rightarrow> 's allocator \<Rightarrow> nat \<Rightarrow> nat \<Rightarrow> 'v pm2 \<Rightarrow> 's \<Rightarrow> bool \<times> 'v pm2 \<times> 's" where
  "Ensure2_loop bits allocator limit key root s =
     (if key \<le> limit then
        let r = Ensure2_key bits allocator key root s
        in if fst r
           then Ensure2_loop bits allocator limit
                  ((key div 2 ^ LEAF_BITS2 bits + 1) * 2 ^ LEAF_BITS2 bits) (fst (snd r)) (snd (snd r))
           else r
      else (True, root, s))"
  by pat_completeness auto
termination
proof (relation "measure (\<lambda>(bits, allocator, limit, key, root, s).
      2 ^ (LEAF_BITS2 bits + ROOT_BITS2 bits) - key)", goal_cases)
  case (2 bits allocator limit key root s r)
  then have "key div 2 ^ LEAF_BITS2 bits < 2 ^ ROOT_BITS2 bits" by (auto dest: Ensure2_key_range)
  then have "key < 2 ^ (LEAF_BITS2 bits + ROOT_BITS2 bits)" by (rule key_below)
  then show ?case
    using next_key [of "2 ^ LEAF_BITS2 bits" key] by (auto intro!: diff_less_mono2)
qed simp

declare Ensure2_loop.simps [simp del]

definition PageMap2_Ensure ::
  "nat \<Rightarrow> 's allocator \<Rightarrow> nat \<Rightarrow> nat \<Rightarrow> 'v pm2 \<Rightarrow> 's \<Rightarrow> bool \<times> 'v pm2 \<times> 's" where
  "PageMap2_Ensure bits allocator start n root s =
     Ensure2_loop bits allocator (sub64 (add64 start n) 1) start root s"

definition PageMap2_PreallocateMoreMemory ::
  "nat \<Rightarrow> 's allocator \<Rightarrow> 'v pm2 \<Rightarrow> 's \<Rightarrow> 'v pm2 \<times> 's" where
  "PageMap2_PreallocateMoreMemory bits allocator root s =
     (if bits < 20 then snd (PageMap2_Ensure bits allocator 0 (2 ^ bits) root s) else (root, s))"

text \<open>The scan of one leaf, shared by the two- and three-level maps.\<close>

function scan_leaf :: "nat \<Rightarrow> 'v leaf \<Rightarrow> nat \<Rightarrow> 'v option" where
  "scan_leaf len values i =
     (if i < len then if values i \<noteq> None then values i else scan_leaf len values (i + 1)
      else None)"
  by pat_completeness auto
termination
  by (relation "measure (\<lambda>(len, values, i). len - i)") auto

declare scan_leaf.simps [simp del]

function PageMap2_Next :: "nat \<Rightarrow> 'v pm2 \<Rightarrow> nat \<Rightarrow> 'v option" where
  "PageMap2_Next bits root k =
     (if k < 2 ^ bits then
        let i1 = k div 2 ^ LEAF_BITS2 bits;
            found = (case root i1 of
                       None \<Rightarrow> None
                     | Some leaf \<Rightarrow> scan_leaf (2 ^ LEAF_BITS2 bits) leaf (k mod 2 ^ LEAF_BITS2 bits))
        in if found \<noteq> None then found
           else PageMap2_Next bits root ((i1 + 1) * 2 ^ LEAF_BITS2 bits)
      else None)"
  by pat_completeness auto
termination
proof (relation "measure (\<lambda>(bits, root, k). 2 ^ bits - k)", goal_cases)
  case (2 bits root k i1 found)
  then show ?case
    using next_key [of "2 ^ LEAF_BITS2 bits" k] by (auto intro!: diff_less_mono2)
qed simp

declare PageMap2_Next.simps [simp del]

subsection \<open>Three-level radix tree\<close>

type_synonym 'v node = "nat \<Rightarrow> 'v leaf option"
type_synonym 'v pm3 = "nat \<Rightarrow> 'v node option"

definition INTERIOR_BITS3 :: "nat \<Rightarrow> nat" where
  "INTERIOR_BITS3 bits = (bits + 2) div 3"

definition LEAF_BITS3 :: "nat \<Rightarrow> nat" where
  "LEAF_BITS3 bits = bits - 2 * INTERIOR_BITS3 bits"

definition PageMap3_ctor :: "'v pm3" where
  "PageMap3_ctor = (\<lambda>_. None)"

definition index1 :: "nat \<Rightarrow> nat \<Rightarrow> nat" where
  "index1 bits k = k div 2 ^ (LEAF_BITS3 bits + INTERIOR_BITS3 bits)"

definition index2 :: "nat \<Rightarrow> nat \<Rightarrow> nat" where
  "index2 bits k = (k div 2 ^ LEAF_BITS3 bits) mod 2 ^ INTERIOR_BITS3 bits"

definition index3 :: "nat \<Rightarrow> nat \<Rightarrow> nat" where
  "index3 bits k = k mod 2 ^ LEAF_BITS3 bits"

definition PageMap3_get :: "nat \<Rightarrow> 'v pm3 \<Rightarrow> nat \<Rightarrow> 'v option" where
  "PageMap3_get bits root k =
     (if k div 2 ^ bits > 0 then None
      else case root (index1 bits k) of
          None \<Rightarrow> None
        | Some node \<Rightarrow>
            (case node (index2 bits k) of None \<Rightarrow> None | Some leaf \<Rightarrow> leaf (index3 bits k)))"

definition PageMap3_set :: "nat \<Rightarrow> 'v pm3 \<Rightarrow> nat \<Rightarrow> 'v option \<Rightarrow> 'v pm3 option" where
  "PageMap3_set bits root k v =
     (if index1 bits k \<ge> 2 ^ INTERIOR_BITS3 bits then None
      else case root (index1 bits k) of
          None \<Rightarrow> None
        | Some node \<Rightarrow>
            (case node (index2 bits k) of
               None \<Rightarrow> None
             | Some leaf \<Rightarrow>
                 Some (root(index1 bits k \<mapsto> node(index2 bits k \<mapsto> leaf(index3 bits k := v))))))"

definition NewNode :: "nat \<Rightarrow> 's allocator \<Rightarrow> 's \<Rightarrow> 'v node option \<times> 's" where
  "NewNode bits allocator s =
     (case allocator (8 * 2 ^ INTERIOR_BITS3 bits) s of
        (None, s') \<Rightarrow> (None, s')
      | (Some addr, s') \<Rightarrow> (Some (\<lambda>_. None), s'))"

text \<open>The body of the loop of \<open>Ensure\<close> for one key: the node, then the leaf.\<close>

definition Ensure3_node ::
  "nat \<Rightarrow> 's allocator \<Rightarrow> nat \<Rightarrow> 'v pm3 \<Rightarrow> 's \<Rightarrow> 'v node option \<times> 's" where
  "Ensure3_node bits allocator i1 root s =
     (case root i1 of Some node \<Rightarrow> (Some node, s) | None \<Rightarrow> NewNode bits allocator s)"

definition Ensure3_key ::
  "nat \<Rightarrow> 's allocator \<Rightarrow> nat \<Rightarrow> 'v pm3 \<Rightarrow> 's \<Rightarrow> bool \<times> 'v pm3 \<times> 's" where
  "Ensure3_key bits allocator key root s =
     (let i1 = index1 bits key; i2 = index2 bits key
      in if i1 \<ge> 2 ^ INTERIOR_BITS3 bits \<or> i2 \<ge> 2 ^ INTERIOR_BITS3 bits then (False, root, s)
         else case Ensure3_node bits allocator i1 root s of
             (None, s1) \<Rightarrow> (False, root, s1)
           | (Some node, s1) \<Rightarrow>
               (case node i2 of
                  Some leaf \<Rightarrow> (True, root(i1 \<mapsto> node), s1)
                | None \<Rightarrow>
                    (case allocator (8 * 2 ^ LEAF_BITS3 bits) s1 of
                       (None, s2) \<Rightarrow> (False, root(i1 \<mapsto> node), s2)
                     | (Some addr, s2) \<Rightarrow>
                         (True, root(i1 \<mapsto> node(i2 \<mapsto> empty_leaf)), s2))))"

lemma Ensure3_key_range:
  "fst (Ensure3_key bits allocator key root s) \<Longrightarrow> index1 bits key < 2 ^ INTERIOR_BITS3 bits"
  by (auto simp: Ensure3_key_def Let_def split: if_splits)

function Ensure3_loop ::
  "nat \<Rightarrow> 's allocator \<Rightarrow> nat \<Rightarrow> nat \<Rightarrow> 'v pm3 \<Rightarrow> 's \<Rightarrow> bool \<times> 'v pm3 \<times> 's" where
  "Ensure3_loop bits allocator limit key root s =
     (if key \<le> limit then
        let r = Ensure3_key bits allocator key root s
        in if fst r
           then Ensure3_loop bits allocator limit
                  ((key div 2 ^ LEAF_BITS3 bits + 1) * 2 ^ LEAF_BITS3 bits) (fst (snd r)) (snd (snd r))
           else r
      else (True, root, s))"
  by pat_completeness auto
termination
proof (relation "measure (\<lambda>(bits, allocator, limit, key, root, s).
      2 ^ (LEAF_BITS3 bits + INTERIOR_BITS3 bits + INTERIOR_BITS3 bits) - key)", goal_cases)
  case (2 bits allocator limit key root s r)
  then have "index1 bits key < 2 ^ INTERIOR_BITS3 bits" by (auto dest: Ensure3_key_range)
  then have "key < 2 ^ (LEAF_BITS3 bits + INTERIOR_BITS3 bits + INTERIOR_BITS3 bits)"
    unfolding index1_def by (rule key_below)
  then show ?case
    using next_key [of "2 ^ LEAF_BITS3 bits" key] by (auto intro!: diff_less_mono2)
qed simp

declare Ensure3_loop.simps [simp del]

definition PageMap3_Ensure ::
  "nat \<Rightarrow> 's allocator \<Rightarrow> nat \<Rightarrow> nat \<Rightarrow> 'v pm3 \<Rightarrow> 's \<Rightarrow> bool \<times> 'v pm3 \<times> 's" where
  "PageMap3_Ensure bits allocator start n root s =
     Ensure3_loop bits allocator (sub64 (add64 start n) 1) start root s"

function PageMap3_Next :: "nat \<Rightarrow> 'v pm3 \<Rightarrow> nat \<Rightarrow> 'v option" where
  "PageMap3_Next bits root k =
     (if k < 2 ^ bits then
        (case root (index1 bits k) of
           None \<Rightarrow>
             PageMap3_Next bits root
               ((index1 bits k + 1) * 2 ^ (LEAF_BITS3 bits + INTERIOR_BITS3 bits))
         | Some node \<Rightarrow>
             let found = (case node (index2 bits k) of
                            None \<Rightarrow> None
                          | Some leaf \<Rightarrow> scan_leaf (2 ^ LEAF_BITS3 bits) leaf (index3 bits k))
             in if found \<noteq> None then found
                else PageMap3_Next bits root
                       ((k div 2 ^ LEAF_BITS3 bits + 1) * 2 ^ LEAF_BITS3 bits))
      else None)"
  by pat_completeness auto
termination
proof (relation "measure (\<lambda>(bits, root, k). 2 ^ bits - k)", goal_cases)
  case (2 bits root k)
  then show ?case
    using next_key [of "2 ^ (LEAF_BITS3 bits + INTERIOR_BITS3 bits)" k]
    by (auto simp: index1_def intro!: diff_less_mono2)
next
  case (3 bits root k node found)
  then show ?case
    using next_key [of "2 ^ LEAF_BITS3 bits" k] by (auto intro!: diff_less_mono2)
qed simp

declare PageMap3_Next.simps [simp del]


subsection \<open>Notions of the specification\<close>

text \<open>Writing one value to \<open>n\<close> consecutive keys, the way the clients of a page map do.\<close>

primrec set_pages ::
  "('m \<Rightarrow> nat \<Rightarrow> 'v option \<Rightarrow> 'm option) \<Rightarrow> nat \<Rightarrow> nat \<Rightarrow> 'v option \<Rightarrow> 'm \<Rightarrow> 'm option" where
  "set_pages put x 0 v m = Some m"
| "set_pages put x (Suc n) v m =
     (case put m x v of None \<Rightarrow> None | Some m' \<Rightarrow> set_pages put (x + 1) n v m')"

text \<open>The first value at or after \<open>k\<close> and below \<open>n\<close>.\<close>

definition first_from :: "(nat \<Rightarrow> 'v option) \<Rightarrow> nat \<Rightarrow> nat \<Rightarrow> 'v option" where
  "first_from f k n =
     (case find (\<lambda>j. f j \<noteq> None) [k..<n] of None \<Rightarrow> None | Some j \<Rightarrow> f j)"

text \<open>The keys whose slot exists, for each map.\<close>

definition ensured1 :: "nat \<Rightarrow> 'v pm1 \<Rightarrow> nat \<Rightarrow> bool" where
  "ensured1 bits m k \<longleftrightarrow> k < 2 ^ bits"

definition ensured2 :: "nat \<Rightarrow> 'v pm2 \<Rightarrow> nat \<Rightarrow> bool" where
  "ensured2 bits m k \<longleftrightarrow> k < 2 ^ bits \<and> m (k div 2 ^ LEAF_BITS2 bits) \<noteq> None"

definition ensured3 :: "nat \<Rightarrow> 'v pm3 \<Rightarrow> nat \<Rightarrow> bool" where
  "ensured3 bits m k \<longleftrightarrow> k < 2 ^ bits
     \<and> (\<exists>node. m (index1 bits k) = Some node \<and> node (index2 bits k) \<noteq> None)"

definition slot3 :: "'v pm3 \<Rightarrow> nat \<Rightarrow> nat \<Rightarrow> 'v leaf option" where
  "slot3 m i j = (case m i of None \<Rightarrow> None | Some node \<Rightarrow> node j)"

subsection \<open>The loop of Ensure\<close>

text \<open>
  What the loops of the two- and the three-level map share: a step that makes one block of
  keys usable and changes no value, and a loop that takes it block by block.
\<close>

locale radix_ensure =
  fixes get :: "'m \<Rightarrow> nat \<Rightarrow> 'v option"
    and ensured :: "'m \<Rightarrow> nat \<Rightarrow> bool"
    and width top :: nat
    and step :: "nat \<Rightarrow> 'm \<Rightarrow> 's \<Rightarrow> bool \<times> 'm \<times> 's"
    and loop :: "nat \<Rightarrow> nat \<Rightarrow> 'm \<Rightarrow> 's \<Rightarrow> bool \<times> 'm \<times> 's"
  assumes width_pos: "0 < width"
    and loop_eq: "loop limit key m s =
       (if key \<le> limit then
          let r = step key m s
          in if fst r then loop limit ((key div width + 1) * width) (fst (snd r)) (snd (snd r)) else r
        else (True, m, s))"
    and step_get: "get (fst (snd (step key m s))) = get m"
    and step_mono: "ensured m j \<Longrightarrow> ensured (fst (snd (step key m s))) j"
    and step_ok: "fst (step key m s) \<Longrightarrow> j div width = key div width
       \<Longrightarrow> ensured (fst (snd (step key m s))) j"
    and ensured_below: "ensured m j \<Longrightarrow> j < top"
begin

lemma key_mono: "fst (step key m s) \<Longrightarrow> key < top \<and> key < (key div width + 1) * width"
  using ensured_below [OF step_ok, of key m s key] next_key [OF width_pos] by simp

lemma same_block: "key \<le> j \<Longrightarrow> j < (key div width + 1) * width \<Longrightarrow> j div width = key div width"
  using div_le_mono [of key j width] less_mult_imp_div_less [of j "key div width + 1" width] by simp

lemma loop_get_mono:
  "get (fst (snd (loop limit key m s))) = get m
   \<and> (ensured m j \<longrightarrow> ensured (fst (snd (loop limit key m s))) j)"
proof (induction "top - key" arbitrary: key m s rule: less_induct)
  case less
  let ?r = "step key m s" and ?k = "(key div width + 1) * width"
  show ?case
  proof (cases "key \<le> limit \<and> fst ?r")
    case True
    then have "top - ?k < top - key" using key_mono [of key m s] by auto
    from less [OF this, of "fst (snd ?r)" "snd (snd ?r)"] True show ?thesis
      by (subst (1 2) loop_eq) (auto simp: Let_def step_get step_mono)
  next
    case False
    then show ?thesis by (subst (1 2) loop_eq) (auto simp: Let_def step_get step_mono)
  qed
qed

lemma loop_ok:
  assumes "fst (loop limit key m s)" and "key \<le> j" and "j \<le> limit"
  shows "ensured (fst (snd (loop limit key m s))) j"
  using assms
proof (induction "top - key" arbitrary: key m s rule: less_induct)
  case less
  let ?r = "step key m s" and ?k = "(key div width + 1) * width"
  let ?l = "loop limit ?k (fst (snd ?r)) (snd (snd ?r))"
  have le: "key \<le> limit" using less.prems by simp
  then have r: "fst ?r" using less.prems(1) by (subst (asm) loop_eq) (auto simp: Let_def split: if_splits)
  with le have eq: "loop limit key m s = ?l" by (subst loop_eq) (simp add: Let_def)
  show ?case
  proof (cases "?k \<le> j")
    case True
    have "top - ?k < top - key" using key_mono [OF r] by auto
    from less.hyps [OF this, of "fst (snd ?r)" "snd (snd ?r)"] True less.prems eq show ?thesis by simp
  next
    case False
    then have "ensured (fst (snd ?r)) j" using less.prems by (intro step_ok [OF r] same_block) auto
    then show ?thesis unfolding eq using loop_get_mono by blast
  qed
qed

end

subsection \<open>The interface of a page map\<close>

locale page_map =
  fixes get :: "'m \<Rightarrow> nat \<Rightarrow> 'v option"
    and put :: "'m \<Rightarrow> nat \<Rightarrow> 'v option \<Rightarrow> 'm option"
    and Ensure :: "nat \<Rightarrow> nat \<Rightarrow> 'm \<Rightarrow> 's \<Rightarrow> bool \<times> 'm \<times> 's"
    and Next :: "'m \<Rightarrow> nat \<Rightarrow> 'v option"
    and ensured :: "'m \<Rightarrow> nat \<Rightarrow> bool"
    and top :: nat
  assumes put_ensured: "ensured m k \<Longrightarrow> \<exists>m'. put m k v = Some m'"
    and get_put: "put m k v = Some m' \<Longrightarrow> get m' j = (if j = k then v else get m j)"
    and ensured_put: "put m k v = Some m' \<Longrightarrow> ensured m' j = ensured m j"
    and get_ensured: "get m k \<noteq> None \<Longrightarrow> ensured m k"
    and ensured_top: "ensured m k \<Longrightarrow> k < top"
    and get_Ensure: "get (fst (snd (Ensure x n m s))) = get m"
    and ensured_mono: "ensured m j \<Longrightarrow> ensured (fst (snd (Ensure x n m s))) j"
    and Ensure_ok: "fst (Ensure x n m s) \<Longrightarrow> x \<le> top \<Longrightarrow> 0 < n \<Longrightarrow> x + n \<le> 2 ^ 64
       \<Longrightarrow> x \<le> j \<Longrightarrow> j < x + n \<Longrightarrow> ensured (fst (snd (Ensure x n m s))) j"
    and Next_first: "Next m k = first_from (get m) k top"
begin

lemma set_pages_ok:
  assumes "\<forall>j. x \<le> j \<and> j < x + n \<longrightarrow> ensured m j"
  shows "\<exists>m'. set_pages put x n v m = Some m' \<and> ensured m' = ensured m
     \<and> get m' = (\<lambda>j. if x \<le> j \<and> j < x + n then v else get m j)"
  using assms
proof (induction n arbitrary: x m)
  case 0
  then show ?case by (auto simp: fun_eq_iff)
next
  case (Suc n)
  then obtain m1 where m1: "put m x v = Some m1" using put_ensured [of m x v] by auto
  note e = ensured_put [OF m1] and g = get_put [OF m1]
  have "\<forall>j. x + 1 \<le> j \<and> j < x + 1 + n \<longrightarrow> ensured m1 j" using Suc.prems e by auto
  from Suc.IH [OF this] obtain m' where m': "set_pages put (x + 1) n v m1 = Some m'"
    "ensured m' = ensured m1" "get m' = (\<lambda>j. if x + 1 \<le> j \<and> j < x + 1 + n then v else get m1 j)"
    by blast
  then show ?case using m1 by (intro exI [of _ m']) (auto simp: e g fun_eq_iff)
qed

text \<open>What the page heap does when it grows or records a span: ensure, then set.\<close>

lemma Ensure_set_pages:
  assumes "Ensure x n m s = (True, m1, s1)" and "x \<le> top" "0 < n" "x + n \<le> 2 ^ 64"
    and "x \<le> y" "y + l \<le> x + n"
  shows "\<exists>m'. set_pages put y l v m1 = Some m' \<and> ensured m' = ensured m1
     \<and> get m' = (\<lambda>j. if y \<le> j \<and> j < y + l then v else get m j)"
proof -
  have "\<forall>j. y \<le> j \<and> j < y + l \<longrightarrow> ensured m1 j"
    using Ensure_ok [of x n m s] assms by auto
  from set_pages_ok [OF this, of v] get_Ensure [of x n m s] assms(1) show ?thesis
    by (auto simp: fun_eq_iff)
qed

end

text \<open>The radix trees refuse every range that leaves the map, also one that starts outside it.\<close>

locale page_map_total = page_map +
  assumes Ensure_range: "fst (Ensure x n m s) \<Longrightarrow> 0 < n \<Longrightarrow> x + n \<le> 2 ^ 64 \<Longrightarrow> x + n \<le> top"
begin

lemma Ensure_outside: "top < x + n \<Longrightarrow> 0 < n \<Longrightarrow> x + n \<le> 2 ^ 64 \<Longrightarrow> \<not> fst (Ensure x n m s)"
  using Ensure_range [of x n m s] by auto

end

subsection \<open>First value in a range\<close>

lemma first_from_step:
  "k < n \<Longrightarrow> first_from f k n = (if f k \<noteq> None then f k else first_from f (k + 1) n)"
  by (simp add: first_from_def upt_conv_Cons)

lemma first_from_end: "n \<le> k \<Longrightarrow> first_from f k n = None"
  by (simp add: first_from_def)

lemma first_from_skip:
  assumes "\<forall>j. k \<le> j \<and> j < k' \<longrightarrow> f j = None" and "k \<le> k'" and "k' \<le> n"
  shows "first_from f k n = first_from f k' n"
  using assms
proof (induction "k' - k" arbitrary: k)
  case 0
  then show ?case by simp
next
  case (Suc d)
  then have "first_from f k n = first_from f (k + 1) n"
    by (subst first_from_step) auto
  also have "\<dots> = first_from f k' n" using Suc by (intro Suc.hyps(1)) auto
  finally show ?case .
qed

lemma scan_leaf_first:
  assumes "\<forall>i < len. f (base + i) = vals i" and "base + len \<le> n" and "i \<le> len"
  shows "first_from f (base + i) n =
     (if scan_leaf len vals i \<noteq> None then scan_leaf len vals i else first_from f (base + len) n)"
  using assms
proof (induction len vals i rule: scan_leaf.induct)
  case (1 len vals i)
  show ?case
  proof (cases "i < len")
    case True
    have "first_from f (base + i) n
        = (if vals i \<noteq> None then vals i else first_from f (base + (i + 1)) n)"
      using True "1.prems" by (subst first_from_step) (auto simp: add.assoc)
    moreover have "scan_leaf len vals i
        = (if vals i \<noteq> None then vals i else scan_leaf len vals (i + 1))"
      using True by (subst scan_leaf.simps) simp
    ultimately show ?thesis using 1 True by auto
  next
    case False
    with "1.prems"(3) have "i = len" by simp
    then show ?thesis by (subst (1 2) scan_leaf.simps) simp
  qed
qed

lemma scan_leaf_empty: "scan_leaf len (\<lambda>_. None) i = None"
proof (induction len "\<lambda>_ :: nat. None :: 'a option" i rule: scan_leaf.induct)
  case (1 len i)
  then show ?case by (subst scan_leaf.simps) simp
qed

lemma first_from_block:
  assumes "\<forall>i < len. f (base + i) = (case slot of None \<Rightarrow> None | Some leaf \<Rightarrow> leaf i)"
    and "base + len \<le> n" and "i \<le> len"
    and "found = (case slot of None \<Rightarrow> None | Some leaf \<Rightarrow> scan_leaf len leaf i)"
  shows "first_from f (base + i) n = (if found \<noteq> None then found else first_from f (base + len) n)"
proof (cases slot)
  case None
  with scan_leaf_first [where f = f and vals = "\<lambda>_. None", OF _ assms(2,3)] assms(1,4) show ?thesis
    by (simp add: scan_leaf_empty)
next
  case (Some leaf)
  with scan_leaf_first [where f = f and vals = leaf, OF _ assms(2,3)] assms(1,4) show ?thesis by simp
qed

lemma block_top: "(k::nat) < b * c \<Longrightarrow> (k div b + 1) * b \<le> b * c"
  by (metis Suc_eq_plus1 Suc_leI less_mult_imp_div_less mult.commute mult_le_mono2)

lemma div_mod_inj: "(j::nat) div b = k div b \<Longrightarrow> j mod b = k mod b \<Longrightarrow> j = k"
  by (metis div_mult_mod_eq)

subsection \<open>The single-level map\<close>

lemma PageMap1_get_in: "k < 2 ^ bits \<Longrightarrow> PageMap1_get bits m k = m k"
  by (simp add: PageMap1_get_def)

lemma PageMap1_Next_first: "PageMap1_Next bits m k = first_from (PageMap1_get bits m) k (2 ^ bits)"
proof (induction bits m k rule: PageMap1_Next.induct)
  case (1 bits m k)
  show ?case
  proof (cases "k < 2 ^ bits")
    case True
    with 1 show ?thesis
      by (subst PageMap1_Next.simps) (simp add: first_from_step [OF True] PageMap1_get_in)
  next
    case False
    then show ?thesis by (subst PageMap1_Next.simps) (simp add: first_from_end)
  qed
qed

lemma PageMap1_Ensure_in:
  assumes "PageMap1_Ensure bits x n" and "x \<le> 2 ^ bits" and "x + n \<le> 2 ^ 64"
  shows "x + n \<le> 2 ^ bits"
proof (cases "n = 0")
  case False
  then have "x mod 2 ^ 64 = x" using assms(3) by simp
  then have "sub64 (2 ^ bits) x = (2 ^ bits - x + 2 ^ 64) mod 2 ^ 64"
    using assms(2,3) by (simp add: sub64_def)
  also have "\<dots> \<le> 2 ^ bits - x" by simp
  finally show ?thesis using assms by (simp add: PageMap1_Ensure_def)
qed (use assms in simp)

interpretation pm1: page_map "PageMap1_get bits" "PageMap1_set bits"
    "\<lambda>x n m s. (PageMap1_Ensure bits x n, m, s)" "PageMap1_Next bits" "ensured1 bits" "2 ^ bits"
  for bits
  by unfold_locales
     (auto simp: PageMap1_get_def PageMap1_set_def ensured1_def PageMap1_Next_first
        div_eq_0_iff split: if_splits dest!: PageMap1_Ensure_in)

subsection \<open>The two-level map\<close>

lemma bits2: "LEAF_BITS2 bits + ROOT_BITS2 bits = bits"
  by (simp add: LEAF_BITS2_def ROOT_BITS2_def)

lemma top2: "(2::nat) ^ bits = 2 ^ LEAF_BITS2 bits * 2 ^ ROOT_BITS2 bits"
  by (simp flip: power_add add: bits2)

lemma Ensure2_key_get: "PageMap2_get bits (fst (snd (Ensure2_key bits allocator key m s))) = PageMap2_get bits m"
  by (auto simp: Ensure2_key_def PageMap2_get_def Let_def empty_leaf_def fun_eq_iff
      split: option.splits prod.splits)

interpretation re2: radix_ensure "PageMap2_get bits" "ensured2 bits" "2 ^ LEAF_BITS2 bits" "2 ^ bits"
    "Ensure2_key bits allocator" "Ensure2_loop bits allocator"
  for bits allocator
proof (unfold_locales, goal_cases)
  case (2 limit key m s)
  show ?case by (subst Ensure2_loop.simps) simp
next
  case (5 key m s j)
  from Ensure2_key_range [OF 5(1)] 5(2) have "j div 2 ^ LEAF_BITS2 bits < 2 ^ ROOT_BITS2 bits" by simp
  then have "j < 2 ^ bits" using key_below [of j] bits2 by metis
  then show ?case using 5
    by (auto simp: Ensure2_key_def ensured2_def Let_def split: option.splits prod.splits if_splits)
next
  case (3 key m s)
  show ?case by (rule Ensure2_key_get)
qed (auto simp: Ensure2_key_def ensured2_def Let_def split: option.splits prod.splits)

lemma Ensure_limit:
  assumes "0 < n" and "x + n \<le> 2 ^ 64"
  shows "sub64 (add64 x n) 1 = x + n - 1"
proof (cases "x + n = 2 ^ 64")
  case True
  then show ?thesis by (simp add: add64_def sub64_def)
next
  case False
  then show ?thesis using assms by (simp add: add64_eq sub64_eq)
qed

lemma PageMap2_Ensure_eq:
  "0 < n \<Longrightarrow> x + n \<le> 2 ^ 64 \<Longrightarrow>
    PageMap2_Ensure bits allocator x n m s = Ensure2_loop bits allocator (x + n - 1) x m s"
  by (simp only: PageMap2_Ensure_def Ensure_limit)

lemma PageMap2_Next_first: "PageMap2_Next bits m k = first_from (PageMap2_get bits m) k (2 ^ bits)"
proof (induction bits m k rule: PageMap2_Next.induct)
  case (1 bits m k)
  let ?b = "2 ^ LEAF_BITS2 bits :: nat"
  let ?i1 = "k div ?b" and ?f = "PageMap2_get bits m"
  show ?case
  proof (cases "k < 2 ^ bits")
    case True
    have le: "?i1 * ?b + ?b \<le> 2 ^ bits"
      using block_top [of k ?b "2 ^ ROOT_BITS2 bits"] True by (simp add: top2 [of bits] algebra_simps)
    have f: "?f (?i1 * ?b + i) = (case m ?i1 of None \<Rightarrow> None | Some leaf \<Rightarrow> leaf i)" if "i < ?b" for i
      using le that by (simp add: PageMap2_get_def Let_def)
    define found where "found = (case m ?i1 of None \<Rightarrow> None | Some leaf \<Rightarrow> scan_leaf ?b leaf (k mod ?b))"
    have step: "PageMap2_Next bits m k
        = (if found \<noteq> None then found else PageMap2_Next bits m ((?i1 + 1) * ?b))"
      using True by (subst PageMap2_Next.simps) (simp add: Let_def found_def)
    have "first_from ?f (?i1 * ?b + k mod ?b) (2 ^ bits)
        = (if found \<noteq> None then found else first_from ?f (?i1 * ?b + ?b) (2 ^ bits))"
      by (rule first_from_block [OF _ le _ found_def]) (simp_all add: f)
    then have "first_from ?f k (2 ^ bits)
        = (if found \<noteq> None then found else first_from ?f ((?i1 + 1) * ?b) (2 ^ bits))"
      by (simp only: div_mult_mod_eq distrib_right mult_1)
    then show ?thesis using step "1.IH" [OF True refl found_def] by simp
  next
    case False
    then show ?thesis by (subst PageMap2_Next.simps) (simp add: first_from_end)
  qed
qed

interpretation pm2: page_map_total "PageMap2_get bits" "PageMap2_set bits"
    "PageMap2_Ensure bits allocator" "PageMap2_Next bits" "ensured2 bits" "2 ^ bits"
  for bits allocator
proof (unfold_locales, goal_cases)
  case (1 m k v)
  then have "k div 2 ^ LEAF_BITS2 bits < 2 ^ ROOT_BITS2 bits"
    by (simp add: ensured2_def top2 [of bits] div_less_iff_less_mult mult.commute)
  with 1 show ?case by (auto simp: ensured2_def PageMap2_set_def Let_def)
next
  case (2 m k v m' j)
  then show ?case
    using div_mod_inj [of j "2 ^ LEAF_BITS2 bits" k] key_below [of k "LEAF_BITS2 bits" "ROOT_BITS2 bits"]
    by (auto simp: PageMap2_set_def PageMap2_get_def Let_def bits2 not_le split: if_splits option.splits)
next
  case (3 m k v m' j)
  then show ?case
    by (auto simp: PageMap2_set_def ensured2_def Let_def split: if_splits option.splits)
next
  case (4 m k)
  then show ?case
    by (auto simp: PageMap2_get_def ensured2_def Let_def div_eq_0_iff split: if_splits option.splits)
next
  case (5 m k)
  then show ?case by (simp add: ensured2_def)
next
  case (6 x n m s)
  show ?case by (simp only: PageMap2_Ensure_def re2.loop_get_mono)
next
  case (7 m j x n s)
  then show ?case by (simp only: PageMap2_Ensure_def re2.loop_get_mono)
next
  case (8 x n m s j)
  then show ?case using re2.loop_ok [of bits allocator "x + n - 1" x m s j]
    by (simp only: PageMap2_Ensure_eq)
next
  case (9 m k)
  show ?case by (rule PageMap2_Next_first)
next
  case (10 x n m s)
  then have "ensured2 bits (fst (snd (PageMap2_Ensure bits allocator x n m s))) (x + n - 1)"
    using re2.loop_ok [of bits allocator "x + n - 1" x m s "x + n - 1"]
    by (simp only: PageMap2_Ensure_eq)
  then show ?case using 10 by (auto simp: ensured2_def)
qed

subsection \<open>The three-level map\<close>

text \<open>\<open>LEAF_BITS\<close> is not negative from two bits on, which the interpretation below assumes.\<close>

lemma bits3: "2 \<le> bits \<Longrightarrow> LEAF_BITS3 bits + INTERIOR_BITS3 bits + INTERIOR_BITS3 bits = bits"
  by (simp add: LEAF_BITS3_def INTERIOR_BITS3_def)

lemma index1_block: "index1 bits k = (k div 2 ^ LEAF_BITS3 bits) div 2 ^ INTERIOR_BITS3 bits"
  by (simp add: index1_def power_add div_mult2_eq)

lemma index_block:
  "j div 2 ^ LEAF_BITS3 bits = k div 2 ^ LEAF_BITS3 bits
    \<Longrightarrow> index1 bits j = index1 bits k \<and> index2 bits j = index2 bits k"
  by (simp add: index1_block index2_def)

lemma index_inj:
  assumes "index1 bits j = index1 bits k" and "index2 bits j = index2 bits k"
    and "index3 bits j = index3 bits k"
  shows "j = k"
proof -
  have "j div 2 ^ LEAF_BITS3 bits = k div 2 ^ LEAF_BITS3 bits"
    using assms(1,2) unfolding index1_block index2_def by (rule div_mod_inj)
  from div_mod_inj [OF this] assms(3) show ?thesis unfolding index3_def .
qed

lemma index1_below:
  assumes "2 \<le> bits"
  shows "index1 bits k < 2 ^ INTERIOR_BITS3 bits \<longleftrightarrow> k < 2 ^ bits"
proof -
  have "index1 bits k < 2 ^ INTERIOR_BITS3 bits
      \<longleftrightarrow> k < 2 ^ (LEAF_BITS3 bits + INTERIOR_BITS3 bits + INTERIOR_BITS3 bits)"
    by (simp add: index1_def power_add div_less_iff_less_mult mult.commute mult.left_commute)
  then show ?thesis by (simp only: bits3 [OF assms])
qed

text \<open>The leaf slot of a pair of indices; all that a step changes is an empty slot.\<close>

lemma PageMap3_get_slot:
  "PageMap3_get bits m k = (if k div 2 ^ bits > 0 then None
     else case slot3 m (index1 bits k) (index2 bits k) of None \<Rightarrow> None | Some leaf \<Rightarrow> leaf (index3 bits k))"
  by (simp add: PageMap3_get_def slot3_def split: option.split)

lemma ensured3_slot:
  "ensured3 bits m k \<longleftrightarrow> k < 2 ^ bits \<and> slot3 m (index1 bits k) (index2 bits k) \<noteq> None"
  by (auto simp: ensured3_def slot3_def split: option.splits)

lemma Ensure3_key_slot:
  fixes bits key :: nat and allocator :: "'s allocator" and m :: "'v pm3" and s :: 's
  defines "r \<equiv> Ensure3_key bits allocator key m s"
  shows "(slot3 (fst (snd r)) i j = slot3 m i j
            \<or> slot3 m i j = None \<and> slot3 (fst (snd r)) i j = Some empty_leaf)
     \<and> (fst r \<longrightarrow> slot3 (fst (snd r)) (index1 bits key) (index2 bits key) \<noteq> None)"
proof (cases "index1 bits key \<ge> 2 ^ INTERIOR_BITS3 bits \<or> index2 bits key \<ge> 2 ^ INTERIOR_BITS3 bits")
  case True
  then have "r = (False, m, s)" unfolding r_def Ensure3_key_def Let_def by (simp only: if_True)
  then show ?thesis by simp
next
  case False
  obtain n s1 where n: "Ensure3_node bits allocator (index1 bits key) m s = (n, s1)" by fastforce
  show ?thesis
  proof (cases n)
    case None
    with False n have "r = (False, m, s1)" by (simp add: r_def Ensure3_key_def Let_def)
    then show ?thesis by simp
  next
    case (Some node)
    have slot: "node = (\<lambda>j. slot3 m (index1 bits key) j)"
      using n Some by (auto simp: Ensure3_node_def NewNode_def slot3_def fun_eq_iff split: option.splits prod.splits)
    obtain a s2 where a: "allocator (8 * 2 ^ LEAF_BITS3 bits) s1 = (a, s2)" by fastforce
    have "r = (if node (index2 bits key) \<noteq> None then (True, m(index1 bits key \<mapsto> node), s1)
        else if a = None then (False, m(index1 bits key \<mapsto> node), s2)
        else (True, m(index1 bits key \<mapsto> node(index2 bits key \<mapsto> empty_leaf)), s2))"
      using False n Some a by (auto simp: r_def Ensure3_key_def Let_def split: option.splits)
    then show ?thesis by (auto simp: slot3_def slot)
  qed
qed

lemma Ensure3_key_get:
  "PageMap3_get bits (fst (snd (Ensure3_key bits allocator key m s))) = PageMap3_get bits m"
proof
  fix k
  show "PageMap3_get bits (fst (snd (Ensure3_key bits allocator key m s))) k = PageMap3_get bits m k"
    using Ensure3_key_slot [of bits allocator key m s "index1 bits k" "index2 bits k"]
    by (auto simp: PageMap3_get_slot empty_leaf_def)
qed

lemma Ensure3_key_mono:
  "ensured3 bits m j \<Longrightarrow> ensured3 bits (fst (snd (Ensure3_key bits allocator key m s))) j"
  using Ensure3_key_slot [of bits allocator key m s "index1 bits j" "index2 bits j"]
  by (auto simp: ensured3_slot)

lemma Ensure3_key_ok:
  assumes "fst (Ensure3_key bits allocator key m s)" and "2 \<le> bits"
    and "j div 2 ^ LEAF_BITS3 bits = key div 2 ^ LEAF_BITS3 bits"
  shows "ensured3 bits (fst (snd (Ensure3_key bits allocator key m s))) j"
proof -
  note ix = index_block [OF assms(3)]
  have "index1 bits j < 2 ^ INTERIOR_BITS3 bits" using Ensure3_key_range [OF assms(1)] ix by simp
  then have "j < 2 ^ bits" by (simp add: index1_below [OF assms(2)])
  with assms(1) ix Ensure3_key_slot [of bits allocator key m s] show ?thesis
    by (simp add: ensured3_slot)
qed

interpretation re3: radix_ensure "PageMap3_get (b + 2)" "ensured3 (b + 2)" "2 ^ LEAF_BITS3 (b + 2)"
    "2 ^ (b + 2)" "Ensure3_key (b + 2) allocator" "Ensure3_loop (b + 2) allocator"
  for b allocator
proof (unfold_locales, goal_cases)
  case (2 limit key m s)
  show ?case by (rule Ensure3_loop.simps)
next
  case (3 key m s)
  show ?case by (rule Ensure3_key_get)
next
  case (4 m j key s)
  then show ?case by (rule Ensure3_key_mono)
next
  case (5 key m s j)
  then show ?case by (intro Ensure3_key_ok) auto
qed (auto simp: ensured3_def)

lemma PageMap3_Ensure_eq:
  "0 < n \<Longrightarrow> x + n \<le> 2 ^ 64 \<Longrightarrow>
    PageMap3_Ensure bits allocator x n m s = Ensure3_loop bits allocator (x + n - 1) x m s"
  by (simp only: PageMap3_Ensure_def Ensure_limit)

lemma PageMap3_get_block:
  assumes "2 \<le> bits" and "k < 2 ^ bits" and "i < 2 ^ LEAF_BITS3 bits" and "m (index1 bits k) = Some node"
  shows "PageMap3_get bits m (k div 2 ^ LEAF_BITS3 bits * 2 ^ LEAF_BITS3 bits + i)
       = (case node (index2 bits k) of None \<Rightarrow> None | Some leaf \<Rightarrow> leaf i)"
proof -
  let ?b = "2 ^ LEAF_BITS3 bits :: nat"
  let ?j = "k div ?b * ?b + i"
  have j: "?j div ?b = k div ?b" "?j mod ?b = i" using assms(3) by simp_all
  note ix = index_block [OF j(1)]
  have "?j < 2 ^ bits" using ix index1_below [OF assms(1)] assms(2) by metis
  moreover have "index3 bits ?j = i" using j(2) by (simp only: index3_def)
  ultimately show ?thesis using ix assms(4) by (simp add: PageMap3_get_def split: option.split)
qed

lemma PageMap3_get_null:
  assumes "index1 bits j = index1 bits k" and "m (index1 bits k) = None"
  shows "PageMap3_get bits m j = None"
  using assms by (simp add: PageMap3_get_def)

lemma index1_next:
  assumes "k \<le> j" and "j < (index1 bits k + 1) * 2 ^ (LEAF_BITS3 bits + INTERIOR_BITS3 bits)"
  shows "index1 bits j = index1 bits k"
proof -
  have "index1 bits j < index1 bits k + 1"
    using assms(2) unfolding index1_def by (rule less_mult_imp_div_less)
  moreover have "index1 bits k \<le> index1 bits j" unfolding index1_def using assms(1) by (rule div_le_mono)
  ultimately show ?thesis by simp
qed

lemma blocks3_top:
  assumes "2 \<le> bits" and "k < 2 ^ bits"
  shows "k div 2 ^ LEAF_BITS3 bits * 2 ^ LEAF_BITS3 bits + 2 ^ LEAF_BITS3 bits \<le> 2 ^ bits"
    and "(index1 bits k + 1) * 2 ^ (LEAF_BITS3 bits + INTERIOR_BITS3 bits) \<le> 2 ^ bits"
proof -
  let ?L = "LEAF_BITS3 bits" and ?I = "INTERIOR_BITS3 bits"
  have p: "(2::nat) ^ bits = 2 ^ ?L * 2 ^ (?I + ?I)" "(2::nat) ^ bits = 2 ^ (?L + ?I) * 2 ^ ?I"
    by (simp_all only: power_add [symmetric] bits3 [OF assms(1)] add.assoc [symmetric])
  show "k div 2 ^ ?L * 2 ^ ?L + 2 ^ ?L \<le> 2 ^ bits"
    using block_top [of k "2 ^ ?L" "2 ^ (?I + ?I)"] assms(2) by (simp only: p(1) distrib_right mult_1)
  show "(index1 bits k + 1) * 2 ^ (?L + ?I) \<le> 2 ^ bits"
    using block_top [of k "2 ^ (?L + ?I)" "2 ^ ?I"] assms(2) by (simp only: p(2) index1_def)
qed

lemma PageMap3_Next_first:
  assumes "2 \<le> bits"
  shows "PageMap3_Next bits m k = first_from (PageMap3_get bits m) k (2 ^ bits)"
  using assms
proof (induction bits m k rule: PageMap3_Next.induct)
  case (1 bits m k)
  let ?b = "2 ^ LEAF_BITS3 bits :: nat" and ?f = "PageMap3_get bits m"
  let ?k = "(index1 bits k + 1) * 2 ^ (LEAF_BITS3 bits + INTERIOR_BITS3 bits)"
  show ?case
  proof (cases "k < 2 ^ bits")
    case True
    note top = blocks3_top [OF "1.prems" True]
    show ?thesis
    proof (cases "m (index1 bits k)")
      case None
      have "k \<le> ?k" unfolding index1_def by (rule less_imp_le [OF next_key]) simp
      moreover have "?f j = None" if "k \<le> j" "j < ?k" for j
        by (rule PageMap3_get_null [where m = m, OF index1_next [OF that] None])
      ultimately have "first_from ?f k (2 ^ bits) = first_from ?f ?k (2 ^ bits)"
        using top(2) by (intro first_from_skip) blast+
      moreover have "PageMap3_Next bits m k = PageMap3_Next bits m ?k"
        using True None by (subst PageMap3_Next.simps) simp
      ultimately show ?thesis using "1.IH"(1) [OF True None "1.prems"] by simp
    next
      case (Some node)
      define found where "found = (case node (index2 bits k) of None \<Rightarrow> None
          | Some leaf \<Rightarrow> scan_leaf ?b leaf (index3 bits k))"
      have step: "PageMap3_Next bits m k
          = (if found \<noteq> None then found else PageMap3_Next bits m ((k div ?b + 1) * ?b))"
        using True Some by (subst PageMap3_Next.simps) (simp add: Let_def found_def)
      have "first_from ?f (k div ?b * ?b + index3 bits k) (2 ^ bits)
          = (if found \<noteq> None then found else first_from ?f (k div ?b * ?b + ?b) (2 ^ bits))"
        by (rule first_from_block [OF _ top(1) _ found_def])
           (simp_all add: PageMap3_get_block [where m = m, OF "1.prems" True _ Some] index3_def)
      then have "first_from ?f k (2 ^ bits)
          = (if found \<noteq> None then found else first_from ?f ((k div ?b + 1) * ?b) (2 ^ bits))"
        by (simp only: div_mult_mod_eq distrib_right mult_1 index3_def)
      then show ?thesis using step "1.IH"(2) [OF True Some found_def _ "1.prems"] by simp
    qed
  next
    case False
    then show ?thesis by (subst PageMap3_Next.simps) (simp add: first_from_end)
  qed
qed

interpretation pm3: page_map_total "PageMap3_get (b + 2)" "PageMap3_set (b + 2)"
    "PageMap3_Ensure (b + 2) allocator" "PageMap3_Next (b + 2)" "ensured3 (b + 2)" "2 ^ (b + 2)"
  for b allocator
proof (unfold_locales, goal_cases)
  case (1 m k v)
  then show ?case
    using index1_below [of "b + 2" k] by (auto simp: ensured3_def PageMap3_set_def not_le)
next
  case (2 m k v m' j)
  then show ?case
    using index_inj [of "b + 2" j k] index1_below [of "b + 2" k]
    by (auto simp: PageMap3_set_def PageMap3_get_def not_le split: if_splits option.splits)
next
  case (3 m k v m' j)
  then show ?case
    by (auto simp: PageMap3_set_def ensured3_def split: if_splits option.splits)
next
  case (4 m k)
  then show ?case
    by (auto simp: PageMap3_get_def ensured3_def div_eq_0_iff split: if_splits option.splits)
next
  case (5 m k)
  then show ?case by (simp add: ensured3_def)
next
  case (6 x n m s)
  show ?case by (simp only: PageMap3_Ensure_def re3.loop_get_mono)
next
  case (7 m j x n s)
  then show ?case by (simp only: PageMap3_Ensure_def re3.loop_get_mono)
next
  case (8 x n m s j)
  then show ?case using re3.loop_ok [of b allocator "x + n - 1" x m s j]
    by (simp only: PageMap3_Ensure_eq)
next
  case (9 m k)
  show ?case by (rule PageMap3_Next_first) simp
next
  case (10 x n m s)
  then have "ensured3 (b + 2) (fst (snd (PageMap3_Ensure (b + 2) allocator x n m s))) (x + n - 1)"
    using re3.loop_ok [of b allocator "x + n - 1" x m s "x + n - 1"]
    by (simp only: PageMap3_Ensure_eq)
  then show ?case using 10 by (auto simp: ensured3_def)
qed

subsection \<open>Properties\<close>

text \<open>C17 After \<open>Ensure\<close> has succeeded on a range of the two-level map, writing a value to any
  part of that range page by page cannot crash, the value is then found at exactly those pages,
  every other page keeps what it had, and the range lies within the map.\<close>

theorem PageMap2_Ensure_set_get:
  assumes "PageMap2_Ensure bits allocator x n m s = (True, m1, s1)" and "0 < n" and "x + n \<le> 2 ^ 64"
    and "x \<le> y" and "y + l \<le> x + n"
  shows "x + n \<le> 2 ^ bits
     \<and> (\<exists>m'. set_pages (PageMap2_set bits) y l v m1 = Some m'
          \<and> PageMap2_get bits m' = (\<lambda>j. if y \<le> j \<and> j < y + l then v else PageMap2_get bits m j))"
proof -
  have top: "x + n \<le> 2 ^ bits" using pm2.Ensure_range [of bits allocator x n m s] assms by simp
  then have "x \<le> 2 ^ bits" by simp
  from pm2.Ensure_set_pages [OF assms(1) this assms(2-5)] top show ?thesis by blast
qed

theorem PageMap2_Ensure_set_get_witness:
  "\<exists>m1 s1. PageMap2_Ensure 4 (\<lambda>b s. (Some s, s + b)) 3 6 PageMap2_ctor (1024::nat) = (True, m1, s1)
     \<and> (\<exists>m'. set_pages (PageMap2_set 4) 4 3 (Some ''span'') m1 = Some m'
          \<and> PageMap2_get 4 m' 6 = Some ''span'' \<and> PageMap2_get 4 m' 7 = None)"
proof -
  obtain m1 s1 where e: "PageMap2_Ensure 4 (\<lambda>b s. (Some s, s + b)) 3 6 PageMap2_ctor (1024::nat)
      = (True, m1 :: string pm2, s1)"
    by (simp add: PageMap2_Ensure_eq Ensure2_loop.simps Ensure2_key_def LEAF_BITS2_def ROOT_BITS2_def
        PageMap2_ctor_def Let_def)
  from PageMap2_Ensure_set_get [OF e, of 4 3 "Some ''span''"] obtain m' where
    m': "set_pages (PageMap2_set 4) 4 3 (Some ''span'') m1 = Some m'"
    and g: "PageMap2_get 4 m'
      = (\<lambda>j. if 4 \<le> j \<and> j < 4 + 3 then Some ''span'' else PageMap2_get 4 PageMap2_ctor j)" by auto
  have "PageMap2_get 4 m' 6 = Some ''span''" and "PageMap2_get 4 m' 7 = None"
    unfolding g by (simp_all add: PageMap2_get_def PageMap2_ctor_def)
  then show ?thesis using e m' by blast
qed

text \<open>C19 The same for the three-level map, which the 64-bit targets without an address limit use.\<close>

theorem PageMap3_Ensure_set_get:
  assumes "PageMap3_Ensure (b + 2) allocator x n m s = (True, m1, s1)" and "0 < n" and "x + n \<le> 2 ^ 64"
    and "x \<le> y" and "y + l \<le> x + n"
  shows "x + n \<le> 2 ^ (b + 2)
     \<and> (\<exists>m'. set_pages (PageMap3_set (b + 2)) y l v m1 = Some m'
          \<and> PageMap3_get (b + 2) m'
              = (\<lambda>j. if y \<le> j \<and> j < y + l then v else PageMap3_get (b + 2) m j))"
proof -
  have top: "x + n \<le> 2 ^ (b + 2)" using pm3.Ensure_range [of b allocator x n m s] assms by simp
  then have "x \<le> 2 ^ (b + 2)" by simp
  from pm3.Ensure_set_pages [OF assms(1) this assms(2-5)] top show ?thesis by blast
qed

theorem PageMap3_Ensure_set_get_witness:
  "\<exists>m1 s1. PageMap3_Ensure (4 + 2) (\<lambda>b s. (Some s, s + b)) 14 5 PageMap3_ctor (1024::nat) = (True, m1, s1)
     \<and> (\<exists>m'. set_pages (PageMap3_set (4 + 2)) 15 2 (Some ''span'') m1 = Some m'
          \<and> PageMap3_get (4 + 2) m' 16 = Some ''span'')"
proof -
  obtain m1 s1 where e: "PageMap3_Ensure (4 + 2) (\<lambda>b s. (Some s, s + b)) 14 5 PageMap3_ctor (1024::nat)
      = (True, m1 :: string pm3, s1)"
    by (simp add: PageMap3_Ensure_eq Ensure3_loop.simps Ensure3_key_def Ensure3_node_def NewNode_def
        LEAF_BITS3_def INTERIOR_BITS3_def index1_def index2_def PageMap3_ctor_def Let_def)
  from PageMap3_Ensure_set_get [OF e, of 15 2 "Some ''span''"] obtain m' where
    m': "set_pages (PageMap3_set (4 + 2)) 15 2 (Some ''span'') m1 = Some m'"
    and g: "PageMap3_get (4 + 2) m'
      = (\<lambda>j. if 15 \<le> j \<and> j < 15 + 2 then Some ''span'' else PageMap3_get (4 + 2) PageMap3_ctor j)" by auto
  have "PageMap3_get (4 + 2) m' 16 = Some ''span''" by (simp only: g) simp
  then show ?thesis using e m' by blast
qed

text \<open>C18 In each of the three maps \<open>Next(k)\<close> returns the value of the first non-empty page at
  or after \<open>k\<close>, and \<open>nullptr\<close> when there is none; skipping whole absent nodes loses nothing.\<close>

theorem PageMap_Next_first:
  "PageMap1_Next bits m1 k = first_from (PageMap1_get bits m1) k (2 ^ bits)
   \<and> PageMap2_Next bits m2 k = first_from (PageMap2_get bits m2) k (2 ^ bits)
   \<and> PageMap3_Next (b + 2) m3 k = first_from (PageMap3_get (b + 2) m3) k (2 ^ (b + 2))"
  by (intro conjI pm1.Next_first pm2.Next_first pm3.Next_first)

text \<open>C20 \<open>Ensure\<close> of the single-level map accepts every range that starts beyond the end of its
  array, because the subtraction in its check wraps; a write there has no slot.\<close>

theorem PageMap1_Ensure_beyond:
  assumes "bits \<le> 62" and "2 ^ bits < x" and "x < 2 ^ 63" and "n \<le> 2 ^ 63"
  shows "PageMap1_Ensure bits x n \<and> PageMap1_set bits m x v = None"
proof -
  have "(2::nat) ^ bits \<le> 2 ^ 62" using assms(1) by (intro power_increasing) auto
  then have "sub64 (2 ^ bits) x = 2 ^ 64 - (x - 2 ^ bits)"
    using assms(2,3) by (simp add: sub64_def)
  with assms show ?thesis by (simp add: PageMap1_Ensure_def PageMap1_set_def)
qed

theorem PageMap1_Ensure_beyond_witness:
  "PageMap1_Ensure 19 600000 1 \<and> PageMap1_set 19 (\<lambda>_. None) 600000 (Some ''span'') = None"
  using PageMap1_Ensure_beyond [of 19 600000 1 "\<lambda>_. None" "Some ''span''"] by simp

end
