(* ===== verification/PackedCache.thy ===== *)
theory PackedCache
  imports Prelude
begin

text \<open>
  The packed cache: \<^verbatim>\<open>packed-cache-inl.h\<close>, a direct-mapped cache from page numbers to size
  classes in which each entry is one machine word: the high bits of the key over a 7-bit
  value. Words keep their width (\<open>64 word\<close> for \<open>uintptr_t\<close>, \<open>32 word\<close> for the value type); the
  array is a function of the hash.
\<close>

type_synonym packed_cache = "64 word \<Rightarrow> 64 word"

definition N_ONES :: "nat \<Rightarrow> 64 word" where
  "N_ONES n = (if n = 0 then 0 else push_bit (n - 1) 1 - 1 + push_bit (n - 1) 1)"

definition kHashbits :: nat where
  [simp]: "kHashbits = 16"

definition kValuebits :: nat where
  [simp]: "kValuebits = 7"

definition kInvalidMask :: "64 word" where
  [simp]: "kInvalidMask = 0x80"

definition Hash :: "64 word \<Rightarrow> 64 word" where
  "Hash key = key AND N_ONES kHashbits"

definition KeyToUpper :: "64 word \<Rightarrow> 64 word" where
  "KeyToUpper k = k XOR Hash k"

definition Clear :: packed_cache where
  "Clear = (\<lambda>_. 0x8080808080808080)"

definition TryGet :: "packed_cache \<Rightarrow> 64 word \<Rightarrow> 32 word option" where
  "TryGet array key =
     (let expected_entry = key AND NOT (N_ONES kHashbits);
          entry = array (Hash key) XOR expected_entry
      in if entry \<ge> push_bit kValuebits 1 then None else Some (ucast entry))"

definition Put :: "packed_cache \<Rightarrow> 64 word \<Rightarrow> 32 word \<Rightarrow> packed_cache" where
  "Put array key value = array(Hash key := KeyToUpper key OR ucast value)"

definition Invalidate :: "packed_cache \<Rightarrow> 64 word \<Rightarrow> packed_cache" where
  "Invalidate array key = array(Hash key := KeyToUpper key OR kInvalidMask)"

subsection \<open>What a cache promises\<close>

text \<open>The updates of a cache, and what a run of them means for a map from keys to values.\<close>

datatype cache_op = PutOp "64 word" "32 word" | InvalidateOp "64 word" | ClearOp

fun cache_step :: "cache_op \<Rightarrow> packed_cache \<Rightarrow> packed_cache" where
  "cache_step (PutOp k v) c = Put c k v"
| "cache_step (InvalidateOp k) c = Invalidate c k"
| "cache_step ClearOp c = Clear"

fun map_step :: "cache_op \<Rightarrow> (64 word \<rightharpoonup> 32 word) \<Rightarrow> (64 word \<rightharpoonup> 32 word)" where
  "map_step (PutOp k v) M = M(k \<mapsto> v)"
| "map_step (InvalidateOp k) M = M(k := None)"
| "map_step ClearOp M = Map.empty"

fun value_ok :: "cache_op \<Rightarrow> bool" where
  "value_ok (PutOp k v) = (v < 2 ^ kValuebits)"
| "value_ok _ = True"

text \<open>
  A cache may forget but never invents: a hit on another key after an update was a hit before.
\<close>

locale lossy_cache =
  fixes get :: "'c \<Rightarrow> 'k \<Rightarrow> 'v option"
    and put :: "'c \<Rightarrow> 'k \<Rightarrow> 'v \<Rightarrow> 'c"
    and inval :: "'c \<Rightarrow> 'k \<Rightarrow> 'c"
    and empty :: 'c
    and ok :: "'v \<Rightarrow> bool"
  assumes get_put: "ok v \<Longrightarrow> get (put c k v) k = Some v"
    and get_put_other: "ok v \<Longrightarrow> k' \<noteq> k \<Longrightarrow> get (put c k v) k' = Some w \<Longrightarrow> get c k' = Some w"
    and get_inval: "get (inval c k) k = None"
    and get_inval_other: "get (inval c k) k' = Some w \<Longrightarrow> get c k' = Some w"
    and get_empty: "get empty k = None"
begin

definition coherent :: "'c \<Rightarrow> ('k \<rightharpoonup> 'v) \<Rightarrow> bool" where
  "coherent c M \<longleftrightarrow> (\<forall>k v. get c k = Some v \<longrightarrow> M k = Some v)"

lemma coherentD: "coherent c M \<Longrightarrow> get c k = Some v \<Longrightarrow> M k = Some v"
  by (simp add: coherent_def)

lemma coherent_put: "ok v \<Longrightarrow> coherent c M \<Longrightarrow> coherent (put c k v) (M(k \<mapsto> v))"
  using get_put [of v c k] get_put_other [of v _ k c] by (force simp: coherent_def)

lemma coherent_inval: "coherent c M \<Longrightarrow> coherent (inval c k) (M(k := None))"
  using get_inval [of c k] get_inval_other [of c k] by (auto simp: coherent_def)

lemma coherent_empty: "coherent empty M"
  by (simp add: coherent_def get_empty)

end

subsection \<open>Words\<close>

lemma N_ONES_mask: "N_ONES 16 = mask 16"
  by (simp add: N_ONES_def push_bit_eq_mult mask_eq_exp_minus_1)

lemma bit_below: "(w :: 'a::len word) < 2 ^ k \<Longrightarrow> bit w n \<Longrightarrow> n < k"
  using less_mask_eq [of w k] by (metis bit_and_iff bit_mask_iff)

lemma below_bit:
  assumes "\<forall>n \<ge> k. \<not> bit (w :: 'a::len word) n" and "k < LENGTH('a)"
  shows "w < 2 ^ k"
proof -
  have "w AND mask k = w"
  proof (rule bit_word_eqI)
    fix n
    show "bit (w AND mask k) n = bit w n"
      using assms(1) by (cases "k \<le> n") (auto simp: bit_and_iff bit_mask_iff dest: bit_imp_le_length)
  qed
  with and_mask_less' [OF assms(2), of w] show ?thesis by simp
qed

lemma entry_valid: "push_bit kValuebits 1 \<le> (entry :: 64 word) \<longleftrightarrow> (\<exists>n \<ge> 7. bit entry n)"
proof -
  have "entry < 2 ^ 7 \<longleftrightarrow> (\<forall>n \<ge> 7. \<not> bit entry n)"
    using bit_below [of entry 7] below_bit [of 7 entry] by fastforce
  then show ?thesis by (simp add: push_bit_eq_mult flip: not_less)
qed

lemma bit_Hash: "bit (Hash k) n \<longleftrightarrow> bit k n \<and> n < 16"
  by (auto simp: Hash_def N_ONES_mask bit_and_iff bit_mask_iff dest: bit_imp_le_length)

lemma bit_KeyToUpper: "bit (KeyToUpper k) n \<longleftrightarrow> bit k n \<and> 16 \<le> n"
  by (auto simp: KeyToUpper_def bit_xor_iff bit_Hash)

lemma bit_expected: "bit (k AND NOT (N_ONES 16)) n \<longleftrightarrow> bit k n \<and> 16 \<le> n"
  by (auto simp: N_ONES_mask bit_and_iff bit_not_iff bit_mask_iff dest: bit_imp_le_length)

lemma key_eqI: "Hash k = Hash k' \<Longrightarrow> (\<And>n. 16 \<le> n \<Longrightarrow> bit k n = bit k' n) \<Longrightarrow> k = k'"
  by (rule bit_word_eqI) (metis bit_Hash linorder_not_le)

text \<open>A stored entry: the high bits of its key over a low part below the hash bits.\<close>

lemma TryGet_stored:
  assumes "array (Hash key') = KeyToUpper key OR low" and "\<And>n. bit low n \<Longrightarrow> n < 16"
    and "Hash key' = Hash key"
  shows "TryGet array key' = (if key' = key \<and> (\<forall>n \<ge> 7. \<not> bit low n) then Some (ucast low) else None)"
proof -
  define entry where "entry = array (Hash key') XOR (key' AND NOT (N_ONES kHashbits))"
  have b: "bit entry n = (if 16 \<le> n then bit key n \<noteq> bit key' n else bit low n)" for n
    using assms(2) [of n]
    by (auto simp: entry_def assms(1) bit_xor_iff bit_or_iff bit_KeyToUpper bit_expected)
  have valid: "(\<forall>n \<ge> 7. \<not> bit entry n) \<longleftrightarrow> key' = key \<and> (\<forall>n \<ge> 7. \<not> bit low n)"
    using key_eqI [OF assms(3)] assms(2) by (force simp: b)
  moreover have "key' = key \<Longrightarrow> entry = low"
    by (rule bit_word_eqI) (use assms(2) b in force)
  ultimately show ?thesis
    unfolding TryGet_def Let_def entry_def [symmetric] entry_valid by auto
qed

lemma TryGet_other: "array (Hash k) = array' (Hash k) \<Longrightarrow> TryGet array k = TryGet array' k"
  by (simp add: TryGet_def)

lemma bit_ucast32: "bit (ucast (v :: 32 word) :: 64 word) n = bit v n"
  by (auto simp: bit_ucast_iff dest: bit_imp_le_length)

lemma ucast_back: "ucast (ucast (v :: 32 word) :: 64 word) = v"
  by (rule bit_word_eqI) (simp add: bit_ucast_iff bit_ucast32)

lemma TryGet_Put:
  assumes "v < 2 ^ kValuebits"
  shows "TryGet (Put array k v) k' =
     (if Hash k' = Hash k then (if k' = k then Some v else None) else TryGet array k')"
proof (cases "Hash k' = Hash k")
  case True
  have low: "n < 7" if "bit (ucast v :: 64 word) n" for n
    using that assms bit_below [of v 7 n] by (simp add: bit_ucast32)
  then have "\<And>n. bit (ucast v :: 64 word) n \<Longrightarrow> n < 16" by fastforce
  from TryGet_stored [where low = "ucast v" and array = "Put array k v", OF _ this True] low True show ?thesis
    by (auto simp: Put_def ucast_back simp flip: not_less)
next
  case False
  then show ?thesis by (simp add: Put_def TryGet_def)
qed

lemma TryGet_Invalidate:
  "TryGet (Invalidate array k) k' = (if Hash k' = Hash k then None else TryGet array k')"
proof (cases "Hash k' = Hash k")
  case True
  have bits: "bit kInvalidMask n \<longleftrightarrow> n = 7" for n
    using bit_exp_iff [of 7 n, where ?'a = "64 word"] by auto
  then have "\<And>n. bit kInvalidMask n \<Longrightarrow> n < 16" by simp
  from TryGet_stored [where low = kInvalidMask and array = "Invalidate array k", OF _ this True] bits True show ?thesis
    by (auto simp: Invalidate_def simp del: kInvalidMask_def)
next
  case False
  then show ?thesis by (simp add: Invalidate_def TryGet_def)
qed

lemma TryGet_Clear: "TryGet Clear k = None"
proof -
  have "bit (0x8080808080808080 :: 64 word) 7" by simp
  then have "bit (Clear (Hash k) XOR (k AND NOT (N_ONES kHashbits))) 7"
    by (simp add: Clear_def bit_xor_iff bit_expected)
  then show ?thesis unfolding TryGet_def Let_def entry_valid by auto
qed

interpretation pc: lossy_cache TryGet Put Invalidate Clear "\<lambda>v. v < 2 ^ kValuebits"
  by unfold_locales (auto simp: TryGet_Put TryGet_Invalidate TryGet_Clear split: if_splits)

lemma coherent_step:
  "value_ok op \<Longrightarrow> pc.coherent c M \<Longrightarrow> pc.coherent (cache_step op c) (map_step op M)"
  by (cases op) (simp_all add: pc.coherent_put pc.coherent_inval pc.coherent_empty)

lemma coherent_run:
  "list_all value_ok ops \<Longrightarrow> pc.coherent c M \<Longrightarrow> pc.coherent (fold cache_step ops c) (fold map_step ops M)"
  by (induction ops arbitrary: c M) (simp_all add: coherent_step)

subsection \<open>Properties\<close>

text \<open>C5 A hit is never stale: after any sequence of \<open>Put\<close>, \<open>Invalidate\<close> and \<open>Clear\<close> with
  7-bit values, what \<open>TryGet\<close> returns for a key is the value last put for that very key and
  not invalidated since, although entries keep only part of the key.\<close>

theorem TryGet_sound:
  assumes "list_all value_ok ops" and "TryGet (fold cache_step ops Clear) k = Some v"
  shows "fold map_step ops Map.empty k = Some v"
  using coherent_run [OF assms(1) pc.coherent_empty] assms(2) by (rule pc.coherentD)

theorem TryGet_sound_witness:
  "fold map_step [PutOp 0x50001 3, PutOp 0x60001 9, InvalidateOp 0x70002] Map.empty 0x60001 = Some 9"
proof (rule TryGet_sound)
  show "TryGet (fold cache_step [PutOp 0x50001 3, PutOp 0x60001 9, InvalidateOp 0x70002] Clear) 0x60001
      = Some 9"
    by (simp add: TryGet_Put TryGet_Invalidate) (simp add: Hash_def N_ONES_mask mask_eq_exp_minus_1)
qed simp

end
