(* ===== verification/SystemAlloc.thy ===== *)
theory SystemAlloc
  imports Prelude
begin

text \<open>
  Memory from the operating system: \<^verbatim>\<open>system-alloc.cc\<close>. The system calls and the environment
  flags are the fields of a \<open>platform\<close>; \<open>'o\<close> is the state of the operating system, which the
  calls thread. Addresses are numbers and 0 is \<open>nullptr\<close>; \<open>sbrk\<close> and \<open>mmap\<close> report failure as
  \<open>(void*)-1\<close>. A function whose result is an option has the value \<^term>\<open>None\<close> where the process
  aborts or a loop never ends.
\<close>

record 'o platform =
  p_sbrk :: "nat \<Rightarrow> 'o \<Rightarrow> nat \<times> 'o"
  p_mmap :: "nat \<Rightarrow> nat \<Rightarrow> 'o \<Rightarrow> nat \<times> 'o"
  p_munmap :: "nat \<Rightarrow> nat \<Rightarrow> 'o \<Rightarrow> 'o"
  p_madvise :: "nat \<Rightarrow> nat \<Rightarrow> 'o \<Rightarrow> (bool \<times> bool) \<times> 'o"
  p_getpagesize :: nat
  skip_sbrk :: bool
  skip_mmap :: bool
  disable_memory_release :: bool
  kDebugMode :: bool

datatype sys_allocator = SbrkSysAllocator | MmapSysAllocator

record 'o sys =
  os :: 'o
  pagesize :: nat
  hint :: nat
  failed :: "nat \<Rightarrow> bool"
  allocs :: "nat \<Rightarrow> sys_allocator option"
  system_alloc_inited :: bool
  SystemTaken :: nat

definition MAP_FAILED :: nat where
  "MAP_FAILED = 2 ^ 64 - 1"

definition kAddressBits :: nat where
  [simp]: "kAddressBits = 48"

definition sizeof_MemoryAligner :: nat where
  [simp]: "sizeof_MemoryAligner = 64"

definition kMaxAllocators :: nat where
  [simp]: "kMaxAllocators = 2"

definition CheckAddressBits :: "nat \<Rightarrow> bool" where
  "CheckAddressBits ptr \<longleftrightarrow> ptr div 2 ^ kAddressBits = 0"

subsection \<open>The two allocators\<close>

text \<open>The rounding expression both of them use, in 64-bit arithmetic.\<close>

definition round_up64 :: "nat \<Rightarrow> nat \<Rightarrow> nat" where
  "round_up64 sz alignment = mul64 (sub64 (add64 sz alignment) 1 div alignment) alignment"

text \<open>Each allocator returns the pointer, the actual size and the new state.\<close>

definition SbrkSysAllocator_Alloc ::
  "'o platform \<Rightarrow> nat \<Rightarrow> nat \<Rightarrow> 'o sys \<Rightarrow> nat \<times> nat \<times> 'o sys" where
  "SbrkSysAllocator_Alloc pl sz alignment s =
     (if skip_sbrk pl then (0, 0, s)
      else if add64 sz alignment \<ge> 2 ^ 63 then (0, 0, s)
      else
        let sz = round_up64 sz alignment;
            (brk, o1) = p_sbrk pl 0 (os s)
        in if add64 brk sz < sz then (0, sz, s\<lparr>os := o1\<rparr>)
           else
             let (result, o2) = p_sbrk pl sz o1
             in if result = MAP_FAILED then (0, sz, s\<lparr>os := o2\<rparr>)
                else if result AND (alignment - 1) = 0 then (result, sz, s\<lparr>os := o2\<rparr>)
                else
                  let extra = alignment - (result AND (alignment - 1));
                      (r2, o3) = p_sbrk pl extra o2
                  in if r2 = add64 result sz then (add64 result extra, sz, s\<lparr>os := o3\<rparr>)
                     else
                       let (result, o4) = p_sbrk pl (sub64 (add64 sz alignment) 1) o3
                       in if result = MAP_FAILED then (0, sz, s\<lparr>os := o4\<rparr>)
                          else if result AND (alignment - 1) \<noteq> 0
                          then (add64 result (alignment - (result AND (alignment - 1))), sz, s\<lparr>os := o4\<rparr>)
                          else (result, sz, s\<lparr>os := o4\<rparr>))"

text \<open>The part of \<open>MmapSysAllocator::Alloc\<close> after the attempt to continue the last mapping.\<close>

definition mmap_full :: "'o platform \<Rightarrow> nat \<Rightarrow> nat \<Rightarrow> 'o sys \<Rightarrow> nat \<times> nat \<times> 'o sys" where
  "mmap_full pl sz alignment s =
     (let extra = (if alignment > pagesize s then alignment - pagesize s else 0);
          (result, o1) = p_mmap pl 0 (add64 sz extra) (os s)
      in if result = MAP_FAILED then (0, sz, s\<lparr>os := o1\<rparr>)
         else
           let adjust = (if result AND (alignment - 1) \<noteq> 0
                         then alignment - (result AND (alignment - 1)) else 0);
               o2 = (if adjust > 0 then p_munmap pl result adjust o1 else o1);
               o3 = (if adjust < extra
                     then p_munmap pl (add64 (add64 result adjust) sz) (extra - adjust) o2 else o2);
               ptr = add64 result adjust
           in (ptr, sz, s\<lparr>os := o3, hint := add64 ptr sz\<rparr>))"

definition MmapSysAllocator_Alloc ::
  "'o platform \<Rightarrow> nat \<Rightarrow> nat \<Rightarrow> 'o sys \<Rightarrow> nat \<times> nat \<times> 'o sys" where
  "MmapSysAllocator_Alloc pl sz alignment s =
     (if skip_mmap pl then (0, 0, s)
      else
        let s = (if pagesize s = 0 then s\<lparr>pagesize := p_getpagesize pl\<rparr> else s);
            alignment = (if alignment < pagesize s then pagesize s else alignment);
            aligned_size = round_up64 sz alignment
        in if aligned_size < sz then (0, 0, s)
           else if hint s \<noteq> 0 \<and> add64 (hint s) aligned_size > aligned_size
                   \<and> (hint s) AND (alignment - 1) = 0
           then
             let (ptr, o1) = p_mmap pl (hint s) aligned_size (os s)
             in if ptr AND (alignment - 1) = 0
                then (ptr, aligned_size, s\<lparr>os := o1, hint := add64 ptr aligned_size\<rparr>)
                else mmap_full pl aligned_size alignment
                       (s\<lparr>os := p_munmap pl ptr aligned_size o1\<rparr>)
           else mmap_full pl aligned_size alignment s)"

fun SysAllocator_Alloc ::
  "sys_allocator \<Rightarrow> 'o platform \<Rightarrow> nat \<Rightarrow> nat \<Rightarrow> 'o sys \<Rightarrow> nat \<times> nat \<times> 'o sys" where
  "SysAllocator_Alloc SbrkSysAllocator = SbrkSysAllocator_Alloc"
| "SysAllocator_Alloc MmapSysAllocator = MmapSysAllocator_Alloc"

subsection \<open>The default allocator\<close>

definition SetChildAllocator :: "sys_allocator \<Rightarrow> nat \<Rightarrow> 'o sys \<Rightarrow> 'o sys" where
  "SetChildAllocator alloc index s =
     (if index < kMaxAllocators
      then s\<lparr>allocs := (allocs s)(index := Some alloc), failed := (failed s)(index := False)\<rparr>
      else s)"

definition DefaultSysAllocator_ctor :: "'o sys \<Rightarrow> 'o sys" where
  "DefaultSysAllocator_ctor s = s\<lparr>failed := (\<lambda>_. True), allocs := (\<lambda>_. None)\<rparr>"

primrec DefaultSysAllocator_loop ::
  "'o platform \<Rightarrow> nat \<Rightarrow> nat \<Rightarrow> nat list \<Rightarrow> 'o sys \<Rightarrow> nat \<times> nat \<times> 'o sys" where
  "DefaultSysAllocator_loop pl sz alignment [] s =
     (0, 0, s\<lparr>failed := (\<lambda>i. if i < kMaxAllocators then False else failed s i)\<rparr>)"
| "DefaultSysAllocator_loop pl sz alignment (i # is) s =
     (case allocs s i of
        Some a \<Rightarrow>
          if \<not> failed s i then
            (case SysAllocator_Alloc a pl sz alignment s of
               (result, actual, s') \<Rightarrow>
                 if result \<noteq> 0 then (result, actual, s')
                 else DefaultSysAllocator_loop pl sz alignment is
                        (s'\<lparr>failed := (failed s')(i := True)\<rparr>))
          else DefaultSysAllocator_loop pl sz alignment is s
      | None \<Rightarrow> DefaultSysAllocator_loop pl sz alignment is s)"

definition DefaultSysAllocator_Alloc ::
  "'o platform \<Rightarrow> nat \<Rightarrow> nat \<Rightarrow> 'o sys \<Rightarrow> nat \<times> nat \<times> 'o sys" where
  "DefaultSysAllocator_Alloc pl sz alignment s =
     DefaultSysAllocator_loop pl sz alignment [0..<kMaxAllocators] s"

definition InitSystemAllocators :: "'o platform \<Rightarrow> 'o sys \<Rightarrow> 'o sys" where
  "InitSystemAllocators pl s =
     (let s = DefaultSysAllocator_ctor (s\<lparr>hint := 0\<rparr>)
      in if kDebugMode pl
         then SetChildAllocator SbrkSysAllocator 1 (SetChildAllocator MmapSysAllocator 0 s)
         else SetChildAllocator MmapSysAllocator 1 (SetChildAllocator SbrkSysAllocator 0 s))"

subsection \<open>The interface to the rest of the allocator\<close>

definition TCMalloc_SystemAlloc ::
  "'o platform \<Rightarrow> nat \<Rightarrow> nat \<Rightarrow> 'o sys \<Rightarrow> (nat \<times> nat \<times> 'o sys) option" where
  "TCMalloc_SystemAlloc pl sz alignment s =
     (if add64 sz alignment < sz then Some (0, 0, s)
      else
        let s = (if system_alloc_inited s then s
                 else (InitSystemAllocators pl s)\<lparr>system_alloc_inited := True\<rparr>);
            alignment = (if alignment < sizeof_MemoryAligner then sizeof_MemoryAligner else alignment);
            (result, actual_size, s) = DefaultSysAllocator_Alloc pl sz alignment s
        in if result \<noteq> 0 then
             if CheckAddressBits (sub64 (add64 result actual_size) 1)
             then Some (result, actual_size, s\<lparr>SystemTaken := add64 (SystemTaken s) actual_size\<rparr>)
             else None
           else Some (0, actual_size, s))"

text \<open>\<open>madvise\<close> answers whether it succeeded and whether \<open>errno\<close> is \<open>EAGAIN\<close>.\<close>

partial_function (option) release_loop ::
  "'o platform \<Rightarrow> nat \<Rightarrow> nat \<Rightarrow> 'o \<Rightarrow> (bool \<times> 'o) option" where
  "release_loop pl new_start len st =
     (case p_madvise pl new_start len st of
        ((result, retry), st') \<Rightarrow>
          if \<not> result \<and> retry then release_loop pl new_start len st' else Some (result, st'))"

definition release_range :: "nat \<Rightarrow> nat \<Rightarrow> nat \<Rightarrow> nat \<times> nat" where
  "release_range page start len =
     (let pagemask = page - 1
      in (sub64 (add64 start page) 1 AND not64 pagemask, add64 start len AND not64 pagemask))"

definition TCMalloc_SystemRelease ::
  "'o platform \<Rightarrow> nat \<Rightarrow> nat \<Rightarrow> 'o sys \<Rightarrow> (bool \<times> 'o sys) option" where
  "TCMalloc_SystemRelease pl start len s =
     (if disable_memory_release pl then Some (False, s)
      else
        let s = (if pagesize s = 0 then s\<lparr>pagesize := p_getpagesize pl\<rparr> else s);
            (new_start, new_end) = release_range (pagesize s) start len
        in if new_end > new_start
           then (case release_loop pl new_start (new_end - new_start) (os s) of
                   None \<Rightarrow> None
                 | Some (result, st) \<Rightarrow> Some (result, s\<lparr>os := st\<rparr>))
           else Some (False, s))"

text \<open>Without \<open>FREE_MMAP_PROT_NONE\<close> there is nothing to do to use released memory again.\<close>

definition TCMalloc_SystemCommit :: "nat \<Rightarrow> nat \<Rightarrow> 'o sys \<Rightarrow> 'o sys" where
  "TCMalloc_SystemCommit start len s = s"

subsection \<open>What the operating system promises\<close>

text \<open>
  \<open>mapped\<close> gives the bytes that the process has obtained. \<open>sbrk\<close> and \<open>mmap\<close> hand out bytes
  that were not mapped before, in the lower half of the address space and not at 0; \<open>mmap\<close>
  works in whole pages; \<open>munmap\<close> takes away at most its page-aligned argument and refuses a
  misaligned address; \<open>madvise\<close> takes away nothing.
\<close>

definition os_laws :: "'o platform \<Rightarrow> ('o \<Rightarrow> nat set) \<Rightarrow> bool" where
  "os_laws pl mapped \<longleftrightarrow>
     (\<exists>k. 0 < k \<and> k < 63 \<and> p_getpagesize pl = 2 ^ k)
   \<and> (\<forall>n st r st'. p_sbrk pl n st = (r, st') \<longrightarrow>
        (if r = MAP_FAILED then mapped st' = mapped st
         else 0 < r \<and> r + n \<le> 2 ^ 63 \<and> {r..<r + n} \<inter> mapped st = {}
              \<and> mapped st' = mapped st \<union> {r..<r + n}))
   \<and> (\<forall>h n st r st'. p_mmap pl h n st = (r, st') \<longrightarrow> p_getpagesize pl dvd n \<longrightarrow>
        (if r = MAP_FAILED then mapped st' = mapped st
         else 0 < r \<and> p_getpagesize pl dvd r \<and> r + n \<le> 2 ^ 63 \<and> {r..<r + n} \<inter> mapped st = {}
              \<and> mapped st' = mapped st \<union> {r..<r + n}))
   \<and> (\<forall>a n st. if p_getpagesize pl dvd a \<and> p_getpagesize pl dvd n
        then mapped st - {a..<a + n} \<subseteq> mapped (p_munmap pl a n st)
        else p_getpagesize pl dvd a \<or> mapped (p_munmap pl a n st) = mapped st)
   \<and> (\<forall>a n st. mapped (snd (p_madvise pl a n st)) = mapped st)"

text \<open>A result of an allocator: nothing mapped is lost, and a block is aligned, large enough and
  new.\<close>

definition fresh_block ::
  "('o \<Rightarrow> nat set) \<Rightarrow> nat \<Rightarrow> nat \<Rightarrow> 'o sys \<Rightarrow> nat \<times> nat \<times> 'o sys \<Rightarrow> bool" where
  "fresh_block mapped alignment sz s res \<longleftrightarrow>
     (case res of (r, actual, s') \<Rightarrow>
        mapped (os s) \<subseteq> mapped (os s')
        \<and> (r \<noteq> 0 \<longrightarrow> alignment dvd r \<and> alignment dvd actual \<and> sz \<le> actual \<and> r + actual \<le> 2 ^ 63
              \<and> {r..<r + actual} \<subseteq> mapped (os s') - mapped (os s)))"

text \<open>The page size is read once; the allocators rely on it afterwards.\<close>

definition sys_ok :: "'o platform \<Rightarrow> 'o sys \<Rightarrow> bool" where
  "sys_ok pl s \<longleftrightarrow> pagesize s = 0 \<or> pagesize s = p_getpagesize pl"

text \<open>
  A platform with one region for \<open>sbrk\<close> and one for \<open>mmap\<close>, each a growing interval: it obeys
  the laws, so they are satisfiable.
\<close>

definition flat_platform :: "(nat \<times> nat) platform" where
  "flat_platform = \<lparr>
     p_sbrk = (\<lambda>n (b, m). if 2 ^ 20 \<le> b \<and> b + n \<le> 2 ^ 40 then (b, (b + n, m)) else (MAP_FAILED, (b, m))),
     p_mmap = (\<lambda>h n (b, m). if 2 ^ 40 \<le> m \<and> 4096 dvd m \<and> m + n \<le> 2 ^ 43
                 then (m, (b, m + n)) else (MAP_FAILED, (b, m))),
     p_munmap = (\<lambda>a n st. st),
     p_madvise = (\<lambda>a n st. ((True, False), st)),
     p_getpagesize = 4096, skip_sbrk = False, skip_mmap = False,
     disable_memory_release = False, kDebugMode = False\<rparr>"

definition flat_mapped :: "nat \<times> nat \<Rightarrow> nat set" where
  "flat_mapped = (\<lambda>(b, m). {2 ^ 20..<min b (2 ^ 40)} \<union> {2 ^ 40..<min m (2 ^ 43)})"

definition flat_sys :: "(nat \<times> nat) sys" where
  "flat_sys = \<lparr>os = (2 ^ 20, 2 ^ 40), pagesize = 0, hint = 0, failed = (\<lambda>_. False),
     allocs = (\<lambda>_. None), system_alloc_inited = False, SystemTaken = 0\<rparr>"

subsection \<open>Rounding\<close>

lemma round_up64:
  assumes "sz + 2 ^ k < 2 ^ 64"
  shows "2 ^ k dvd round_up64 sz (2 ^ k)" and "sz \<le> round_up64 sz (2 ^ k)"
    and "round_up64 sz (2 ^ k) < sz + 2 ^ k"
proof -
  let ?q = "(sz + 2 ^ k - 1) div 2 ^ k"
  have le: "?q * 2 ^ k \<le> sz + 2 ^ k - 1" by (rule div_times_less_eq_dividend)
  then have lt: "?q * 2 ^ k < 2 ^ 64" using assms by linarith
  have "(0::nat) < 2 ^ k" by simp
  then have "1 \<le> sz + 2 ^ k" by linarith
  then have eq: "round_up64 sz (2 ^ k) = ?q * 2 ^ k"
    unfolding round_up64_def add64_eq [OF assms]
    using assms by (simp only: sub64_eq mul64_eq [OF lt])
  then show "2 ^ k dvd round_up64 sz (2 ^ k)" by simp
  show "round_up64 sz (2 ^ k) < sz + 2 ^ k"
    using le \<open>(0::nat) < 2 ^ k\<close> unfolding eq by linarith
  have "sz + 2 ^ k - 1 < (?q + 1) * 2 ^ k" using dividend_less_div_times [of "2 ^ k" "sz + 2 ^ k - 1"]
    by (simp add: algebra_simps)
  then show "sz \<le> round_up64 sz (2 ^ k)" unfolding eq by (simp add: algebra_simps)
qed

lemma align_up:
  fixes x :: nat
  assumes "x mod a \<noteq> 0" and "0 < a"
  shows "a dvd x + (a - x mod a)" and "a - x mod a < a"
proof -
  have lt: "x mod a < a" using assms(2) by simp
  have "x + (a - x mod a) = x div a * a + a"
    using lt div_mult_mod_eq [of x a] by linarith
  then show "a dvd x + (a - x mod a)" by simp
  show "a - x mod a < a" using assms by simp
qed

lemma os_sbrk:
  "os_laws pl mapped \<Longrightarrow> p_sbrk pl n st = (r, st') \<Longrightarrow>
    (if r = MAP_FAILED then mapped st' = mapped st
     else 0 < r \<and> r + n \<le> 2 ^ 63 \<and> {r..<r + n} \<inter> mapped st = {} \<and> mapped st' = mapped st \<union> {r..<r + n})"
  unfolding os_laws_def by blast

lemma os_sbrk_mono: "os_laws pl mapped \<Longrightarrow> p_sbrk pl n st = (r, st') \<Longrightarrow> mapped st \<subseteq> mapped st'"
  using os_sbrk by (metis Un_upper1 order_refl)

lemma os_mmap:
  "os_laws pl mapped \<Longrightarrow> p_mmap pl h n st = (r, st') \<Longrightarrow> p_getpagesize pl dvd n \<Longrightarrow>
    (if r = MAP_FAILED then mapped st' = mapped st
     else 0 < r \<and> p_getpagesize pl dvd r \<and> r + n \<le> 2 ^ 63 \<and> {r..<r + n} \<inter> mapped st = {}
          \<and> mapped st' = mapped st \<union> {r..<r + n})"
  unfolding os_laws_def by blast

lemma os_munmap:
  "os_laws pl mapped \<Longrightarrow> p_getpagesize pl dvd a \<Longrightarrow> p_getpagesize pl dvd n
    \<Longrightarrow> mapped st - {a..<a + n} \<subseteq> mapped (p_munmap pl a n st)"
  unfolding os_laws_def by meson

lemma os_munmap_misaligned:
  "os_laws pl mapped \<Longrightarrow> \<not> p_getpagesize pl dvd a \<Longrightarrow> mapped (p_munmap pl a n st) = mapped st"
  unfolding os_laws_def by meson

lemma os_pagesize: "os_laws pl mapped \<Longrightarrow> \<exists>k. 0 < k \<and> k < 63 \<and> p_getpagesize pl = 2 ^ k"
  unfolding os_laws_def by blast

subsection \<open>The sbrk allocator\<close>

lemma SbrkSysAllocator_fresh:
  assumes os: "os_laws pl mapped" and "sz + 2 ^ k < 2 ^ 64"
  shows "fresh_block mapped (2 ^ k) sz s (SbrkSysAllocator_Alloc pl sz (2 ^ k) s)"
proof (cases "skip_sbrk pl \<or> add64 sz (2 ^ k) \<ge> 2 ^ 63")
  case True
  then show ?thesis by (auto simp: SbrkSysAllocator_Alloc_def fresh_block_def)
next
  case False
  then have lt: "sz + 2 ^ k < 2 ^ 63" using assms(2) by (simp add: add64_eq)
  define z where "z = round_up64 sz (2 ^ k)"
  note z = round_up64 [OF assms(2), folded z_def]
  have p: "(0::nat) < 2 ^ k" by simp
  obtain brk o1 where o1: "p_sbrk pl 0 (os s) = (brk, o1)" by fastforce
  obtain r o2 where o2: "p_sbrk pl z o1 = (r, o2)" by fastforce
  define e where "e = 2 ^ k - r mod 2 ^ k"
  obtain r2 o3 where o3': "p_sbrk pl (2 ^ k - r mod 2 ^ k) o2 = (r2, o3)" by fastforce
  note o3 = o3' [folded e_def]
  obtain r3 o4 where o4: "p_sbrk pl (sub64 (add64 z (2 ^ k)) 1) o3 = (r3, o4)" by fastforce
  define e3 where "e3 = 2 ^ k - r3 mod 2 ^ k"
  have ns: "skip_sbrk pl = False" "(2 ^ 63 \<le> add64 sz (2 ^ k)) = False" using False by auto
  have res: "SbrkSysAllocator_Alloc pl sz (2 ^ k) s =
     (if add64 brk z < z then (0, z, s\<lparr>os := o1\<rparr>)
      else if r = MAP_FAILED then (0, z, s\<lparr>os := o2\<rparr>)
      else if r mod 2 ^ k = 0 then (r, z, s\<lparr>os := o2\<rparr>)
      else if r2 = add64 r z then (add64 r e, z, s\<lparr>os := o3\<rparr>)
      else if r3 = MAP_FAILED then (0, z, s\<lparr>os := o4\<rparr>)
      else if r3 mod 2 ^ k \<noteq> 0 then (add64 r3 e3, z, s\<lparr>os := o4\<rparr>)
      else (r3, z, s\<lparr>os := o4\<rparr>))"
    by (simp only: SbrkSysAllocator_Alloc_def Let_def and_low_mask z_def [symmetric] o1 o2 o3' o4
        prod.case ns if_False e_def e3_def)
  have "z + 2 ^ k < 2 ^ 64" using lt z(3) by simp
  moreover have "1 \<le> z + 2 ^ k" using p by linarith
  ultimately have zk: "sub64 (add64 z (2 ^ k)) 1 = z + 2 ^ k - 1" by (simp only: add64_eq sub64_eq)
  note mono = os_sbrk_mono [OF os o1] os_sbrk_mono [OF os o2] os_sbrk_mono [OF os o3] os_sbrk_mono [OF os o4]
  note m2 = subset_trans [OF mono(1,2)]
  note m3 = subset_trans [OF m2 mono(3)]
  note m4 = subset_trans [OF m3 mono(4)]
  let ?wrap = "add64 brk z < z" and ?res = "SbrkSysAllocator_Alloc pl sz (2 ^ k) s"
  consider (wrap) ?wrap
    | (fail) "\<not> ?wrap" "r = MAP_FAILED"
    | (first) "\<not> ?wrap" "r \<noteq> MAP_FAILED" "r mod 2 ^ k = 0"
    | (more) "\<not> ?wrap" "r \<noteq> MAP_FAILED" "r mod 2 ^ k \<noteq> 0" "r2 = add64 r z"
    | (fail3) "\<not> ?wrap" "r \<noteq> MAP_FAILED" "r mod 2 ^ k \<noteq> 0" "r2 \<noteq> add64 r z" "r3 = MAP_FAILED"
    | (third) "\<not> ?wrap" "r \<noteq> MAP_FAILED" "r mod 2 ^ k \<noteq> 0" "r2 \<noteq> add64 r z" "r3 \<noteq> MAP_FAILED"
    by blast
  then show ?thesis
  proof cases
    case first
    with os_sbrk [OF os o2] have "{r..<r + z} \<inter> mapped o1 = {}" "mapped o2 = mapped o1 \<union> {r..<r + z}"
      "r + z \<le> 2 ^ 63" by simp_all
    moreover have "?res = (r, z, s\<lparr>os := o2\<rparr>)" using res first by simp
    ultimately show ?thesis using first z m2 mono(1) by (auto simp: fresh_block_def mod_eq_0_iff_dvd)
  next
    case more
    note a = align_up [OF more(3) p, folded e_def]
    have eq: "?res = (add64 r e, z, s\<lparr>os := o3\<rparr>)" using res more by simp
    from more(2) os_sbrk [OF os o2] have r: "{r..<r + z} \<inter> mapped o1 = {}"
      "mapped o2 = mapped o1 \<union> {r..<r + z}" "r + z \<le> 2 ^ 63" by simp_all
    then have r2: "r2 = r + z" using more(4) by (simp add: add64_eq)
    with r(3) have "r2 \<noteq> MAP_FAILED" by (auto simp: MAP_FAILED_def)
    with os_sbrk [OF os o3] r2 have r3: "{r + z..<r + z + e} \<inter> mapped o2 = {}"
      "mapped o3 = mapped o2 \<union> {r + z..<r + z + e}" "r + z + e \<le> 2 ^ 63" by simp_all
    then have ptr: "add64 r e = r + e" by (simp add: add64_eq)
    have "{r + e..<r + e + z} \<subseteq> {r..<r + z} \<union> {r + z..<r + z + e}" by auto
    then have "{r + e..<r + e + z} \<subseteq> mapped o3 - mapped o1" using r r3 by auto
    with eq z m3 mono(1) a r3(3) show ?thesis
      by (auto simp: fresh_block_def ptr add.commute add.left_commute)
  next
    case third
    define x where "x = (if r3 mod 2 ^ k \<noteq> 0 then add64 r3 e3 else r3)"
    have eq: "?res = (x, z, s\<lparr>os := o4\<rparr>)" using res third by (simp add: x_def)
    from third os_sbrk [OF os o4, unfolded zk] have r3: "{r3..<r3 + (z + 2 ^ k - 1)} \<inter> mapped o3 = {}"
      "mapped o4 = mapped o3 \<union> {r3..<r3 + (z + 2 ^ k - 1)}" "r3 + (z + 2 ^ k - 1) \<le> 2 ^ 63"
      by simp_all
    have x: "2 ^ k dvd x" "r3 \<le> x" "x + z \<le> r3 + (z + 2 ^ k - 1)"
    proof -
      have "2 ^ k dvd x \<and> r3 \<le> x \<and> x + z \<le> r3 + (z + 2 ^ k - 1)"
      proof (cases "r3 mod 2 ^ k = 0")
        case True
        moreover have "z \<le> z + 2 ^ k - 1" using p by linarith
        ultimately show ?thesis by (simp add: x_def mod_eq_0_iff_dvd)
      next
        case F: False
        note a = align_up [OF F p, folded e3_def]
        have "r3 + e3 < 2 ^ 64" using r3(3) a(2) by simp
        then have "x = r3 + e3" using F by (simp add: x_def add64_eq)
        with a show ?thesis by simp
      qed
      then show "2 ^ k dvd x" "r3 \<le> x" "x + z \<le> r3 + (z + 2 ^ k - 1)" by auto
    qed
    then have "{x..<x + z} \<subseteq> {r3..<r3 + (z + 2 ^ k - 1)}" by auto
    then have "{x..<x + z} \<subseteq> mapped o4 - mapped o3" using r3 by blast
    then have "{x..<x + z} \<subseteq> mapped o4 - mapped (os s)" using m3 by blast
    with eq z m4 x r3(3) show ?thesis by (auto simp: fresh_block_def)
  qed (use res m2 m4 mono(1) in \<open>simp_all add: fresh_block_def\<close>)
qed

subsection \<open>The mmap allocator\<close>

text \<open>Cutting the ends off a new mapping keeps the middle and everything older.\<close>

lemma munmap_ends:
  assumes os: "os_laws pl mapped" and new: "{r..<r + n} \<inter> mapped st = {}" "mapped o1 = mapped st \<union> {r..<r + n}"
    and pg: "p_getpagesize pl dvd r" "p_getpagesize pl dvd a" "p_getpagesize pl dvd z" "p_getpagesize pl dvd c"
    and n: "n = a + z + c"
    and o2: "o2 = (if 0 < a then p_munmap pl r a o1 else o1)"
    and o3: "o3 = (if 0 < c then p_munmap pl (r + a + z) c o2 else o2)"
  shows "mapped st \<subseteq> mapped o3 \<and> {r + a..<r + a + z} \<subseteq> mapped o3 - mapped st"
proof -
  have "mapped o1 - {r..<r + a} \<subseteq> mapped o2"
    using os_munmap [OF os pg(1,2), of o1] by (cases "0 < a") (auto simp: o2)
  moreover have "mapped o2 - {r + a + z..<r + a + z + c} \<subseteq> mapped o3"
    using os_munmap [OF os _ pg(4), of "r + a + z" o2] pg by (cases "0 < c") (auto simp: o3)
  ultimately have sub: "mapped o1 - {r..<r + a} - {r + a + z..<r + a + z + c} \<subseteq> mapped o3" by blast
  have parts: "{r..<r + a} \<subseteq> {r..<r + n}" "{r + a..<r + a + z} \<subseteq> {r..<r + n}"
    "{r + a + z..<r + a + z + c} \<subseteq> {r..<r + n}" using n by auto
  have "{r + a..<r + a + z} \<inter> {r..<r + a} = {}"
    "{r + a..<r + a + z} \<inter> {r + a + z..<r + a + z + c} = {}" by auto
  with parts(2) new(2) sub have "{r + a..<r + a + z} \<subseteq> mapped o3" by blast
  moreover have "mapped st \<subseteq> mapped o3" using parts(1,3) new sub by blast
  ultimately show ?thesis using parts(2) new(1) by blast
qed

lemma mmap_full_fresh:
  assumes os: "os_laws pl mapped" and page: "p_getpagesize pl = 2 ^ j" "pagesize s = 2 ^ j" "j \<le> k"
    and z: "2 ^ k dvd z" "z + 2 ^ k \<le> 2 ^ 64"
  shows "fresh_block mapped (2 ^ k) z s (mmap_full pl z (2 ^ k) s)"
proof -
  have jk: "(2::nat) ^ j \<le> 2 ^ k" "(2::nat) ^ j dvd 2 ^ k"
    using page(3) by (simp_all add: le_imp_power_dvd)
  have p: "(0::nat) < 2 ^ j" "(0::nat) < 2 ^ k" by simp_all
  define x :: nat where "x = 2 ^ k - 2 ^ j"
  have x: "(if (2::nat) ^ k > pagesize s then 2 ^ k - pagesize s else 0) = x"
    using jk(1) by (simp add: x_def page(2))
  have "z + x < 2 ^ 64" unfolding x_def using z(2) p jk(1) by linarith
  then have zx: "add64 z x = z + x" by (rule add64_eq)
  obtain r o1 where o1: "p_mmap pl 0 (add64 z x) (os s) = (r, o1)" by fastforce
  define a where "a = (if r mod 2 ^ k \<noteq> 0 then 2 ^ k - r mod 2 ^ k else 0)"
  define o2 where "o2 = (if 0 < a then p_munmap pl r a o1 else o1)"
  define o3 where "o3 = (if a < x then p_munmap pl (add64 (add64 r a) z) (x - a) o2 else o2)"
  have res: "mmap_full pl z (2 ^ k) s =
     (if r = MAP_FAILED then (0, z, s\<lparr>os := o1\<rparr>)
      else (add64 r a, z, s\<lparr>os := o3, hint := add64 (add64 r a) z\<rparr>))"
    by (simp only: mmap_full_def Let_def x o1 prod.case and_low_mask a_def o2_def o3_def)
  have dz: "2 ^ j dvd z" using jk(2) z(1) by (rule dvd_trans)
  have dx: "2 ^ j dvd x" unfolding x_def by (intro dvd_diff_nat jk(2)) simp
  have law: "if r = MAP_FAILED then mapped o1 = mapped (os s)
     else 0 < r \<and> 2 ^ j dvd r \<and> r + (z + x) \<le> 2 ^ 63 \<and> {r..<r + (z + x)} \<inter> mapped (os s) = {}
        \<and> mapped o1 = mapped (os s) \<union> {r..<r + (z + x)}"
    using os_mmap [OF os o1] dz dx unfolding zx page(1) by (simp add: dvd_add)
  show ?thesis
  proof (cases "r = MAP_FAILED")
    case True
    then show ?thesis using law by (simp add: res fresh_block_def)
  next
    case False
    with law have r: "0 < r" "2 ^ j dvd r" "r + (z + x) \<le> 2 ^ 63" "{r..<r + (z + x)} \<inter> mapped (os s) = {}"
      "mapped o1 = mapped (os s) \<union> {r..<r + (z + x)}" by simp_all
    have a: "2 ^ j dvd a \<and> a \<le> x \<and> 2 ^ k dvd r + a"
    proof (cases "r mod 2 ^ k = 0")
      case T: True
      then show ?thesis by (simp add: a_def mod_eq_0_iff_dvd)
    next
      case F: False
      have "2 ^ j dvd r mod 2 ^ k" using r(2) jk(2) by (simp add: dvd_mod)
      with F have "2 ^ j \<le> r mod 2 ^ k" by (simp add: dvd_imp_le)
      then have "a \<le> x" using F by (simp add: a_def x_def)
      moreover have "2 ^ j dvd a" using F \<open>2 ^ j dvd r mod 2 ^ k\<close> jk(2) by (simp add: a_def dvd_diff_nat)
      moreover have "2 ^ k dvd r + a" using align_up(1) [OF F p(2)] F by (simp add: a_def)
      ultimately show ?thesis by blast
    qed
    have sums: "add64 r a = r + a" "add64 (r + a) z = r + a + z"
      using a r(3) by (simp_all add: add64_eq)
    have "mapped (os s) \<subseteq> mapped o3 \<and> {r + a..<r + a + z} \<subseteq> mapped o3 - mapped (os s)"
    proof (rule munmap_ends [OF os r(4,5)])
      show "o3 = (if 0 < x - a then p_munmap pl (r + a + z) (x - a) o2 else o2)"
        by (simp add: o3_def sums)
      show "z + x = a + z + (x - a)" using a by simp
      show "p_getpagesize pl dvd x - a" using a dx by (simp add: page(1) dvd_diff_nat)
    qed (use r(2) a dz in \<open>simp_all add: o2_def page(1)\<close>)
    then show ?thesis using False a z(1) r(3) by (simp add: res fresh_block_def sums)
  qed
qed

lemma pow2_max: "(if (2::nat) ^ k < 2 ^ j then 2 ^ j else 2 ^ k) = 2 ^ max j k"
  by (simp add: max_def)

lemma round_up64_room:
  assumes "sz < 2 ^ 64" and "k < 64" and "sz \<le> round_up64 sz (2 ^ k)"
  shows "2 ^ k dvd round_up64 sz (2 ^ k) \<and> round_up64 sz (2 ^ k) + 2 ^ k \<le> 2 ^ 64"
proof -
  have dvd: "(2::nat) ^ k dvd 2 ^ 64" using assms(2) by (intro le_imp_power_dvd) simp
  have "2 ^ k dvd round_up64 sz (2 ^ k)"
    unfolding round_up64_def mul64_def using dvd by (simp add: dvd_mod)
  then obtain i where i: "round_up64 sz (2 ^ k) = 2 ^ k * i" by (rule dvdE)
  obtain l where l: "(2::nat) ^ 64 = 2 ^ k * l" using dvd by (rule dvdE)
  have "round_up64 sz (2 ^ k) < 2 ^ 64" by (simp add: round_up64_def mul64_def)
  then have "2 ^ k * i < 2 ^ k * l" by (simp only: i l)
  then have "i + 1 \<le> l" by simp
  then have "2 ^ k * (i + 1) \<le> 2 ^ k * l" by (rule mult_le_mono2)
  then show ?thesis unfolding i l by (simp only: distrib_left mult_1_right) simp
qed

lemma fresh_block_weaken:
  assumes "fresh_block mapped b z s res" and "a dvd b" and "sz \<le> z"
  shows "fresh_block mapped a sz s res"
  using assms by (auto simp: fresh_block_def intro: dvd_trans)

lemma fresh_block_trans:
  assumes "fresh_block mapped a sz s1 res" and "mapped (os s) \<subseteq> mapped (os s1)"
  shows "fresh_block mapped a sz s res"
  using assms by (auto simp: fresh_block_def)

lemma failed_misaligned: "0 < j \<Longrightarrow> j < 64 \<Longrightarrow> \<not> 2 ^ j dvd MAP_FAILED"
proof
  assume j: "0 < j" "j < 64" and d: "2 ^ j dvd MAP_FAILED"
  have "(2::nat) dvd 2 ^ j" using j by simp
  from dvd_trans [OF this d] show False by (simp add: MAP_FAILED_def)
qed

lemma MmapSysAllocator_fresh:
  assumes os: "os_laws pl mapped" and "sys_ok pl s" and "sz < 2 ^ 64" and "k < 64"
  shows "fresh_block mapped (2 ^ k) sz s (MmapSysAllocator_Alloc pl sz (2 ^ k) s)"
proof (cases "skip_mmap pl")
  case True
  then show ?thesis by (simp add: MmapSysAllocator_Alloc_def fresh_block_def)
next
  case False
  obtain j where j: "0 < j" "j < 63" "p_getpagesize pl = 2 ^ j" using os_pagesize [OF os] by blast
  define t where "t = (if pagesize s = 0 then s\<lparr>pagesize := p_getpagesize pl\<rparr> else s)"
  have t: "os t = os s" "pagesize t = 2 ^ j" using assms(2) j(3) by (auto simp: t_def sys_ok_def)
  define K where "K = max j k"
  have K: "0 < K" "K < 64" "j \<le> K" "k \<le> K" using j assms(4) by (auto simp: K_def)
  have al: "(if (2::nat) ^ k < pagesize t then pagesize t else 2 ^ k) = 2 ^ K"
    by (simp only: t(2) pow2_max K_def)
  define z where "z = round_up64 sz (2 ^ K)"
  have res: "MmapSysAllocator_Alloc pl sz (2 ^ k) s =
     (if z < sz then (0, 0, t)
      else if hint t \<noteq> 0 \<and> z < add64 (hint t) z \<and> hint t mod 2 ^ K = 0
      then case p_mmap pl (hint t) z (os t) of (ptr, o1) \<Rightarrow>
        if ptr mod 2 ^ K = 0 then (ptr, z, t\<lparr>os := o1, hint := add64 ptr z\<rparr>)
        else mmap_full pl z (2 ^ K) (t\<lparr>os := p_munmap pl ptr z o1\<rparr>)
      else mmap_full pl z (2 ^ K) t)"
    using False
    by (simp only: MmapSysAllocator_Alloc_def Let_def t_def [symmetric] al z_def [symmetric]
        and_low_mask if_False)
  show ?thesis
  proof (cases "z < sz")
    case True
    then show ?thesis by (simp add: res fresh_block_def t)
  next
    case z: False
    from round_up64_room [OF assms(3) K(2)] z have room: "2 ^ K dvd z" "z + 2 ^ K \<le> 2 ^ 64"
      by (simp_all add: z_def)
    have pz: "2 ^ j dvd z" using le_imp_power_dvd [OF K(3), of "2::nat"] room(1) by (rule dvd_trans)
    have full: "fresh_block mapped (2 ^ K) z u (mmap_full pl z (2 ^ K) u)" if "pagesize u = 2 ^ j" for u
      by (rule mmap_full_fresh [OF os j(3) that K(3) room])
    have "fresh_block mapped (2 ^ K) z t (MmapSysAllocator_Alloc pl sz (2 ^ k) s)"
    proof (cases "hint t \<noteq> 0 \<and> z < add64 (hint t) z \<and> hint t mod 2 ^ K = 0")
      case False
      with z show ?thesis by (simp only: res if_False full t)
    next
      case h: True
      obtain ptr o1 where m: "p_mmap pl (hint t) z (os t) = (ptr, o1)" by fastforce
      have law: "if ptr = MAP_FAILED then mapped o1 = mapped (os t)
         else 0 < ptr \<and> 2 ^ j dvd ptr \<and> ptr + z \<le> 2 ^ 63 \<and> {ptr..<ptr + z} \<inter> mapped (os t) = {}
            \<and> mapped o1 = mapped (os t) \<union> {ptr..<ptr + z}"
        using os_mmap [OF os m] pz unfolding j(3) by simp
      show ?thesis
      proof (cases "ptr mod 2 ^ K = 0")
        case True
        then have "ptr \<noteq> MAP_FAILED" using failed_misaligned [OF K(1,2)] by (auto simp: mod_eq_0_iff_dvd)
        with law True room(1) show ?thesis
          unfolding res using z h m by (auto simp: fresh_block_def mod_eq_0_iff_dvd)
      next
        case F: False
        have keep: "mapped (os t) \<subseteq> mapped (p_munmap pl ptr z o1)"
        proof (cases "ptr = MAP_FAILED")
          case True
          then have "\<not> p_getpagesize pl dvd ptr" using failed_misaligned [of j] j by simp
          from os_munmap_misaligned [OF os this] law True show ?thesis by simp
        next
          case False
          with law have "p_getpagesize pl dvd ptr" "p_getpagesize pl dvd z" using pz j(3) by simp_all
          from os_munmap [OF os this, of o1] law False show ?thesis by auto
        qed
        have "fresh_block mapped (2 ^ K) z t
            (mmap_full pl z (2 ^ K) (t\<lparr>os := p_munmap pl ptr z o1\<rparr>))"
          by (rule fresh_block_trans [OF full]) (use keep t in simp_all)
        then show ?thesis unfolding res using z h m F by simp
      qed
    qed
    then have "fresh_block mapped (2 ^ k) sz t (MmapSysAllocator_Alloc pl sz (2 ^ k) s)"
      by (rule fresh_block_weaken) (use z K(4) in \<open>simp_all add: le_imp_power_dvd\<close>)
    then show ?thesis by (rule fresh_block_trans) (simp add: t)
  qed
qed

subsection \<open>The default allocator\<close>

lemma SbrkSysAllocator_frame:
  assumes "SbrkSysAllocator_Alloc pl sz al s = (r, actual, s')"
  shows "pagesize s' = pagesize s \<and> SystemTaken s' = SystemTaken s"
  using assms by (auto simp: SbrkSysAllocator_Alloc_def Let_def split: if_splits prod.splits)

lemma mmap_full_frame:
  assumes "mmap_full pl sz al s = (r, actual, s')"
  shows "pagesize s' = pagesize s \<and> SystemTaken s' = SystemTaken s"
  using assms by (auto simp: mmap_full_def Let_def split: if_splits prod.splits)

lemma MmapSysAllocator_frame:
  assumes "MmapSysAllocator_Alloc pl sz al s = (r, actual, s')" and "sys_ok pl s"
  shows "sys_ok pl s' \<and> SystemTaken s' = SystemTaken s"
proof -
  define t where "t = (if pagesize s = 0 then s\<lparr>pagesize := p_getpagesize pl\<rparr> else s)"
  have t: "SystemTaken t = SystemTaken s" "sys_ok pl t" using assms(2) by (auto simp: t_def sys_ok_def)
  have "s' = s \<or> pagesize s' = pagesize t \<and> SystemTaken s' = SystemTaken t"
    using assms(1) unfolding MmapSysAllocator_Alloc_def Let_def t_def [symmetric]
    by (auto split: if_splits prod.splits dest!: mmap_full_frame)
  then show ?thesis using assms(2) t by (auto simp: sys_ok_def)
qed

lemma SysAllocator_Alloc_frame:
  assumes "SysAllocator_Alloc a pl sz al s = (r, actual, s')" and "sys_ok pl s"
  shows "sys_ok pl s' \<and> SystemTaken s' = SystemTaken s"
  using assms MmapSysAllocator_frame [of pl sz al s r actual s']
    SbrkSysAllocator_frame [of pl sz al s r actual s']
  by (cases a) (auto simp: sys_ok_def)

lemma SysAllocator_Alloc_fresh:
  assumes "os_laws pl mapped" and "sys_ok pl s" and "sz + 2 ^ k < 2 ^ 64"
  shows "fresh_block mapped (2 ^ k) sz s (SysAllocator_Alloc a pl sz (2 ^ k) s)"
proof -
  have "(2::nat) ^ k < 2 ^ 64" using assms(3) by linarith
  then have "k < 64" by (simp only: power_strict_increasing_iff)
  moreover have "sz < 2 ^ 64" using assms(3) by linarith
  ultimately show ?thesis
    using SbrkSysAllocator_fresh [OF assms(1,3)] MmapSysAllocator_fresh [OF assms(1,2)]
    by (cases a) simp_all
qed

lemma DefaultSysAllocator_loop_ok:
  assumes "os_laws pl mapped" and "sys_ok pl s" and "sz + 2 ^ k < 2 ^ 64"
    and "DefaultSysAllocator_loop pl sz (2 ^ k) idx s = (r, actual, s')"
  shows "fresh_block mapped (2 ^ k) sz s (r, actual, s') \<and> sys_ok pl s' \<and> SystemTaken s' = SystemTaken s"
  using assms(2,4)
proof (induction idx arbitrary: s)
  case Nil
  then show ?case by (auto simp: fresh_block_def sys_ok_def)
next
  case (Cons i idx)
  show ?case
  proof (cases "allocs s i = None \<or> failed s i")
    case True
    then show ?thesis using Cons by (auto split: option.splits)
  next
    case False
    then obtain a where a: "allocs s i = Some a" "\<not> failed s i" by auto
    obtain r1 n1 s1 where r1: "SysAllocator_Alloc a pl sz (2 ^ k) s = (r1, n1, s1)"
      by (cases "SysAllocator_Alloc a pl sz (2 ^ k) s")
    note fr = SysAllocator_Alloc_frame [OF r1 Cons.prems(1)]
    note fb = SysAllocator_Alloc_fresh [OF assms(1) Cons.prems(1) assms(3), of a, unfolded r1]
    show ?thesis
    proof (cases "r1 = 0")
      case True
      let ?s1 = "s1\<lparr>failed := (failed s1)(i := True)\<rparr>"
      have ok: "sys_ok pl ?s1" using fr by (simp add: sys_ok_def)
      have "DefaultSysAllocator_loop pl sz (2 ^ k) idx ?s1 = (r, actual, s')"
        using Cons.prems(2) a r1 True by simp
      from Cons.IH [OF ok this] have IH: "fresh_block mapped (2 ^ k) sz ?s1 (r, actual, s')"
        "sys_ok pl s'" "SystemTaken s' = SystemTaken s1" by simp_all
      have "mapped (os s) \<subseteq> mapped (os ?s1)" using fb by (simp add: fresh_block_def)
      from fresh_block_trans [OF IH(1) this] IH fr show ?thesis by simp
    next
      case False
      then have "(r, actual, s') = (r1, n1, s1)" using Cons.prems(2) a r1 by simp
      then show ?thesis using fb fr by simp
    qed
  qed
qed

lemma both_allocators: "[0..<2] = [0, Suc 0]"
  by (simp add: upt_conv_Cons)

lemma grow_range: "lo \<le> b \<Longrightarrow> {lo..<b + n} = {lo..<b} \<union> {b..<b + (n::nat)}"
  by auto

lemma disjoint_below: "{b..<c} \<inter> {lo..<b :: nat} = {}"
  by auto

lemma disjoint_above: "d \<le> c \<Longrightarrow> {c..<e} \<inter> {b..<d :: nat} = {}"
  by auto

lemma flat_sbrk:
  assumes "p_sbrk flat_platform n st = (r, st')"
  shows "if r = MAP_FAILED then flat_mapped st' = flat_mapped st
      else 0 < r \<and> r + n \<le> 2 ^ 63 \<and> {r..<r + n} \<inter> flat_mapped st = {}
        \<and> flat_mapped st' = flat_mapped st \<union> {r..<r + n}"
proof (cases st)
  case (Pair b m)
  show ?thesis
  proof (cases "2 ^ 20 \<le> b \<and> b + n \<le> 2 ^ 40")
    case True
    then have "p_sbrk flat_platform n (b, m) = (b, (b + n, m))" by (simp add: flat_platform_def)
    then have r: "r = b" "st' = (b + n, m)" using assms Pair by auto
    have mp: "flat_mapped st = {2 ^ 20..<b} \<union> {2 ^ 40..<min m (2 ^ 43)}"
      "flat_mapped st' = {2 ^ 20..<b + n} \<union> {2 ^ 40..<min m (2 ^ 43)}"
      using True by (simp_all add: flat_mapped_def Pair r)
    have "{b..<b + n} \<inter> {2 ^ 20..<b} = {}" by (rule disjoint_below)
    moreover have "{2 ^ 40..<min m (2 ^ 43)} \<inter> {b..<b + n} = {}" by (rule disjoint_above) (use True in simp)
    ultimately have "{r..<r + n} \<inter> flat_mapped st = {}" unfolding mp r by blast
    moreover have "flat_mapped st' = flat_mapped st \<union> {r..<r + n}"
      unfolding mp r(1) by (simp only: grow_range [OF conjunct1 [OF True]] Un_ac)
    moreover have "r \<noteq> MAP_FAILED" "0 < r" "r + n \<le> 2 ^ 63" using True by (simp_all add: r MAP_FAILED_def)
    ultimately show ?thesis by (simp only: if_False simp_thms)
  next
    case False
    then have "r = MAP_FAILED" "st' = st" using assms Pair by (auto simp: flat_platform_def split: if_splits)
    then show ?thesis by simp
  qed
qed

lemma flat_mmap:
  assumes "p_mmap flat_platform h n st = (r, st')"
  shows "if r = MAP_FAILED then flat_mapped st' = flat_mapped st
      else 0 < r \<and> 4096 dvd r \<and> r + n \<le> 2 ^ 63 \<and> {r..<r + n} \<inter> flat_mapped st = {}
        \<and> flat_mapped st' = flat_mapped st \<union> {r..<r + n}"
proof (cases st)
  case (Pair b m)
  show ?thesis
  proof (cases "2 ^ 40 \<le> m \<and> 4096 dvd m \<and> m + n \<le> 2 ^ 43")
    case True
    then have "p_mmap flat_platform h n (b, m) = (m, (b, m + n))" by (simp add: flat_platform_def)
    then have r: "r = m" "st' = (b, m + n)" using assms Pair by auto
    have mp: "flat_mapped st = {2 ^ 20..<min b (2 ^ 40)} \<union> {2 ^ 40..<m}"
      "flat_mapped st' = {2 ^ 20..<min b (2 ^ 40)} \<union> {2 ^ 40..<m + n}"
      using True by (simp_all add: flat_mapped_def Pair r)
    have "{m..<m + n} \<inter> {2 ^ 20..<min b (2 ^ 40)} = {}"
      by (rule disjoint_above) (use True in \<open>simp add: min.coboundedI2\<close>)
    moreover have "{m..<m + n} \<inter> {2 ^ 40..<m} = {}" by (rule disjoint_below)
    ultimately have "{r..<r + n} \<inter> flat_mapped st = {}" unfolding mp r by blast
    moreover have "flat_mapped st' = flat_mapped st \<union> {r..<r + n}"
      unfolding mp r(1) by (simp only: grow_range [OF conjunct1 [OF True]] Un_ac)
    moreover have "r \<noteq> MAP_FAILED" "0 < r" "4096 dvd r" "r + n \<le> 2 ^ 63"
      using True by (simp_all add: r MAP_FAILED_def)
    ultimately show ?thesis by (simp only: if_False simp_thms)
  next
    case False
    then have "r = MAP_FAILED" "st' = st" using assms Pair by (auto simp: flat_platform_def split: if_splits)
    then show ?thesis by simp
  qed
qed

lemma flat_laws: "os_laws flat_platform flat_mapped"
proof -
  have page: "p_getpagesize flat_platform = 4096" by (simp add: flat_platform_def)
  have id: "p_munmap flat_platform a n st = st" "snd (p_madvise flat_platform a n st) = st" for a n st
    by (simp_all add: flat_platform_def)
  have "\<exists>k. 0 < k \<and> k < 63 \<and> (4096::nat) = 2 ^ k" by (intro exI [of _ 12]) simp
  then show ?thesis unfolding os_laws_def page id
  proof (intro conjI allI impI, goal_cases)
    case (2 n st r st')
    then show ?case by (intro flat_sbrk)
  next
    case (3 h n st r st')
    then show ?case by (intro flat_mmap)
  next
    case (4 a n st)
    have "flat_mapped st - {a..<a + n} \<subseteq> flat_mapped st" by (rule Diff_subset)
    then show ?case by (cases "4096 dvd a \<and> 4096 dvd n") simp_all
  qed simp_all
qed

lemma release_range_bounds:
  assumes "page = 2 ^ k" and "k \<le> 63" and "start + len < 2 ^ 64" and "start + page < 2 ^ 64"
    and "release_range page start len = (ns, ne)"
  shows "ns = (start + page - 1) div page * page" and "ne = (start + len) div page * page"
proof -
  have "1 \<le> start + page" by (simp add: assms(1) trans_le_add2)
  then have sub: "sub64 (add64 start page) 1 = start + page - 1" using assms(4) by (simp only: add64_eq sub64_eq)
  have k: "k \<le> 64" using assms(2) by simp
  have "ns = (start + page - 1) AND not64 (page - 1)" "ne = (start + len) AND not64 (page - 1)"
    using assms(5) unfolding release_range_def Let_def sub add64_eq [OF assms(3)] by blast+
  moreover have "start + page - 1 < 2 ^ 64" using assms(4) by linarith
  ultimately show "ns = (start + page - 1) div page * page" and "ne = (start + len) div page * page"
    using assms(3) unfolding assms(1) not64_mask [OF k]
    by (simp_all only: and_high_mask [OF k] minus_mod_eq_div_mult)
qed

text \<open>What the clients use: the block is fresh with the effective alignment.\<close>

lemma TCMalloc_SystemAlloc_block:
  assumes "os_laws pl mapped" and "sys_ok pl s" and "alignment = 0 \<or> alignment = 2 ^ j"
    and "sz + max alignment sizeof_MemoryAligner < 2 ^ 64"
    and "TCMalloc_SystemAlloc pl sz alignment s = Some (r, actual, s')"
  shows "sys_ok pl s' \<and> fresh_block mapped (max alignment sizeof_MemoryAligner) sz s (r, actual, s')
     \<and> (if r = 0 then SystemTaken s' = SystemTaken s
        else r + actual \<le> 2 ^ kAddressBits \<and> SystemTaken s' = add64 (SystemTaken s) actual)"
proof -
  define k where "k = (if alignment = 0 then 6 else max j 6)"
  have "max (2 ^ j) 64 = (2::nat) ^ max j 6"
    using power_increasing_iff [of "2::nat" j 6] by (auto simp: max_def)
  then have "max alignment 64 = (2::nat) ^ k" using assms(3) by (auto simp: k_def)
  then have al: "(if alignment < sizeof_MemoryAligner then sizeof_MemoryAligner else alignment) = 2 ^ k"
    "max alignment sizeof_MemoryAligner = 2 ^ k" by (auto simp: max_def)
  define t where "t = (if system_alloc_inited s then s
      else (InitSystemAllocators pl s)\<lparr>system_alloc_inited := True\<rparr>)"
  have t: "os t = os s" "sys_ok pl t" "SystemTaken t = SystemTaken s"
    using assms(2)
    by (auto simp: t_def InitSystemAllocators_def SetChildAllocator_def DefaultSysAllocator_ctor_def
        sys_ok_def Let_def)
  have le: "sz + 2 ^ k < 2 ^ 64" using assms(4) by (simp only: al)
  have "sz + alignment < 2 ^ 64" using assms(4) by (simp add: max_def split: if_splits)
  then have nw: "\<not> add64 sz alignment < sz" by (simp add: add64_eq)
  obtain p n u where d: "DefaultSysAllocator_Alloc pl sz (2 ^ k) t = (p, n, u)"
    by (cases "DefaultSysAllocator_Alloc pl sz (2 ^ k) t")
  note ok = DefaultSysAllocator_loop_ok [OF assms(1) t(2) le d [unfolded DefaultSysAllocator_Alloc_def]]
  have res: "(if p \<noteq> 0 then
             if CheckAddressBits (sub64 (add64 p n) 1)
             then Some (p, n, u\<lparr>SystemTaken := add64 (SystemTaken u) n\<rparr>) else None
           else Some (0, n, u)) = Some (r, actual, s')"
    using assms(5) nw unfolding TCMalloc_SystemAlloc_def Let_def t_def [symmetric] al(1) d
    by (simp only: if_False prod.case)
  show ?thesis
  proof (cases "p = 0")
    case True
    then have "r = 0" "s' = u" using res by simp_all
    then show ?thesis using ok t by (simp add: fresh_block_def al(2))
  next
    case False
    then have eq: "r = p" "actual = n" "s' = u\<lparr>SystemTaken := add64 (SystemTaken u) n\<rparr>"
      and chk: "CheckAddressBits (sub64 (add64 p n) 1)" using res by (auto split: if_splits)
    have fb: "2 ^ k dvd p" "sz \<le> n" "p + n \<le> 2 ^ 63" "{p..<p + n} \<subseteq> mapped (os u) - mapped (os s)"
      using ok False t(1) by (simp_all add: fresh_block_def)
    have "sub64 (add64 p n) 1 = p + n - 1" using fb(3) False by (simp add: add64_eq sub64_eq)
    with chk have "p + n \<le> 2 ^ kAddressBits"
      by (simp add: CheckAddressBits_def div_eq_0_iff)
    then show ?thesis unfolding al(2) using ok t eq fb False by (auto simp: sys_ok_def fresh_block_def)
  qed
qed

subsection \<open>Properties\<close>

text \<open>C21 Memory from the system is usable and new: when \<open>TCMalloc_SystemAlloc\<close> returns a block,
  it is aligned to the larger of the request and a cache line, at least as long as requested,
  consists of bytes the process did not have before, lies below \<open>2 ^ kAddressBits\<close>, and its
  length is what \<open>TCMalloc_SystemTaken\<close> grows by; no memory obtained earlier is lost, also
  where the call fails. The request must not overflow with the effective alignment.\<close>

theorem TCMalloc_SystemAlloc_fresh:
  assumes "os_laws pl mapped" and "sys_ok pl s" and "alignment = 0 \<or> alignment = 2 ^ j"
    and "sz + max alignment sizeof_MemoryAligner < 2 ^ 64"
    and "TCMalloc_SystemAlloc pl sz alignment s = Some (r, actual, s')"
  shows "sys_ok pl s' \<and> mapped (os s) \<subseteq> mapped (os s')
     \<and> (r = 0 \<or> max alignment sizeof_MemoryAligner dvd r \<and> sz \<le> actual \<and> r + actual \<le> 2 ^ kAddressBits
          \<and> {r..<r + actual} \<subseteq> mapped (os s') - mapped (os s)
          \<and> SystemTaken s' = add64 (SystemTaken s) actual)"
  using TCMalloc_SystemAlloc_block [OF assms] by (auto simp: fresh_block_def split: if_splits)

theorem TCMalloc_SystemAlloc_fresh_witness:
  "\<exists>s'. TCMalloc_SystemAlloc flat_platform 100 8192 flat_sys = Some (1048576, 8192, s')
     \<and> {1048576..<1048576 + 8192} \<subseteq> flat_mapped (os s') - flat_mapped (os flat_sys)"
proof -
  obtain s' where e: "TCMalloc_SystemAlloc flat_platform 100 8192 flat_sys = Some (1048576, 8192, s')"
    using and_low_mask [of 1048576 13]
    by (simp add: TCMalloc_SystemAlloc_def flat_platform_def flat_sys_def add64_def sub64_def mul64_def
        InitSystemAllocators_def SetChildAllocator_def DefaultSysAllocator_ctor_def
        DefaultSysAllocator_Alloc_def SbrkSysAllocator_Alloc_def round_up64_def CheckAddressBits_def
        MAP_FAILED_def both_allocators)
  have "sys_ok flat_platform flat_sys" by (simp add: sys_ok_def flat_sys_def)
  from TCMalloc_SystemAlloc_fresh [OF flat_laws this _ _ e, of 13] e show ?thesis by auto
qed

text \<open>C23 The overflow test of \<open>TCMalloc_SystemAlloc\<close> comes before the alignment is raised to a
  cache line: with the default alignment 0, a request within a cache line of the end of the
  address space passes it, wraps in the rounding of the \<open>sbrk\<close> allocator, and is answered with
  the current break and a length of zero instead of \<open>nullptr\<close>.\<close>

theorem TCMalloc_SystemAlloc_wraps:
  assumes "2 ^ 64 - 64 < sz" and "sz < 2 ^ 64"
    and "\<not> skip_sbrk pl" and "\<not> kDebugMode pl" and "\<not> system_alloc_inited s"
    and "p_sbrk pl 0 (os s) = (b, o1)" and "p_sbrk pl 0 o1 = (b, o2)"
    and "b mod 64 = 0" and "0 < b" and "b < 2 ^ 48"
  shows "\<exists>s'. TCMalloc_SystemAlloc pl sz 0 s = Some (b, 0, s')"
proof -
  have "sz + 64 = (sz + 64 - 2 ^ 64) + 2 ^ 64" using assms(1) by simp
  then have "add64 sz 64 = (sz + 64 - 2 ^ 64) mod 2 ^ 64" unfolding add64_def by (metis mod_add_self2)
  then have a: "add64 sz 64 = sz + 64 - 2 ^ 64" using assms(2) by simp
  then have "sub64 (add64 sz 64) 1 = sz + 63 - 2 ^ 64" using assms(1,2) by (simp add: sub64_eq)
  then have z: "round_up64 sz 64 = 0" using assms(2) by (simp add: round_up64_def mul64_def)
  have small: "\<not> 2 ^ 63 \<le> add64 sz 64" using a assms(2) by simp
  have b: "b AND 63 = 0" "b \<noteq> MAP_FAILED" using assms(8,10) and_low_mask [of b 6] by (auto simp: MAP_FAILED_def)
  have "sub64 b 1 = b - 1" using assms(9,10) by (simp add: sub64_eq)
  then have "CheckAddressBits (sub64 (add64 b 0) 1)" using assms(10) by (simp add: add64_def CheckAddressBits_def)
  then show ?thesis using assms small z b
    by (simp add: TCMalloc_SystemAlloc_def InitSystemAllocators_def SetChildAllocator_def
        DefaultSysAllocator_ctor_def DefaultSysAllocator_Alloc_def SbrkSysAllocator_Alloc_def
        add64_def [of sz 0] both_allocators Let_def)
qed

theorem TCMalloc_SystemAlloc_wraps_witness:
  "\<exists>s'. TCMalloc_SystemAlloc flat_platform (2 ^ 64 - 8) 0 flat_sys = Some (1048576, 0, s')"
  using TCMalloc_SystemAlloc_wraps [of "2 ^ 64 - 8" flat_platform flat_sys 1048576 "(1048576, 2 ^ 40)"
      "(1048576, 2 ^ 40)"]
  by (simp add: flat_platform_def flat_sys_def)

text \<open>C22 \<open>TCMalloc_SystemRelease\<close> advises the kernel of exactly the pages that the given range
  covers completely: its bounds are page aligned, stay inside the range, and a page lies
  between them if and only if it lies in the range.\<close>

theorem TCMalloc_SystemRelease_range:
  assumes "page = 2 ^ k" and "k \<le> 63" and "start + len < 2 ^ 64" and "start + page < 2 ^ 64"
    and "release_range page start len = (ns, ne)"
  shows "page dvd ns \<and> page dvd ne \<and> start \<le> ns \<and> ne \<le> start + len
     \<and> (\<forall>p. page dvd p \<longrightarrow> (start \<le> p \<and> p + page \<le> start + len \<longleftrightarrow> ns \<le> p \<and> p + page \<le> ne))"
proof -
  note eq = release_range_bounds [OF assms]
  have pos: "0 < page" by (simp add: assms(1))
  have ne: "ne \<le> start + len" unfolding eq by (rule div_times_less_eq_dividend)
  have "start + page - 1 < ns + page"
    using dividend_less_div_times [OF pos, of "start + page - 1"] by (simp add: eq add.commute)
  then have ns: "start \<le> ns" using pos by linarith
  have "start \<le> p \<longleftrightarrow> ns \<le> p" if "page dvd p" for p
  proof
    assume "start \<le> p"
    from that obtain i where i: "p = page * i" by (rule dvdE)
    have "start + page - 1 < page * (i + 1)" using \<open>start \<le> p\<close> pos i by (simp add: distrib_left)
    then have "(start + page - 1) div page < i + 1" by (simp add: less_mult_imp_div_less mult.commute)
    then show "ns \<le> p" unfolding eq i by simp
  qed (use ns in linarith)
  moreover have "p + page \<le> start + len \<longleftrightarrow> p + page \<le> ne" if "page dvd p" for p
  proof
    assume le: "p + page \<le> start + len"
    from that obtain i where "p = page * i" by (rule dvdE)
    then have "p + page = (i + 1) * page" by (simp add: algebra_simps)
    with le pos have "i + 1 \<le> (start + len) div page" by (simp only: less_eq_div_iff_mult_less_eq)
    then have "(i + 1) * page \<le> ne" unfolding eq by (rule mult_le_mono1)
    then show "p + page \<le> ne" using \<open>p + page = (i + 1) * page\<close> by simp
  qed (use ne in linarith)
  ultimately show ?thesis using ns ne eq by auto
qed

theorem TCMalloc_SystemRelease_range_witness:
  "\<exists>ns ne. release_range 4096 5000 20000 = (ns, ne)
     \<and> 4096 dvd ns \<and> 5000 \<le> ns \<and> ne \<le> 5000 + 20000"
proof -
  obtain ns ne where e: "release_range 4096 5000 20000 = (ns, ne)" by fastforce
  from TCMalloc_SystemRelease_range [of 4096 12 5000 20000 ns ne] e show ?thesis by auto
qed

end
