(* ===== verification/Metadata.thy ===== *)
theory Metadata
  imports SystemAlloc
begin

text \<open>
  Memory for the allocator's own data: \<open>MetaDataAlloc\<close> of \<^verbatim>\<open>common.cc\<close>, the object allocator of
  \<^verbatim>\<open>page_heap_allocator.h\<close> and its STL wrapper. The static variables of the metadata allocator
  are a record beside the state of the system allocator. The free list of a
  \<open>PageHeapAllocator\<close> is the list of its addresses, first element first. The result is
  \<^term>\<open>None\<close> where the process aborts.
\<close>

record 'o metadata =
  sysmem :: "'o sys"
  metadata_system_bytes :: nat
  metadata_chunk_alloc :: nat
  metadata_chunk_avail :: nat

definition kMetadataAllocChunkSize :: nat where
  "kMetadataAllocChunkSize = 8 * 1024 * 1024"

definition kMetadataAllignment :: nat where
  "kMetadataAllignment = sizeof_MemoryAligner"

definition MetaDataAlloc :: "'o platform \<Rightarrow> nat \<Rightarrow> 'o metadata \<Rightarrow> (nat \<times> 'o metadata) option" where
  "MetaDataAlloc pl bytes md =
     (if kMetadataAllocChunkSize \<le> bytes then do {
        (rv, _, s) \<leftarrow> TCMalloc_SystemAlloc pl bytes kMetadataAllignment (sysmem md);
        let md = md\<lparr>sysmem := s\<rparr>;
        Some (rv, if rv \<noteq> 0 then md\<lparr>metadata_system_bytes := add64 (metadata_system_bytes md) bytes\<rparr>
                  else md) }
      else do {
        let alignment = sub64 0 (metadata_chunk_alloc md) AND (kMetadataAllignment - 1);
        (refused, alignment, md) \<leftarrow>
          (if metadata_chunk_avail md < add64 bytes alignment then do {
             (ptr, real_size, s) \<leftarrow>
               TCMalloc_SystemAlloc pl kMetadataAllocChunkSize kMetadataAllignment (sysmem md);
             let md = md\<lparr>sysmem := s\<rparr>;
             Some (if ptr = 0 then (True, alignment, md)
                   else (False, 0, md\<lparr>metadata_chunk_alloc := ptr, metadata_chunk_avail := real_size\<rparr>)) }
           else Some (False, alignment, md));
        if refused then Some (0, md)
        else do {
          let rv = add64 (metadata_chunk_alloc md) alignment;
          let bytes = add64 bytes alignment;
          Some (rv, md\<lparr>metadata_chunk_alloc := add64 (metadata_chunk_alloc md) bytes,
                       metadata_chunk_avail := sub64 (metadata_chunk_avail md) bytes,
                       metadata_system_bytes := add64 (metadata_system_bytes md) bytes\<rparr>) } })"

subsection \<open>Objects of one type\<close>

record object_pool =
  free_area :: nat
  free_avail :: nat
  free_list :: "nat list"
  inuse :: int

definition kAllocIncrement :: nat where
  "kAllocIncrement = 128 * 2 ^ 10"

text \<open>\<open>sizeof_T\<close> is the size of the element type, the template argument of the source.\<close>

definition PageHeapAllocator_New ::
  "'o platform \<Rightarrow> nat \<Rightarrow> object_pool \<Rightarrow> 'o metadata \<Rightarrow> (nat \<times> object_pool \<times> 'o metadata) option" where
  "PageHeapAllocator_New pl sizeof_T a md =
     (case free_list a of
        result # rest \<Rightarrow> Some (result, a\<lparr>free_list := rest, inuse := inuse a + 1\<rparr>, md)
      | [] \<Rightarrow> do {
          (a, md) \<leftarrow>
            (if free_avail a < sizeof_T then do {
               (area, md) \<leftarrow> MetaDataAlloc pl kAllocIncrement md;
               if area = 0 then None
               else Some (a\<lparr>free_area := area, free_avail := kAllocIncrement\<rparr>, md) }
             else Some (a, md));
          Some (free_area a,
                a\<lparr>free_area := add64 (free_area a) sizeof_T, free_avail := sub64 (free_avail a) sizeof_T,
                  inuse := inuse a + 1\<rparr>, md) })"

definition PageHeapAllocator_Delete :: "nat \<Rightarrow> object_pool \<Rightarrow> object_pool" where
  "PageHeapAllocator_Delete p a = a\<lparr>free_list := p # free_list a, inuse := inuse a - 1\<rparr>"

definition PageHeapAllocator_Init ::
  "'o platform \<Rightarrow> nat \<Rightarrow> object_pool \<Rightarrow> 'o metadata \<Rightarrow> (object_pool \<times> 'o metadata) option" where
  "PageHeapAllocator_Init pl sizeof_T a md = do {
     let a = a\<lparr>inuse := 0, free_area := 0, free_avail := 0, free_list := []\<rparr>;
     (p, a, md) \<leftarrow> PageHeapAllocator_New pl sizeof_T a md;
     Some (PageHeapAllocator_Delete p a, md) }"

record stl_storage =
  allocator :: object_pool
  initialized :: bool

definition STLPageHeapAllocator_allocate ::
  "'o platform \<Rightarrow> nat \<Rightarrow> nat \<Rightarrow> stl_storage \<Rightarrow> 'o metadata \<Rightarrow> (nat \<times> stl_storage \<times> 'o metadata) option" where
  "STLPageHeapAllocator_allocate pl sizeof_T n u md = do {
     (u, md) \<leftarrow>
       (if \<not> initialized u then do {
          (a, md) \<leftarrow> PageHeapAllocator_Init pl sizeof_T (allocator u) md;
          Some (u\<lparr>allocator := a, initialized := True\<rparr>, md) }
        else Some (u, md));
     if n = 1 then do {
       (p, a, md) \<leftarrow> PageHeapAllocator_New pl sizeof_T (allocator u) md;
       Some (p, u\<lparr>allocator := a\<rparr>, md) }
     else None }"

definition STLPageHeapAllocator_deallocate :: "nat \<Rightarrow> nat \<Rightarrow> stl_storage \<Rightarrow> stl_storage option" where
  "STLPageHeapAllocator_deallocate p n u =
     (if n = 1 then Some (u\<lparr>allocator := PageHeapAllocator_Delete p (allocator u)\<rparr>) else None)"

subsection \<open>Invariants\<close>

text \<open>
  \<open>G\<close> is the memory that has been handed out and \<open>T\<close> all memory taken from the system, which
  \<open>TCMalloc_SystemTaken\<close> counts. The rest of the current chunk is part of \<open>T\<close> and not of \<open>G\<close>.
\<close>

definition meta_ok :: "'o platform \<Rightarrow> ('o \<Rightarrow> nat set) \<Rightarrow> nat set \<Rightarrow> 'o metadata \<Rightarrow> bool" where
  "meta_ok pl mapped G md \<longleftrightarrow>
     os_laws pl mapped \<and> sys_ok pl (sysmem md)
   \<and> metadata_chunk_alloc md + metadata_chunk_avail md \<le> 2 ^ kAddressBits
   \<and> (\<exists>T. T \<subseteq> mapped (os (sysmem md)) \<and> T \<subseteq> {..<2 ^ kAddressBits} \<and> SystemTaken (sysmem md) = card T
        \<and> G \<subseteq> T \<and> {metadata_chunk_alloc md..<metadata_chunk_alloc md + metadata_chunk_avail md} \<subseteq> T - G)"

text \<open>
  A pool of objects of size \<open>k\<close> lives in the memory \<open>M\<close>: its live objects \<open>U\<close>, the objects on
  the free list and the free area do not overlap.
\<close>

definition objects_apart :: "nat \<Rightarrow> nat set \<Rightarrow> bool" where
  "objects_apart k A \<longleftrightarrow> (\<forall>x\<in>A. \<forall>y\<in>A. x < y \<longrightarrow> x + k \<le> y)"

definition pool_ok :: "nat \<Rightarrow> nat set \<Rightarrow> nat set \<Rightarrow> object_pool \<Rightarrow> bool" where
  "pool_ok k M U a \<longleftrightarrow>
     0 < k \<and> k \<le> kAllocIncrement \<and> finite U \<and> 0 \<notin> M
   \<and> distinct (free_list a) \<and> U \<inter> set (free_list a) = {} \<and> inuse a = int (card U)
   \<and> objects_apart k (U \<union> set (free_list a))
   \<and> (\<forall>x \<in> U \<union> set (free_list a). {x..<x + k} \<subseteq> M)
   \<and> free_area a + free_avail a \<le> 2 ^ kAddressBits
   \<and> {free_area a..<free_area a + free_avail a} \<subseteq> M
   \<and> (\<forall>x \<in> U \<union> set (free_list a). x + k \<le> free_area a \<or> free_area a + free_avail a \<le> x)"

lemma meta_ok_mono:
  assumes "meta_ok pl mapped G md" and "sys_ok pl s" and "mapped (os (sysmem md)) \<subseteq> mapped (os s)"
    and "SystemTaken s = SystemTaken (sysmem md)"
  shows "meta_ok pl mapped G (md\<lparr>sysmem := s\<rparr>)"
proof -
  obtain T where T: "T \<subseteq> mapped (os (sysmem md))" "T \<subseteq> {..<2 ^ kAddressBits}" "SystemTaken (sysmem md) = card T"
    "G \<subseteq> T" "{metadata_chunk_alloc md..<metadata_chunk_alloc md + metadata_chunk_avail md} \<subseteq> T - G"
    using assms(1) unfolding meta_ok_def by blast
  then have "T \<subseteq> mapped (os s)" using assms(3) by blast
  then show ?thesis unfolding meta_ok_def
    using assms(1,2,4) T(2-5) by (intro conjI exI [of _ T]) (simp_all add: meta_ok_def)
qed

text \<open>A block taken from the system directly, bypassing the chunk.\<close>

lemma meta_ok_block:
  assumes "meta_ok pl mapped G md"
    and "TCMalloc_SystemAlloc pl sz alignment (sysmem md) = Some (r, actual, s)"
    and "alignment = 0 \<or> alignment = 2 ^ j" and "sz + max alignment sizeof_MemoryAligner < 2 ^ 64"
  shows "mapped (os (sysmem md)) \<subseteq> mapped (os s)
    \<and> (if r = 0 then meta_ok pl mapped G (md\<lparr>sysmem := s\<rparr>)
       else max alignment sizeof_MemoryAligner dvd r \<and> max alignment sizeof_MemoryAligner dvd actual
         \<and> sz \<le> actual \<and> r + actual \<le> 2 ^ kAddressBits
         \<and> {r..<r + actual} \<inter> mapped (os (sysmem md)) = {} \<and> {r..<r + actual} \<inter> G = {}
         \<and> meta_ok pl mapped (G \<union> {r..<r + actual}) (md\<lparr>sysmem := s\<rparr>))"
proof -
  have os: "os_laws pl mapped" "sys_ok pl (sysmem md)" using assms(1) by (auto simp: meta_ok_def)
  note b = TCMalloc_SystemAlloc_block [OF os assms(3,4,2)]
  then have m: "mapped (os (sysmem md)) \<subseteq> mapped (os s)" "sys_ok pl s" by (auto simp: fresh_block_def)
  show ?thesis
  proof (cases "r = 0")
    case True
    then show ?thesis using m meta_ok_mono [OF assms(1) m(2,1)] b by simp
  next
    case False
    let ?R = "{r..<r + actual}"
    from False have f: "max alignment sizeof_MemoryAligner dvd r" "max alignment sizeof_MemoryAligner dvd actual"
      "sz \<le> actual" "r + actual \<le> 2 ^ kAddressBits" "?R \<subseteq> mapped (os s) - mapped (os (sysmem md))"
      "SystemTaken s = add64 (SystemTaken (sysmem md)) actual"
      using b unfolding fresh_block_def by auto
    let ?C = "{metadata_chunk_alloc md..<metadata_chunk_alloc md + metadata_chunk_avail md}"
    obtain T where T: "T \<subseteq> mapped (os (sysmem md))" "T \<subseteq> {..<2 ^ kAddressBits}" "SystemTaken (sysmem md) = card T"
      "G \<subseteq> T" "?C \<subseteq> T - G" using assms(1) unfolding meta_ok_def by blast
    have sub: "T \<union> ?R \<subseteq> {..<2 ^ kAddressBits}" using T(2) f(4) by auto
    have fin: "finite (T \<union> ?R)" by (rule finite_subset [OF sub]) simp
    have "card (T \<union> ?R) = card T + actual" using fin T(1) f(5) by (subst card_Un_disjoint) auto
    moreover have "card (T \<union> ?R) \<le> 2 ^ 48" using card_mono [OF _ sub] by simp
    ultimately have taken: "SystemTaken s = card (T \<union> ?R)" using f(6) T(3) by (simp add: add64_eq)
    have "T \<union> ?R \<subseteq> mapped (os s)" "G \<union> ?R \<subseteq> T \<union> ?R" "?C \<subseteq> (T \<union> ?R) - (G \<union> ?R)" "?R \<inter> G = {}"
      "?R \<inter> mapped (os (sysmem md)) = {}"
      using T(1,4,5) f(5) m(1) by blast+
    moreover have "meta_ok pl mapped (G \<union> ?R) (md\<lparr>sysmem := s\<rparr>)"
      unfolding meta_ok_def
      using assms(1) m(2) sub taken calculation(1-3) by (intro conjI exI [of _ "T \<union> ?R"]) (simp_all add: meta_ok_def)
    ultimately show ?thesis using m f False by simp
  qed
qed

lemma negate_align:
  assumes "a < 2 ^ 64"
  shows "sub64 0 a AND 63 < 64" and "64 dvd a + (sub64 0 a AND 63)"
proof -
  have e: "sub64 0 a AND 63 = sub64 0 a mod 64" using and_low_mask [of "sub64 0 a" 6] by simp
  show "sub64 0 a AND 63 < 64" unfolding e by simp
  have "sub64 0 a = (2 ^ 64 - a) mod 2 ^ 64" using assms by (simp add: sub64_def)
  then have "sub64 0 a mod 64 = (2 ^ 64 - a) mod 64" by (simp add: mod_mod_cancel)
  then have "(a + sub64 0 a mod 64) mod 64 = (a + (2 ^ 64 - a)) mod 64" by (simp only: mod_add_right_eq)
  also have "\<dots> = 0" using assms by simp
  finally show "64 dvd a + (sub64 0 a AND 63)" unfolding e by (simp only: dvd_eq_mod_eq_0)
qed

lemma MetaDataAlloc_carve:
  assumes "meta_ok pl mapped G md" and "bytes + al \<le> metadata_chunk_avail md"
    and "r = metadata_chunk_alloc md + al"
    and "md' = md\<lparr>metadata_chunk_alloc := add64 (metadata_chunk_alloc md) (add64 bytes al),
                  metadata_chunk_avail := sub64 (metadata_chunk_avail md) (add64 bytes al),
                  metadata_system_bytes := v\<rparr>"
  shows "{r..<r + bytes} \<inter> G = {}" and "r + bytes \<le> 2 ^ kAddressBits"
    and "meta_ok pl mapped (G \<union> {r..<r + bytes}) md'"
proof -
  let ?a = "metadata_chunk_alloc md" and ?n = "metadata_chunk_avail md"
  obtain T where T: "T \<subseteq> mapped (os (sysmem md))" "T \<subseteq> {..<2 ^ kAddressBits}" "SystemTaken (sysmem md) = card T"
    "G \<subseteq> T" "{?a..<?a + ?n} \<subseteq> T - G" and c: "?a + ?n \<le> 2 ^ 48" using assms(1) by (auto simp: meta_ok_def)
  have sub: "{r..<r + bytes} \<subseteq> {?a..<?a + ?n}" using assms(2,3) by auto
  show d: "{r..<r + bytes} \<inter> G = {}" using sub T(5) by blast
  show le: "r + bytes \<le> 2 ^ kAddressBits" using assms(2,3) c by simp
  have e: "add64 bytes al = bytes + al" "add64 ?a (bytes + al) = ?a + (bytes + al)"
    "sub64 ?n (bytes + al) = ?n - (bytes + al)"
    using assms(2) c by (simp_all add: add64_eq sub64_eq)
  have sum: "?a + (bytes + al) + (?n - (bytes + al)) = ?a + ?n" using assms(2) by simp
  have "{?a + (bytes + al)..<?a + ?n} \<subseteq> {?a..<?a + ?n} - {r..<r + bytes}"
    using assms(3) by auto
  then have "G \<union> {r..<r + bytes} \<subseteq> T" "{?a + (bytes + al)..<?a + ?n} \<subseteq> T - (G \<union> {r..<r + bytes})"
    using sub T(4,5) by blast+
  then show "meta_ok pl mapped (G \<union> {r..<r + bytes}) md'"
    unfolding meta_ok_def assms(4) e
    using assms(1) T(1-3) c sum by (intro conjI exI [of _ T]) (simp_all add: meta_ok_def)
qed

lemma meta_ok_subset: "meta_ok pl mapped G md \<Longrightarrow> H \<subseteq> G \<Longrightarrow> meta_ok pl mapped H md"
  unfolding meta_ok_def by blast

lemma meta_ok_bytes [simp]:
  "meta_ok pl mapped G (md\<lparr>metadata_system_bytes := v\<rparr>) = meta_ok pl mapped G md"
  by (simp add: meta_ok_def)

lemma meta_ok_chunk:
  assumes "meta_ok pl mapped (G \<union> {r..<r + n}) md" and "{r..<r + n} \<inter> G = {}" and "r + n \<le> 2 ^ kAddressBits"
  shows "meta_ok pl mapped G (md\<lparr>metadata_chunk_alloc := r, metadata_chunk_avail := n\<rparr>)"
proof -
  obtain T where T: "T \<subseteq> mapped (os (sysmem md))" "T \<subseteq> {..<2 ^ kAddressBits}" "SystemTaken (sysmem md) = card T"
    "G \<union> {r..<r + n} \<subseteq> T" using assms(1) unfolding meta_ok_def by blast
  then have "G \<subseteq> T" "{r..<r + n} \<subseteq> T - G" using assms(2) by blast+
  then show ?thesis unfolding meta_ok_def
    using assms(1,3) T(1-3) by (intro conjI exI [of _ T]) (simp_all add: meta_ok_def)
qed

lemma meta_ok_mapped: "meta_ok pl mapped G md \<Longrightarrow> G \<subseteq> mapped (os (sysmem md))"
  unfolding meta_ok_def by blast

lemma MetaDataAlloc_fresh:
  assumes ok: "meta_ok pl mapped G md" and small: "bytes + 64 < 2 ^ 64"
    and r: "MetaDataAlloc pl bytes md = Some (r, md')"
  shows "mapped (os (sysmem md)) \<subseteq> mapped (os (sysmem md')) \<and> meta_ok pl mapped G md'
    \<and> (r \<noteq> 0 \<longrightarrow> 64 dvd r \<and> r + bytes \<le> 2 ^ kAddressBits \<and> {r..<r + bytes} \<inter> G = {}
         \<and> meta_ok pl mapped (G \<union> {r..<r + bytes}) md')"
proof (cases "kMetadataAllocChunkSize \<le> bytes")
  case True
  from r True obtain n s where sa: "TCMalloc_SystemAlloc pl bytes 64 (sysmem md) = Some (r, n, s)"
    and md': "md' = (if r \<noteq> 0 then md\<lparr>sysmem := s, metadata_system_bytes := add64 (metadata_system_bytes md) bytes\<rparr>
       else md\<lparr>sysmem := s\<rparr>)"
    by (auto simp: MetaDataAlloc_def kMetadataAllignment_def Let_def split: bind_splits)
  have b: "mapped (os (sysmem md)) \<subseteq> mapped (os s)" "meta_ok pl mapped G (md\<lparr>sysmem := s\<rparr>)"
    "r \<noteq> 0 \<Longrightarrow> 64 dvd r \<and> bytes \<le> n \<and> r + n \<le> 2 ^ 48 \<and> {r..<r + n} \<inter> G = {}
      \<and> meta_ok pl mapped (G \<union> {r..<r + n}) (md\<lparr>sysmem := s\<rparr>)"
    using meta_ok_block [OF ok sa, of 6] small meta_ok_subset [of pl mapped "G \<union> {r..<r + n}" "md\<lparr>sysmem := s\<rparr>" G]
    by (auto split: if_splits)
  show ?thesis
  proof (cases "r = 0")
    case True
    then show ?thesis using b(1,2) md' by simp
  next
    case False
    note b = b(1,2) b(3) [OF False]
    have sub: "{r..<r + bytes} \<subseteq> {r..<r + n}" using b by auto
    then have "{r..<r + bytes} \<inter> G = {}" using b(3) by blast
    moreover have "meta_ok pl mapped (G \<union> {r..<r + bytes}) (md\<lparr>sysmem := s\<rparr>)"
      by (rule meta_ok_subset [of _ _ "G \<union> {r..<r + n}"]) (use b sub in auto)
    moreover have "r + bytes \<le> 2 ^ 48" using b(3) by linarith
    ultimately show ?thesis using b md' False by simp
  qed
next
  case False
  then have lt: "bytes < 8388608" by (simp add: kMetadataAllocChunkSize_def)
  define al where "al = sub64 0 (metadata_chunk_alloc md) AND 63"
  have "metadata_chunk_alloc md < 2 ^ 64" using ok by (simp add: meta_ok_def)
  note al = negate_align [OF this, folded al_def]
  have ab: "add64 bytes al = bytes + al" using lt al(1) by (simp add: add64_eq)
  let ?carve = "\<lambda>al md. md\<lparr>metadata_chunk_alloc := add64 (metadata_chunk_alloc md) (add64 bytes al),
                       metadata_chunk_avail := sub64 (metadata_chunk_avail md) (add64 bytes al),
                       metadata_system_bytes := add64 (metadata_system_bytes md) (add64 bytes al)\<rparr>"
  have carved: ?thesis if "meta_ok pl mapped G m1" "bytes + a1 \<le> metadata_chunk_avail m1"
    "64 dvd metadata_chunk_alloc m1 + a1" "mapped (os (sysmem md)) \<subseteq> mapped (os (sysmem m1))"
    "r = add64 (metadata_chunk_alloc m1) a1" "md' = ?carve a1 m1" for m1 a1
  proof -
    have "metadata_chunk_alloc m1 + a1 < 2 ^ 64" using that(1,2) by (simp add: meta_ok_def)
    then have re: "r = metadata_chunk_alloc m1 + a1" using that(5) by (simp add: add64_eq)
    note c = MetaDataAlloc_carve [OF that(1,2) re that(6)]
    show ?thesis using c that(3,4) re meta_ok_subset [OF c(3), of G] by (simp add: that(6))
  qed
  show ?thesis
  proof (cases "metadata_chunk_avail md < bytes + al")
    case fits: False
    then show ?thesis
      using r False ab al ok by (intro carved [of md al]) (simp_all add: MetaDataAlloc_def al_def kMetadataAllignment_def Let_def)
  next
    case True
    have ge: "\<not> kMetadataAllocChunkSize \<le> bytes" "metadata_chunk_avail md < add64 bytes al"
      using False True ab by simp_all
    have chunk64: "kMetadataAllocChunkSize + max 64 sizeof_MemoryAligner < 2 ^ 64"
      by (simp add: kMetadataAllocChunkSize_def)
    obtain p n s where
      sa: "TCMalloc_SystemAlloc pl kMetadataAllocChunkSize 64 (sysmem md) = Some (p, n, s)"
      using r ge by (cases "TCMalloc_SystemAlloc pl kMetadataAllocChunkSize 64 (sysmem md)")
        (auto simp: MetaDataAlloc_def kMetadataAllignment_def al_def)
    have d: "(if p = 0 then Some (0, md\<lparr>sysmem := s\<rparr>)
          else let m1 = md\<lparr>sysmem := s, metadata_chunk_alloc := p, metadata_chunk_avail := n\<rparr>
               in Some (add64 (metadata_chunk_alloc m1) 0, ?carve 0 m1)) = Some (r, md')"
      using r ge by (simp add: MetaDataAlloc_def kMetadataAllignment_def al_def sa Let_def split: if_splits)
    have b: "mapped (os (sysmem md)) \<subseteq> mapped (os s)" "meta_ok pl mapped G (md\<lparr>sysmem := s\<rparr>)"
      "p \<noteq> 0 \<Longrightarrow> 64 dvd p \<and> kMetadataAllocChunkSize \<le> n \<and> p + n \<le> 2 ^ 48 \<and> {p..<p + n} \<inter> G = {}
      \<and> meta_ok pl mapped (G \<union> {p..<p + n}) (md\<lparr>sysmem := s\<rparr>)"
      using meta_ok_block [OF ok sa _ chunk64, of 6] meta_ok_subset [of pl mapped "G \<union> {p..<p + n}" "md\<lparr>sysmem := s\<rparr>" G]
      by (auto split: if_splits)
    show ?thesis
    proof (cases "p = 0")
      case True
      then have "r = 0" "md' = md\<lparr>sysmem := s\<rparr>" using d by simp_all
      then show ?thesis using b(1,2) by simp
    next
      case nz: False
      note b = b(1,2) b(3) [OF nz]
      let ?m1 = "md\<lparr>sysmem := s, metadata_chunk_alloc := p, metadata_chunk_avail := n\<rparr>"
      have m1: "meta_ok pl mapped G ?m1"
        using meta_ok_chunk [of pl mapped G p n "md\<lparr>sysmem := s\<rparr>"] b(3) by auto
      show ?thesis
        by (rule carved [of ?m1 0, OF m1]) (use d nz b False in \<open>simp_all add: Let_def\<close>)
    qed
  qed
qed

subsection \<open>Pools\<close>

lemma interval_apart:
  fixes x r :: nat
  assumes "{x..<x + k} \<inter> {r..<r + n} = {}" and "0 < k" and "0 < n"
  shows "x + k \<le> r \<or> r + n \<le> x"
proof (rule ccontr)
  assume "\<not> ?thesis"
  then have "max x r \<in> {x..<x + k} \<inter> {r..<r + n}" using assms(2,3) by auto
  then show False using assms(1) by blast
qed

lemma objects_apart_insert:
  "objects_apart k A \<Longrightarrow> (\<And>y. y \<in> A \<Longrightarrow> y \<noteq> x \<Longrightarrow> y + k \<le> x \<or> x + k \<le> y) \<Longrightarrow> 0 < k
    \<Longrightarrow> objects_apart k (insert x A)"
  unfolding objects_apart_def by fastforce

lemma objects_apart_subset: "objects_apart k A \<Longrightarrow> B \<subseteq> A \<Longrightarrow> objects_apart k B"
  unfolding objects_apart_def by blast

lemma pool_carve:
  assumes ok: "pool_ok k M U a" and "k \<le> free_avail a" and f: "free_list a = []"
    and a': "a' = a\<lparr>free_area := add64 (free_area a) k, free_avail := sub64 (free_avail a) k,
                  inuse := inuse a + 1\<rparr>"
  shows "free_area a \<notin> U" and "free_area a \<noteq> 0" and "{free_area a..<free_area a + k} \<subseteq> M"
    and "pool_ok k M (insert (free_area a) U) a'"
proof -
  let ?x = "free_area a" and ?n = "free_avail a"
  have o: "0 < k" "finite U" "0 \<notin> M" "objects_apart k U" "?x + ?n \<le> 2 ^ 48" "{?x..<?x + ?n} \<subseteq> M"
    "\<And>y. y \<in> U \<Longrightarrow> {y..<y + k} \<subseteq> M" "\<And>y. y \<in> U \<Longrightarrow> y + k \<le> ?x \<or> ?x + ?n \<le> y"
    using ok f by (auto simp: pool_ok_def)
  show nx: "?x \<notin> U" using o(8) [of ?x] o(1) assms(2) by auto
  have "?x \<in> M" using o(1,6) assms(2) by (meson atLeastLessThan_iff le_add1 less_add_same_cancel1 less_le_trans subsetD le_refl)
  then show "?x \<noteq> 0" using o(3) by metis
  show sub: "{?x..<?x + k} \<subseteq> M" using o(6) assms(2) by force
  have e: "add64 ?x k = ?x + k" "sub64 ?n k = ?n - k"
    using assms(2) o(5) by (simp_all add: add64_eq sub64_eq)
  have ap: "objects_apart k (insert ?x U)"
    by (rule objects_apart_insert [OF o(4) _ o(1)]) (use o(8) assms(2) in force)
  have "{?x + k..<?x + ?n} \<subseteq> M" using o(6) by force
  moreover have "y + k \<le> ?x + k \<or> ?x + ?n \<le> y" if "y \<in> insert ?x U" for y
    using that o(8) by fastforce
  ultimately show "pool_ok k M (insert ?x U) a'"
    using ok f ap sub nx assms(2) o(2,5) by (simp add: pool_ok_def a' e)
qed

lemma pool_refill:
  assumes ok: "pool_ok k M U a" and "{r..<r + kAllocIncrement} \<inter> M = {}" and "r \<noteq> 0"
    and "r + kAllocIncrement \<le> 2 ^ kAddressBits"
  shows "pool_ok k (M \<union> {r..<r + kAllocIncrement}) U (a\<lparr>free_area := r, free_avail := kAllocIncrement\<rparr>)"
proof -
  have pos: "0 < k" "0 < kAllocIncrement" using ok by (simp_all add: pool_ok_def kAllocIncrement_def)
  have sub: "{x..<x + k} \<subseteq> M" if "x \<in> U \<union> set (free_list a)" for x
    using ok that by (simp add: pool_ok_def)
  have ap: "x + k \<le> r \<or> r + kAllocIncrement \<le> x" if "x \<in> U \<union> set (free_list a)" for x
    by (rule interval_apart [OF _ pos]) (use sub [OF that] assms(2) in blast)
  have "0 \<notin> M \<union> {r..<r + kAllocIncrement}" using ok assms(3) by (auto simp: pool_ok_def)
  moreover have "\<forall>x \<in> U \<union> set (free_list a). {x..<x + k} \<subseteq> M \<union> {r..<r + kAllocIncrement}"
    using sub by blast
  moreover have "{r..<r + kAllocIncrement} \<subseteq> M \<union> {r..<r + kAllocIncrement}" by blast
  ultimately show ?thesis using ok ap assms(4) unfolding pool_ok_def by (simp del: Un_iff)
qed

lemma pool_ok_nonzero: "pool_ok k M U a \<Longrightarrow> x \<in> U \<union> set (free_list a) \<Longrightarrow> x \<noteq> 0"
  unfolding pool_ok_def by (metis atLeastLessThan_iff le_refl less_add_same_cancel1 subsetD)

lemma pool_ok_list:
  assumes "pool_ok k M U a" and "free_list a = x # rest"
  shows "pool_ok k M (insert x U) (a\<lparr>free_list := rest, inuse := inuse a + 1\<rparr>)
    \<and> x \<notin> U \<and> x \<noteq> 0 \<and> {x..<x + k} \<subseteq> M"
proof -
  have "x \<noteq> 0" by (rule pool_ok_nonzero [OF assms(1)]) (simp add: assms(2))
  moreover have "insert x U \<union> set rest = U \<union> set (free_list a)" using assms(2) by auto
  ultimately show ?thesis using assms unfolding pool_ok_def
    by (simp del: Un_insert_left)
qed

lemma pool_ok_Delete:
  assumes "pool_ok k M U a" and "x \<in> U"
  shows "pool_ok k M (U - {x}) (PageHeapAllocator_Delete x a)"
proof -
  have fin: "finite U" using assms(1) by (simp add: pool_ok_def)
  then have "0 < card U" using assms(2) card_gt_0_iff by blast
  then have "int (card U) - 1 = int (card (U - {x}))" using assms(2) fin by simp
  moreover have "(U - {x}) \<union> set (x # free_list a) = U \<union> set (free_list a)" using assms(2) by auto
  moreover have "x \<notin> set (free_list a)" "(U - {x}) \<inter> set (x # free_list a) = {}"
    using assms by (auto simp: pool_ok_def)
  ultimately show ?thesis using assms(1) unfolding pool_ok_def PageHeapAllocator_Delete_def
    by (simp del: Un_insert_right list.set)
qed

text \<open>
  A new object is none of the live ones; where the pool had to grow, it took memory that nobody
  else had (\<open>M' - M\<close> is disjoint from everything handed out before).
\<close>

lemma PageHeapAllocator_New_ok:
  assumes ok: "pool_ok k M U a" "meta_ok pl mapped G md" "M \<subseteq> G"
    and new: "PageHeapAllocator_New pl k a md = Some (x, a', md')"
  shows "\<exists>M' G'. M \<subseteq> M' \<and> G \<subseteq> G' \<and> M' \<subseteq> G' \<and> (M' - M) \<inter> G = {} \<and> G' = G \<union> M'
    \<and> x \<notin> U \<and> x \<noteq> 0 \<and> {x..<x + k} \<subseteq> M'
    \<and> pool_ok k M' (insert x U) a' \<and> meta_ok pl mapped G' md'
    \<and> mapped (os (sysmem md)) \<subseteq> mapped (os (sysmem md'))"
proof (cases "free_list a")
  case (Cons y rest)
  then have "x = y" "a' = a\<lparr>free_list := rest, inuse := inuse a + 1\<rparr>" "md' = md"
    using new by (auto simp: PageHeapAllocator_New_def)
  moreover have "G \<union> M = G" using ok(3) by blast
  ultimately show ?thesis
    using pool_ok_list [OF ok(1) Cons] ok by (intro exI [of _ M] exI [of _ G]) simp
next
  case Nil
  let ?take = "\<lambda>a. a\<lparr>free_area := add64 (free_area a) k, free_avail := sub64 (free_avail a) k,
                  inuse := inuse a + 1\<rparr>"
  show ?thesis
  proof (cases "free_avail a < k")
    case False
    then have e: "x = free_area a" "a' = ?take a" "md' = md"
      using new Nil by (auto simp: PageHeapAllocator_New_def)
    have "G \<union> M = G" using ok(3) by blast
    then show ?thesis
      using pool_carve [OF ok(1) _ Nil e(2)] False ok e by (intro exI [of _ M] exI [of _ G]) simp
  next
    case True
    obtain r md1 where r: "MetaDataAlloc pl kAllocIncrement md = Some (r, md1)"
      using new Nil True by (cases "MetaDataAlloc pl kAllocIncrement md") (auto simp: PageHeapAllocator_New_def)
    let ?a = "a\<lparr>free_area := r, free_avail := kAllocIncrement\<rparr>"
    have e: "r \<noteq> 0" "x = r" "md' = md1" "a' = ?take ?a"
      using new Nil True r by (auto simp: PageHeapAllocator_New_def split: if_splits)
    let ?R = "{r..<r + kAllocIncrement}"
    have "kAllocIncrement + 64 < 2 ^ 64" by (simp add: kAllocIncrement_def)
    from MetaDataAlloc_fresh [OF ok(2) this r] e(1)
    have f: "mapped (os (sysmem md)) \<subseteq> mapped (os (sysmem md1))" "?R \<inter> G = {}"
      "r + kAllocIncrement \<le> 2 ^ kAddressBits" "meta_ok pl mapped (G \<union> ?R) md1" by auto
    have p: "pool_ok k (M \<union> ?R) U ?a"
      by (rule pool_refill) (use ok f e(1) in auto)
    have k: "k \<le> free_avail ?a" using ok(1) by (simp add: pool_ok_def)
    note c = pool_carve [OF p k _ e(4), simplified, OF Nil]
    have "G \<union> (M \<union> ?R) = G \<union> ?R" using ok(3) by blast
    then show ?thesis
      using c f e ok(3) by (intro exI [of _ "M \<union> ?R"] exI [of _ "G \<union> ?R"]) (simp del: Un_iff, blast)
  qed
qed

subsection \<open>The contract of an object allocator\<close>

text \<open>
  A history of calls: \<open>PoolDelete i\<close> gives back the \<open>i\<close>-th of the live objects, the youngest
  first. \<open>pool_run\<close> returns the final state and the live objects.
\<close>

datatype pool_op = PoolNew | PoolDelete nat

definition drop_nth :: "nat \<Rightarrow> 'a list \<Rightarrow> 'a list" where
  "drop_nth i xs = take i xs @ drop (Suc i) xs"

fun pool_run ::
  "('s \<Rightarrow> (nat \<times> 's) option) \<Rightarrow> (nat \<Rightarrow> 's \<Rightarrow> 's) \<Rightarrow> pool_op list \<Rightarrow> 's \<Rightarrow> nat list \<Rightarrow> ('s \<times> nat list) option" where
  "pool_run new delete [] s L = Some (s, L)"
| "pool_run new delete (PoolNew # ops) s L =
     do { (x, s) \<leftarrow> new s; pool_run new delete ops s (x # L) }"
| "pool_run new delete (PoolDelete i # ops) s L =
     (if i < length L then pool_run new delete ops (delete (L ! i) s) (drop_nth i L)
      else pool_run new delete ops s L)"

lemma set_drop_nth: "distinct L \<Longrightarrow> i < length L \<Longrightarrow> set (drop_nth i L) = set L - {L ! i}"
  and distinct_drop_nth: "distinct L \<Longrightarrow> i < length L \<Longrightarrow> distinct (drop_nth i L)"
proof -
  assume d: "distinct L" and i: "i < length L"
  note L = id_take_nth_drop [OF i]
  have "distinct (take i L @ L ! i # drop (Suc i) L)" using d L by simp
  then show "set (drop_nth i L) = set L - {L ! i}" "distinct (drop_nth i L)"
    unfolding drop_nth_def by (subst (2) L, auto)+
qed

locale object_allocator =
  fixes live_ok :: "'s \<Rightarrow> nat set \<Rightarrow> bool"
    and new :: "'s \<Rightarrow> (nat \<times> 's) option"
    and delete :: "nat \<Rightarrow> 's \<Rightarrow> 's"
  assumes new_fresh: "live_ok s U \<Longrightarrow> new s = Some (x, s') \<Longrightarrow> x \<noteq> 0 \<and> x \<notin> U \<and> live_ok s' (insert x U)"
    and delete_live: "live_ok s U \<Longrightarrow> x \<in> U \<Longrightarrow> live_ok (delete x s) (U - {x})"
begin

lemma history:
  "live_ok s (set L) \<Longrightarrow> distinct L \<Longrightarrow> pool_run new delete ops s L = Some (s', L')
    \<Longrightarrow> live_ok s' (set L') \<and> distinct L'"
proof (induction ops arbitrary: s L)
  case (Cons op ops)
  show ?case
  proof (cases op)
    case PoolNew
    then obtain x t where n: "new s = Some (x, t)" "pool_run new delete ops t (x # L) = Some (s', L')"
      using Cons.prems(3) by (auto split: bind_splits)
    from new_fresh [OF Cons.prems(1) n(1)] Cons.IH [OF _ _ n(2)] Cons.prems(2) show ?thesis by simp
  next
    case (PoolDelete i)
    show ?thesis
    proof (cases "i < length L")
      case True
      then have "live_ok (delete (L ! i) s) (set (drop_nth i L))"
        using delete_live [OF Cons.prems(1), of "L ! i"] Cons.prems(2) by (simp add: set_drop_nth)
      then show ?thesis
        using Cons.IH distinct_drop_nth [OF Cons.prems(2) True] Cons.prems(3) PoolDelete True by simp
    next
      case False
      then show ?thesis using Cons PoolDelete by simp
    qed
  qed
qed simp

end

text \<open>\<open>G\<close> is what had been handed out before the pool took its first memory.\<close>

definition pool_live ::
  "'o platform \<Rightarrow> ('o \<Rightarrow> nat set) \<Rightarrow> nat \<Rightarrow> nat set \<Rightarrow> object_pool \<times> 'o metadata \<Rightarrow> nat set \<Rightarrow> bool" where
  "pool_live pl mapped k G = (\<lambda>(a, md) U. \<exists>M H. pool_ok k M U a \<and> meta_ok pl mapped H md
     \<and> M \<subseteq> H \<and> G \<subseteq> H \<and> M \<inter> G = {})"

lemma pool_live_New:
  assumes "pool_live pl mapped k G (a, md) U" and "PageHeapAllocator_New pl k a md = Some (x, a', md')"
  shows "x \<noteq> 0 \<and> x \<notin> U \<and> pool_live pl mapped k G (a', md') (insert x U)"
proof -
  from assms(1) obtain M H where p: "pool_ok k M U a" "meta_ok pl mapped H md" "M \<subseteq> H" "G \<subseteq> H" "M \<inter> G = {}"
    by (auto simp: pool_live_def)
  from PageHeapAllocator_New_ok [OF p(1-3) assms(2)] obtain M' H' where
    n: "M \<subseteq> M'" "H \<subseteq> H'" "M' \<subseteq> H'" "(M' - M) \<inter> H = {}" "x \<notin> U" "x \<noteq> 0"
      "pool_ok k M' (insert x U) a'" "meta_ok pl mapped H' md'"
    by (elim exE conjE)
  have "M' \<inter> G = {}" "G \<subseteq> H'" using n(1,2,4) p(4,5) by blast+
  then show ?thesis using n by (auto simp: pool_live_def)
qed

lemma pool_live_Delete:
  "pool_live pl mapped k G (a, md) U \<Longrightarrow> x \<in> U
    \<Longrightarrow> pool_live pl mapped k G (PageHeapAllocator_Delete x a, md) (U - {x})"
  unfolding pool_live_def using pool_ok_Delete by fastforce

lemma pool_live_Init:
  assumes "meta_ok pl mapped G md" and "0 < k" and "k \<le> kAllocIncrement"
    and "PageHeapAllocator_Init pl k a md = Some (a', md')"
  shows "pool_live pl mapped k G (a', md') {}"
proof -
  let ?a = "a\<lparr>inuse := 0, free_area := 0, free_avail := 0, free_list := []\<rparr>"
  obtain p a1 where n: "PageHeapAllocator_New pl k ?a md = Some (p, a1, md')"
    and a': "a' = PageHeapAllocator_Delete p a1"
    using assms(4) by (auto simp: PageHeapAllocator_Init_def Let_def split: bind_splits)
  have "pool_ok k {} {} ?a" using assms(2,3) by (simp add: pool_ok_def objects_apart_def)
  then have "pool_live pl mapped k G (?a, md) {}" using assms(1) by (auto simp: pool_live_def)
  from pool_live_Delete [of pl mapped k G a1 md' "{p}" p] pool_live_New [OF this n]
  show ?thesis by (simp add: a')
qed

interpretation pool: object_allocator
  "pool_live pl mapped k G"
  "\<lambda>(a, md). do { (x, a, md) \<leftarrow> PageHeapAllocator_New pl k a md; Some (x, (a, md)) }"
  "\<lambda>x (a, md). (PageHeapAllocator_Delete x a, md)" for pl mapped k G
  by unfold_locales (auto split: bind_splits dest: pool_live_New intro: pool_live_Delete)

text \<open>The STL wrapper initializes its pool on first use.\<close>

definition stl_live ::
  "'o platform \<Rightarrow> ('o \<Rightarrow> nat set) \<Rightarrow> nat \<Rightarrow> nat set \<Rightarrow> stl_storage \<times> 'o metadata \<Rightarrow> nat set \<Rightarrow> bool" where
  "stl_live pl mapped k G = (\<lambda>(u, md) U. 0 < k \<and> k \<le> kAllocIncrement \<and>
     (if initialized u then pool_live pl mapped k G (allocator u, md) U
      else U = {} \<and> meta_ok pl mapped G md))"

lemma stl_live_allocate:
  assumes "stl_live pl mapped k G (u, md) U" and "STLPageHeapAllocator_allocate pl k 1 u md = Some (x, u', md')"
  shows "x \<noteq> 0 \<and> x \<notin> U \<and> stl_live pl mapped k G (u', md') (insert x U)"
proof -
  have k: "0 < k" "k \<le> kAllocIncrement" using assms(1) by (simp_all add: stl_live_def)
  obtain v md1 a where v: "initialized v" "pool_live pl mapped k G (allocator v, md1) U"
    and n: "PageHeapAllocator_New pl k (allocator v) md1 = Some (x, a, md')" "u' = v\<lparr>allocator := a\<rparr>"
  proof (cases "initialized u")
    case True
    then show thesis using assms that [of u md]
      by (auto simp: STLPageHeapAllocator_allocate_def stl_live_def split: bind_splits)
  next
    case False
    then obtain a1 md1 where i: "PageHeapAllocator_Init pl k (allocator u) md = Some (a1, md1)"
      using assms(2) by (auto simp: STLPageHeapAllocator_allocate_def split: bind_splits)
    have "meta_ok pl mapped G md" "U = {}" using assms(1) False by (simp_all add: stl_live_def)
    with pool_live_Init [OF this(1) k i] show thesis
      using assms(2) False i that [of "u\<lparr>allocator := a1, initialized := True\<rparr>" md1]
      by (auto simp: STLPageHeapAllocator_allocate_def split: bind_splits)
  qed
  from pool_live_New [OF v(2) n(1)] v(1) k show ?thesis by (simp add: n(2) stl_live_def)
qed

lemma stl_live_deallocate:
  "stl_live pl mapped k G (u, md) U \<Longrightarrow> x \<in> U \<Longrightarrow> STLPageHeapAllocator_deallocate x 1 u = Some u'
    \<Longrightarrow> stl_live pl mapped k G (u', md) (U - {x})"
  by (auto simp: STLPageHeapAllocator_deallocate_def stl_live_def intro: pool_live_Delete split: if_splits)

interpretation stl: object_allocator
  "stl_live pl mapped k G"
  "\<lambda>(u, md). do { (x, u, md) \<leftarrow> STLPageHeapAllocator_allocate pl k 1 u md; Some (x, (u, md)) }"
  "\<lambda>x (u, md). (case STLPageHeapAllocator_deallocate x 1 u of Some u' \<Rightarrow> (u', md))" for pl mapped k G
  by unfold_locales
    (auto split: bind_splits option.splits simp: STLPageHeapAllocator_deallocate_def
      dest: stl_live_allocate intro: stl_live_deallocate)

subsection \<open>Properties\<close>

text \<open>C25 Memory for the allocator's own data is never handed out twice: a block returned by
  \<open>MetaDataAlloc\<close> is cache-line aligned, lies below the address limit and is disjoint from
  everything handed out before, whether it comes from the current chunk, a new chunk or the
  system, and the state then records it as handed out; a failing call changes nothing of that.\<close>

theorem MetaDataAlloc_disjoint:
  assumes "meta_ok pl mapped G md" and "bytes + 64 < 2 ^ 64" and "MetaDataAlloc pl bytes md = Some (r, md')"
  shows "if r = 0 then meta_ok pl mapped G md'
    else kMetadataAllignment dvd r \<and> r + bytes \<le> 2 ^ kAddressBits \<and> {r..<r + bytes} \<inter> G = {}
       \<and> meta_ok pl mapped (G \<union> {r..<r + bytes}) md'"
  using MetaDataAlloc_fresh [OF assms] by (auto simp: kMetadataAllignment_def)

definition flat_metadata :: "(nat \<times> nat) metadata" where
  "flat_metadata = \<lparr>sysmem = flat_sys, metadata_system_bytes = 0, metadata_chunk_alloc = 0,
     metadata_chunk_avail = 0\<rparr>"

lemma flat_meta_ok: "meta_ok flat_platform flat_mapped {} flat_metadata"
  using flat_laws by (simp add: meta_ok_def flat_metadata_def sys_ok_def flat_sys_def exI [of _ "{}"])

lemma flat_chunk:
  "\<exists>s'. TCMalloc_SystemAlloc flat_platform 8388608 64 flat_sys = Some (1048576, 8388608, s')"
  using and_low_mask [of 1048576 6]
  by (simp add: TCMalloc_SystemAlloc_def flat_platform_def flat_sys_def add64_def sub64_def mul64_def
      InitSystemAllocators_def SetChildAllocator_def DefaultSysAllocator_ctor_def
      DefaultSysAllocator_Alloc_def SbrkSysAllocator_Alloc_def round_up64_def CheckAddressBits_def
      MAP_FAILED_def both_allocators)

lemma flat_MetaDataAlloc:
  assumes "0 < n" and "n < 8388608"
  shows "\<exists>md'. MetaDataAlloc flat_platform n flat_metadata = Some (1048576, md')
    \<and> metadata_chunk_alloc md' = 1048576 + n"
proof -
  obtain s' where s: "TCMalloc_SystemAlloc flat_platform 8388608 64 flat_sys = Some (1048576, 8388608, s')"
    using flat_chunk by blast
  have z: "sub64 0 0 = 0" by (simp add: sub64_def)
  have a: "add64 n 0 = n" "add64 1048576 n = 1048576 + n" "add64 1048576 0 = 1048576"
    using assms by (simp_all add: add64_eq)
  show ?thesis using assms
    by (simp add: MetaDataAlloc_def flat_metadata_def kMetadataAllocChunkSize_def
        kMetadataAllignment_def z a s Let_def)
qed

theorem MetaDataAlloc_disjoint_witness:
  "\<exists>md'. MetaDataAlloc flat_platform 100 flat_metadata = Some (1048576, md')
     \<and> meta_ok flat_platform flat_mapped {1048576..<1048576 + 100} md'"
proof -
  obtain md' where m: "MetaDataAlloc flat_platform 100 flat_metadata = Some (1048576, md')"
    using flat_MetaDataAlloc [of 100] by auto
  from MetaDataAlloc_disjoint [OF flat_meta_ok _ m] m show ?thesis by (auto split: if_splits)
qed

text \<open>C24 Over any history of \<open>New\<close> and \<open>Delete\<close> calls on an initialized pool, the live objects
  are distinct, none is null, any two of them are at least an object size apart, none overlaps
  memory that had been handed out before, and \<open>inuse\<close> is their number.\<close>

theorem PageHeapAllocator_history:
  assumes "meta_ok pl mapped G md" and "0 < k" and "k \<le> kAllocIncrement"
    and "PageHeapAllocator_Init pl k a0 md = Some (a1, md1)"
    and "pool_run (\<lambda>(a, md). do { (x, a, md) \<leftarrow> PageHeapAllocator_New pl k a md; Some (x, (a, md)) })
           (\<lambda>x (a, md). (PageHeapAllocator_Delete x a, md)) ops (a1, md1) [] = Some ((a2, md2), L)"
  shows "distinct L \<and> 0 \<notin> set L \<and> inuse a2 = int (length L)
    \<and> (\<forall>x\<in>set L. \<forall>y\<in>set L. x < y \<longrightarrow> x + k \<le> y)
    \<and> (\<forall>x\<in>set L. {x..<x + k} \<inter> G = {} \<and> {x..<x + k} \<subseteq> mapped (os (sysmem md2)))"
proof -
  have "pool_live pl mapped k G (a1, md1) (set [])" using pool_live_Init [OF assms(1-4)] by simp
  from pool.history [OF this _ assms(5)] have l: "pool_live pl mapped k G (a2, md2) (set L)" "distinct L"
    by simp_all
  then obtain M H where p: "pool_ok k M (set L) a2" "meta_ok pl mapped H md2" "M \<subseteq> H" "M \<inter> G = {}"
    by (auto simp: pool_live_def)
  have "\<forall>x\<in>set L. {x..<x + k} \<subseteq> M" "0 \<notin> set L" "objects_apart k (set L)" "inuse a2 = int (card (set L))"
    using p(1) pool_ok_nonzero [OF p(1)] objects_apart_subset by (auto simp: pool_ok_def)
  moreover have "M \<subseteq> mapped (os (sysmem md2))" using p(3) meta_ok_mapped [OF p(2)] by blast
  ultimately have "\<forall>x\<in>set L. {x..<x + k} \<inter> G = {} \<and> {x..<x + k} \<subseteq> mapped (os (sysmem md2))"
    and "0 \<notin> set L" "objects_apart k (set L)" "inuse a2 = int (card (set L))"
    using p(4) by blast+
  then show ?thesis using l(2) by (simp add: objects_apart_def distinct_card)
qed

theorem PageHeapAllocator_history_witness:
  "\<exists>a1 md1 a2 md2 x y.
     PageHeapAllocator_Init flat_platform 48 \<lparr>free_area = 0, free_avail = 0, free_list = [], inuse = 0\<rparr>
       flat_metadata = Some (a1, md1)
   \<and> pool_run (\<lambda>(a, md). do { (x, a, md) \<leftarrow> PageHeapAllocator_New flat_platform 48 a md; Some (x, (a, md)) })
        (\<lambda>x (a, md). (PageHeapAllocator_Delete x a, md)) [PoolNew, PoolNew, PoolDelete 1, PoolNew] (a1, md1) []
       = Some ((a2, md2), [x, y]) \<and> x \<noteq> y \<and> inuse a2 = 2"
proof -
  let ?a = "\<lparr>free_area = 0, free_avail = 0, free_list = [], inuse = 0\<rparr>"
  have kA: "kAllocIncrement < 8388608" "48 \<le> kAllocIncrement" "\<not> kAllocIncrement < 48"
    "\<not> kAllocIncrement - 48 < 48" "sub64 kAllocIncrement 48 = kAllocIncrement - 48"
    "sub64 (kAllocIncrement - 48) 48 = kAllocIncrement - 96"
    by (simp_all add: kAllocIncrement_def sub64_def)
  have "0 < kAllocIncrement" by (simp add: kAllocIncrement_def)
  then obtain md1 where md1: "MetaDataAlloc flat_platform kAllocIncrement flat_metadata = Some (1048576, md1)"
    using flat_MetaDataAlloc [OF _ kA(1)] by blast
  define a1 where "a1 = \<lparr>free_area = 1048624, free_avail = kAllocIncrement - 48, free_list = [1048576], inuse = 0\<rparr>"
  have i: "PageHeapAllocator_Init flat_platform 48 ?a flat_metadata = Some (a1, md1)"
    by (simp add: PageHeapAllocator_Init_def PageHeapAllocator_New_def PageHeapAllocator_Delete_def md1
        a1_def u64 kA)
  obtain a2 where r: "pool_run (\<lambda>(a, md). do { (x, a, md) \<leftarrow> PageHeapAllocator_New flat_platform 48 a md; Some (x, (a, md)) })
        (\<lambda>x (a, md). (PageHeapAllocator_Delete x a, md)) [PoolNew, PoolNew, PoolDelete 1, PoolNew] (a1, md1) []
       = Some ((a2, md1), [1048576, 1048624])"
    by (simp add: PageHeapAllocator_New_def PageHeapAllocator_Delete_def a1_def u64 kA drop_nth_def)
  from PageHeapAllocator_history [OF flat_meta_ok _ kA(2) i r] i r show ?thesis by auto
qed

end
