(* ===== verification/Span.thy ===== *)
theory Span
  imports Metadata
begin

text \<open>
  Spans, the descriptors of runs of pages: \<^verbatim>\<open>span.h\<close> and \<^verbatim>\<open>span.cc\<close>. The span objects are a
  store from addresses to records; 0 is \<open>nullptr\<close> and an access through it has no result
  (\<^term>\<open>None\<close>). The free objects of a span are the list of their addresses, and the iterator that
  a span in a set of large spans carries is represented by the flag \<open>has_span_iter\<close>: the span
  itself finds its entry. The doubly linked lists of spans are modelled pointer by pointer and
  shown to implement lists.
\<close>

datatype span_location = IN_USE | ON_NORMAL_FREELIST | ON_RETURNED_FREELIST

record span =
  start :: nat
  slength :: nat
  snext :: nat
  sprev :: nat
  objects :: "nat list"
  refcount :: nat
  sizeclass :: nat
  location :: span_location
  sample :: bool
  has_span_iter :: bool

type_synonym span_store = "nat \<Rightarrow> span"

definition Span_ctor :: span where
  "Span_ctor = \<lparr>start = 0, slength = 0, snext = 0, sprev = 0, objects = [], refcount = 0, sizeclass = 0,
     location = IN_USE, sample = False, has_span_iter = False\<rparr>"

definition sizeof_Span :: nat where
  "sizeof_Span = 48"

type_synonym SpanPtrWithLength = "nat \<times> nat"

definition mkSpanPtrWithLength :: "span_store \<Rightarrow> nat \<Rightarrow> SpanPtrWithLength" where
  "mkSpanPtrWithLength h s = (s, slength (h s))"

definition SpanBestFitLess :: "span_store \<Rightarrow> SpanPtrWithLength \<Rightarrow> SpanPtrWithLength \<Rightarrow> bool" where
  "SpanBestFitLess h = (\<lambda>(a, alen) (b, blen).
     if alen < blen then True else if blen < alen then False else start (h a) < start (h b))"

definition SetSpanSetIterator :: "nat \<Rightarrow> span_store \<Rightarrow> span_store" where
  "SetSpanSetIterator s h = h(s := (h s)\<lparr>has_span_iter := True\<rparr>)"

definition ExtractSpanSetIterator :: "nat \<Rightarrow> span_store \<Rightarrow> span_store" where
  "ExtractSpanSetIterator s h = h(s := (h s)\<lparr>has_span_iter := False\<rparr>)"

text \<open>The span allocator is a pool of \<^verbatim>\<open>page_heap_allocator.h\<close>.\<close>

definition NewSpan ::
  "'o platform \<Rightarrow> nat \<Rightarrow> nat \<Rightarrow> span_store \<Rightarrow> object_pool \<Rightarrow> 'o metadata
    \<Rightarrow> (nat \<times> span_store \<times> object_pool \<times> 'o metadata) option" where
  "NewSpan pl p len h pool md = do {
     (result, pool, md) \<leftarrow> PageHeapAllocator_New pl sizeof_Span pool md;
     Some (result, h(result := Span_ctor\<lparr>start := p, slength := len\<rparr>), pool, md) }"

definition DeleteSpan :: "nat \<Rightarrow> object_pool \<Rightarrow> object_pool" where
  "DeleteSpan s pool = PageHeapAllocator_Delete s pool"

subsection \<open>Doubly linked lists\<close>

definition set_next :: "nat \<Rightarrow> nat \<Rightarrow> span_store \<Rightarrow> span_store option" where
  "set_next s v h = (if s = 0 then None else Some (h(s := (h s)\<lparr>snext := v\<rparr>)))"

definition set_prev :: "nat \<Rightarrow> nat \<Rightarrow> span_store \<Rightarrow> span_store option" where
  "set_prev s v h = (if s = 0 then None else Some (h(s := (h s)\<lparr>sprev := v\<rparr>)))"

definition DLL_Init :: "nat \<Rightarrow> span_store \<Rightarrow> span_store option" where
  "DLL_Init l h = do { h \<leftarrow> set_next l l h; set_prev l l h }"

definition DLL_Remove :: "nat \<Rightarrow> span_store \<Rightarrow> span_store option" where
  "DLL_Remove s h = do {
     h \<leftarrow> set_next (sprev (h s)) (snext (h s)) h;
     h \<leftarrow> set_prev (snext (h s)) (sprev (h s)) h;
     h \<leftarrow> set_prev s 0 h;
     set_next s 0 h }"

definition DLL_IsEmpty :: "nat \<Rightarrow> span_store \<Rightarrow> bool" where
  "DLL_IsEmpty l h \<longleftrightarrow> snext (h l) = l"

definition DLL_Prepend :: "nat \<Rightarrow> nat \<Rightarrow> span_store \<Rightarrow> span_store option" where
  "DLL_Prepend l s h = do {
     h \<leftarrow> set_next s (snext (h l)) h;
     h \<leftarrow> set_prev s l h;
     h \<leftarrow> set_prev (snext (h l)) s h;
     set_next l s h }"

partial_function (option) DLL_count :: "nat \<Rightarrow> nat \<Rightarrow> nat \<Rightarrow> span_store \<Rightarrow> nat option" where
  "DLL_count l s result h =
     (if s = l then Some result else if s = 0 then None else DLL_count l (snext (h s)) (result + 1) h)"

definition DLL_Length :: "nat \<Rightarrow> span_store \<Rightarrow> nat option" where
  "DLL_Length l h = DLL_count l (snext (h l)) 0 h"

subsection \<open>The list a header stands for\<close>

fun linked :: "span_store \<Rightarrow> nat \<Rightarrow> nat list \<Rightarrow> nat \<Rightarrow> bool" where
  "linked h a [] b \<longleftrightarrow> snext (h a) = b \<and> sprev (h b) = a"
| "linked h a (x # xs) b \<longleftrightarrow> snext (h a) = x \<and> sprev (h x) = a \<and> linked h x xs b"

definition dll :: "span_store \<Rightarrow> nat \<Rightarrow> nat list \<Rightarrow> bool" where
  "dll h l xs \<longleftrightarrow> distinct (l # xs) \<and> 0 \<notin> set (l # xs) \<and> linked h l xs l"

lemma linked_frame:
  "(\<And>x. x \<in> set (a # xs) \<Longrightarrow> snext (h' x) = snext (h x)) \<Longrightarrow>
   (\<And>x. x \<in> set (xs @ [b]) \<Longrightarrow> sprev (h' x) = sprev (h x)) \<Longrightarrow> linked h' a xs b = linked h a xs b"
  by (induction xs arbitrary: a) auto

lemma linked_append:
  "linked h a (xs @ y # ys) b \<longleftrightarrow> linked h a xs y \<and> linked h y ys b"
  by (induction xs arbitrary: a) auto

lemma linked_first: "linked h a xs b \<Longrightarrow> snext (h a) = hd (xs @ [b])"
  by (cases xs) auto

lemma linked_last: "linked h a xs b \<Longrightarrow> sprev (h b) = last (a # xs)"
  by (induction xs arbitrary: a) auto

lemma DLL_Prepend_dll:
  assumes "dll h l xs" and "s \<notin> set (l # xs)" and "s \<noteq> 0"
  shows "\<exists>h'. DLL_Prepend l s h = Some h' \<and> dll h' l (s # xs)"
proof -
  have d: "distinct (l # xs)" "0 \<notin> set (l # xs)" "linked h l xs l" using assms(1) by (auto simp: dll_def)
  show ?thesis
  proof (cases xs)
    case Nil
    then show ?thesis using d assms(2,3)
      by (auto simp: DLL_Prepend_def set_next_def set_prev_def dll_def)
  next
    case (Cons x ys)
    then have n: "snext (h l) = x" "x \<noteq> 0" "l \<noteq> 0" "x \<noteq> l" "s \<noteq> x" "s \<noteq> l" using d assms(2) by auto
    define h' where "h' = h(s := (h s)\<lparr>snext := x, sprev := l\<rparr>, x := (h x)\<lparr>sprev := s\<rparr>, l := (h l)\<lparr>snext := s\<rparr>)"
    have e: "DLL_Prepend l s h = Some h'"
      using n assms(3) by (simp add: DLL_Prepend_def set_next_def set_prev_def h'_def fun_upd_twist)
    have "linked h' x ys l = linked h x ys l"
      by (rule linked_frame) (use d Cons assms(2) n in \<open>auto simp: h'_def\<close>)
    then have "linked h' l (s # xs) l" using d n Cons by (simp add: h'_def)
    then show ?thesis using e d assms(2,3) by (auto simp: dll_def)
  qed
qed

lemma DLL_Remove_dll:
  assumes "dll h l (ys @ s # zs)"
  shows "\<exists>h'. DLL_Remove s h = Some h' \<and> dll h' l (ys @ zs) \<and> snext (h' s) = 0 \<and> sprev (h' s) = 0"
proof -
  have d: "distinct (l # ys @ s # zs)" "0 \<notin> set (l # ys @ s # zs)" "linked h l ys s" "linked h s zs l"
    using assms by (auto simp: dll_def linked_append)
  define p where "p = last (l # ys)"
  define n where "n = hd (zs @ [l])"
  have pn: "sprev (h s) = p" "snext (h s) = n" using linked_last [OF d(3)] linked_first [OF d(4)]
    by (simp_all add: p_def n_def)
  have pin: "p \<in> set (l # ys)" "n \<in> set (zs @ [l])"
    unfolding p_def n_def by (rule last_in_set, simp) (rule hd_in_set, simp)
  then have nz: "p \<noteq> 0" "n \<noteq> 0" "s \<noteq> 0" "p \<noteq> s" "n \<noteq> s" using d(1,2) by auto
  define h1 where "h1 = h(p := (h p)\<lparr>snext := n\<rparr>)"
  define h2 where "h2 = h1(n := (h1 n)\<lparr>sprev := p\<rparr>)"
  define h' where "h' = h2(s := (h2 s)\<lparr>sprev := 0, snext := 0\<rparr>)"
  have e: "DLL_Remove s h = Some h'"
    using nz pn by (simp add: DLL_Remove_def set_next_def set_prev_def h'_def h2_def h1_def)
  have nx: "snext (h' x) = (if x = s then 0 else if x = p then n else snext (h x))" for x
    by (simp add: h'_def h2_def h1_def)
  have pv: "sprev (h' x) = (if x = s then 0 else if x = n then p else sprev (h x))" for x
    by (simp add: h'_def h2_def h1_def)
  have "linked h' l (ys @ zs) l"
  proof (cases "ys = []"; cases "zs = []")
    assume "ys = []" "zs = []"
    then show ?thesis using nz by (simp add: nx pv p_def n_def)
  next
    assume y: "ys = []" and z: "zs \<noteq> []"
    then obtain z1 zt where z1: "zs = z1 # zt" by (cases zs) auto
    have "linked h' z1 zt l = linked h z1 zt l"
      by (rule linked_frame) (use d y z1 in \<open>auto simp: nx pv p_def n_def\<close>)
    then show ?thesis using d(4) y z1 nz by (simp add: nx pv p_def n_def)
  next
    assume y: "ys \<noteq> []" and z: "zs = []"
    then obtain yt y1 where y1: "ys = yt @ [y1]" by (cases ys rule: rev_cases) auto
    have "linked h' l yt y1 = linked h l yt y1"
      by (rule linked_frame) (use d y1 z in \<open>auto simp: nx pv p_def n_def\<close>)
    then show ?thesis using d(3) y1 z nz by (simp add: nx pv p_def n_def linked_append)
  next
    assume y: "ys \<noteq> []" and z: "zs \<noteq> []"
    then obtain z1 zt where z1: "zs = z1 # zt" by (cases zs) auto
    from y obtain yt y1 where y1: "ys = yt @ [y1]" by (cases ys rule: rev_cases) auto
    have "linked h' z1 zt l = linked h z1 zt l"
      by (rule linked_frame) (use d y1 z1 in \<open>auto simp: nx pv p_def n_def\<close>)
    moreover have "linked h' l yt y1 = linked h l yt y1"
      by (rule linked_frame) (use d y1 z1 in \<open>auto simp: nx pv p_def n_def\<close>)
    ultimately show ?thesis using d(3,4) y1 z1 nz by (simp add: nx pv p_def n_def linked_append)
  qed
  then have "dll h' l (ys @ zs)" using d(1,2) by (auto simp: dll_def)
  then show ?thesis using e by (simp add: nx pv)
qed

lemma DLL_Init_dll: "l \<noteq> 0 \<Longrightarrow> \<exists>h'. DLL_Init l h = Some h' \<and> dll h' l []"
  by (simp add: DLL_Init_def set_next_def set_prev_def dll_def)

lemma DLL_count_linked:
  "linked h a xs l \<Longrightarrow> l \<notin> set xs \<Longrightarrow> 0 \<notin> set xs \<Longrightarrow> DLL_count l (snext (h a)) n h = Some (n + length xs)"
proof (induction xs arbitrary: a n)
  case Nil
  then show ?case by (subst DLL_count.simps) simp
next
  case (Cons x xs)
  then show ?case by (subst DLL_count.simps) simp
qed

lemma DLL_Length_dll: "dll h l xs \<Longrightarrow> DLL_Length l h = Some (length xs)"
  using DLL_count_linked [of h l xs l 0] by (auto simp: dll_def DLL_Length_def)

lemma DLL_IsEmpty_dll: "dll h l xs \<Longrightarrow> DLL_IsEmpty l h \<longleftrightarrow> xs = []"
  by (cases xs) (auto simp: dll_def DLL_IsEmpty_def)

subsection \<open>The contract of a list of spans\<close>

datatype list_op = Prepend nat | Remove nat

fun run_ops :: "(nat \<Rightarrow> 'h \<Rightarrow> 'h option) \<Rightarrow> (nat \<Rightarrow> 'h \<Rightarrow> 'h option) \<Rightarrow> list_op list \<Rightarrow> 'h \<Rightarrow> 'h option" where
  "run_ops prepend remove [] h = Some h"
| "run_ops prepend remove (Prepend s # ops) h = do { h \<leftarrow> prepend s h; run_ops prepend remove ops h }"
| "run_ops prepend remove (Remove s # ops) h = do { h \<leftarrow> remove s h; run_ops prepend remove ops h }"

text \<open>The same operations on a list; an operation that the source forbids has no result.\<close>

definition list_prepend :: "nat \<Rightarrow> nat \<Rightarrow> nat list \<Rightarrow> nat list option" where
  "list_prepend l s xs = (if s = 0 \<or> s \<in> set (l # xs) then None else Some (s # xs))"

definition list_remove :: "nat \<Rightarrow> nat list \<Rightarrow> nat list option" where
  "list_remove s xs = (if s \<in> set xs then Some (remove1 s xs) else None)"

lemma list_op_Some:
  "list_prepend l s xs = Some ys \<longleftrightarrow> s \<noteq> 0 \<and> s \<notin> set (l # xs) \<and> ys = s # xs"
  "list_remove s xs = Some ys \<longleftrightarrow> s \<in> set xs \<and> ys = remove1 s xs"
  by (auto simp: list_prepend_def list_remove_def)

locale span_list =
  fixes rep :: "'h \<Rightarrow> nat list \<Rightarrow> bool"
    and header :: nat
    and prepend remove :: "nat \<Rightarrow> 'h \<Rightarrow> 'h option"
  assumes prepend: "rep h xs \<Longrightarrow> s \<notin> set (header # xs) \<Longrightarrow> s \<noteq> 0 \<Longrightarrow> \<exists>h'. prepend s h = Some h' \<and> rep h' (s # xs)"
    and remove: "rep h xs \<Longrightarrow> s \<in> set xs \<Longrightarrow> \<exists>h'. remove s h = Some h' \<and> rep h' (remove1 s xs)"
begin

lemma refines:
  "rep h xs \<Longrightarrow> run_ops (list_prepend header) list_remove ops xs = Some ys
    \<Longrightarrow> \<exists>h'. run_ops prepend remove ops h = Some h' \<and> rep h' ys"
proof (induction ops arbitrary: h xs)
  case (Cons op ops)
  show ?case
  proof (cases op)
    case (Prepend s)
    then have ok: "s \<notin> set (header # xs)" "s \<noteq> 0"
      and r: "run_ops (list_prepend header) list_remove ops (s # xs) = Some ys"
      using Cons.prems(2) by (auto simp: list_op_Some split: bind_splits)
    from prepend [OF Cons.prems(1) ok] obtain h1 where "prepend s h = Some h1" "rep h1 (s # xs)" by blast
    with Cons.IH [OF _ r] Prepend show ?thesis by simp
  next
    case (Remove s)
    then have ok: "s \<in> set xs" and r: "run_ops (list_prepend header) list_remove ops (remove1 s xs) = Some ys"
      using Cons.prems(2) by (auto simp: list_op_Some split: bind_splits)
    from remove [OF Cons.prems(1) ok] obtain h1 where "remove s h = Some h1" "rep h1 (remove1 s xs)" by blast
    with Cons.IH [OF _ r] Remove show ?thesis by simp
  qed
qed simp

end

lemma DLL_Remove_remove1:
  assumes "dll h l xs" and "s \<in> set xs"
  shows "\<exists>h'. DLL_Remove s h = Some h' \<and> dll h' l (remove1 s xs)"
proof -
  from assms(2) obtain ys zs where xs: "xs = ys @ s # zs" "s \<notin> set ys" by (metis split_list_first)
  then have "remove1 s xs = ys @ zs" by (simp add: remove1_append)
  then show ?thesis using DLL_Remove_dll [of h l ys s zs] assms(1) xs(1) by auto
qed

interpretation dlist: span_list "\<lambda>h xs. dll h l xs" l "DLL_Prepend l" DLL_Remove for l
  by unfold_locales (use DLL_Prepend_dll DLL_Remove_remove1 in \<open>simp_all\<close>)

subsection \<open>Properties\<close>

text \<open>C26 The pointer-linked span lists implement lists: from a header made empty by \<open>DLL_Init\<close>,
  every sequence of prepends of spans that are not on the list and removals of spans that are
  runs without touching a null pointer, and the header then stands for exactly the list that
  the same sequence yields; \<open>DLL_Length\<close> ends with its length and \<open>DLL_IsEmpty\<close> tells whether
  it is empty.\<close>

theorem DLL_refines_list:
  assumes "l \<noteq> 0" and "run_ops (list_prepend l) list_remove ops [] = Some xs"
  shows "\<exists>h1 h2. DLL_Init l h = Some h1 \<and> run_ops (DLL_Prepend l) DLL_Remove ops h1 = Some h2
     \<and> dll h2 l xs \<and> DLL_Length l h2 = Some (length xs) \<and> (DLL_IsEmpty l h2 \<longleftrightarrow> xs = [])"
proof -
  from DLL_Init_dll [OF assms(1)] obtain h1 where h1: "DLL_Init l h = Some h1" "dll h1 l []" by blast
  from dlist.refines [OF h1(2) assms(2)] obtain h2 where
    h2: "run_ops (DLL_Prepend l) DLL_Remove ops h1 = Some h2" "dll h2 l xs" by blast
  show ?thesis using h1 h2 DLL_Length_dll DLL_IsEmpty_dll by blast
qed

theorem DLL_refines_list_witness:
  "\<exists>h1 h2. DLL_Init 8 (\<lambda>_. Span_ctor) = Some h1
     \<and> run_ops (DLL_Prepend 8) DLL_Remove [Prepend 16, Prepend 24, Prepend 32, Remove 24] h1 = Some h2
     \<and> dll h2 8 [32, 16] \<and> DLL_Length 8 h2 = Some 2"
proof -
  have "run_ops (list_prepend 8) list_remove [Prepend 16, Prepend 24, Prepend 32, Remove 24] [] = Some [32, 16]"
    by (simp add: list_prepend_def list_remove_def)
  from DLL_refines_list [OF _ this, of "\<lambda>_. Span_ctor"] show ?thesis by auto
qed

end
