(* ===== verification/PageHeap.thy ===== *)
theory PageHeap
  imports Complex_Main PageMap PackedCache SizeMap Span
begin

text \<open>
  The page heap: \<^verbatim>\<open>page_heap.h\<close> and \<^verbatim>\<open>page_heap.cc\<close>. Its state is one record: the fields of the
  class, the store of span objects, and the static allocators it uses. A free list is the list
  of its spans, first element first (the linked lists of \<^verbatim>\<open>span.cc\<close> implement that), and a
  \<open>SpanSet\<close> is the list of its entries in the order of \<open>SpanBestFitLess\<close>; the nodes that
  \<open>std::set\<close> allocates for them are not modelled. An operation has the result \<^term>\<open>None\<close> where
  the process aborts, a null pointer or a missing page-map leaf is accessed, or a loop does not
  end. The flags are fields of the \<open>env\<close> argument; the release rate, a \<open>double\<close>, is a rational
  number. The page-heap lock is held throughout each operation, so an operation is one step.
\<close>

record 'o env =
  plat :: "'o platform"
  tcmalloc_release_rate :: rat
  tcmalloc_heap_limit_mb :: int

record heap_stats =
  system_bytes :: nat
  free_bytes :: nat
  unmapped_bytes :: nat
  committed_bytes :: nat
  scavenge_count :: nat
  commit_count :: nat
  total_commit_bytes :: nat
  decommit_count :: nat
  total_decommit_bytes :: nat
  reserve_count :: nat
  total_reserve_bytes :: nat

definition Stats_ctor :: heap_stats where
  "Stats_ctor = \<lparr>system_bytes = 0, free_bytes = 0, unmapped_bytes = 0, committed_bytes = 0,
     scavenge_count = 0, commit_count = 0, total_commit_bytes = 0, decommit_count = 0,
     total_decommit_bytes = 0, reserve_count = 0, total_reserve_bytes = 0\<rparr>"

record 'o page_heap =
  smallest_span_size :: nat
  pagemap_cache :: packed_cache
  pagemap :: "nat pm2"
  large_normal :: "SpanPtrWithLength list"
  large_returned :: "SpanPtrWithLength list"
  free_normal :: "nat \<Rightarrow> nat list"
  free_returned :: "nat \<Rightarrow> nat list"
  stats :: heap_stats
  scavenge_counter :: int
  release_index :: nat
  aggressive_decommit :: bool
  spans :: span_store
  span_allocator :: object_pool
  stacktrace_allocator :: object_pool
  growth_stacks :: "(nat \<times> nat) list"
  meta :: "'o metadata"

abbreviation pagemap_bits :: nat where
  "pagemap_bits \<equiv> 35"

definition kMaxValidPages :: nat where
  "kMaxValidPages = (2 ^ 64 - 1) div 2 ^ kPageShift"

definition kForcedCoalesceInterval :: nat where
  "kForcedCoalesceInterval = 128 * 1024 * 1024"

definition kPageMapBigAllocationThreshold :: nat where
  "kPageMapBigAllocationThreshold = 128 * 2 ^ 20"

definition kMinSystemAlloc :: nat where
  "kMinSystemAlloc = kMaxPages"

definition kMaxReleaseDelay :: int where
  "kMaxReleaseDelay = 2 ^ 20"

definition kDefaultReleaseDelay :: int where
  "kDefaultReleaseDelay = 2 ^ 18"

definition sizeof_StackTrace :: nat where
  "sizeof_StackTrace = 8 + 8 + 31 * 8"

text \<open>The conversion of a \<open>Length\<close> to \<open>int\<close>.\<close>

definition int32_of :: "nat \<Rightarrow> int" where
  "int32_of x = (let r = int x mod 2 ^ 32 in if r < 2 ^ 31 then r else r - 2 ^ 32)"

abbreviation page_bytes :: "nat \<Rightarrow> nat" where
  "page_bytes n \<equiv> shl64 n kPageShift"

subsection \<open>Construction and small accessors\<close>

definition PageHeap_ctor ::
  "nat \<Rightarrow> span_store \<Rightarrow> object_pool \<Rightarrow> object_pool \<Rightarrow> 'o metadata \<Rightarrow> 'o page_heap option" where
  "PageHeap_ctor smallest sp pool stpool md =
     (if smallest AND sub64 smallest 1 = 0
      then Some \<lparr>smallest_span_size = smallest, pagemap_cache = Clear, pagemap = PageMap2_ctor,
        large_normal = [], large_returned = [], free_normal = (\<lambda>_. []), free_returned = (\<lambda>_. []),
        stats = Stats_ctor, scavenge_counter = 0, release_index = kMaxPages,
        aggressive_decommit = False, spans = sp, span_allocator = pool,
        stacktrace_allocator = stpool, growth_stacks = [], meta = md\<rparr>
      else None)"

definition GetDescriptor :: "nat \<Rightarrow> 'o page_heap \<Rightarrow> nat option" where
  "GetDescriptor p h = PageMap2_get pagemap_bits (pagemap h) p"

definition pagemap_set :: "nat \<Rightarrow> nat \<Rightarrow> 'o page_heap \<Rightarrow> 'o page_heap option" where
  "pagemap_set p s h = do {
     m \<leftarrow> PageMap2_set pagemap_bits (pagemap h) p (Some s);
     Some (h\<lparr>pagemap := m\<rparr>) }"

definition RecordSpan :: "nat \<Rightarrow> 'o page_heap \<Rightarrow> 'o page_heap option" where
  "RecordSpan s h = do {
     h \<leftarrow> pagemap_set (start (spans h s)) s h;
     if 1 < slength (spans h s)
     then pagemap_set (start (spans h s) + slength (spans h s) - 1) s h
     else Some h }"

definition TryGetSizeClass :: "nat \<Rightarrow> 'o page_heap \<Rightarrow> nat option" where
  "TryGetSizeClass p h = map_option unat (TryGet (pagemap_cache h) (of_nat p))"

definition SetCachedSizeClass :: "nat \<Rightarrow> nat \<Rightarrow> 'o page_heap \<Rightarrow> 'o page_heap" where
  "SetCachedSizeClass p cl h = h\<lparr>pagemap_cache := Put (pagemap_cache h) (of_nat p) (of_nat cl)\<rparr>"

definition InvalidateCachedSizeClass :: "nat \<Rightarrow> 'o page_heap \<Rightarrow> 'o page_heap" where
  "InvalidateCachedSizeClass p h = h\<lparr>pagemap_cache := Invalidate (pagemap_cache h) (of_nat p)\<rparr>"

definition GetSizeClassOrZero :: "nat \<Rightarrow> 'o page_heap \<Rightarrow> nat" where
  "GetSizeClassOrZero p h = (case TryGetSizeClass p h of None \<Rightarrow> 0 | Some v \<Rightarrow> v)"

definition SetAggressiveDecommit :: "bool \<Rightarrow> 'o page_heap \<Rightarrow> 'o page_heap" where
  "SetAggressiveDecommit b h = h\<lparr>aggressive_decommit := b\<rparr>"

definition upd_span :: "nat \<Rightarrow> (span \<Rightarrow> span) \<Rightarrow> 'o page_heap \<Rightarrow> 'o page_heap" where
  "upd_span s f h = h\<lparr>spans := (spans h)(s := f (spans h s))\<rparr>"

definition upd_stats :: "(heap_stats \<Rightarrow> heap_stats) \<Rightarrow> 'o page_heap \<Rightarrow> 'o page_heap" where
  "upd_stats f h = h\<lparr>stats := f (stats h)\<rparr>"

text \<open>\<open>NewSpan\<close> and \<open>DeleteSpan\<close> on the state of the heap.\<close>

definition heap_NewSpan :: "'o env \<Rightarrow> nat \<Rightarrow> nat \<Rightarrow> 'o page_heap \<Rightarrow> (nat \<times> 'o page_heap) option" where
  "heap_NewSpan E p len h = do {
     (s, sp, pool, md) \<leftarrow> NewSpan (plat E) p len (spans h) (span_allocator h) (meta h);
     Some (s, h\<lparr>spans := sp, span_allocator := pool, meta := md\<rparr>) }"

definition heap_DeleteSpan :: "nat \<Rightarrow> 'o page_heap \<Rightarrow> 'o page_heap" where
  "heap_DeleteSpan s h = h\<lparr>span_allocator := DeleteSpan s (span_allocator h)\<rparr>"

definition RoundUpSize :: "nat \<Rightarrow> 'o page_heap \<Rightarrow> nat" where
  "RoundUpSize n h =
     (let rounded_n = sub64 (add64 n (smallest_span_size h)) 1 AND not64 (sub64 (smallest_span_size h) 1)
      in if rounded_n < n then (2 ^ 64 - 1) AND not64 (sub64 (smallest_span_size h) 1) else rounded_n)"

definition HandleUnlock :: "'o env \<Rightarrow> nat \<Rightarrow> 'o page_heap \<Rightarrow> 'o page_heap option" where
  "HandleUnlock E grown_by h =
     (if grown_by \<noteq> 0 then do {
        (t, pool, md) \<leftarrow> PageHeapAllocator_New (plat E) sizeof_StackTrace (stacktrace_allocator h) (meta h);
        Some (h\<lparr>stacktrace_allocator := pool, meta := md, growth_stacks := (t, grown_by) # growth_stacks h\<rparr>) }
      else Some h)"

subsection \<open>Committing and releasing memory\<close>

definition CommitSpan :: "nat \<Rightarrow> 'o page_heap \<Rightarrow> 'o page_heap" where
  "CommitSpan s h =
     (let bytes = page_bytes (slength (spans h s));
          h = upd_stats (\<lambda>st. st\<lparr>commit_count := add64 (commit_count st) 1\<rparr>) h;
          h = h\<lparr>meta := (meta h)\<lparr>sysmem :=
                 TCMalloc_SystemCommit (page_bytes (start (spans h s))) bytes (sysmem (meta h))\<rparr>\<rparr>
      in upd_stats (\<lambda>st. st\<lparr>committed_bytes := add64 (committed_bytes st) bytes,
                           total_commit_bytes := add64 (total_commit_bytes st) bytes\<rparr>) h)"

definition DecommitSpan :: "'o env \<Rightarrow> nat \<Rightarrow> 'o page_heap \<Rightarrow> (bool \<times> 'o page_heap) option" where
  "DecommitSpan E s h = do {
     let h = upd_stats (\<lambda>st. st\<lparr>decommit_count := add64 (decommit_count st) 1\<rparr>) h;
     let bytes = page_bytes (slength (spans h s));
     (rv, sm) \<leftarrow> TCMalloc_SystemRelease (plat E) (page_bytes (start (spans h s))) bytes (sysmem (meta h));
     let h = h\<lparr>meta := (meta h)\<lparr>sysmem := sm\<rparr>\<rparr>;
     Some (rv, if rv then upd_stats (\<lambda>st. st\<lparr>committed_bytes := sub64 (committed_bytes st) bytes,
                        total_decommit_bytes := add64 (total_decommit_bytes st) bytes\<rparr>) h
               else h) }"

subsection \<open>Free lists and sets\<close>

fun SpanSet_insert :: "span_store \<Rightarrow> SpanPtrWithLength \<Rightarrow> SpanPtrWithLength list \<Rightarrow> SpanPtrWithLength list" where
  "SpanSet_insert sp x [] = [x]"
| "SpanSet_insert sp x (y # ys) =
     (if SpanBestFitLess sp x y then x # y # ys
      else if SpanBestFitLess sp y x then y # SpanSet_insert sp x ys
      else y # ys)"

definition SpanSet_erase :: "nat \<Rightarrow> SpanPtrWithLength list \<Rightarrow> SpanPtrWithLength list" where
  "SpanSet_erase s = filter (\<lambda>e. fst e \<noteq> s)"

text \<open>The comparison of \<open>upper_bound\<close> with a bound that has start 0 and length \<open>n\<close>.\<close>

definition SpanSet_upper_bound :: "span_store \<Rightarrow> nat \<Rightarrow> SpanPtrWithLength list \<Rightarrow> SpanPtrWithLength option" where
  "SpanSet_upper_bound sp n =
     find (\<lambda>(b, blen). if n < blen then True else if blen < n then False else 0 < start (sp b))"

definition PrependToFreeList :: "nat \<Rightarrow> 'o page_heap \<Rightarrow> 'o page_heap" where
  "PrependToFreeList s h =
     (let loc = location (spans h s); len = slength (spans h s);
          h = (if loc = ON_NORMAL_FREELIST
               then upd_stats (\<lambda>st. st\<lparr>free_bytes := add64 (free_bytes st) (page_bytes len)\<rparr>) h
               else upd_stats (\<lambda>st. st\<lparr>unmapped_bytes := add64 (unmapped_bytes st) (page_bytes len)\<rparr>) h)
      in if len > kMaxPages then
           let e = mkSpanPtrWithLength (spans h) s;
               h = (if loc = ON_RETURNED_FREELIST
                    then h\<lparr>large_returned := SpanSet_insert (spans h) e (large_returned h)\<rparr>
                    else h\<lparr>large_normal := SpanSet_insert (spans h) e (large_normal h)\<rparr>)
           in h\<lparr>spans := SetSpanSetIterator s (spans h)\<rparr>
         else if loc = ON_NORMAL_FREELIST
         then h\<lparr>free_normal := (free_normal h)(len - 1 := s # free_normal h (len - 1))\<rparr>
         else h\<lparr>free_returned := (free_returned h)(len - 1 := s # free_returned h (len - 1))\<rparr>)"

definition RemoveFromFreeList :: "nat \<Rightarrow> 'o page_heap \<Rightarrow> 'o page_heap" where
  "RemoveFromFreeList s h =
     (let loc = location (spans h s); len = slength (spans h s);
          h = (if loc = ON_NORMAL_FREELIST
               then upd_stats (\<lambda>st. st\<lparr>free_bytes := sub64 (free_bytes st) (page_bytes len)\<rparr>) h
               else upd_stats (\<lambda>st. st\<lparr>unmapped_bytes := sub64 (unmapped_bytes st) (page_bytes len)\<rparr>) h)
      in if len > kMaxPages then
           let h = h\<lparr>spans := ExtractSpanSetIterator s (spans h)\<rparr>
           in if loc = ON_RETURNED_FREELIST
              then h\<lparr>large_returned := SpanSet_erase s (large_returned h)\<rparr>
              else h\<lparr>large_normal := SpanSet_erase s (large_normal h)\<rparr>
         else if loc = ON_NORMAL_FREELIST
         then h\<lparr>free_normal := (free_normal h)(len - 1 := remove1 s (free_normal h (len - 1)))\<rparr>
         else h\<lparr>free_returned := (free_returned h)(len - 1 := remove1 s (free_returned h (len - 1)))\<rparr>)"

subsection \<open>Coalescing\<close>

definition CheckAndHandlePreMerge ::
  "'o env \<Rightarrow> nat \<Rightarrow> nat option \<Rightarrow> 'o page_heap \<Rightarrow> (nat option \<times> 'o page_heap) option" where
  "CheckAndHandlePreMerge E s other h =
     (case other of
        None \<Rightarrow> Some (None, h)
      | Some t \<Rightarrow>
          if aggressive_decommit h \<and> location (spans h t) = ON_NORMAL_FREELIST
             \<and> location (spans h s) = ON_RETURNED_FREELIST
          then do {
            (worked, h) \<leftarrow> DecommitSpan E t h;
            if \<not> worked then Some (None, h) else Some (Some t, RemoveFromFreeList t h) }
          else if location (spans h t) \<noteq> location (spans h s) then Some (None, h)
          else Some (Some t, RemoveFromFreeList t h))"

definition MergeIntoFreeList :: "'o env \<Rightarrow> nat \<Rightarrow> 'o page_heap \<Rightarrow> 'o page_heap option" where
  "MergeIntoFreeList E s h = do {
     let p = start (spans h s);
     let n = slength (spans h s);
     h \<leftarrow> (if aggressive_decommit h \<and> location (spans h s) = ON_NORMAL_FREELIST
          then do {
            (rv, h) \<leftarrow> DecommitSpan E s h;
            Some (if rv then upd_span s (\<lambda>x. x\<lparr>location := ON_RETURNED_FREELIST\<rparr>) h else h) }
          else Some h);
     (prev, h) \<leftarrow> CheckAndHandlePreMerge E s (GetDescriptor (p - 1) h) h;
     h \<leftarrow> (case prev of
           None \<Rightarrow> Some h
         | Some t \<Rightarrow> do {
             let len = slength (spans h t);
             let h = heap_DeleteSpan t h;
             let h = upd_span s (\<lambda>x. x\<lparr>start := start x - len, slength := slength x + len\<rparr>) h;
             pagemap_set (start (spans h s)) s h });
     (next, h) \<leftarrow> CheckAndHandlePreMerge E s (GetDescriptor (p + n) h) h;
     h \<leftarrow> (case next of
           None \<Rightarrow> Some h
         | Some t \<Rightarrow> do {
             let len = slength (spans h t);
             let h = heap_DeleteSpan t h;
             let h = upd_span s (\<lambda>x. x\<lparr>slength := slength x + len\<rparr>) h;
             pagemap_set (start (spans h s) + slength (spans h s) - 1) s h });
     Some (PrependToFreeList s h) }"

definition ReleaseSpan :: "'o env \<Rightarrow> nat \<Rightarrow> 'o page_heap \<Rightarrow> (nat \<times> 'o page_heap) option" where
  "ReleaseSpan E s h = do {
     (rv, h) \<leftarrow> DecommitSpan E s h;
     if rv then do {
       let h = RemoveFromFreeList s h;
       let n = slength (spans h s);
       let h = upd_span s (\<lambda>x. x\<lparr>location := ON_RETURNED_FREELIST\<rparr>) h;
       h \<leftarrow> MergeIntoFreeList E s h;
       Some (n, h) }
     else Some (0, h) }"

text \<open>
  The round over the free lists: \<open>i\<close> counts the remaining iterations. The first component of
  the result tells that the function returned from inside the round.
\<close>

fun release_round ::
  "'o env \<Rightarrow> nat \<Rightarrow> nat \<Rightarrow> nat \<Rightarrow> 'o page_heap \<Rightarrow> (bool \<times> nat \<times> 'o page_heap) option" where
  "release_round E num_pages 0 released h = Some (False, released, h)"
| "release_round E num_pages (Suc i) released h =
     (if released < num_pages then do {
        let h = (if kMaxPages < release_index h then h\<lparr>release_index := 0\<rparr> else h);
        let candidate = (if release_index h = kMaxPages
                         then (case large_normal h of [] \<Rightarrow> None | e # _ \<Rightarrow> Some (fst e))
                         else (case free_normal h (release_index h) of [] \<Rightarrow> None | xs \<Rightarrow> Some (last xs)));
        case candidate of
          None \<Rightarrow> release_round E num_pages i released (h\<lparr>release_index := release_index h + 1\<rparr>)
        | Some s \<Rightarrow> do {
            (released_len, h) \<leftarrow> ReleaseSpan E s h;
            if released_len = 0 then Some (True, released, h)
            else release_round E num_pages i (released + released_len)
                   (h\<lparr>release_index := release_index h + 1\<rparr>) } }
      else Some (False, released, h))"

partial_function (option) release_loop_pages ::
  "'o env \<Rightarrow> nat \<Rightarrow> nat \<Rightarrow> 'o page_heap \<Rightarrow> (nat \<times> 'o page_heap) option" where
  "release_loop_pages E num_pages released h =
     (if released < num_pages \<and> 0 < free_bytes (stats h) then do {
        (returned, released, h) \<leftarrow> release_round E num_pages (kMaxPages + 1) released h;
        if returned then Some (released, h) else release_loop_pages E num_pages released h }
      else Some (released, h))"

definition ReleaseAtLeastNPages :: "'o env \<Rightarrow> nat \<Rightarrow> 'o page_heap \<Rightarrow> (nat \<times> 'o page_heap) option" where
  "ReleaseAtLeastNPages E num_pages h = release_loop_pages E num_pages 0 h"

definition IncrementalScavenge :: "'o env \<Rightarrow> nat \<Rightarrow> 'o page_heap \<Rightarrow> 'o page_heap option" where
  "IncrementalScavenge E n h = do {
     let h = h\<lparr>scavenge_counter := scavenge_counter h - int n\<rparr>;
     if 0 \<le> scavenge_counter h then Some h
     else if tcmalloc_release_rate E \<le> 1 / 1000000 then Some (h\<lparr>scavenge_counter := kDefaultReleaseDelay\<rparr>)
     else do {
       let h = upd_stats (\<lambda>st. st\<lparr>scavenge_count := add64 (scavenge_count st) 1\<rparr>) h;
       (released_pages, h) \<leftarrow> ReleaseAtLeastNPages E 1 h;
       if released_pages = 0 then Some (h\<lparr>scavenge_counter := kDefaultReleaseDelay\<rparr>)
       else do {
         let mult = 1000 / tcmalloc_release_rate E;
         let wait = mult * of_nat released_pages;
         let wait = (if wait > of_int kMaxReleaseDelay then of_int kMaxReleaseDelay else wait);
         Some (h\<lparr>scavenge_counter := \<lfloor>wait\<rfloor>\<rparr>) } } }"

definition DeleteLocked :: "'o env \<Rightarrow> nat \<Rightarrow> 'o page_heap \<Rightarrow> 'o page_heap option" where
  "DeleteLocked E s h = do {
     let n = slength (spans h s);
     let h = upd_span s (\<lambda>x. x\<lparr>sizeclass := 0, sample := False, location := ON_NORMAL_FREELIST\<rparr>) h;
     h \<leftarrow> MergeIntoFreeList E s h;
     IncrementalScavenge E n h }"

definition Delete :: "'o env \<Rightarrow> nat \<Rightarrow> 'o page_heap \<Rightarrow> 'o page_heap option" where
  "Delete E s h = DeleteLocked E s h"

definition PrepareAndDelete ::
  "'o env \<Rightarrow> nat \<Rightarrow> ('o page_heap \<Rightarrow> 'o page_heap) \<Rightarrow> 'o page_heap \<Rightarrow> 'o page_heap option" where
  "PrepareAndDelete E s body h = DeleteLocked E s (body h)"

subsection \<open>Allocation\<close>

definition EnsureLimit :: "'o env \<Rightarrow> nat \<Rightarrow> bool \<Rightarrow> 'o page_heap \<Rightarrow> (bool \<times> 'o page_heap) option" where
  "EnsureLimit E n withRelease h = do {
     let limit = u64_of_int (ssize64 (tcmalloc_heap_limit_mb E * 1024 * 1024) div 2 ^ kPageShift);
     if limit = 0 then Some (True, h)
     else do {
       let takenPages = SystemTaken (sysmem (meta h)) div 2 ^ kPageShift;
       let takenPages = sub64 takenPages (unmapped_bytes (stats h) div 2 ^ kPageShift);
       (takenPages, h) \<leftarrow>
         (if limit < add64 takenPages n \<and> withRelease then do {
            (released, h) \<leftarrow> ReleaseAtLeastNPages E (sub64 (add64 takenPages n) limit) h;
            Some (sub64 takenPages released, h) }
          else Some (takenPages, h));
       Some (add64 takenPages n \<le> limit, h) } }"

definition Carve :: "'o env \<Rightarrow> nat \<Rightarrow> nat \<Rightarrow> 'o page_heap \<Rightarrow> (nat \<times> 'o page_heap) option" where
  "Carve E s n h = do {
     let old_location = location (spans h s);
     let h = RemoveFromFreeList s h;
     let h = upd_span s (\<lambda>x. x\<lparr>location := IN_USE\<rparr>) h;
     let extra = int32_of (sub64 (slength (spans h s)) n);
     h \<leftarrow> (if 0 < extra then do {
             (leftover, h) \<leftarrow> heap_NewSpan E (start (spans h s) + n) (nat extra) h;
             let h = upd_span leftover (\<lambda>x. x\<lparr>location := old_location\<rparr>) h;
             h \<leftarrow> RecordSpan leftover h;
             let h = PrependToFreeList leftover h;
             let h = upd_span s (\<lambda>x. x\<lparr>slength := n\<rparr>) h;
             pagemap_set (start (spans h s) + n - 1) s h }
           else Some h);
     Some (s, if old_location = ON_RETURNED_FREELIST then CommitSpan s h else h) }"

text \<open>A null result is 0.\<close>

partial_function (option) AllocLarge :: "'o env \<Rightarrow> nat \<Rightarrow> 'o page_heap \<Rightarrow> (nat \<times> 'o page_heap) option" where
  "AllocLarge E n h = do {
     let best_normal = (case SpanSet_upper_bound (spans h) n (large_normal h) of
                          None \<Rightarrow> None | Some place \<Rightarrow> Some (fst place));
     let best = (case SpanSet_upper_bound (spans h) n (large_returned h) of
                   None \<Rightarrow> best_normal
                 | Some place \<Rightarrow>
                     (case best_normal of
                        None \<Rightarrow> Some (fst place)
                      | Some b \<Rightarrow> if slength (spans h (fst place)) < slength (spans h b)
                                  then Some (fst place) else best_normal));
     if best = best_normal
     then (case best of None \<Rightarrow> Some (0, h) | Some b \<Rightarrow> Carve E b n h)
     else do {
       (ok, h) \<leftarrow> EnsureLimit E n False h;
       if ok then Carve E (the best) n h
       else do {
         (ok, h) \<leftarrow> EnsureLimit E n True h;
         if ok then AllocLarge E n h else Some (0, h) } } }"

function search_lists :: "'o env \<Rightarrow> nat \<Rightarrow> nat \<Rightarrow> 'o page_heap \<Rightarrow> (nat \<times> 'o page_heap) option" where
  "search_lists E n s h =
     (if s \<le> kMaxPages then
        if s = 0 then None
        else
          (case free_normal h (s - 1) of
             x # _ \<Rightarrow> Carve E x n h
           | [] \<Rightarrow>
               (case free_returned h (s - 1) of
                  [] \<Rightarrow> search_lists E n (s + 1) h
                | _ \<Rightarrow>
                    (case EnsureLimit E n True h of
                       None \<Rightarrow> None
                     | Some (ok, h) \<Rightarrow>
                         if ok then
                           (case free_returned h (s - 1) of
                              x # _ \<Rightarrow> Carve E x n h
                            | [] \<Rightarrow> search_lists E n (s + 1) h)
                         else search_lists E n (s + 1) h)))
      else AllocLarge E n h)"
  by pat_completeness auto
termination
  by (relation "measure (\<lambda>(E, n, s, h). kMaxPages + 1 - s)") auto

declare search_lists.simps [simp del]

definition SearchFreeAndLargeLists :: "'o env \<Rightarrow> nat \<Rightarrow> 'o page_heap \<Rightarrow> (nat \<times> 'o page_heap) option" where
  "SearchFreeAndLargeLists E n h = search_lists E n n h"

text \<open>\<open>MetaDataAlloc\<close> as the allocator of the page map; the state is \<^term>\<open>None\<close> once it aborted.\<close>

definition pagemap_allocator :: "'o env \<Rightarrow> 'o metadata option allocator" where
  "pagemap_allocator E bytes st =
     (case st of
        None \<Rightarrow> (None, None)
      | Some md \<Rightarrow>
          (case MetaDataAlloc (plat E) bytes md of
             None \<Rightarrow> (None, None)
           | Some (p, md) \<Rightarrow> (if p = 0 then None else Some p, Some md)))"

definition GrowHeap :: "'o env \<Rightarrow> nat \<Rightarrow> nat \<Rightarrow> 'o page_heap \<Rightarrow> (bool \<times> nat \<times> 'o page_heap) option" where
  "GrowHeap E n grown_by h =
     (if n > kMaxValidPages then Some (False, grown_by, h)
      else do {
        let ask = (if n > kMinSystemAlloc then n else kMinSystemAlloc);
        let try_alloc = (\<lambda>ask h. do {
          (ok, h) \<leftarrow> EnsureLimit E ask True h;
          if ok then do {
            (ptr, actual_size, sm) \<leftarrow> TCMalloc_SystemAlloc (plat E) (page_bytes ask) kPageSize (sysmem (meta h));
            Some (ptr, actual_size, h\<lparr>meta := (meta h)\<lparr>sysmem := sm\<rparr>\<rparr>) }
          else Some (0, 0, h) });
        (ptr, actual_size, h) \<leftarrow> try_alloc ask h;
        (ptr, actual_size, h) \<leftarrow>
          (if ptr = 0 \<and> n < ask then try_alloc n h else Some (ptr, actual_size, h));
        if ptr = 0 then Some (False, grown_by, h)
        else do {
          let ask = actual_size div 2 ^ kPageShift;
          let grown_by = add64 grown_by (page_bytes ask);
          let old_system_bytes = system_bytes (stats h);
          let h = upd_stats (\<lambda>st. st\<lparr>
                    reserve_count := add64 (reserve_count st) 1,
                    commit_count := add64 (commit_count st) 1,
                    system_bytes := add64 (system_bytes st) (page_bytes ask),
                    committed_bytes := add64 (committed_bytes st) (page_bytes ask),
                    total_commit_bytes := add64 (total_commit_bytes st) (page_bytes ask),
                    total_reserve_bytes := add64 (total_reserve_bytes st) (page_bytes ask)\<rparr>) h;
          let p = ptr div 2 ^ kPageShift;
          let (pm, md) =
            (if old_system_bytes < kPageMapBigAllocationThreshold
                \<and> kPageMapBigAllocationThreshold \<le> system_bytes (stats h)
             then PageMap2_PreallocateMoreMemory pagemap_bits (pagemap_allocator E) (pagemap h) (Some (meta h))
             else (pagemap h, Some (meta h)));
          let (ok, pm, md) = PageMap2_Ensure pagemap_bits (pagemap_allocator E) (p - 1) (ask + 2) pm md;
          md \<leftarrow> md;
          let h = h\<lparr>pagemap := pm, meta := md\<rparr>;
          if ok then do {
            (s, h) \<leftarrow> heap_NewSpan E p ask h;
            h \<leftarrow> RecordSpan s h;
            h \<leftarrow> DeleteLocked E s h;
            Some (True, grown_by, h) }
          else Some (False, grown_by, h) } })"

definition NewLocked :: "'o env \<Rightarrow> nat \<Rightarrow> nat \<Rightarrow> 'o page_heap \<Rightarrow> (nat \<times> nat \<times> 'o page_heap) option" where
  "NewLocked E n grown_by h = do {
     let n = RoundUpSize n h;
     (result, h) \<leftarrow> SearchFreeAndLargeLists E n h;
     if result \<noteq> 0 then Some (result, grown_by, h)
     else do {
       (result, h) \<leftarrow>
         (if free_bytes (stats h) \<noteq> 0 \<and> unmapped_bytes (stats h) \<noteq> 0
             \<and> system_bytes (stats h) div 4 \<le> add64 (free_bytes (stats h)) (unmapped_bytes (stats h))
             \<and> system_bytes (stats h) div kForcedCoalesceInterval
                 \<noteq> add64 (system_bytes (stats h)) (page_bytes n) div kForcedCoalesceInterval
          then do {
            (_, h) \<leftarrow> ReleaseAtLeastNPages E 0x7fffffff h;
            SearchFreeAndLargeLists E n h }
          else Some (0, h));
       if result \<noteq> 0 then Some (result, grown_by, h)
       else do {
         (grown, grown_by, h) \<leftarrow> GrowHeap E n grown_by h;
         if \<not> grown then Some (0, grown_by, h)
         else do {
           (result, h) \<leftarrow> SearchFreeAndLargeLists E n h;
           Some (result, grown_by, h) } } } }"

text \<open>The loop \<open>for (i = 1; i < span->length-1; i++)\<close> over the interior pages.\<close>

definition RegisterSizeClass :: "nat \<Rightarrow> nat \<Rightarrow> 'o page_heap \<Rightarrow> 'o page_heap option" where
  "RegisterSizeClass s sc h = do {
     let h = upd_span s (\<lambda>x. x\<lparr>sizeclass := sc mod 256\<rparr>) h;
     pm \<leftarrow> set_pages (PageMap2_set pagemap_bits) (start (spans h s) + 1) (slength (spans h s) - 2) (Some s)
            (pagemap h);
     Some (h\<lparr>pagemap := pm\<rparr>) }"

definition NewWithSizeClass :: "'o env \<Rightarrow> nat \<Rightarrow> nat \<Rightarrow> 'o page_heap \<Rightarrow> (nat \<times> 'o page_heap) option" where
  "NewWithSizeClass E n sc h = do {
     (s, grown_by, h) \<leftarrow> NewLocked E n 0 h;
     h \<leftarrow> (if s = 0 then Some h
          else do {
            let h = InvalidateCachedSizeClass (start (spans h s)) h;
            if sc \<noteq> 0 then RegisterSizeClass s sc h else Some h });
     h \<leftarrow> HandleUnlock E grown_by h;
     Some (s, h) }"

definition New :: "'o env \<Rightarrow> nat \<Rightarrow> 'o page_heap \<Rightarrow> (nat \<times> 'o page_heap) option" where
  "New E n h = NewWithSizeClass E n 0 h"

definition Split :: "'o env \<Rightarrow> nat \<Rightarrow> nat \<Rightarrow> 'o page_heap \<Rightarrow> (nat \<times> 'o page_heap) option" where
  "Split E s n h = do {
     let extra = int32_of (sub64 (slength (spans h s)) n);
     (leftover, h) \<leftarrow> heap_NewSpan E (start (spans h s) + n) (u64_of_int extra) h;
     h \<leftarrow> RecordSpan leftover h;
     h \<leftarrow> pagemap_set (start (spans h s) + n - 1) s h;
     Some (leftover, upd_span s (\<lambda>x. x\<lparr>slength := n\<rparr>) h) }"

partial_function (option) align_skip :: "nat \<Rightarrow> nat \<Rightarrow> nat \<Rightarrow> nat option" where
  "align_skip align_bytes first skip =
     (if page_bytes (add64 first skip) AND sub64 align_bytes 1 \<noteq> 0
      then align_skip align_bytes first (add64 skip 1) else Some skip)"

definition NewAligned :: "'o env \<Rightarrow> nat \<Rightarrow> nat \<Rightarrow> 'o page_heap \<Rightarrow> (nat \<times> 'o page_heap) option" where
  "NewAligned E n align_pages h = do {
     let n = RoundUpSize n h;
     let alloc = add64 n align_pages;
     if alloc < n \<or> alloc < align_pages then do {
       (s, h) \<leftarrow> New E (2 ^ 64 - 1) h;
       if s = 0 then Some (0, h) else None }
     else do {
       (s, grown_by, h) \<leftarrow> NewLocked E alloc 0 h;
       (s, h) \<leftarrow>
         (if s = 0 then Some (0, h)
          else do {
            skip \<leftarrow> align_skip (page_bytes align_pages) (start (spans h s)) 0;
            (s, h) \<leftarrow>
              (if 0 < skip then do {
                 (rest, h) \<leftarrow> Split E s skip h;
                 h \<leftarrow> DeleteLocked E s h;
                 Some (rest, h) }
               else Some (s, h));
            h \<leftarrow> (if n < slength (spans h s) then do {
                   (trailer, h) \<leftarrow> Split E s n h;
                   DeleteLocked E trailer h }
                 else Some h);
            Some (s, InvalidateCachedSizeClass (start (spans h s)) h) });
       h \<leftarrow> HandleUnlock E grown_by h;
       Some (s, h) } }"

subsection \<open>Statistics and checks\<close>

definition GetSmallSpanStatsLocked :: "'o page_heap \<Rightarrow> (nat \<times> nat) list" where
  "GetSmallSpanStatsLocked h =
     map (\<lambda>i. (length (free_normal h i), length (free_returned h i))) [0..<kMaxPages]"

record large_span_stats =
  lspans :: nat
  normal_pages :: nat
  returned_pages :: nat

definition GetLargeSpanStatsLocked :: "'o page_heap \<Rightarrow> large_span_stats" where
  "GetLargeSpanStatsLocked h =
     (let r = \<lparr>lspans = 0, normal_pages = 0, returned_pages = 0\<rparr>;
          r = fold (\<lambda>e r. r\<lparr>normal_pages := normal_pages r + snd e, lspans := lspans r + 1\<rparr>) (large_normal h) r
      in fold (\<lambda>e r. r\<lparr>returned_pages := returned_pages r + snd e, lspans := lspans r + 1\<rparr>) (large_returned h) r)"

datatype range_type = INUSE | FREE | UNMAPPED | UNKNOWN

record malloc_range =
  address :: nat
  range_length :: nat
  range_kind :: range_type
  fraction :: rat

definition GetNextRange :: "(nat \<Rightarrow> nat) \<Rightarrow> nat \<Rightarrow> 'o page_heap \<Rightarrow> malloc_range option" where
  "GetNextRange class_to_size_of first h =
     (case PageMap2_Next pagemap_bits (pagemap h) first of
        None \<Rightarrow> None
      | Some s \<Rightarrow>
          let x = spans h s;
              r = \<lparr>address = page_bytes (start x), range_length = page_bytes (slength x),
                   range_kind = UNKNOWN, fraction = 0\<rparr>
          in Some (case location x of
               IN_USE \<Rightarrow>
                 r\<lparr>range_kind := INUSE,
                   fraction := (if sizeclass x > 0
                                then of_nat (class_to_size_of (sizeclass x) * refcount x) / of_nat (range_length r)
                                else 1)\<rparr>
             | ON_NORMAL_FREELIST \<Rightarrow> r\<lparr>range_kind := FREE\<rparr>
             | ON_RETURNED_FREELIST \<Rightarrow> r\<lparr>range_kind := UNMAPPED\<rparr>))"

text \<open>A failing \<open>CHECK_CONDITION\<close> aborts, so these return only \<^term>\<open>True\<close>.\<close>

definition check_span :: "'o page_heap \<Rightarrow> nat \<Rightarrow> bool" where
  "check_span h s \<longleftrightarrow> GetDescriptor (start (spans h s)) h = Some s
     \<and> GetDescriptor (start (spans h s) + slength (spans h s) - 1) h = Some s"

definition CheckList :: "nat list \<Rightarrow> nat \<Rightarrow> nat \<Rightarrow> span_location \<Rightarrow> 'o page_heap \<Rightarrow> bool option" where
  "CheckList xs min_pages max_pages freelist h =
     (if \<forall>s \<in> set xs. location (spans h s) = freelist \<and> min_pages \<le> slength (spans h s)
           \<and> slength (spans h s) \<le> max_pages \<and> check_span h s
      then Some True else None)"

definition CheckSet :: "SpanPtrWithLength list \<Rightarrow> nat \<Rightarrow> span_location \<Rightarrow> 'o page_heap \<Rightarrow> bool option" where
  "CheckSet es min_pages freelist h =
     (if \<forall>(s, len) \<in> set es. slength (spans h s) = len \<and> location (spans h s) = freelist
           \<and> min_pages \<le> slength (spans h s) \<and> check_span h s
      then Some True else None)"

primrec check_lists :: "nat \<Rightarrow> 'o page_heap \<Rightarrow> bool option" where
  "check_lists 0 h = Some True"
| "check_lists (Suc s) h = do {
     _ \<leftarrow> check_lists s h;
     _ \<leftarrow> CheckList (free_normal h s) (Suc s) (Suc s) ON_NORMAL_FREELIST h;
     CheckList (free_returned h s) (Suc s) (Suc s) ON_RETURNED_FREELIST h }"

definition CheckExpensive :: "'o page_heap \<Rightarrow> bool option" where
  "CheckExpensive h = do {
     _ \<leftarrow> CheckSet (large_normal h) (kMaxPages + 1) ON_NORMAL_FREELIST h;
     _ \<leftarrow> CheckSet (large_returned h) (kMaxPages + 1) ON_RETURNED_FREELIST h;
     _ \<leftarrow> check_lists kMaxPages h;
     Some True }"

end
