(* ===== verification/PageHeapInv.thy ===== *)
theory PageHeapInv
  imports PageHeap
begin

text \<open>
  The invariant of the page heap, component by component, and how the elementary updates of the
  operations act on it: \<open>geo_ok\<close> (the live spans do not overlap), \<open>map_ok\<close> (the page map
  knows the first and the last page of each of them and nothing outside), \<open>half_ok\<close> (the free
  lists, the set and the byte count of one location hold exactly the free spans of that
  location) and \<open>memory_ok\<close> (span objects, stack traces and pages are disjoint memory).
\<close>

subsection \<open>Geometry\<close>

abbreviation extent :: "span \<Rightarrow> nat set" where
  "extent x \<equiv> {start x..<start x + slength x}"

definition apart :: "span \<Rightarrow> span \<Rightarrow> bool" where
  "apart a b \<longleftrightarrow> start a + slength a \<le> start b \<or> start b + slength b \<le> start a"

definition geo_ok :: "nat set \<Rightarrow> span_store \<Rightarrow> bool" where
  "geo_ok U sp \<longleftrightarrow> finite U
     \<and> (\<forall>s\<in>U. s \<noteq> 0 \<and> 0 < start (sp s) \<and> 0 < slength (sp s) \<and> start (sp s) + slength (sp s) \<le> 2 ^ pagemap_bits)
     \<and> (\<forall>s\<in>U. \<forall>t\<in>U. s \<noteq> t \<longrightarrow> apart (sp s) (sp t))"

definition covered :: "nat set \<Rightarrow> span_store \<Rightarrow> nat set" where
  "covered U sp = (\<Union>s\<in>U. extent (sp s))"

lemma geo_okD:
  assumes "geo_ok U sp" and "s \<in> U"
  shows "s \<noteq> 0" and "0 < start (sp s)" and "0 < slength (sp s)"
    and "start (sp s) + slength (sp s) \<le> 2 ^ pagemap_bits" and "start (sp s) < 2 ^ pagemap_bits"
  using assms unfolding geo_ok_def by auto

lemma geo_ok_apart: "geo_ok U sp \<Longrightarrow> s \<in> U \<Longrightarrow> t \<in> U \<Longrightarrow> s \<noteq> t \<Longrightarrow> apart (sp s) (sp t)"
  by (auto simp: geo_ok_def)

lemma apart_extent: "apart a b \<longleftrightarrow> extent a \<inter> extent b = {}" if "0 < slength a" "0 < slength b"
proof
  show "apart a b \<Longrightarrow> extent a \<inter> extent b = {}" by (auto simp: apart_def)
  show "extent a \<inter> extent b = {} \<Longrightarrow> apart a b"
    using interval_apart [of "start a" "slength a" "start b" "slength b"] that by (auto simp: apart_def)
qed

text \<open>Only start and length of the live spans matter.\<close>

lemma geo_ok_cong:
  assumes "geo_ok U sp" and "\<And>s. s \<in> U \<Longrightarrow> start (sp' s) = start (sp s) \<and> slength (sp' s) = slength (sp s)"
  shows "geo_ok U sp'"
  using assms unfolding geo_ok_def apart_def by simp

lemma covered_cong:
  assumes "\<And>s. s \<in> U \<Longrightarrow> start (sp' s) = start (sp s) \<and> slength (sp' s) = slength (sp s)"
  shows "covered U sp' = covered U sp"
  using assms unfolding covered_def by simp

lemma same_page: "geo_ok U sp \<Longrightarrow> s \<in> U \<Longrightarrow> t \<in> U \<Longrightarrow> p \<in> extent (sp s) \<Longrightarrow> p \<in> extent (sp t) \<Longrightarrow> s = t"
  using geo_ok_apart [of U sp s t] by (force simp: apart_def)

lemma same_start: "geo_ok U sp \<Longrightarrow> s \<in> U \<Longrightarrow> t \<in> U \<Longrightarrow> start (sp s) = start (sp t) \<Longrightarrow> s = t"
  using same_page [of U sp s t "start (sp s)"] geo_okD(3) [of U sp] by force

lemma covered_below: "geo_ok U sp \<Longrightarrow> covered U sp \<subseteq> {..<2 ^ pagemap_bits}"
  using geo_okD(4) by (fastforce simp: covered_def)

lemma card_covered:
  assumes "geo_ok U sp"
  shows "card (covered U sp) = (\<Sum>s\<in>U. slength (sp s))"
proof -
  have "\<forall>s\<in>U. \<forall>t\<in>U. s \<noteq> t \<longrightarrow> extent (sp s) \<inter> extent (sp t) = {}"
    using same_page [OF assms] by blast
  moreover have "finite U" using assms by (simp add: geo_ok_def)
  ultimately show ?thesis unfolding covered_def by (subst card_UN_disjoint) simp_all
qed

lemma pages_bound:
  assumes "geo_ok U sp" and "Y \<subseteq> U"
  shows "(\<Sum>s\<in>Y. slength (sp s)) \<le> 2 ^ pagemap_bits"
proof -
  have "(\<Sum>s\<in>Y. slength (sp s)) \<le> (\<Sum>s\<in>U. slength (sp s))"
    by (rule sum_mono2) (use assms in \<open>auto simp: geo_ok_def\<close>)
  also have "\<dots> = card (covered U sp)" using card_covered [OF assms(1)] by simp
  also have "\<dots> \<le> card {..<(2::nat) ^ pagemap_bits}" by (rule card_mono) (use covered_below [OF assms(1)] in auto)
  finally show ?thesis by simp
qed

lemma apart_sym: "apart a b = apart b a"
  by (auto simp: apart_def)

lemma geo_ok_insert:
  "s \<notin> U \<Longrightarrow> geo_ok (insert s U) sp \<longleftrightarrow> geo_ok U sp \<and> s \<noteq> 0 \<and> 0 < start (sp s) \<and> 0 < slength (sp s)
     \<and> start (sp s) + slength (sp s) \<le> 2 ^ pagemap_bits \<and> (\<forall>u\<in>U. apart (sp s) (sp u))"
  unfolding geo_ok_def by (auto simp: apart_sym)

lemma geo_ok_remove:
  assumes "geo_ok U sp" and "\<And>u. u \<in> U - T \<Longrightarrow> start (sp' u) = start (sp u) \<and> slength (sp' u) = slength (sp u)"
  shows "geo_ok (U - T) sp'"
  by (rule geo_ok_cong [OF _ assms(2)]) (use assms(1) in \<open>auto simp: geo_ok_def\<close>)

lemma covered_insert: "covered (insert s U) sp = extent (sp s) \<union> covered U sp"
  by (simp add: covered_def)

text \<open>Splitting a span in two, and merging two adjacent spans.\<close>

lemma geo_ok_split:
  assumes "geo_ok U sp" and "s \<in> U" and "t \<notin> U" and "t \<noteq> 0" and "0 < n" and "n < slength (sp s)"
    and same: "\<And>u. u \<in> U - {s} \<Longrightarrow> start (sp' u) = start (sp u) \<and> slength (sp' u) = slength (sp u)"
    and s: "start (sp' s) = start (sp s)" "slength (sp' s) = n"
    and t: "start (sp' t) = start (sp s) + n" "slength (sp' t) = slength (sp s) - n"
  shows "geo_ok (insert t U) sp'" and "covered (insert t U) sp' = covered U sp"
proof -
  note U = insert_Diff [OF assms(2)]
  have "t \<noteq> s" using assms(2,3) by blast
  have r: "geo_ok (U - {s}) sp'" by (rule geo_ok_remove [OF assms(1) same])
  have ap: "apart (sp' s) (sp' u)" "apart (sp' t) (sp' u)" if "u \<in> U - {s}" for u
    using geo_ok_apart [OF assms(1,2), of u] same [OF that] that assms(5,6) s t by (auto simp: apart_def)
  note d = geo_okD [OF assms(1,2)]
  have "geo_ok (insert s (U - {s})) sp'"
    using r ap(1) d assms(5,6) s by (subst geo_ok_insert) auto
  then have "geo_ok U sp'" by (simp only: U)
  moreover have "apart (sp' t) (sp' s)" using s t by (simp add: apart_def)
  then have "\<forall>u\<in>U. apart (sp' t) (sp' u)" using ap(2) by (metis DiffI singletonD)
  ultimately show "geo_ok (insert t U) sp'"
    using d assms(3-6) t by (subst geo_ok_insert) simp_all
  have "extent (sp' s) \<union> extent (sp' t) = extent (sp s)" using assms(5,6) s t by auto
  moreover have "covered (U - {s}) sp' = covered (U - {s}) sp" by (rule covered_cong [OF same])
  ultimately show "covered (insert t U) sp' = covered U sp"
    using covered_insert [of t U sp'] covered_insert [of s "U - {s}"] unfolding U by blast
qed

lemma geo_ok_merge:
  assumes "geo_ok U sp" and "s \<in> U" and "t \<in> U" and "s \<noteq> t"
    and adj: "start (sp t) + slength (sp t) = start (sp s) \<and> start (sp' s) = start (sp t)
       \<or> start (sp s) + slength (sp s) = start (sp t) \<and> start (sp' s) = start (sp s)"
    and len: "slength (sp' s) = slength (sp s) + slength (sp t)"
    and same: "\<And>u. u \<in> U - {s, t} \<Longrightarrow> start (sp' u) = start (sp u) \<and> slength (sp' u) = slength (sp u)"
  shows "geo_ok (U - {t}) sp'" and "covered (U - {t}) sp' = covered U sp"
proof -
  have U: "U - {t} = insert s (U - {s, t})" using assms(2,4) by blast
  have r: "geo_ok (U - {s, t}) sp'" by (rule geo_ok_remove [OF assms(1) same])
  have ap: "apart (sp' s) (sp' u)" if "u \<in> U - {s, t}" for u
    using geo_ok_apart [OF assms(1,2), of u] geo_ok_apart [OF assms(1,3), of u] same [OF that] that adj len
      geo_okD(3) [OF assms(1), of u]
    by (auto simp: apart_def)
  show "geo_ok (U - {t}) sp'"
    unfolding U using r ap adj len geo_okD [OF assms(1,2)] geo_okD [OF assms(1,3)]
    by (subst geo_ok_insert) auto
  have "extent (sp' s) = extent (sp s) \<union> extent (sp t)" using adj len by auto
  moreover have "covered (U - {s, t}) sp' = covered (U - {s, t}) sp" by (rule covered_cong [OF same])
  moreover have "U = insert s (insert t (U - {s, t}))" using assms(2,3) by blast
  ultimately show "covered (U - {t}) sp' = covered U sp"
    unfolding U by (metis covered_insert Un_assoc)
qed

subsection \<open>The page map\<close>

abbreviation pm_get :: "nat pm2 \<Rightarrow> nat \<Rightarrow> nat option" where
  "pm_get \<equiv> PageMap2_get pagemap_bits"

abbreviation pm_ensured :: "nat pm2 \<Rightarrow> nat \<Rightarrow> bool" where
  "pm_ensured \<equiv> ensured2 pagemap_bits"

definition bounds_ok :: "nat set \<Rightarrow> span_store \<Rightarrow> (nat \<Rightarrow> nat option) \<Rightarrow> bool" where
  "bounds_ok U sp g \<longleftrightarrow>
     (\<forall>s\<in>U. g (start (sp s)) = Some s \<and> g (start (sp s) + slength (sp s) - 1) = Some s)"

definition map_ok :: "nat set \<Rightarrow> span_store \<Rightarrow> nat pm2 \<Rightarrow> bool" where
  "map_ok U sp m \<longleftrightarrow> bounds_ok U sp (pm_get m)
     \<and> (\<forall>p. pm_get m p \<noteq> None \<longrightarrow> p \<in> covered U sp)
     \<and> (\<forall>p\<in>covered U sp. pm_ensured m p)"

lemma map_ok_cong:
  assumes "map_ok U sp m" and "\<And>s. s \<in> U \<Longrightarrow> start (sp' s) = start (sp s) \<and> slength (sp' s) = slength (sp s)"
  shows "map_ok U sp' m"
  using assms covered_cong [of U sp' sp] unfolding map_ok_def bounds_ok_def by simp

text \<open>Writes to covered pages that leave the boundaries right.\<close>

lemma map_ok_update:
  assumes "map_ok U sp m" and "covered U' sp' = covered U sp"
    and "\<And>p. pm_get m' p \<noteq> pm_get m p \<Longrightarrow> p \<in> covered U sp" and "pm_ensured m' = pm_ensured m"
    and "bounds_ok U' sp' (pm_get m')"
  shows "map_ok U' sp' m'"
  using assms unfolding map_ok_def by metis

lemma pagemap_set_ok:
  assumes "pm_ensured (pagemap h) p"
  shows "\<exists>m. pagemap_set p s h = Some (h\<lparr>pagemap := m\<rparr>) \<and> pm_get m = (pm_get (pagemap h))(p \<mapsto> s)
    \<and> pm_ensured m = pm_ensured (pagemap h)"
proof -
  obtain m where m: "PageMap2_set pagemap_bits (pagemap h) p (Some s) = Some m"
    using pm2.put_ensured [OF assms] by blast
  then show ?thesis using pm2.get_put [OF m] pm2.ensured_put [OF m]
    by (auto simp: pagemap_set_def fun_eq_iff)
qed

lemma RecordSpan_ok:
  assumes "pm_ensured (pagemap h) (start (spans h s))"
    and "pm_ensured (pagemap h) (start (spans h s) + slength (spans h s) - 1)" and "0 < slength (spans h s)"
  shows "\<exists>m. RecordSpan s h = Some (h\<lparr>pagemap := m\<rparr>)
    \<and> pm_get m = (pm_get (pagemap h))(start (spans h s) \<mapsto> s, start (spans h s) + slength (spans h s) - 1 \<mapsto> s)
    \<and> pm_ensured m = pm_ensured (pagemap h)"
proof -
  let ?a = "start (spans h s)" and ?l = "slength (spans h s)"
  obtain m1 where m1: "pagemap_set ?a s h = Some (h\<lparr>pagemap := m1\<rparr>)" "pm_get m1 = (pm_get (pagemap h))(?a \<mapsto> s)"
    "pm_ensured m1 = pm_ensured (pagemap h)" using pagemap_set_ok [OF assms(1)] by blast
  show ?thesis
  proof (cases "1 < ?l")
    case True
    have "pm_ensured (pagemap (h\<lparr>pagemap := m1\<rparr>)) (?a + ?l - 1)" using assms(2) m1(3) by simp
    from pagemap_set_ok [OF this, of s] m1 True show ?thesis by (auto simp: RecordSpan_def)
  next
    case False
    then have "?l = 1" using assms(3) by simp
    then show ?thesis using m1 by (auto simp: RecordSpan_def)
  qed
qed

lemma boundary_covered:
  assumes "geo_ok U sp" and "s \<in> U"
  shows "start (sp s) \<in> covered U sp" and "start (sp s) + slength (sp s) - 1 \<in> covered U sp"
  using assms geo_okD [OF assms] by (force simp: covered_def)+

text \<open>The neighbours that coalescing looks up are the live spans next to the given one.\<close>

lemma lookup_before:
  assumes "geo_ok U sp" and "map_ok U sp m" and "s \<in> U" and "pm_get m (start (sp s) - 1) = Some t"
  shows "t \<in> U \<and> t \<noteq> s \<and> start (sp t) + slength (sp t) = start (sp s)"
proof -
  from assms(2,4) obtain u where u: "u \<in> U" "start (sp s) - 1 \<in> extent (sp u)"
    by (auto simp: map_ok_def covered_def)
  note g = geo_okD [OF assms(1,3)] geo_okD [OF assms(1) u(1)]
  have ne: "u \<noteq> s" using u(2) g(2) by auto
  then have "start (sp u) + slength (sp u) = start (sp s)"
    using geo_ok_apart [OF assms(1) u(1) assms(3)] u(2) g by (auto simp: apart_def)
  moreover from this have "start (sp s) - 1 = start (sp u) + slength (sp u) - 1" by simp
  then have "pm_get m (start (sp s) - 1) = Some u" using assms(2) u(1) by (simp add: map_ok_def bounds_ok_def)
  ultimately show ?thesis using assms(4) u(1) ne by simp
qed

lemma lookup_after:
  assumes "geo_ok U sp" and "map_ok U sp m" and "s \<in> U" and "pm_get m (start (sp s) + slength (sp s)) = Some t"
  shows "t \<in> U \<and> t \<noteq> s \<and> start (sp s) + slength (sp s) = start (sp t)"
proof -
  from assms(2,4) obtain u where u: "u \<in> U" "start (sp s) + slength (sp s) \<in> extent (sp u)"
    by (auto simp: map_ok_def covered_def)
  note g = geo_okD [OF assms(1,3)] geo_okD [OF assms(1) u(1)]
  have ne: "u \<noteq> s" using u(2) g(2) by auto
  then have "start (sp u) = start (sp s) + slength (sp s)"
    using geo_ok_apart [OF assms(1) u(1) assms(3)] u(2) g by (auto simp: apart_def)
  moreover from this have "pm_get m (start (sp s) + slength (sp s)) = Some u"
    using assms(2) u(1) by (metis map_ok_def bounds_ok_def)
  ultimately show ?thesis using assms(4) u(1) ne by simp
qed

lemma boundary_unique:
  assumes "geo_ok U sp" and "s \<in> U" and "u \<in> U" and "u \<noteq> s" and "p \<in> extent (sp s)"
  shows "start (sp u) \<noteq> p" and "start (sp u) + slength (sp u) - 1 \<noteq> p"
  using geo_ok_apart [OF assms(1-3)] assms(4,5) geo_okD [OF assms(1,3)] by (auto simp: apart_def)

lemma bounds_ok_split:
  assumes "geo_ok U sp" and "bounds_ok U sp g" and "s \<in> U" and "t \<notin> U" and "0 < n" and "n < slength (sp s)"
    and same: "\<And>u. u \<in> U - {s} \<Longrightarrow> start (sp' u) = start (sp u) \<and> slength (sp' u) = slength (sp u)"
    and s: "start (sp' s) = start (sp s)" "slength (sp' s) = n"
    and t: "start (sp' t) = start (sp s) + n" "slength (sp' t) = slength (sp s) - n"
    and g': "g' = g(start (sp s) + n \<mapsto> t, start (sp s) + slength (sp s) - 1 \<mapsto> t, start (sp s) + n - 1 \<mapsto> s)"
  shows "bounds_ok (insert t U) sp' g'"
  unfolding bounds_ok_def
proof
  fix u assume "u \<in> insert t U"
  then consider "u = t" | "u = s" | "u \<in> U" "u \<noteq> s" "u \<noteq> t" by blast
  then show "g' (start (sp' u)) = Some u \<and> g' (start (sp' u) + slength (sp' u) - 1) = Some u"
  proof cases
    case 1
    have "start (sp s) + n + (slength (sp s) - n) - 1 = start (sp s) + slength (sp s) - 1" using assms(6) by simp
    moreover have "start (sp s) + n \<noteq> start (sp s) + n - 1" "start (sp s) + slength (sp s) - 1 \<noteq> start (sp s) + n - 1"
      using assms(5,6) by linarith+
    ultimately show ?thesis unfolding 1 t g' by simp
  next
    case 2
    have "g (start (sp s)) = Some s" using assms(2,3) by (simp add: bounds_ok_def)
    then show ?thesis using 2 s g' assms(5,6) by auto
  next
    case 3
    have in_s: "start (sp s) + n \<in> extent (sp s)" "start (sp s) + slength (sp s) - 1 \<in> extent (sp s)"
      "start (sp s) + n - 1 \<in> extent (sp s)" using assms(5,6) by auto
    note b = boundary_unique [OF assms(1,3) 3(1,2)]
    have "g (start (sp u)) = Some u \<and> g (start (sp u) + slength (sp u) - 1) = Some u"
      using assms(2) 3(1) by (simp add: bounds_ok_def)
    then show ?thesis using same [of u] 3 b [OF in_s(1)] b [OF in_s(2)] b [OF in_s(3)] by (simp add: g')
  qed
qed

lemma bounds_ok_merge:
  assumes "geo_ok U sp" and "bounds_ok U sp g" and "s \<in> U" and "t \<in> U" and "s \<noteq> t"
    and adj: "start (sp t) + slength (sp t) = start (sp s) \<and> start (sp' s) = start (sp t)
         \<and> g' = g(start (sp' s) \<mapsto> s)
       \<or> start (sp s) + slength (sp s) = start (sp t) \<and> start (sp' s) = start (sp s)
         \<and> g' = g(start (sp' s) + slength (sp' s) - 1 \<mapsto> s)"
    and len: "slength (sp' s) = slength (sp s) + slength (sp t)"
    and same: "\<And>u. u \<in> U - {s, t} \<Longrightarrow> start (sp' u) = start (sp u) \<and> slength (sp' u) = slength (sp u)"
  shows "bounds_ok (U - {t}) sp' g'"
  unfolding bounds_ok_def
proof
  note gs = geo_okD [OF assms(1,3)] and gt = geo_okD [OF assms(1,4)]
  have bs: "g (start (sp s)) = Some s" "g (start (sp s) + slength (sp s) - 1) = Some s"
    using assms(2,3) by (simp_all add: bounds_ok_def)
  fix u assume "u \<in> U - {t}"
  then consider "u = s" | "u \<in> U - {s, t}" by blast
  then show "g' (start (sp' u)) = Some u \<and> g' (start (sp' u) + slength (sp' u) - 1) = Some u"
  proof cases
    case 1
    from adj show ?thesis
    proof
      assume a: "start (sp t) + slength (sp t) = start (sp s) \<and> start (sp' s) = start (sp t)
         \<and> g' = g(start (sp' s) \<mapsto> s)"
      then have "start (sp t) + slength (sp t) = start (sp s)" "start (sp' s) = start (sp t)" by simp_all
      then have "start (sp' s) + slength (sp' s) - 1 = start (sp s) + slength (sp s) - 1" using len by linarith
      then show ?thesis using 1 a bs by simp
    next
      assume "start (sp s) + slength (sp s) = start (sp t) \<and> start (sp' s) = start (sp s)
         \<and> g' = g(start (sp' s) + slength (sp' s) - 1 \<mapsto> s)"
      then show ?thesis using 1 bs len gs gt by simp
    qed
  next
    case 2
    obtain p where p: "g' = g(p \<mapsto> s)" "p \<in> extent (sp t)"
      using adj len gt gs by fastforce
    have "start (sp u) \<noteq> p" "start (sp u) + slength (sp u) - 1 \<noteq> p"
      using boundary_unique [OF assms(1,4) _ _ p(2)] 2 by auto
    then show ?thesis using 2 same [OF 2] assms(2) p(1) by (simp add: bounds_ok_def)
  qed
qed

subsection \<open>The free spans of one location\<close>

text \<open>
  \<open>A\<close> is the set of free spans that the lists \<open>f\<close>, the set \<open>l\<close> and the byte count \<open>b\<close> stand for.
\<close>

definition half_ok ::
  "nat set \<Rightarrow> span_store \<Rightarrow> (nat \<Rightarrow> nat list) \<Rightarrow> SpanPtrWithLength list \<Rightarrow> nat \<Rightarrow> bool" where
  "half_ok A sp f l b \<longleftrightarrow>
     (\<forall>i < kMaxPages. distinct (f i) \<and> set (f i) = {s \<in> A. slength (sp s) = i + 1})
   \<and> sorted_wrt (SpanBestFitLess sp) l
   \<and> set l = (\<lambda>s. (s, slength (sp s))) ` {s \<in> A. kMaxPages < slength (sp s)}
   \<and> b = (\<Sum>s\<in>A. slength (sp s)) * 2 ^ kPageShift"

definition free_at :: "span_location \<Rightarrow> nat set \<Rightarrow> span_store \<Rightarrow> nat set" where
  "free_at loc Y sp = {s \<in> Y. location (sp s) = loc}"

lemma SpanBestFitLess_iff:
  "SpanBestFitLess sp (a, m) (b, n) \<longleftrightarrow> m < n \<or> m = n \<and> start (sp a) < start (sp b)"
  by (auto simp: SpanBestFitLess_def)

lemma SpanBestFitLess_trans:
  "SpanBestFitLess sp x y \<Longrightarrow> SpanBestFitLess sp y z \<Longrightarrow> SpanBestFitLess sp x z"
  by (cases x; cases y; cases z) (auto simp: SpanBestFitLess_iff)

lemma half_okI:
  "(\<And>i. i < kMaxPages \<Longrightarrow> distinct (f i) \<and> set (f i) = {s \<in> A. slength (sp s) = i + 1})
    \<Longrightarrow> sorted_wrt (SpanBestFitLess sp) l
    \<Longrightarrow> set l = (\<lambda>s. (s, slength (sp s))) ` {s \<in> A. kMaxPages < slength (sp s)}
    \<Longrightarrow> b = (\<Sum>s\<in>A. slength (sp s)) * 2 ^ kPageShift \<Longrightarrow> half_ok A sp f l b"
  by (simp add: half_ok_def)

lemma half_okD:
  assumes "half_ok A sp f l b"
  shows "i < kMaxPages \<Longrightarrow> distinct (f i)" "i < kMaxPages \<Longrightarrow> set (f i) = {s \<in> A. slength (sp s) = i + 1}"
    "sorted_wrt (SpanBestFitLess sp) l"
    "set l = (\<lambda>s. (s, slength (sp s))) ` {s \<in> A. kMaxPages < slength (sp s)}"
    "b = (\<Sum>s\<in>A. slength (sp s)) * 2 ^ kPageShift"
  using assms by (simp_all add: half_ok_def)

lemma half_ok_cong:
  assumes "half_ok A sp f l b" and same: "\<And>s. s \<in> A \<Longrightarrow> start (sp' s) = start (sp s) \<and> slength (sp' s) = slength (sp s)"
  shows "half_ok A sp' f l b"
proof (rule half_okI)
  note d = half_okD [OF assms(1)]
  have in_A: "fst e \<in> A" if "e \<in> set l" for e using d(4) that by auto
  have less: "SpanBestFitLess sp' x y" if "x \<in> set l" "y \<in> set l" "SpanBestFitLess sp x y" for x y
    using that(3) same [OF in_A [OF that(1)]] same [OF in_A [OF that(2)]]
    by (cases x; cases y) (simp add: SpanBestFitLess_iff)
  show "sorted_wrt (SpanBestFitLess sp') l"
    using sorted_wrt_mono_rel [OF less d(3)] .
  have "{s \<in> A. slength (sp' s) = i + 1} = {s \<in> A. slength (sp s) = i + 1}" for i
    by (rule Collect_cong) (use same in auto)
  then show "distinct (f i) \<and> set (f i) = {s \<in> A. slength (sp' s) = i + 1}" if "i < kMaxPages" for i
    using d(1,2) [OF that] by simp
  have "{s \<in> A. kMaxPages < slength (sp' s)} = {s \<in> A. kMaxPages < slength (sp s)}"
    by (rule Collect_cong) (use same in auto)
  moreover have "(\<lambda>s. (s, slength (sp' s))) ` {s \<in> A. kMaxPages < slength (sp s)}
      = (\<lambda>s. (s, slength (sp s))) ` {s \<in> A. kMaxPages < slength (sp s)}"
    by (rule image_cong) (use same in auto)
  ultimately show "set l = (\<lambda>s. (s, slength (sp' s))) ` {s \<in> A. kMaxPages < slength (sp' s)}"
    using d(4) by simp
  have "(\<Sum>s\<in>A. slength (sp' s)) = (\<Sum>s\<in>A. slength (sp s))" by (rule sum.cong) (use same in auto)
  then show "b = (\<Sum>s\<in>A. slength (sp' s)) * 2 ^ kPageShift" using d(5) by simp
qed

lemma half_ok_remove_small:
  assumes "half_ok A sp f l b" and "finite A" and "s \<in> A" and "slength (sp s) \<le> kMaxPages" and "0 < slength (sp s)"
  shows "half_ok (A - {s}) sp (f(slength (sp s) - 1 := remove1 s (f (slength (sp s) - 1)))) l
           (b - slength (sp s) * 2 ^ kPageShift)"
proof (rule half_okI)
  note d = half_okD [OF assms(1)]
  let ?n = "slength (sp s) - 1"
  have n: "?n < kMaxPages" "?n + 1 = slength (sp s)" using assms(4,5) by auto
  let ?f = "f(?n := remove1 s (f ?n))"
  show "distinct (?f i) \<and> set (?f i) = {t \<in> A - {s}. slength (sp t) = i + 1}" if "i < kMaxPages" for i
  proof (cases "i = ?n")
    case True
    then show ?thesis using d(1,2) [OF n(1)] by auto
  next
    case False
    then have "{t \<in> A. slength (sp t) = i + 1} = {t \<in> A - {s}. slength (sp t) = i + 1}" using n by auto
    then show ?thesis using d(1,2) [OF that] False by simp
  qed
  have "{t \<in> A. kMaxPages < slength (sp t)} = {t \<in> A - {s}. kMaxPages < slength (sp t)}"
    using assms(4) by auto
  then show "set l = (\<lambda>t. (t, slength (sp t))) ` {t \<in> A - {s}. kMaxPages < slength (sp t)}" using d(4) by simp
  show "b - slength (sp s) * 2 ^ kPageShift = (\<Sum>t\<in>A - {s}. slength (sp t)) * 2 ^ kPageShift"
    using sum.remove [OF assms(2,3), of "\<lambda>t. slength (sp t)"] d(5) by (simp add: algebra_simps)
qed (rule half_okD(3) [OF assms(1)])

lemma half_ok_remove_large:
  assumes "half_ok A sp f l b" and "finite A" and "s \<in> A" and "kMaxPages < slength (sp s)"
  shows "half_ok (A - {s}) sp f (SpanSet_erase s l) (b - slength (sp s) * 2 ^ kPageShift)"
proof (rule half_okI)
  note d = half_okD [OF assms(1)]
  show "distinct (f i) \<and> set (f i) = {t \<in> A - {s}. slength (sp t) = i + 1}" if "i < kMaxPages" for i
  proof -
    have "{t \<in> A. slength (sp t) = i + 1} = {t \<in> A - {s}. slength (sp t) = i + 1}" using that assms(4) by auto
    then show ?thesis using d(1,2) [OF that] by simp
  qed
  show "set (SpanSet_erase s l) = (\<lambda>t. (t, slength (sp t))) ` {t \<in> A - {s}. kMaxPages < slength (sp t)}"
    using d(4) by (auto simp: SpanSet_erase_def)
  show "sorted_wrt (SpanBestFitLess sp) (SpanSet_erase s l)"
    using d(3) by (simp add: SpanSet_erase_def sorted_wrt_filter)
  show "b - slength (sp s) * 2 ^ kPageShift = (\<Sum>t\<in>A - {s}. slength (sp t)) * 2 ^ kPageShift"
    using sum.remove [OF assms(2,3), of "\<lambda>t. slength (sp t)"] d(5) by (simp add: algebra_simps)
qed

lemma half_ok_insert_small:
  assumes "half_ok A sp f l b" and "finite A" and "s \<notin> A" and "slength (sp s) \<le> kMaxPages" and "0 < slength (sp s)"
  shows "half_ok (insert s A) sp (f(slength (sp s) - 1 := s # f (slength (sp s) - 1))) l
           (b + slength (sp s) * 2 ^ kPageShift)"
proof (rule half_okI)
  note d = half_okD [OF assms(1)]
  let ?n = "slength (sp s) - 1"
  have n: "?n < kMaxPages" "?n + 1 = slength (sp s)" using assms(4,5) by auto
  let ?f = "f(?n := s # f ?n)"
  show "distinct (?f i) \<and> set (?f i) = {t \<in> insert s A. slength (sp t) = i + 1}" if "i < kMaxPages" for i
  proof (cases "i = ?n")
    case True
    then show ?thesis using d(1,2) [OF n(1)] n assms(3) by auto
  next
    case False
    then have "{t \<in> A. slength (sp t) = i + 1} = {t \<in> insert s A. slength (sp t) = i + 1}" using n by auto
    then show ?thesis using d(1,2) [OF that] False by simp
  qed
  have "{t \<in> A. kMaxPages < slength (sp t)} = {t \<in> insert s A. kMaxPages < slength (sp t)}"
    using assms(4) by auto
  then show "set l = (\<lambda>t. (t, slength (sp t))) ` {t \<in> insert s A. kMaxPages < slength (sp t)}" using d(4) by simp
  show "b + slength (sp s) * 2 ^ kPageShift = (\<Sum>t\<in>insert s A. slength (sp t)) * 2 ^ kPageShift"
    using assms(2,3) d(5) by (simp add: algebra_simps)
qed (rule half_okD(3) [OF assms(1)])

lemma SpanSet_insert_ok:
  assumes "sorted_wrt (SpanBestFitLess sp) l" and "\<forall>e\<in>set l. start (sp (fst e)) \<noteq> start (sp (fst x))"
  shows "sorted_wrt (SpanBestFitLess sp) (SpanSet_insert sp x l) \<and> set (SpanSet_insert sp x l) = insert x (set l)"
  using assms
proof (induction l)
  case (Cons y ys)
  have cmp: "SpanBestFitLess sp x y \<or> SpanBestFitLess sp y x"
    using Cons.prems(2) by (cases x; cases y) (auto simp: SpanBestFitLess_iff)
  show ?case
  proof (cases "SpanBestFitLess sp x y")
    case True
    then show ?thesis using Cons.prems SpanBestFitLess_trans [of sp x y] by auto
  next
    case False
    then have "SpanBestFitLess sp y x" using cmp by blast
    then show ?thesis using Cons False by auto
  qed
qed simp

lemma half_ok_insert_large:
  assumes "half_ok A sp f l b" and "finite A" and "s \<notin> A" and "kMaxPages < slength (sp s)"
    and "\<forall>t\<in>A. start (sp t) \<noteq> start (sp s)"
  shows "half_ok (insert s A) sp f (SpanSet_insert sp (s, slength (sp s)) l) (b + slength (sp s) * 2 ^ kPageShift)"
proof (rule half_okI)
  note d = half_okD [OF assms(1)]
  have "\<forall>e\<in>set l. start (sp (fst e)) \<noteq> start (sp (fst (s, slength (sp s))))" using d(4) assms(5) by auto
  note i = SpanSet_insert_ok [OF d(3) this]
  show "sorted_wrt (SpanBestFitLess sp) (SpanSet_insert sp (s, slength (sp s)) l)" using i by simp
  show "set (SpanSet_insert sp (s, slength (sp s)) l)
      = (\<lambda>t. (t, slength (sp t))) ` {t \<in> insert s A. kMaxPages < slength (sp t)}"
    using i d(4) assms(4) by auto
  show "distinct (f i) \<and> set (f i) = {t \<in> insert s A. slength (sp t) = i + 1}" if "i < kMaxPages" for i
  proof -
    have "{t \<in> A. slength (sp t) = i + 1} = {t \<in> insert s A. slength (sp t) = i + 1}" using that assms(4) by auto
    then show ?thesis using d(1,2) [OF that] by simp
  qed
  show "b + slength (sp s) * 2 ^ kPageShift = (\<Sum>t\<in>insert s A. slength (sp t)) * 2 ^ kPageShift"
    using assms(2,3) d(5) by (simp add: algebra_simps)
qed

subsection \<open>The free lists of the heap\<close>

definition on_lists :: "nat set \<Rightarrow> 'o page_heap \<Rightarrow> bool" where
  "on_lists Y h \<longleftrightarrow> finite Y
     \<and> half_ok (free_at ON_NORMAL_FREELIST Y (spans h)) (spans h) (free_normal h) (large_normal h) (free_bytes (stats h))
     \<and> half_ok (free_at ON_RETURNED_FREELIST Y (spans h)) (spans h) (free_returned h) (large_returned h)
         (unmapped_bytes (stats h))"

named_theorems frame \<open>fields that an operation of the heap leaves alone\<close>

lemma upd_span_frame [frame]:
  "spans (upd_span s f h) = (spans h)(s := f (spans h s))"
  "pagemap (upd_span s f h) = pagemap h" "meta (upd_span s f h) = meta h" "stats (upd_span s f h) = stats h"
  "span_allocator (upd_span s f h) = span_allocator h" "stacktrace_allocator (upd_span s f h) = stacktrace_allocator h"
  "smallest_span_size (upd_span s f h) = smallest_span_size h" "aggressive_decommit (upd_span s f h) = aggressive_decommit h"
  "free_normal (upd_span s f h) = free_normal h" "free_returned (upd_span s f h) = free_returned h"
  "large_normal (upd_span s f h) = large_normal h" "large_returned (upd_span s f h) = large_returned h"
  "pagemap_cache (upd_span s f h) = pagemap_cache h" "release_index (upd_span s f h) = release_index h"
  by (simp_all add: upd_span_def)

lemma upd_stats_frame [frame]:
  "stats (upd_stats g h) = g (stats h)"
  "pagemap (upd_stats g h) = pagemap h" "meta (upd_stats g h) = meta h" "spans (upd_stats g h) = spans h"
  "span_allocator (upd_stats g h) = span_allocator h" "stacktrace_allocator (upd_stats g h) = stacktrace_allocator h"
  "smallest_span_size (upd_stats g h) = smallest_span_size h" "aggressive_decommit (upd_stats g h) = aggressive_decommit h"
  "free_normal (upd_stats g h) = free_normal h" "free_returned (upd_stats g h) = free_returned h"
  "large_normal (upd_stats g h) = large_normal h" "large_returned (upd_stats g h) = large_returned h"
  "pagemap_cache (upd_stats g h) = pagemap_cache h" "release_index (upd_stats g h) = release_index h"
  by (simp_all add: upd_stats_def)

lemma RemoveFromFreeList_frame [frame]:
  "pagemap (RemoveFromFreeList s h) = pagemap h" "meta (RemoveFromFreeList s h) = meta h"
  "span_allocator (RemoveFromFreeList s h) = span_allocator h"
  "stacktrace_allocator (RemoveFromFreeList s h) = stacktrace_allocator h"
  "smallest_span_size (RemoveFromFreeList s h) = smallest_span_size h"
  "aggressive_decommit (RemoveFromFreeList s h) = aggressive_decommit h"
  "pagemap_cache (RemoveFromFreeList s h) = pagemap_cache h"
  "release_index (RemoveFromFreeList s h) = release_index h"
  "start (spans (RemoveFromFreeList s h) t) = start (spans h t)"
  "slength (spans (RemoveFromFreeList s h) t) = slength (spans h t)"
  "location (spans (RemoveFromFreeList s h) t) = location (spans h t)"
  "sizeclass (spans (RemoveFromFreeList s h) t) = sizeclass (spans h t)"
  "t \<noteq> s \<Longrightarrow> spans (RemoveFromFreeList s h) t = spans h t"
  "system_bytes (stats (RemoveFromFreeList s h)) = system_bytes (stats h)"
  "committed_bytes (stats (RemoveFromFreeList s h)) = committed_bytes (stats h)"
  by (simp_all add: RemoveFromFreeList_def Let_def upd_stats_def ExtractSpanSetIterator_def)

lemma PrependToFreeList_frame [frame]:
  "pagemap (PrependToFreeList s h) = pagemap h" "meta (PrependToFreeList s h) = meta h"
  "span_allocator (PrependToFreeList s h) = span_allocator h"
  "stacktrace_allocator (PrependToFreeList s h) = stacktrace_allocator h"
  "smallest_span_size (PrependToFreeList s h) = smallest_span_size h"
  "aggressive_decommit (PrependToFreeList s h) = aggressive_decommit h"
  "pagemap_cache (PrependToFreeList s h) = pagemap_cache h"
  "release_index (PrependToFreeList s h) = release_index h"
  "start (spans (PrependToFreeList s h) t) = start (spans h t)"
  "slength (spans (PrependToFreeList s h) t) = slength (spans h t)"
  "location (spans (PrependToFreeList s h) t) = location (spans h t)"
  "sizeclass (spans (PrependToFreeList s h) t) = sizeclass (spans h t)"
  "t \<noteq> s \<Longrightarrow> spans (PrependToFreeList s h) t = spans h t"
  "system_bytes (stats (PrependToFreeList s h)) = system_bytes (stats h)"
  "committed_bytes (stats (PrependToFreeList s h)) = committed_bytes (stats h)"
  by (simp_all add: PrependToFreeList_def Let_def upd_stats_def SetSpanSetIterator_def)

lemma free_at_Diff: "free_at loc (Y - {s}) sp = free_at loc Y sp - {s}"
  by (auto simp: free_at_def)

lemma free_at_insert: "free_at loc (insert s Y) sp = (if location (sp s) = loc then insert s (free_at loc Y sp) else free_at loc Y sp)"
  by (auto simp: free_at_def)

lemma free_at_cong: "(\<And>s. s \<in> Y \<Longrightarrow> location (sp' s) = location (sp s)) \<Longrightarrow> free_at loc Y sp' = free_at loc Y sp"
  by (auto simp: free_at_def)

lemma half_ok_bytes: "half_ok A sp f l b \<Longrightarrow> finite A \<Longrightarrow> s \<in> A \<Longrightarrow> slength (sp s) * 2 ^ kPageShift \<le> b"
  using member_le_sum [of s A "\<lambda>t. slength (sp t)"] by (simp add: half_ok_def)

lemma half_ok_extract:
  "half_ok A (spans h) f l b \<Longrightarrow> half_ok A ((spans h)(s := (spans h s)\<lparr>has_span_iter := v\<rparr>)) f l b"
  by (erule half_ok_cong) simp

lemma on_lists_Remove:
  assumes "on_lists Y h" and "s \<in> Y" and "location (spans h s) \<noteq> IN_USE" and "0 < slength (spans h s)"
    and small: "free_bytes (stats h) < 2 ^ 64" "unmapped_bytes (stats h) < 2 ^ 64"
  shows "on_lists (Y - {s}) (RemoveFromFreeList s h)"
    and "unmapped_bytes (stats (RemoveFromFreeList s h))
         + (if location (spans h s) = ON_RETURNED_FREELIST then slength (spans h s) * 2 ^ kPageShift else 0)
         = unmapped_bytes (stats h)"
    and "free_bytes (stats (RemoveFromFreeList s h))
         + (if location (spans h s) = ON_NORMAL_FREELIST then slength (spans h s) * 2 ^ kPageShift else 0)
         = free_bytes (stats h)"
proof -
  let ?sp = "spans h" and ?n = "slength (spans h s) * 2 ^ kPageShift"
  let ?N = "free_at ON_NORMAL_FREELIST Y ?sp" and ?R = "free_at ON_RETURNED_FREELIST Y ?sp"
  have fin: "finite Y" "finite ?N" "finite ?R" using assms(1) by (auto simp: on_lists_def free_at_def)
  have N: "half_ok ?N ?sp (free_normal h) (large_normal h) (free_bytes (stats h))"
    and R: "half_ok ?R ?sp (free_returned h) (large_returned h) (unmapped_bytes (stats h))"
    using assms(1) by (auto simp: on_lists_def)
  have loc: "location (?sp s) = ON_NORMAL_FREELIST \<and> s \<in> ?N \<and> s \<notin> ?R
      \<or> location (?sp s) = ON_RETURNED_FREELIST \<and> s \<in> ?R \<and> s \<notin> ?N"
    using assms(2,3) by (cases "location (?sp s)") (auto simp: free_at_def)
  have subn: "sub64 b (shl64 (slength (?sp s)) 13) = b - slength (?sp s) * 8192"
    if "slength (?sp s) * 8192 \<le> b" "b < 2 ^ 64" for b
    using that by (simp add: shl64_eq sub64_eq)
  define h' where "h' = RemoveFromFreeList s h"
  have at: "free_at lc (Y - {s}) (spans h') = free_at lc Y ?sp - {s}" for lc
    unfolding h'_def by (simp add: free_at_def frame) blast
  have halves: "on_lists (Y - {s}) h' \<and> unmapped_bytes (stats h')
         + (if location (?sp s) = ON_RETURNED_FREELIST then ?n else 0) = unmapped_bytes (stats h)
       \<and> free_bytes (stats h')
         + (if location (?sp s) = ON_NORMAL_FREELIST then ?n else 0) = free_bytes (stats h)"
    using loc
  proof
    assume l: "location (?sp s) = ON_NORMAL_FREELIST \<and> s \<in> ?N \<and> s \<notin> ?R"
    have b: "?n \<le> free_bytes (stats h)" using half_ok_bytes [OF N fin(2)] l by simp
    have R': "half_ok (?R - {s}) ?sp (free_returned h) (large_returned h) (unmapped_bytes (stats h))" using R l by simp
    show ?thesis
    proof (cases "kMaxPages < slength (?sp s)")
      case True
      have h': "h' = h\<lparr>stats := (stats h)\<lparr>free_bytes := free_bytes (stats h) - ?n\<rparr>,
          spans := ExtractSpanSetIterator s ?sp, large_normal := SpanSet_erase s (large_normal h)\<rparr>"
        using True l b small by (simp add: h'_def RemoveFromFreeList_def Let_def upd_stats_def subn)
      show ?thesis using half_ok_remove_large [OF N fin(2) _ True] R' l fin b
        unfolding on_lists_def at by (simp add: h' ExtractSpanSetIterator_def half_ok_extract)
    next
      case False
      have h': "h' = h\<lparr>stats := (stats h)\<lparr>free_bytes := free_bytes (stats h) - ?n\<rparr>,
          free_normal := (free_normal h)(slength (?sp s) - 1 := remove1 s (free_normal h (slength (?sp s) - 1)))\<rparr>"
        using False l b small by (simp add: h'_def RemoveFromFreeList_def Let_def upd_stats_def subn)
      show ?thesis using half_ok_remove_small [OF N fin(2), of s] R' l fin b False assms(4)
        unfolding on_lists_def at by (simp add: h')
    qed
  next
    assume l: "location (?sp s) = ON_RETURNED_FREELIST \<and> s \<in> ?R \<and> s \<notin> ?N"
    have b: "?n \<le> unmapped_bytes (stats h)" using half_ok_bytes [OF R fin(3)] l by simp
    have N': "half_ok (?N - {s}) ?sp (free_normal h) (large_normal h) (free_bytes (stats h))" using N l by simp
    show ?thesis
    proof (cases "kMaxPages < slength (?sp s)")
      case True
      have h': "h' = h\<lparr>stats := (stats h)\<lparr>unmapped_bytes := unmapped_bytes (stats h) - ?n\<rparr>,
          spans := ExtractSpanSetIterator s ?sp, large_returned := SpanSet_erase s (large_returned h)\<rparr>"
        using True l b small by (simp add: h'_def RemoveFromFreeList_def Let_def upd_stats_def subn)
      show ?thesis using half_ok_remove_large [OF R fin(3) _ True] N' l fin b
        unfolding on_lists_def at by (simp add: h' ExtractSpanSetIterator_def half_ok_extract)
    next
      case False
      have h': "h' = h\<lparr>stats := (stats h)\<lparr>unmapped_bytes := unmapped_bytes (stats h) - ?n\<rparr>,
          free_returned := (free_returned h)(slength (?sp s) - 1 := remove1 s (free_returned h (slength (?sp s) - 1)))\<rparr>"
        using False l b small by (simp add: h'_def RemoveFromFreeList_def Let_def upd_stats_def subn)
      show ?thesis using half_ok_remove_small [OF R fin(3), of s] N' l fin b False assms(4)
        unfolding on_lists_def at by (simp add: h')
    qed
  qed
  then show "on_lists (Y - {s}) (RemoveFromFreeList s h)"
    and "unmapped_bytes (stats (RemoveFromFreeList s h))
         + (if location (?sp s) = ON_RETURNED_FREELIST then ?n else 0) = unmapped_bytes (stats h)"
    and "free_bytes (stats (RemoveFromFreeList s h))
         + (if location (?sp s) = ON_NORMAL_FREELIST then ?n else 0) = free_bytes (stats h)"
    unfolding h'_def by blast+
qed

lemma on_lists_Prepend:
  assumes "on_lists Y h" and "s \<notin> Y" and "location (spans h s) \<noteq> IN_USE" and "0 < slength (spans h s)"
    and starts: "\<forall>t\<in>Y. start (spans h t) \<noteq> start (spans h s)"
    and small: "free_bytes (stats h) + slength (spans h s) * 2 ^ kPageShift < 2 ^ 64"
      "unmapped_bytes (stats h) + slength (spans h s) * 2 ^ kPageShift < 2 ^ 64"
  shows "on_lists (insert s Y) (PrependToFreeList s h)"
    and "unmapped_bytes (stats (PrependToFreeList s h)) = unmapped_bytes (stats h)
         + (if location (spans h s) = ON_RETURNED_FREELIST then slength (spans h s) * 2 ^ kPageShift else 0)"
    and "free_bytes (stats (PrependToFreeList s h)) = free_bytes (stats h)
         + (if location (spans h s) = ON_NORMAL_FREELIST then slength (spans h s) * 2 ^ kPageShift else 0)"
proof -
  let ?sp = "spans h" and ?n = "slength (spans h s) * 2 ^ kPageShift"
  let ?N = "free_at ON_NORMAL_FREELIST Y ?sp" and ?R = "free_at ON_RETURNED_FREELIST Y ?sp"
  have fin: "finite Y" "finite ?N" "finite ?R" using assms(1) by (auto simp: on_lists_def free_at_def)
  have N: "half_ok ?N ?sp (free_normal h) (large_normal h) (free_bytes (stats h))"
    and R: "half_ok ?R ?sp (free_returned h) (large_returned h) (unmapped_bytes (stats h))"
    using assms(1) by (auto simp: on_lists_def)
  have nin: "s \<notin> ?N" "s \<notin> ?R" using assms(2) by (auto simp: free_at_def)
  have st: "\<forall>t\<in>?N. start (?sp t) \<noteq> start (?sp s)" "\<forall>t\<in>?R. start (?sp t) \<noteq> start (?sp s)"
    using starts by (auto simp: free_at_def)
  have addn: "add64 b (shl64 (slength (?sp s)) 13) = b + slength (?sp s) * 8192"
    if "b + slength (?sp s) * 8192 < 2 ^ 64" for b
    using that by (simp add: shl64_eq add64_eq)
  define h' where "h' = PrependToFreeList s h"
  have at: "free_at lc (insert s Y) (spans h')
      = (if location (?sp s) = lc then insert s (free_at lc Y ?sp) else free_at lc Y ?sp)" for lc
    unfolding h'_def by (auto simp: free_at_def frame)
  have halves: "on_lists (insert s Y) h' \<and> unmapped_bytes (stats h')
         = unmapped_bytes (stats h) + (if location (?sp s) = ON_RETURNED_FREELIST then ?n else 0)
       \<and> free_bytes (stats h')
         = free_bytes (stats h) + (if location (?sp s) = ON_NORMAL_FREELIST then ?n else 0)"
  proof (cases "location (?sp s) = ON_NORMAL_FREELIST")
    case l: True
    show ?thesis
    proof (cases "kMaxPages < slength (?sp s)")
      case True
      have h': "h' = h\<lparr>stats := (stats h)\<lparr>free_bytes := free_bytes (stats h) + ?n\<rparr>,
          large_normal := SpanSet_insert ?sp (s, slength (?sp s)) (large_normal h),
          spans := SetSpanSetIterator s ?sp\<rparr>"
        using True l small by (simp add: h'_def PrependToFreeList_def Let_def upd_stats_def addn mkSpanPtrWithLength_def)
      show ?thesis using half_ok_insert_large [OF N fin(2) nin(1) True st(1)] R l fin
        unfolding on_lists_def at by (simp add: h' SetSpanSetIterator_def half_ok_extract)
    next
      case False
      have h': "h' = h\<lparr>stats := (stats h)\<lparr>free_bytes := free_bytes (stats h) + ?n\<rparr>,
          free_normal := (free_normal h)(slength (?sp s) - 1 := s # free_normal h (slength (?sp s) - 1))\<rparr>"
        using False l small by (simp add: h'_def PrependToFreeList_def Let_def upd_stats_def addn)
      show ?thesis using half_ok_insert_small [OF N fin(2) nin(1)] R l fin False assms(4)
        unfolding on_lists_def at by (simp add: h')
    qed
  next
    case nl: False
    then have l: "location (?sp s) = ON_RETURNED_FREELIST" using assms(3) by (cases "location (?sp s)") auto
    show ?thesis
    proof (cases "kMaxPages < slength (?sp s)")
      case True
      have h': "h' = h\<lparr>stats := (stats h)\<lparr>unmapped_bytes := unmapped_bytes (stats h) + ?n\<rparr>,
          large_returned := SpanSet_insert ?sp (s, slength (?sp s)) (large_returned h),
          spans := SetSpanSetIterator s ?sp\<rparr>"
        using True l small by (simp add: h'_def PrependToFreeList_def Let_def upd_stats_def addn mkSpanPtrWithLength_def)
      show ?thesis using half_ok_insert_large [OF R fin(3) nin(2) True st(2)] N l fin
        unfolding on_lists_def at by (simp add: h' SetSpanSetIterator_def half_ok_extract)
    next
      case False
      have h': "h' = h\<lparr>stats := (stats h)\<lparr>unmapped_bytes := unmapped_bytes (stats h) + ?n\<rparr>,
          free_returned := (free_returned h)(slength (?sp s) - 1 := s # free_returned h (slength (?sp s) - 1))\<rparr>"
        using False l small by (simp add: h'_def PrependToFreeList_def Let_def upd_stats_def addn)
      show ?thesis using half_ok_insert_small [OF R fin(3) nin(2)] N l fin False assms(4)
        unfolding on_lists_def at by (simp add: h')
    qed
  qed
  then show "on_lists (insert s Y) (PrependToFreeList s h)"
    and "unmapped_bytes (stats (PrependToFreeList s h)) = unmapped_bytes (stats h)
         + (if location (?sp s) = ON_RETURNED_FREELIST then ?n else 0)"
    and "free_bytes (stats (PrependToFreeList s h)) = free_bytes (stats h)
         + (if location (?sp s) = ON_NORMAL_FREELIST then ?n else 0)"
    unfolding h'_def by blast+
qed

text \<open>Changes that the lists do not see.\<close>

lemma on_lists_cong:
  assumes "on_lists Y h"
    and "\<And>t. t \<in> Y \<Longrightarrow> start (spans h' t) = start (spans h t) \<and> slength (spans h' t) = slength (spans h t)
           \<and> location (spans h' t) = location (spans h t)"
    and "free_normal h' = free_normal h" "free_returned h' = free_returned h"
      "large_normal h' = large_normal h" "large_returned h' = large_returned h"
      "free_bytes (stats h') = free_bytes (stats h)" "unmapped_bytes (stats h') = unmapped_bytes (stats h)"
  shows "on_lists Y h'"
proof -
  have at: "free_at lc Y (spans h') = free_at lc Y (spans h)" for lc by (rule free_at_cong) (use assms(2) in blast)
  have "half_ok (free_at lc Y (spans h)) (spans h') f l b" if "half_ok (free_at lc Y (spans h)) (spans h) f l b" for lc f l b
    by (rule half_ok_cong [OF that]) (use assms(2) in \<open>auto simp: free_at_def\<close>)
  then show ?thesis using assms(1) unfolding on_lists_def at assms(3-8) by blast
qed

subsection \<open>The invariant of the heap\<close>

definition page_area :: "nat set \<Rightarrow> nat set" where
  "page_area P = {a. a div 2 ^ kPageShift \<in> P}"

text \<open>
  \<open>M\<close> holds the span objects, \<open>N\<close> the recorded stack traces and \<open>B\<close> the pages that the heap took
  from the system; \<open>P\<close> is the set of pages that live spans cover.
\<close>

definition memory_ok ::
  "'o env \<Rightarrow> ('o \<Rightarrow> nat set) \<Rightarrow> nat set \<Rightarrow> nat set \<Rightarrow> object_pool \<Rightarrow> object_pool \<Rightarrow> 'o metadata \<Rightarrow> nat \<Rightarrow> bool" where
  "memory_ok E mapped U P pool stpool md sysbytes \<longleftrightarrow>
     (\<exists>M N V G B. pool_ok sizeof_Span M U pool \<and> pool_ok sizeof_StackTrace N V stpool
        \<and> meta_ok (plat E) mapped G md
        \<and> M \<subseteq> G \<and> N \<subseteq> G \<and> B \<subseteq> G \<and> M \<inter> N = {} \<and> M \<inter> B = {} \<and> N \<inter> B = {}
        \<and> page_area P \<subseteq> B \<and> sysbytes = card B)"

definition heap_inv :: "'o env \<Rightarrow> ('o \<Rightarrow> nat set) \<Rightarrow> nat set \<Rightarrow> nat set \<Rightarrow> 'o page_heap \<Rightarrow> bool" where
  "heap_inv E mapped U X h \<longleftrightarrow> X \<subseteq> U \<and> geo_ok U (spans h) \<and> map_ok U (spans h) (pagemap h)
     \<and> on_lists (U - X) h
     \<and> memory_ok E mapped U (covered U (spans h)) (span_allocator h) (stacktrace_allocator h) (meta h)
         (system_bytes (stats h))"

text \<open>
  Every byte of the heap is committed, on a returned list, or in one of the spans \<open>C\<close>, whose
  bytes are between the two.
\<close>

definition commit_ok :: "nat set \<Rightarrow> 'o page_heap \<Rightarrow> bool" where
  "commit_ok C h \<longleftrightarrow> committed_bytes (stats h) + unmapped_bytes (stats h)
     + (\<Sum>s\<in>C. slength (spans h s)) * 2 ^ kPageShift = system_bytes (stats h)"

text \<open>What an operation leaves alone: spans in use, and the page-map entries of their pages.\<close>

definition heap_keep :: "nat set \<Rightarrow> nat set \<Rightarrow> 'o page_heap \<Rightarrow> nat set \<Rightarrow> 'o page_heap \<Rightarrow> bool" where
  "heap_keep S U h U' h' \<longleftrightarrow>
     (\<forall>t \<in> U - S. location (spans h t) = IN_USE \<longrightarrow>
        t \<in> U' \<and> spans h' t = spans h t \<and> (\<forall>p \<in> extent (spans h t). GetDescriptor p h' = GetDescriptor p h))"

text \<open>The fields that only the public entry points change.\<close>

definition steady :: "'o page_heap \<Rightarrow> 'o page_heap \<Rightarrow> bool" where
  "steady h h' \<longleftrightarrow> smallest_span_size h' = smallest_span_size h \<and> aggressive_decommit h' = aggressive_decommit h
     \<and> pagemap_cache h' = pagemap_cache h \<and> system_bytes (stats h') = system_bytes (stats h)"

lemma heap_invD:
  assumes "heap_inv E mapped U X h"
  shows "X \<subseteq> U" and "geo_ok U (spans h)" and "map_ok U (spans h) (pagemap h)" and "on_lists (U - X) h"
    and "memory_ok E mapped U (covered U (spans h)) (span_allocator h) (stacktrace_allocator h) (meta h)
         (system_bytes (stats h))" and "finite U"
  using assms by (auto simp: heap_inv_def geo_ok_def)

lemma card_page_area:
  assumes "finite P"
  shows "finite (page_area P)" and "card (page_area P) = card P * 2 ^ kPageShift"
proof -
  have eq: "page_area P = (\<lambda>(p, i). p * 8192 + i) ` (P \<times> {..<8192})"
  proof (intro set_eqI iffI)
    fix a assume "a \<in> page_area P"
    then have "(a div 8192, a mod 8192) \<in> P \<times> {..<8192}" by (simp add: page_area_def)
    moreover have "a = (\<lambda>(p, i). p * 8192 + i) (a div 8192, a mod 8192)" by simp
    ultimately show "a \<in> (\<lambda>(p, i). p * 8192 + i) ` (P \<times> {..<8192})" by (rule rev_image_eqI)
  qed (auto simp: page_area_def)
  have inj: "inj_on (\<lambda>(p, i). p * 8192 + i) (P \<times> {..<8192 :: nat})"
  proof (rule inj_onI)
    fix x y :: "nat \<times> nat"
    assume x: "x \<in> P \<times> {..<8192}" and y: "y \<in> P \<times> {..<8192}"
      and e: "(\<lambda>(p, i). p * 8192 + i) x = (\<lambda>(p, i). p * 8192 + i) y"
    obtain p i q j where xy: "x = (p, i)" "y = (q, j)" by (cases x; cases y)
    have e': "p * 8192 + i = q * 8192 + j" "i < 8192" "j < 8192" using x y e xy by auto
    have "(p * 8192 + i) div 8192 = p" "(q * 8192 + j) div 8192 = q" using e'(2,3) by simp_all
    then have "p = q" using e'(1) by metis
    then show "x = y" using e'(1) xy by simp
  qed
  show "finite (page_area P)" unfolding eq using assms by simp
  show "card (page_area P) = card P * 2 ^ kPageShift"
    unfolding eq card_image [OF inj] by (simp add: card_cartesian_product)
qed

lemma covered_finite: "geo_ok U sp \<Longrightarrow> finite (covered U sp)"
  using covered_below finite_subset by blast

lemma page_area_mono: "P \<subseteq> Q \<Longrightarrow> page_area P \<subseteq> page_area Q"
  by (auto simp: page_area_def)

lemma memory_ok_bytes:
  assumes "memory_ok E mapped U P pool stpool md b" and "finite P"
  shows "card P * 2 ^ kPageShift \<le> b" and "b \<le> SystemTaken (sysmem md)" and "SystemTaken (sysmem md) \<le> 2 ^ kAddressBits"
proof -
  obtain G B where m: "meta_ok (plat E) mapped G md" "B \<subseteq> G" "page_area P \<subseteq> B" "b = card B"
    using assms(1) unfolding memory_ok_def by blast
  obtain T where T: "T \<subseteq> {..<2 ^ kAddressBits}" "SystemTaken (sysmem md) = card T" "G \<subseteq> T"
    using m(1) unfolding meta_ok_def by blast
  have fin: "finite T" by (rule finite_subset [OF T(1)]) simp
  have "B \<subseteq> T" using m(2) T(3) by blast
  then show "b \<le> SystemTaken (sysmem md)" using card_mono [OF fin] m(4) T(2) by simp
  have "finite B" using \<open>B \<subseteq> T\<close> fin finite_subset by blast
  then have "card (page_area P) \<le> b" using card_mono m(3,4) by blast
  then show "card P * 2 ^ kPageShift \<le> b" using card_page_area [OF assms(2)] by simp
  have "card T \<le> card {..<(2::nat) ^ kAddressBits}" by (rule card_mono) (use T(1) in auto)
  then show "SystemTaken (sysmem md) \<le> 2 ^ kAddressBits" using T(2) by simp
qed

lemma heap_inv_bytes:
  assumes "heap_inv E mapped U X h"
  shows "(\<Sum>s\<in>U. slength (spans h s)) * 2 ^ kPageShift \<le> system_bytes (stats h)"
    and "system_bytes (stats h) \<le> SystemTaken (sysmem (meta h))" and "SystemTaken (sysmem (meta h)) \<le> 2 ^ 48"
    and "free_bytes (stats h) \<le> 2 ^ 48" and "unmapped_bytes (stats h) \<le> 2 ^ 48"
    and "s \<in> U \<Longrightarrow> slength (spans h s) * 2 ^ kPageShift \<le> 2 ^ 48"
proof -
  note d = heap_invD [OF assms]
  note m = memory_ok_bytes [OF d(5) covered_finite [OF d(2)]]
  show "(\<Sum>s\<in>U. slength (spans h s)) * 2 ^ kPageShift \<le> system_bytes (stats h)"
    using m(1) card_covered [OF d(2)] by simp
  show "system_bytes (stats h) \<le> SystemTaken (sysmem (meta h))" "SystemTaken (sysmem (meta h)) \<le> 2 ^ 48"
    using m(2,3) by simp_all
  have b: "(\<Sum>s\<in>free_at lc (U - X) (spans h). slength (spans h s)) * 2 ^ kPageShift \<le> 2 ^ 48" for lc
    using pages_bound [OF d(2), of "free_at lc (U - X) (spans h)"] by (simp add: free_at_def subset_eq)
  have "free_bytes (stats h) = (\<Sum>s\<in>free_at ON_NORMAL_FREELIST (U - X) (spans h). slength (spans h s)) * 2 ^ kPageShift"
    "unmapped_bytes (stats h) = (\<Sum>s\<in>free_at ON_RETURNED_FREELIST (U - X) (spans h). slength (spans h s)) * 2 ^ kPageShift"
    using d(4) unfolding on_lists_def by (blast dest: half_okD(5))+
  then show "free_bytes (stats h) \<le> 2 ^ 48" "unmapped_bytes (stats h) \<le> 2 ^ 48" using b by (simp_all only:)
  show "s \<in> U \<Longrightarrow> slength (spans h s) * 2 ^ kPageShift \<le> 2 ^ 48" using geo_okD(4) [OF d(2), of s] by simp
qed

lemma steady_refl: "steady h h"
  by (simp add: steady_def)

lemma steady_trans: "steady h h1 \<Longrightarrow> steady h1 h2 \<Longrightarrow> steady h h2"
  by (simp add: steady_def)

lemma heap_keep_refl: "heap_keep S U h U h"
  by (simp add: heap_keep_def)

lemma heap_keep_trans:
  assumes "heap_keep S U h U1 h1" and "heap_keep S1 U1 h1 U2 h2"
    and "\<And>t. t \<in> S1 \<Longrightarrow> t \<in> U \<Longrightarrow> t \<notin> S \<Longrightarrow> location (spans h t) \<noteq> IN_USE"
  shows "heap_keep S U h U2 h2"
  unfolding heap_keep_def
proof (intro ballI impI)
  fix t assume t: "t \<in> U - S" "location (spans h t) = IN_USE"
  then have a: "t \<in> U1" "spans h1 t = spans h t" "\<forall>p\<in>extent (spans h t). GetDescriptor p h1 = GetDescriptor p h"
    using assms(1) by (auto simp: heap_keep_def)
  then have "t \<in> U1 - S1" using assms(3) t by blast
  then have "t \<in> U2" "spans h2 t = spans h1 t" "\<forall>p\<in>extent (spans h1 t). GetDescriptor p h2 = GetDescriptor p h1"
    using assms(2) a(2) t(2) unfolding heap_keep_def by simp_all
  then show "t \<in> U2 \<and> spans h2 t = spans h t \<and> (\<forall>p\<in>extent (spans h t). GetDescriptor p h2 = GetDescriptor p h)"
    using a by simp
qed

text \<open>Steps that change no span in use and no page-map entry.\<close>

lemma heap_keep_same:
  assumes "U' = U" and "pagemap h' = pagemap h"
    and "\<And>t. t \<in> U - S \<Longrightarrow> location (spans h t) = IN_USE \<Longrightarrow> spans h' t = spans h t"
  shows "heap_keep S U h U' h'"
  using assms by (simp add: heap_keep_def GetDescriptor_def)

lemma heap_inv_cong:
  assumes "heap_inv E mapped U X h"
    and "\<And>t. t \<in> U \<Longrightarrow> start (spans h' t) = start (spans h t) \<and> slength (spans h' t) = slength (spans h t)"
    and "\<And>t. t \<in> U - X \<Longrightarrow> location (spans h' t) = location (spans h t)"
    and "pagemap h' = pagemap h"
    and "free_normal h' = free_normal h" "free_returned h' = free_returned h"
      "large_normal h' = large_normal h" "large_returned h' = large_returned h"
      "free_bytes (stats h') = free_bytes (stats h)" "unmapped_bytes (stats h') = unmapped_bytes (stats h)"
      "system_bytes (stats h') = system_bytes (stats h)"
      "span_allocator h' = span_allocator h" "stacktrace_allocator h' = stacktrace_allocator h"
    and "\<And>G. meta_ok (plat E) mapped G (meta h) \<Longrightarrow> meta_ok (plat E) mapped G (meta h')"
  shows "heap_inv E mapped U X h'"
proof -
  note d = heap_invD [OF assms(1)]
  have "on_lists (U - X) h'" by (rule on_lists_cong [OF d(4)]) (use assms in auto)
  moreover have "covered U (spans h') = covered U (spans h)" by (rule covered_cong [OF assms(2)])
  then have "memory_ok E mapped U (covered U (spans h')) (span_allocator h') (stacktrace_allocator h') (meta h')
      (system_bytes (stats h'))"
    using d(5) assms(11-14) unfolding memory_ok_def by metis
  ultimately show ?thesis
    using d(1) geo_ok_cong [OF d(2) assms(2)] map_ok_cong [OF d(3) assms(2)] assms(4) by (simp add: heap_inv_def)
qed

end
