(* ===== verification/PageHeapOps.thy ===== *)
theory PageHeapOps
  imports PageHeapInv
begin

text \<open>
  The operations of the page heap keep its invariant. \<open>mad\<close> says that \<open>madvise\<close> can answer
  \<open>EAGAIN\<close> for ever, the only reason for which the operations that free and release pages may
  not return.
\<close>

definition mad :: "'o env \<Rightarrow> bool" where
  "mad E \<longleftrightarrow> (\<exists>a n st. release_loop (plat E) a n st = None)"

text \<open>
  A system that takes pages back: releasing is not disabled, a page of the system is no larger than one of the heap,
  and \<open>madvise\<close> succeeds.
\<close>

definition releases :: "'o env \<Rightarrow> bool" where
  "releases E \<longleftrightarrow> \<not> disable_memory_release (plat E) \<and> p_getpagesize (plat E) \<le> kPageSize
     \<and> (\<forall>a n st. fst (fst (p_madvise (plat E) a n st)))"

subsection \<open>Taking spans off and putting them on the free lists\<close>

lemma Remove_inv:
  assumes inv: "heap_inv E mapped U X h" and "s \<in> U - X" and "location (spans h s) \<noteq> IN_USE"
  shows "heap_inv E mapped U (insert s X) (RemoveFromFreeList s h)"
    and "heap_keep S U h U (RemoveFromFreeList s h)" and "steady h (RemoveFromFreeList s h)"
    and "unmapped_bytes (stats (RemoveFromFreeList s h))
         + (if location (spans h s) = ON_RETURNED_FREELIST then slength (spans h s) * 2 ^ kPageShift else 0)
         = unmapped_bytes (stats h)"
    and "free_bytes (stats (RemoveFromFreeList s h))
         + (if location (spans h s) = ON_NORMAL_FREELIST then slength (spans h s) * 2 ^ kPageShift else 0)
         = free_bytes (stats h)"
proof -
  note d = heap_invD [OF inv] and b = heap_inv_bytes [OF inv]
  have s: "s \<in> U" "0 < slength (spans h s)" using assms(2) geo_okD [OF d(2)] by auto
  have sm: "free_bytes (stats h) < 2 ^ 64" "unmapped_bytes (stats h) < 2 ^ 64" using b(4,5) by simp_all
  note r = on_lists_Remove [OF d(4) assms(2,3) s(2) sm]
  have "U - X - {s} = U - insert s X" by blast
  then have l: "on_lists (U - insert s X) (RemoveFromFreeList s h)" using r(1) by simp
  have "geo_ok U (spans (RemoveFromFreeList s h))" by (rule geo_ok_cong [OF d(2)]) (simp add: frame)
  moreover have "map_ok U (spans (RemoveFromFreeList s h)) (pagemap h)"
    by (rule map_ok_cong [OF d(3)]) (simp add: frame)
  moreover have "covered U (spans (RemoveFromFreeList s h)) = covered U (spans h)"
    by (rule covered_cong) (simp add: frame)
  ultimately show "heap_inv E mapped U (insert s X) (RemoveFromFreeList s h)"
    using d(1,5) s(1) l by (simp add: heap_inv_def frame)
  show "heap_keep S U h U (RemoveFromFreeList s h)"
    by (rule heap_keep_same) (use assms(3) in \<open>auto simp: frame intro!: RemoveFromFreeList_frame(13)\<close>)
  show "steady h (RemoveFromFreeList s h)" by (simp add: steady_def frame)
qed (use on_lists_Remove [OF heap_invD(4) [OF inv] assms(2,3)] geo_okD(3) [OF heap_invD(2) [OF inv]] assms(2)
      heap_inv_bytes(4,5) [OF inv] in auto)

lemma Prepend_inv:
  assumes inv: "heap_inv E mapped U X h" and "s \<in> X" and "location (spans h s) \<noteq> IN_USE"
  shows "heap_inv E mapped U (X - {s}) (PrependToFreeList s h)"
    and "heap_keep S U h U (PrependToFreeList s h)" and "steady h (PrependToFreeList s h)"
    and "unmapped_bytes (stats (PrependToFreeList s h)) = unmapped_bytes (stats h)
         + (if location (spans h s) = ON_RETURNED_FREELIST then slength (spans h s) * 2 ^ kPageShift else 0)"
    and "free_bytes (stats (PrependToFreeList s h)) = free_bytes (stats h)
         + (if location (spans h s) = ON_NORMAL_FREELIST then slength (spans h s) * 2 ^ kPageShift else 0)"
proof -
  note d = heap_invD [OF inv] and b = heap_inv_bytes [OF inv]
  have s: "s \<in> U" "s \<notin> U - X" "0 < slength (spans h s)" using assms(2) d(1) geo_okD [OF d(2)] by auto
  have sm: "free_bytes (stats h) + slength (spans h s) * 2 ^ kPageShift < 2 ^ 64"
    "unmapped_bytes (stats h) + slength (spans h s) * 2 ^ kPageShift < 2 ^ 64"
    using b(4,5) b(6) [OF s(1)] by simp_all
  have st: "\<forall>t\<in>U - X. start (spans h t) \<noteq> start (spans h s)"
    using same_start [OF d(2) _ s(1)] s(2) by blast
  note r = on_lists_Prepend [OF d(4) s(2) assms(3) s(3) st sm]
  have "insert s (U - X) = U - (X - {s})" using s(1) assms(2) by blast
  then have l: "on_lists (U - (X - {s})) (PrependToFreeList s h)" using r(1) by simp
  have "geo_ok U (spans (PrependToFreeList s h))" by (rule geo_ok_cong [OF d(2)]) (simp add: frame)
  moreover have "map_ok U (spans (PrependToFreeList s h)) (pagemap h)"
    by (rule map_ok_cong [OF d(3)]) (simp add: frame)
  moreover have "covered U (spans (PrependToFreeList s h)) = covered U (spans h)"
    by (rule covered_cong) (simp add: frame)
  ultimately show "heap_inv E mapped U (X - {s}) (PrependToFreeList s h)"
    using d(1,5) s(1) l by (auto simp: heap_inv_def frame)
  show "heap_keep S U h U (PrependToFreeList s h)"
    by (rule heap_keep_same) (use assms(3) in \<open>auto simp: frame intro!: PrependToFreeList_frame(13)\<close>)
  show "steady h (PrependToFreeList s h)" by (simp add: steady_def frame)
  show "unmapped_bytes (stats (PrependToFreeList s h)) = unmapped_bytes (stats h)
         + (if location (spans h s) = ON_RETURNED_FREELIST then slength (spans h s) * 2 ^ kPageShift else 0)"
    and "free_bytes (stats (PrependToFreeList s h)) = free_bytes (stats h)
         + (if location (spans h s) = ON_NORMAL_FREELIST then slength (spans h s) * 2 ^ kPageShift else 0)"
    using r(2,3) by blast+
qed

text \<open>Changing a span that is on no list, without moving it.\<close>

lemma upd_span_inv:
  assumes "heap_inv E mapped U X h" and "s \<in> X" and "\<And>x. start (f x) = start x" and "\<And>x. slength (f x) = slength x"
  shows "heap_inv E mapped U X (upd_span s f h)" and "s \<in> S \<or> location (spans h s) \<noteq> IN_USE \<Longrightarrow> heap_keep S U h U (upd_span s f h)"
    and "steady h (upd_span s f h)" and "commit_ok C (upd_span s f h) = commit_ok C h"
proof -
  show "heap_inv E mapped U X (upd_span s f h)"
    by (rule heap_inv_cong [OF assms(1)]) (use assms(2-4) in \<open>auto simp: frame\<close>)
  show "heap_keep S U h U (upd_span s f h)" if "s \<in> S \<or> location (spans h s) \<noteq> IN_USE"
    by (rule heap_keep_same) (use that in \<open>auto simp: frame\<close>)
  show "steady h (upd_span s f h)" by (simp add: steady_def frame)
  have "slength (spans (upd_span s f h) t) = slength (spans h t)" for t using assms(4) by (simp add: frame)
  then show "commit_ok C (upd_span s f h) = commit_ok C h" by (simp add: commit_ok_def frame)
qed

lemma commit_ok_Remove:
  assumes "heap_inv E mapped U X h" and "s \<in> U - X" and "location (spans h s) \<noteq> IN_USE" and "commit_ok C h"
    and "finite C" and "location (spans h s) = ON_RETURNED_FREELIST \<Longrightarrow> s \<notin> C"
  shows "commit_ok (if location (spans h s) = ON_RETURNED_FREELIST then insert s C else C) (RemoveFromFreeList s h)"
  using Remove_inv(4) [OF assms(1-3)] assms(4-6) by (auto simp: commit_ok_def frame algebra_simps)

lemma commit_ok_Prepend:
  assumes "heap_inv E mapped U X h" and "s \<in> X" and "location (spans h s) \<noteq> IN_USE" and "commit_ok C h"
    and "finite C" and "location (spans h s) = ON_RETURNED_FREELIST \<Longrightarrow> s \<in> C"
  shows "commit_ok (if location (spans h s) = ON_RETURNED_FREELIST then C - {s} else C) (PrependToFreeList s h)"
proof (cases "location (spans h s) = ON_RETURNED_FREELIST")
  case True
  then show ?thesis
    using Prepend_inv(4) [OF assms(1-3)] assms(4) sum.remove [OF assms(5) assms(6) [OF True], of "\<lambda>t. slength (spans h t)"]
    by (simp add: commit_ok_def frame algebra_simps)
next
  case False
  then show ?thesis using Prepend_inv(4) [OF assms(1-3)] assms(4) by (simp add: commit_ok_def frame)
qed

subsection \<open>Releasing memory to the system\<close>

lemma release_loop_mapped:
  assumes "os_laws pl mapped" and "release_loop pl a n st = Some (r, st')"
  shows "mapped st' = mapped st"
proof -
  have "os_laws pl mapped \<longrightarrow> mapped (snd (r, st')) = mapped st"
  proof (rule release_loop.raw_induct
      [where P = "\<lambda>pl a n st y. os_laws pl mapped \<longrightarrow> mapped (snd y) = mapped st", OF _ assms(2)], rule impI)
    fix rl pl' a' n' st y
    assume IH: "\<And>pl a n st y. rl pl a n st = Some y \<Longrightarrow> os_laws pl mapped \<longrightarrow> mapped (snd y) = mapped st"
      and os: "os_laws pl' mapped"
      and step: "(case p_madvise pl' a' n' st of ((result, retry), st') \<Rightarrow>
          if \<not> result \<and> retry then rl pl' a' n' st' else Some (result, st')) = Some y"
    have "mapped (snd (p_madvise pl' a' n' st)) = mapped st" using os unfolding os_laws_def by blast
    then show "mapped (snd y) = mapped st"
      using step IH os by (auto split: prod.splits if_splits)
  qed
  then show ?thesis using assms(1) by simp
qed

lemma SystemRelease_ok:
  assumes "meta_ok (plat E) mapped G md"
  shows "outcome (mad E) (TCMalloc_SystemRelease (plat E) a n (sysmem md))
    (\<lambda>(rv, sm). SystemTaken sm = SystemTaken (sysmem md)
       \<and> (\<forall>G. meta_ok (plat E) mapped G md \<longrightarrow> meta_ok (plat E) mapped G (md\<lparr>sysmem := sm\<rparr>)))"
proof (rule outcomeI)
  fix x assume x: "TCMalloc_SystemRelease (plat E) a n (sysmem md) = Some x"
  have os: "os_laws (plat E) mapped" and sok: "sys_ok (plat E) (sysmem md)" using assms by (simp_all add: meta_ok_def)
  obtain rv sm where rs: "x = (rv, sm)" by (cases x)
  have "SystemTaken sm = SystemTaken (sysmem md) \<and> sys_ok (plat E) sm \<and> mapped (os sm) = mapped (os (sysmem md))"
    using x sok release_loop_mapped [OF os]
    by (auto simp: rs TCMalloc_SystemRelease_def Let_def sys_ok_def split: if_splits option.splits prod.splits)
  then show "case x of (rv, sm) \<Rightarrow> SystemTaken sm = SystemTaken (sysmem md)
       \<and> (\<forall>G. meta_ok (plat E) mapped G md \<longrightarrow> meta_ok (plat E) mapped G (md\<lparr>sysmem := sm\<rparr>))"
    unfolding rs using meta_ok_mono [of "plat E" mapped _ md sm] by simp
next
  assume "TCMalloc_SystemRelease (plat E) a n (sysmem md) = None"
  then show "mad E"
    by (auto simp: mad_def TCMalloc_SystemRelease_def Let_def split: if_splits option.splits prod.splits)
qed

lemma SystemRelease_released:
  assumes r: "releases E" and m: "meta_ok (plat E) mapped G md" and p: "p + n \<le> 2 ^ 35" "0 < n"
    and e: "TCMalloc_SystemRelease (plat E) (page_bytes p) (page_bytes n) (sysmem md) = Some (rv, sm)"
  shows rv
proof -
  let ?g = "p_getpagesize (plat E)"
  define s where "s = (if pagesize (sysmem md) = 0 then (sysmem md)\<lparr>pagesize := ?g\<rparr> else sysmem md)"
  obtain k where k: "0 < k" "?g = 2 ^ k" using m by (auto simp: meta_ok_def os_laws_def)
  have s: "pagesize s = 2 ^ k" using m k by (auto simp: s_def meta_ok_def sys_ok_def)
  have k13: "k \<le> 13"
  proof (rule ccontr)
    assume "\<not> k \<le> 13"
    then have "(2::nat) ^ 14 \<le> 2 ^ k" by (intro power_increasing) simp_all
    then show False using r k(2) by (simp add: releases_def kPageSize_def)
  qed
  have pb: "page_bytes p = p * 2 ^ 13" "page_bytes n = n * 2 ^ 13" using p(1) by (simp_all add: shl64_eq)
  have le: "(2::nat) ^ k \<le> 2 ^ 13" using k13 by (rule power_increasing) simp
  obtain ns ne where rr: "release_range (2 ^ k) (page_bytes p) (page_bytes n) = (ns, ne)" by (metis surj_pair)
  have "(2::nat) ^ k dvd 2 ^ 13" using k13 by (rule le_imp_power_dvd)
  then obtain d where c: "(8192::nat) = 2 ^ k * d" by auto
  have "page_bytes p + page_bytes n < 2 ^ 64" "page_bytes p + 2 ^ k < 2 ^ 64" using p(1) le unfolding pb by auto
  note b = release_range_bounds [OF refl _ this rr]
  have pos: "(0::nat) < 2 ^ k" by simp
  have x: "x * 2 ^ 13 = 2 ^ k * (x * d)" for x :: nat using c by (simp add: mult.left_commute)
  have "(2 ^ k * (p * d) + 2 ^ k - 1) div 2 ^ k = p * d"
    using pos by (intro div_nat_eqI) (unfold mult_Suc_right, linarith+)
  then have "ns = p * 2 ^ 13" using b(1) k13 unfolding pb x by (simp only: mult.commute)
  moreover have "(2 ^ k * ((p + n) * d)) div 2 ^ k * 2 ^ k = (p + n) * 2 ^ 13" unfolding x by (simp add: mult.commute)
  then have "ne = (p + n) * 2 ^ 13" using b(2) k13 unfolding pb distrib_right [symmetric] x by (simp add: distrib_right)
  ultimately have lt: "ns < ne" using p(2) by simp
  have "release_loop (plat E) a l st = Some (True, snd (p_madvise (plat E) a l st))" for a l st
  proof -
    have "fst (fst (p_madvise (plat E) a l st))" using r unfolding releases_def by blast
    then show ?thesis by (subst release_loop.simps) (simp add: case_prod_beta)
  qed
  then show ?thesis
    using e r lt unfolding TCMalloc_SystemRelease_def Let_def s_def [symmetric] s rr by (auto simp: releases_def)
qed

text \<open>What freeing and releasing pages never changes.\<close>

definition calm :: "'o page_heap \<Rightarrow> 'o page_heap \<Rightarrow> bool" where
  "calm h h' \<longleftrightarrow> steady h h' \<and> release_index h' = release_index h
     \<and> (\<forall>u. sizeclass (spans h' u) = sizeclass (spans h u))
     \<and> SystemTaken (sysmem (meta h')) = SystemTaken (sysmem (meta h))"

lemma calm_refl [simp]: "calm h h"
  by (simp add: calm_def steady_refl)

lemma calm_trans: "calm h h1 \<Longrightarrow> calm h1 h2 \<Longrightarrow> calm h h2"
  by (auto simp: calm_def intro: steady_trans)

lemma calm_frame:
  "calm h (RemoveFromFreeList s h)" "calm h (PrependToFreeList s h)"
  "(\<And>x. sizeclass (f x) = sizeclass x) \<Longrightarrow> calm h (upd_span s f h)"
  by (simp_all add: calm_def steady_def frame)

lemma commit_bound:
  assumes inv: "heap_inv E mapped U X h" and "commit_ok C h" and "C \<subseteq> U" and "s \<in> U - C"
    and "C \<inter> free_at ON_RETURNED_FREELIST (U - X) (spans h) = {}" and "s \<notin> free_at ON_RETURNED_FREELIST (U - X) (spans h)"
  shows "slength (spans h s) * 2 ^ kPageShift \<le> committed_bytes (stats h)"
proof -
  let ?R = "free_at ON_RETURNED_FREELIST (U - X) (spans h)" and ?l = "\<lambda>t. slength (spans h t)"
  note d = heap_invD [OF inv]
  have fin: "finite C" "finite ?R" using d(6) assms(3) finite_subset by (auto simp: free_at_def)
  have "sum ?l (insert s (C \<union> ?R)) \<le> sum ?l U"
    by (rule sum_mono2) (use d(6) assms(3,4) in \<open>auto simp: free_at_def\<close>)
  moreover have "sum ?l (insert s (C \<union> ?R)) = ?l s + (sum ?l C + sum ?l ?R)"
    using fin assms(4-6) by (simp add: sum.union_disjoint)
  ultimately have "(?l s + (sum ?l C + sum ?l ?R)) * 2 ^ kPageShift \<le> system_bytes (stats h)"
    using heap_inv_bytes(1) [OF inv] by (metis (no_types, lifting) mult_le_mono1 order_trans)
  moreover have "unmapped_bytes (stats h) = sum ?l ?R * 2 ^ kPageShift"
    using d(4) unfolding on_lists_def by (blast dest: half_okD(5))
  ultimately show ?thesis using assms(2) by (simp add: commit_ok_def algebra_simps)
qed

lemma DecommitSpan_ok:
  assumes inv: "heap_inv E mapped U X h" and c: "commit_ok C h" and "C \<subseteq> U" and s: "s \<in> U - C"
    and "C \<inter> free_at ON_RETURNED_FREELIST (U - X) (spans h) = {}" and "s \<notin> free_at ON_RETURNED_FREELIST (U - X) (spans h)"
  shows "outcome (mad E) (DecommitSpan E s h) (\<lambda>(rv, h'). heap_inv E mapped U X h' \<and> calm h h'
     \<and> spans h' = spans h \<and> pagemap h' = pagemap h
     \<and> free_bytes (stats h') = free_bytes (stats h) \<and> unmapped_bytes (stats h') = unmapped_bytes (stats h)
     \<and> committed_bytes (stats h') + (if rv then slength (spans h s) * 2 ^ kPageShift else 0) = committed_bytes (stats h)
     \<and> commit_ok (if rv then insert s C else C) h')"
proof -
  obtain G where G: "meta_ok (plat E) mapped G (meta h)"
    using heap_invD(5) [OF inv] unfolding memory_ok_def by blast
  let ?l = "slength (spans h s)"
  have len: "?l * 2 ^ kPageShift \<le> 2 ^ 48" using heap_inv_bytes(6) [OF inv] s by blast
  have "C \<inter> free_at ON_RETURNED_FREELIST (U - X) (spans h) = {}" by fact
  note cb = commit_bound [OF inv c assms(3) s this assms(6)]
  have cs: "committed_bytes (stats h) < 2 ^ 64"
    using c heap_inv_bytes(2,3) [OF inv] by (simp add: commit_ok_def)
  have sub: "sub64 (committed_bytes (stats h)) (shl64 ?l 13) = committed_bytes (stats h) - ?l * 8192"
    using len cb cs by (simp add: shl64_eq sub64_eq)
  have fin: "finite C" using heap_invD(6) [OF inv] assms(3) finite_subset by blast
  have R: "outcome (mad E) (TCMalloc_SystemRelease (plat E) a n (sysmem (meta (upd_stats f h))))
      (\<lambda>(rv, sm). SystemTaken sm = SystemTaken (sysmem (meta h))
         \<and> (\<forall>G. meta_ok (plat E) mapped G (meta h) \<longrightarrow> meta_ok (plat E) mapped G ((meta h)\<lparr>sysmem := sm\<rparr>)))" for a n f
    using SystemRelease_ok [OF G] by (simp add: frame)
  show ?thesis
    unfolding DecommitSpan_def Let_def
  proof (rule outcome_bindI [OF R], goal_cases)
    case (1 x)
    obtain rv sm where x: "x = (rv, sm)" by (cases x)
    let ?h = "(upd_stats (\<lambda>st. st\<lparr>decommit_count := add64 (decommit_count st) 1\<rparr>) h)"
    let ?h1 = "?h\<lparr>meta := (meta ?h)\<lparr>sysmem := sm\<rparr>\<rparr>"
    have m: "SystemTaken sm = SystemTaken (sysmem (meta h))"
      "\<And>G. meta_ok (plat E) mapped G (meta h) \<Longrightarrow> meta_ok (plat E) mapped G ((meta h)\<lparr>sysmem := sm\<rparr>)"
      using 1(2) by (auto simp: x)
    show ?case
    proof (cases rv)
      case True
      let ?h2 = "upd_stats (\<lambda>st. st\<lparr>committed_bytes := sub64 (committed_bytes st) (page_bytes ?l),
                        total_decommit_bytes := add64 (total_decommit_bytes st) (page_bytes ?l)\<rparr>) ?h1"
      have "heap_inv E mapped U X ?h2"
        by (rule heap_inv_cong [OF inv]) (use m in \<open>simp_all add: frame\<close>)
      moreover have "commit_ok (insert s C) ?h2"
        using c cb s fin sub by (simp add: commit_ok_def frame algebra_simps)
      ultimately show ?thesis using True m sub cb by (simp add: x calm_def steady_def frame)
    next
      case False
      have "heap_inv E mapped U X ?h1"
        by (rule heap_inv_cong [OF inv]) (use m in \<open>simp_all add: frame\<close>)
      moreover have "commit_ok C ?h1" using c by (simp add: commit_ok_def frame)
      ultimately show ?thesis using False m by (simp add: x calm_def steady_def frame)
    qed
  qed
qed

subsection \<open>Coalescing\<close>

lemma PreMerge_ok:
  assumes inv: "heap_inv E mapped U {s} h" and ls: "location (spans h s) \<noteq> IN_USE"
    and c: "commit_ok (if location (spans h s) = ON_RETURNED_FREELIST then {s} else {}) h"
    and other: "\<And>t. other = Some t \<Longrightarrow> t \<in> U \<and> t \<noteq> s"
  shows "outcome (mad E) (CheckAndHandlePreMerge E s other h) (\<lambda>(r, h').
     calm h h' \<and> pagemap h' = pagemap h \<and> heap_keep S U h U h'
     \<and> (\<forall>u. start (spans h' u) = start (spans h u) \<and> slength (spans h' u) = slength (spans h u)
          \<and> location (spans h' u) = location (spans h u))
     \<and> spans h' s = spans h s
     \<and> committed_bytes (stats h') \<le> committed_bytes (stats h) \<and> free_bytes (stats h') \<le> free_bytes (stats h)
     \<and> (case r of
          None \<Rightarrow> heap_inv E mapped U {s} h' \<and> commit_ok (if location (spans h s) = ON_RETURNED_FREELIST then {s} else {}) h'
            \<and> (\<not> aggressive_decommit h \<longrightarrow> other = None \<or> location (spans h (the other)) \<noteq> location (spans h s))
        | Some t \<Rightarrow> other = Some t \<and> location (spans h t) \<noteq> IN_USE \<and> heap_inv E mapped U {s, t} h'
            \<and> commit_ok (if location (spans h s) = ON_RETURNED_FREELIST then {s, t} else {}) h'
            \<and> (\<not> aggressive_decommit h \<longrightarrow> location (spans h t) = location (spans h s))))"
    (is "outcome _ _ ?Q")
proof (cases other)
  case None
  then show ?thesis using inv c by (simp add: CheckAndHandlePreMerge_def heap_keep_refl)
next
  case (Some t)
  note t = other [OF Some]
  note d = heap_invD [OF inv]
  have tU: "t \<in> U - {s}" using t by blast
  let ?R = "location (spans h s) = ON_RETURNED_FREELIST"
  consider (agg) "aggressive_decommit h \<and> location (spans h t) = ON_NORMAL_FREELIST \<and> ?R"
    | (no) "\<not> (aggressive_decommit h \<and> location (spans h t) = ON_NORMAL_FREELIST \<and> ?R)"
        "location (spans h t) \<noteq> location (spans h s)"
    | (yes) "\<not> (aggressive_decommit h \<and> location (spans h t) = ON_NORMAL_FREELIST \<and> ?R)"
        "location (spans h t) = location (spans h s)" by blast
  then show ?thesis
  proof cases
    case agg
    have "{s} \<inter> free_at ON_RETURNED_FREELIST (U - {s}) (spans h) = {}"
      "t \<notin> free_at ON_RETURNED_FREELIST (U - {s}) (spans h)" "{s} \<subseteq> U" "t \<in> U - {s}"
      using agg t d(1) by (auto simp: free_at_def)
    note dc = DecommitSpan_ok [OF inv _ this(3,4,1,2)]
    have "commit_ok {s} h" using c agg by simp
    from dc [OF this] have "outcome (mad E) (DecommitSpan E t h) (\<lambda>(worked, h1). outcome (mad E)
        (if \<not> worked then Some (None, h1) else Some (Some t, RemoveFromFreeList t h1)) ?Q)"
    proof (rule outcome_mono, goal_cases)
      case (1 x)
      obtain w h1 where x: "x = (w, h1)" by (cases x)
      have h1: "heap_inv E mapped U {s} h1" "calm h h1" "spans h1 = spans h" "pagemap h1 = pagemap h"
        "free_bytes (stats h1) = free_bytes (stats h)"
        "committed_bytes (stats h1) \<le> committed_bytes (stats h)"
        "commit_ok (if w then {s, t} else {s}) h1"
        using 1(2) by (auto simp: x insert_commute)
      have k: "heap_keep S U h U h1" by (rule heap_keep_same) (simp_all add: h1)
      show ?case
      proof (cases w)
        case False
        then show ?thesis using h1 k agg by (simp add: x Some)
      next
        case True
        have loc: "location (spans h1 t) \<noteq> IN_USE" using agg h1(3) by simp
        note r = Remove_inv [OF h1(1) tU loc]
        have "commit_ok {s, t} (RemoveFromFreeList t h1)"
          using commit_ok_Remove [OF h1(1) tU loc, of "{s, t}"] h1(3,7) True agg by simp
        moreover have "heap_inv E mapped U {s, t} (RemoveFromFreeList t h1)" using r(1) by (simp add: insert_commute)
        moreover have "heap_keep S U h U (RemoveFromFreeList t h1)" by (rule heap_keep_trans [OF k r(2) [where S = "{}"]]) simp
        moreover have "calm h (RemoveFromFreeList t h1)" by (rule calm_trans [OF h1(2) calm_frame(1)])
        ultimately show ?thesis using h1(3-6) r(5) True t agg by (simp add: x Some frame)
      qed
    qed
    moreover have "CheckAndHandlePreMerge E s other h = DecommitSpan E t h \<bind>
        (\<lambda>(worked, h1). if \<not> worked then Some (None, h1) else Some (Some t, RemoveFromFreeList t h1))"
      using agg by (simp add: CheckAndHandlePreMerge_def Some)
    ultimately show ?thesis by (simp only: outcome_bind_prod)
  next
    case no
    then show ?thesis using inv c by (auto simp: CheckAndHandlePreMerge_def Some heap_keep_refl)
  next
    case yes
    have loc: "location (spans h t) \<noteq> IN_USE" using yes(2) ls by simp
    note r = Remove_inv [OF inv tU loc]
    have "commit_ok (if ?R then {s, t} else {}) (RemoveFromFreeList t h)"
      using commit_ok_Remove [OF inv tU loc c] t yes(2) by (cases ?R) (simp_all add: insert_commute)
    moreover have "heap_inv E mapped U {s, t} (RemoveFromFreeList t h)" using r(1) by (simp add: insert_commute)
    ultimately show ?thesis
      using yes r(2,5) t loc by (auto simp: CheckAndHandlePreMerge_def Some frame calm_frame)
  qed
qed

lemma heap_DeleteSpan_frame [frame]:
  "spans (heap_DeleteSpan t h) = spans h" "pagemap (heap_DeleteSpan t h) = pagemap h" "meta (heap_DeleteSpan t h) = meta h"
  "stats (heap_DeleteSpan t h) = stats h" "stacktrace_allocator (heap_DeleteSpan t h) = stacktrace_allocator h"
  "smallest_span_size (heap_DeleteSpan t h) = smallest_span_size h"
  "aggressive_decommit (heap_DeleteSpan t h) = aggressive_decommit h"
  "free_normal (heap_DeleteSpan t h) = free_normal h" "free_returned (heap_DeleteSpan t h) = free_returned h"
  "large_normal (heap_DeleteSpan t h) = large_normal h" "large_returned (heap_DeleteSpan t h) = large_returned h"
  "pagemap_cache (heap_DeleteSpan t h) = pagemap_cache h" "release_index (heap_DeleteSpan t h) = release_index h"
  "span_allocator (heap_DeleteSpan t h) = PageHeapAllocator_Delete t (span_allocator h)"
  by (simp_all add: heap_DeleteSpan_def DeleteSpan_def)

lemma memory_ok_Delete:
  assumes "memory_ok E mapped U P pool stpool md b" and "t \<in> U"
  shows "memory_ok E mapped (U - {t}) P (PageHeapAllocator_Delete t pool) stpool md b"
  using assms(1) unfolding memory_ok_def
  by (elim exE conjE, intro exI conjI) (rule pool_ok_Delete [OF _ assms(2)], assumption+)

text \<open>The neighbour \<open>t\<close>, already off its list, becomes part of the span \<open>s\<close>; \<open>p\<close> is the page whose entry is
  written: the new first page or the new last one.\<close>

lemma merge_step:
  assumes inv: "heap_inv E mapped U {s, t} h" and "s \<noteq> t"
    and free: "location (spans h s) \<noteq> IN_USE" "location (spans h t) \<noteq> IN_USE"
    and h1: "h1 = upd_span s f (heap_DeleteSpan t h)"
    and f: "\<And>x. location (f x) = location x \<and> sizeclass (f x) = sizeclass x"
      "slength (f (spans h s)) = slength (spans h s) + slength (spans h t)"
    and adj: "start (spans h t) + slength (spans h t) = start (spans h s)
          \<and> start (f (spans h s)) = start (spans h t) \<and> p = start (f (spans h s))
        \<or> start (spans h s) + slength (spans h s) = start (spans h t)
          \<and> start (f (spans h s)) = start (spans h s)
          \<and> p = start (f (spans h s)) + slength (f (spans h s)) - 1"
    and C: "C = {} \<or> C = {s, t}" and c: "commit_ok C h"
  shows "\<exists>h2. pagemap_set p s h1 = Some h2 \<and> heap_inv E mapped (U - {t}) {s} h2 \<and> commit_ok (C - {t}) h2
    \<and> heap_keep S U h (U - {t}) h2 \<and> calm h h2
    \<and> spans h2 = (spans h)(s := f (spans h s)) \<and> stats h2 = stats h"
proof -
  note d = heap_invD [OF inv]
  have sU: "s \<in> U" and tU: "t \<in> U" using d(1) by auto
  define sp' where "sp' = (spans h)(s := f (spans h s))"
  have same: "start (sp' u) = start (spans h u) \<and> slength (sp' u) = slength (spans h u)" if "u \<in> U - {s, t}" for u
    using that by (simp add: sp'_def)
  have len: "slength (sp' s) = slength (spans h s) + slength (spans h t)" using f(2) by (simp add: sp'_def)
  have adj': "start (spans h t) + slength (spans h t) = start (spans h s) \<and> start (sp' s) = start (spans h t)
       \<or> start (spans h s) + slength (spans h s) = start (spans h t) \<and> start (sp' s) = start (spans h s)"
    using adj by (auto simp: sp'_def)
  have g: "geo_ok (U - {t}) sp'" "covered (U - {t}) sp' = covered U (spans h)"
    by (rule geo_ok_merge [OF d(2) sU tU assms(2) adj' len same], assumption)+
  have "p = start (sp' s) \<or> p = start (sp' s) + slength (sp' s) - 1" using adj by (auto simp: sp'_def)
  moreover have "s \<in> U - {t}" using sU assms(2) by blast
  ultimately have "p \<in> covered (U - {t}) sp'" using boundary_covered [OF g(1), of s] by auto
  then have pc: "p \<in> covered U (spans h)" using g(2) by simp
  have sp1: "spans h1 = sp'" "pagemap h1 = pagemap h" by (simp_all add: h1 frame sp'_def)
  have "pm_ensured (pagemap h1) p" using d(3) pc sp1(2) by (simp add: map_ok_def)
  from pagemap_set_ok [OF this, of s] obtain m where
    m: "pagemap_set p s h1 = Some (h1\<lparr>pagemap := m\<rparr>)" "pm_get m = (pm_get (pagemap h))(p \<mapsto> s)"
      "pm_ensured m = pm_ensured (pagemap h)" using sp1(2) by auto
  let ?h2 = "h1\<lparr>pagemap := m\<rparr>"
  have "bounds_ok (U - {t}) sp' (pm_get m)"
    using adj by (intro bounds_ok_merge [OF d(2) _ sU tU assms(2) _ len same])
      (use d(3) m(2) in \<open>auto simp: sp'_def map_ok_def\<close>)
  then have mo: "map_ok (U - {t}) sp' m"
    by (intro map_ok_update [OF d(3) g(2) _ m(3)]) (use m(2) pc in \<open>auto split: if_splits\<close>)
  have Y: "U - {t} - {s} = U - {s, t}" by blast
  have l: "on_lists (U - {t} - {s}) ?h2"
    unfolding Y by (rule on_lists_cong [OF d(4)]) (auto simp: h1 frame)
  have mem: "memory_ok E mapped (U - {t}) (covered (U - {t}) sp') (span_allocator ?h2) (stacktrace_allocator ?h2) (meta ?h2)
         (system_bytes (stats ?h2))"
    unfolding g(2) using memory_ok_Delete [OF d(5) tU] by (simp add: h1 frame)
  have hi: "heap_inv E mapped (U - {t}) {s} ?h2"
    using sU assms(2) g(1) mo l mem by (simp add: heap_inv_def sp1)
  have k: "heap_keep S U h (U - {t}) ?h2"
    unfolding heap_keep_def
  proof (intro ballI impI)
    fix u assume u: "u \<in> U - S" "location (spans h u) = IN_USE"
    then have ne: "u \<noteq> s" "u \<noteq> t" using free by auto
    have "p \<notin> extent (spans h u)"
    proof
      assume pe: "p \<in> extent (spans h u)"
      have "p \<in> extent (spans h s) \<union> extent (spans h t)"
        using adj f(2) geo_okD [OF d(2) sU] geo_okD [OF d(2) tU] by auto
      then show False using same_page [OF d(2) _ sU pe] same_page [OF d(2) _ tU pe] u(1) ne by blast
    qed
    then show "u \<in> U - {t} \<and> spans ?h2 u = spans h u \<and> (\<forall>q\<in>extent (spans h u). GetDescriptor q ?h2 = GetDescriptor q h)"
      using u ne m(2) by (auto simp: sp1 sp'_def GetDescriptor_def)
  qed
  have "commit_ok (C - {t}) ?h2"
    using C c assms(2) len by (auto simp: commit_ok_def h1 frame sp1 sp'_def algebra_simps insert_Diff_if)
  then show ?thesis using m(1) hi k f(1) by (auto simp: calm_def steady_def h1 frame)
qed

text \<open>No two adjacent free spans of the same location: what eager coalescing maintains.\<close>

definition coalesced :: "nat set \<Rightarrow> span_store \<Rightarrow> bool" where
  "coalesced Y sp \<longleftrightarrow> (\<forall>u\<in>Y. \<forall>v\<in>Y. start (sp u) + slength (sp u) = start (sp v)
     \<longrightarrow> location (sp u) \<noteq> IN_USE \<longrightarrow> location (sp u) \<noteq> location (sp v))"

lemma coalesced_cong:
  assumes "coalesced Y sp" and "Z \<subseteq> Y"
    and "\<And>u. u \<in> Z \<Longrightarrow> start (sp' u) = start (sp u) \<and> slength (sp' u) = slength (sp u) \<and> location (sp' u) = location (sp u)"
  shows "coalesced Z sp'"
  using assms unfolding coalesced_def by (metis (no_types, lifting) subsetD)

text \<open>The state between the steps of \<open>MergeIntoFreeList\<close>.\<close>

definition merging ::
  "'o env \<Rightarrow> ('o \<Rightarrow> nat set) \<Rightarrow> nat \<Rightarrow> nat set \<Rightarrow> 'o page_heap \<Rightarrow> nat set \<Rightarrow> 'o page_heap \<Rightarrow> bool" where
  "merging E mapped s U h U' h' \<longleftrightarrow> U' \<subseteq> U \<and> s \<in> U' \<and> heap_inv E mapped U' {s} h'
     \<and> commit_ok (if location (spans h' s) = ON_RETURNED_FREELIST then {s} else {}) h'
     \<and> heap_keep {} U h U' h' \<and> calm h h'
     \<and> committed_bytes (stats h') \<le> committed_bytes (stats h) \<and> free_bytes (stats h') \<le> free_bytes (stats h)
     \<and> location (spans h' s) \<noteq> IN_USE \<and> (\<forall>u\<in>insert s (U - U'). extent (spans h u) \<subseteq> extent (spans h' s))
     \<and> (\<forall>u\<in>U' - {s}. start (spans h' u) = start (spans h u) \<and> slength (spans h' u) = slength (spans h u)
          \<and> location (spans h' u) = location (spans h u))"

lemma merging_refl:
  assumes "heap_inv E mapped U {s} h" and "location (spans h s) \<noteq> IN_USE"
    and "commit_ok (if location (spans h s) = ON_RETURNED_FREELIST then {s} else {}) h"
  shows "merging E mapped s U h U h"
  using assms heap_invD(1) [OF assms(1)] by (simp add: merging_def heap_keep_refl)

lemma merging_trans:
  assumes "merging E mapped s U h U1 h1" and "merging E mapped s U1 h1 U2 h2"
  shows "merging E mapped s U h U2 h2"
proof -
  have "heap_keep {} U h U2 h2"
    by (rule heap_keep_trans [of "{}" U h U1 h1 "{}" U2 h2]) (use assms in \<open>auto simp: merging_def\<close>)
  moreover have "calm h h2" using assms calm_trans by (auto simp: merging_def)
  moreover have "u \<in> U2 - {s} \<Longrightarrow> u \<in> U1 - {s}" for u using assms(2) by (auto simp: merging_def)
  moreover have "extent (spans h u) \<subseteq> extent (spans h2 s)" if u: "u \<in> insert s (U - U2)" for u
  proof (cases "u \<in> insert s (U - U1)")
    case True
    then have "extent (spans h u) \<subseteq> extent (spans h1 s)" using assms(1) unfolding merging_def by blast
    moreover have "extent (spans h1 s) \<subseteq> extent (spans h2 s)" using assms(2) unfolding merging_def by blast
    ultimately show ?thesis by (rule subset_trans)
  next
    case False
    then have "u \<in> U1 - {s}" "u \<in> insert s (U1 - U2)" using u by blast+
    then have "start (spans h1 u) = start (spans h u)" "slength (spans h1 u) = slength (spans h u)"
      "extent (spans h1 u) \<subseteq> extent (spans h2 s)" using assms unfolding merging_def by blast+
    then show ?thesis by simp
  qed
  ultimately show ?thesis using assms unfolding merging_def by (simp add: subset_iff)
qed

lemma absorb_ok:
  assumes inv: "heap_inv E mapped U {s, t} h1" and "t \<in> U" "t \<noteq> s"
    and free: "location (spans h s) \<noteq> IN_USE" "location (spans h t) \<noteq> IN_USE"
    and same: "\<forall>u. start (spans h1 u) = start (spans h u) \<and> slength (spans h1 u) = slength (spans h u)
       \<and> location (spans h1 u) = location (spans h u)" "spans h1 s = spans h s"
    and c: "commit_ok (if location (spans h s) = ON_RETURNED_FREELIST then {s, t} else {}) h1"
    and k: "heap_keep {} U h U h1" "calm h h1" "committed_bytes (stats h1) \<le> committed_bytes (stats h)"
      "free_bytes (stats h1) \<le> free_bytes (stats h)"
    and f: "\<And>x. location (f x) = location x \<and> sizeclass (f x) = sizeclass x" "slength (f (spans h s)) = slength (spans h s) + slength (spans h t)"
    and adj: "start (spans h t) + slength (spans h t) = start (spans h s)
          \<and> start (f (spans h s)) = start (spans h t) \<and> p = start (f (spans h s))
        \<or> start (spans h s) + slength (spans h s) = start (spans h t)
          \<and> start (f (spans h s)) = start (spans h s)
          \<and> p = start (f (spans h s)) + slength (f (spans h s)) - 1"
  shows "\<exists>h2. pagemap_set p s (upd_span s f (heap_DeleteSpan t h1)) = Some h2
     \<and> merging E mapped s U h (U - {t}) h2 \<and> spans h2 s = f (spans h s)"
proof -
  let ?C = "if location (spans h s) = ON_RETURNED_FREELIST then {s, t} else {}"
  have "\<exists>h2. pagemap_set p s (upd_span s f (heap_DeleteSpan t h1)) = Some h2 \<and> heap_inv E mapped (U - {t}) {s} h2
    \<and> commit_ok (?C - {t}) h2 \<and> heap_keep {} U h1 (U - {t}) h2 \<and> calm h1 h2
    \<and> spans h2 = (spans h1)(s := f (spans h1 s)) \<and> stats h2 = stats h1"
    by (rule merge_step [OF inv _ _ _ refl f(1) _ _ _ c]) (use assms(3) free same f adj in \<open>auto split: if_splits\<close>)
  then obtain h2 where h2: "pagemap_set p s (upd_span s f (heap_DeleteSpan t h1)) = Some h2"
    "heap_inv E mapped (U - {t}) {s} h2" "commit_ok (?C - {t}) h2" "heap_keep {} U h1 (U - {t}) h2" "calm h1 h2"
    "spans h2 = (spans h1)(s := f (spans h1 s))" "stats h2 = stats h1" by blast
  have s: "s \<in> U - {t}" using heap_invD(1) [OF inv] assms(3) by blast
  have l: "location (spans h2 s) = location (spans h s)" using h2(6) f(1) same(2) by simp
  have e: "extent (spans h s) \<subseteq> extent (f (spans h s))" "extent (spans h t) \<subseteq> extent (f (spans h s))"
    using f(2) adj by auto
  have "heap_keep {} U h (U - {t}) h2" by (rule heap_keep_trans [OF k(1) h2(4)]) simp
  moreover have "commit_ok (if location (spans h2 s) = ON_RETURNED_FREELIST then {s} else {}) h2"
    using h2(3) l assms(3) by (simp add: insert_Diff_if split: if_splits)
  moreover have "calm h h2" by (rule calm_trans [OF k(2) h2(5)])
  ultimately have "merging E mapped s U h (U - {t}) h2"
    unfolding merging_def using s h2(2,6,7) l e free same k(3,4) by (simp add: Diff_Diff_Int ball_Un)
  then show ?thesis using h2(1,6) same(2) by auto
qed

text \<open>What one of the two merges of \<open>MergeIntoFreeList\<close> did with the looked-up neighbour.\<close>

definition absorbed :: "nat \<Rightarrow> nat option \<Rightarrow> nat set \<Rightarrow> 'o page_heap \<Rightarrow> nat set \<Rightarrow> 'o page_heap \<Rightarrow> bool" where
  "absorbed s other U h U' h' \<longleftrightarrow>
     (U' = U \<and> spans h' s = spans h s
        \<and> (\<not> aggressive_decommit h \<longrightarrow> (\<forall>t. other = Some t \<longrightarrow> location (spans h t) \<noteq> location (spans h s))))
   \<or> (\<exists>t. other = Some t \<and> U' = U - {t} \<and> location (spans h' s) = location (spans h s)
        \<and> slength (spans h' s) = slength (spans h s) + slength (spans h t)
        \<and> (start (spans h t) + slength (spans h t) = start (spans h s) \<and> start (spans h' s) = start (spans h t)
           \<or> start (spans h s) + slength (spans h s) = start (spans h t) \<and> start (spans h' s) = start (spans h s))
        \<and> (\<not> aggressive_decommit h \<longrightarrow> location (spans h t) = location (spans h s)))"

lemma merge_neighbour:
  assumes inv: "heap_inv E mapped U {s} h" and ls: "location (spans h s) \<noteq> IN_USE"
    and c: "commit_ok (if location (spans h s) = ON_RETURNED_FREELIST then {s} else {}) h"
    and other: "\<And>t. other = Some t \<Longrightarrow> t \<in> U \<and> t \<noteq> s"
    and body: "\<And>t h1. other = Some t \<Longrightarrow> slength (spans h1 t) = slength (spans h t) \<Longrightarrow> spans h1 s = spans h s
      \<Longrightarrow> body t h1 = pagemap_set (p t) s (upd_span s (f t) (heap_DeleteSpan t h1))"
    and f: "\<And>t x. location (f t x) = location x \<and> sizeclass (f t x) = sizeclass x"
      "\<And>t. other = Some t \<Longrightarrow> slength (f t (spans h s)) = slength (spans h s) + slength (spans h t)"
    and adj: "\<And>t. other = Some t \<Longrightarrow> start (spans h t) + slength (spans h t) = start (spans h s)
          \<and> start (f t (spans h s)) = start (spans h t) \<and> p t = start (f t (spans h s))
        \<or> start (spans h s) + slength (spans h s) = start (spans h t)
          \<and> start (f t (spans h s)) = start (spans h s)
          \<and> p t = start (f t (spans h s)) + slength (f t (spans h s)) - 1"
  shows "outcome (mad E) (CheckAndHandlePreMerge E s other h)
     (\<lambda>(r, h1). outcome (mad E) (case r of None \<Rightarrow> Some h1 | Some t \<Rightarrow> body t h1)
        (\<lambda>h'. \<exists>U'. merging E mapped s U h U' h' \<and> absorbed s other U h U' h'))"
proof (rule outcome_mono [OF PreMerge_ok [OF inv ls c other, where S = "{}"]], assumption, goal_cases)
  case (1 x)
  obtain r h1 where x: "x = (r, h1)" by (cases x)
  note P = 1(2) [unfolded x prod.case]
  have same: "\<forall>u. start (spans h1 u) = start (spans h u) \<and> slength (spans h1 u) = slength (spans h u)
       \<and> location (spans h1 u) = location (spans h u)" "spans h1 s = spans h s"
    and k: "heap_keep {} U h U h1" "calm h h1" "committed_bytes (stats h1) \<le> committed_bytes (stats h)"
      "free_bytes (stats h1) \<le> free_bytes (stats h)" using P by blast+
  show ?case
  proof (cases r)
    case None
    have h1: "heap_inv E mapped U {s} h1" "commit_ok (if location (spans h s) = ON_RETURNED_FREELIST then {s} else {}) h1"
      "\<not> aggressive_decommit h \<Longrightarrow> other = None \<or> location (spans h (the other)) \<noteq> location (spans h s)"
      using P by (auto simp: None)
    have "merging E mapped s U h U h1"
      unfolding merging_def using h1(1,2) k same ls heap_invD(1) [OF inv] by simp
    moreover have "absorbed s other U h U h1" using h1(3) same(2) by (auto simp: absorbed_def)
    ultimately show ?thesis by (auto simp: x None)
  next
    case (Some t)
    have h1: "other = Some t" "location (spans h t) \<noteq> IN_USE" "heap_inv E mapped U {s, t} h1"
      "commit_ok (if location (spans h s) = ON_RETURNED_FREELIST then {s, t} else {}) h1"
      "\<not> aggressive_decommit h \<Longrightarrow> location (spans h t) = location (spans h s)"
      using P by (auto simp: Some)
    have t: "t \<in> U" "t \<noteq> s" using other [OF h1(1)] by blast+
    from absorb_ok [OF h1(3) t ls h1(2) same h1(4) k f(1) f(2) [OF h1(1)] adj [OF h1(1)]]
    obtain h2 where h2: "body t h1 = Some h2" "merging E mapped s U h (U - {t}) h2" "spans h2 s = f t (spans h s)"
      using body [OF h1(1), of h1] same by auto
    have "absorbed s other U h (U - {t}) h2"
      unfolding absorbed_def using h1(1,5) h2(3) f adj [OF h1(1)] by auto
    then show ?thesis using h2 by (auto simp: x Some)
  qed
qed

lemma outcome_bind2I:
  "outcome D r (\<lambda>(a, b). outcome D (f a b) P) \<Longrightarrow> (\<And>y. P y \<Longrightarrow> outcome D (g y) Q)
    \<Longrightarrow> outcome D (r \<bind> (\<lambda>(a, b). f a b \<bind> g)) Q"
  by (cases r) (auto elim!: outcome_bindI)

lemma merging_start:
  "merging E mapped s U h U' h' \<Longrightarrow> heap_inv E mapped U' {s} h'
    \<and> location (spans h' s) \<noteq> IN_USE
    \<and> commit_ok (if location (spans h' s) = ON_RETURNED_FREELIST then {s} else {}) h'"
  by (simp add: merging_def)

text \<open>The optional decommit at the start.\<close>

lemma merge_decommit:
  assumes inv: "heap_inv E mapped U {s} h" and ls: "location (spans h s) \<noteq> IN_USE"
    and c: "commit_ok (if location (spans h s) = ON_RETURNED_FREELIST then {s} else {}) h"
  shows "outcome (mad E)
     (if aggressive_decommit h \<and> location (spans h s) = ON_NORMAL_FREELIST
      then do {
        (rv, h) \<leftarrow> DecommitSpan E s h;
        Some (if rv then upd_span s (\<lambda>x. x\<lparr>location := ON_RETURNED_FREELIST\<rparr>) h else h) }
      else Some h)
     (\<lambda>h'. merging E mapped s U h U h' \<and> start (spans h' s) = start (spans h s) \<and> slength (spans h' s) = slength (spans h s)
        \<and> (\<not> aggressive_decommit h \<longrightarrow> h' = h) \<and> (location (spans h s) = ON_RETURNED_FREELIST \<longrightarrow> h' = h))"
proof (cases "aggressive_decommit h \<and> location (spans h s) = ON_NORMAL_FREELIST")
  case False
  then show ?thesis using merging_refl [OF assms] by auto
next
  case True
  have "{} \<inter> free_at ON_RETURNED_FREELIST (U - {s}) (spans h) = {}" "s \<notin> free_at ON_RETURNED_FREELIST (U - {s}) (spans h)"
    "{} \<subseteq> U" "s \<in> U - {}" using heap_invD(1) [OF inv] by (auto simp: free_at_def)
  note dc = DecommitSpan_ok [OF inv _ this(3,4,1,2)]
  have "commit_ok {} h" using c True by simp
  note dc = dc [OF this]
  have sX: "s \<in> {s}" by simp
  have "outcome (mad E) (DecommitSpan E s h) (\<lambda>(rv, h1). outcome (mad E)
      (Some (if rv then upd_span s (\<lambda>x. x\<lparr>location := ON_RETURNED_FREELIST\<rparr>) h1 else h1))
      (\<lambda>h'. merging E mapped s U h U h' \<and> start (spans h' s) = start (spans h s) \<and> slength (spans h' s) = slength (spans h s)))"
  proof (rule outcome_mono [OF dc], goal_cases)
    case (1 x)
    obtain rv h1 where x: "x = (rv, h1)" by (cases x)
    have h1: "heap_inv E mapped U {s} h1" "calm h h1" "spans h1 = spans h" "pagemap h1 = pagemap h"
      "free_bytes (stats h1) = free_bytes (stats h)"
      "committed_bytes (stats h1) \<le> committed_bytes (stats h)" "commit_ok (if rv then {s} else {}) h1"
      using 1(2) by (auto simp: x)
    have k: "heap_keep {} U h U h1" by (rule heap_keep_same) (simp_all add: h1)
    show ?case
    proof (cases rv)
      case False
      then show ?thesis using h1 k True heap_invD(1) [OF inv] by (simp add: x merging_def)
    next
      case rv: True
      let ?f = "\<lambda>x::span. x\<lparr>location := ON_RETURNED_FREELIST\<rparr>"
      have l1: "s \<in> {} \<or> location (spans h1 s) \<noteq> IN_USE" using True h1(3) by simp
      have u: "heap_inv E mapped U {s} (upd_span s ?f h1)" "heap_keep {} U h1 U (upd_span s ?f h1)"
        "commit_ok {s} (upd_span s ?f h1)"
        using upd_span_inv(1) [OF h1(1) sX] upd_span_inv(2) [OF h1(1) sX _ _ l1] upd_span_inv(4) [OF h1(1) sX] h1(7) rv
        by simp_all
      have "heap_keep {} U h U (upd_span s ?f h1)" by (rule heap_keep_trans [OF k u(2)]) simp
      moreover have "calm h (upd_span s ?f h1)" by (rule calm_trans [OF h1(2) calm_frame(3)]) simp
      ultimately show ?thesis using h1 u rv heap_invD(1) [OF inv] by (simp add: x merging_def frame)
    qed
  qed
  then have "outcome (mad E) (do { (rv, h) \<leftarrow> DecommitSpan E s h;
        Some (if rv then upd_span s (\<lambda>x. x\<lparr>location := ON_RETURNED_FREELIST\<rparr>) h else h) })
      (\<lambda>h'. merging E mapped s U h U h' \<and> start (spans h' s) = start (spans h s) \<and> slength (spans h' s) = slength (spans h s))"
    by (simp only: outcome_bind_prod)
  then show ?thesis using True by (simp add: outcome_def split: option.splits)
qed

lemma MergeIntoFreeList_ok:
  assumes inv: "heap_inv E mapped U {s} h" and ls: "location (spans h s) \<noteq> IN_USE"
    and c: "commit_ok (if location (spans h s) = ON_RETURNED_FREELIST then {s} else {}) h"
  shows "outcome (mad E) (MergeIntoFreeList E s h) (\<lambda>h'. \<exists>U' U1 h1 h2.
      merging E mapped s U h U' h2 \<and> h' = PrependToFreeList s h2
    \<and> (\<not> aggressive_decommit h \<longrightarrow> absorbed s (GetDescriptor (start (spans h s) - 1) h) U h U1 h1
         \<and> absorbed s (GetDescriptor (start (spans h s) + slength (spans h s)) h1) U1 h1 U' h2
         \<and> merging E mapped s U h U1 h1 \<and> merging E mapped s U1 h1 U' h2)
    \<and> (location (spans h s) = ON_RETURNED_FREELIST \<longrightarrow> location (spans h2 s) = ON_RETURNED_FREELIST))"
proof -
  let ?p = "start (spans h s)" and ?n = "slength (spans h s)"
  show ?thesis
    unfolding MergeIntoFreeList_def Let_def
  proof (rule outcome_bindI [OF merge_decommit [OF inv ls c]], goal_cases)
    case (1 h0)
    note h0 = 1(2)
    have m0: "merging E mapped s U h U h0" using h0 by blast
    note i0 = merging_start [OF m0]
    note d0 = heap_invD [OF i0 [THEN conjunct1]]
    let ?prev = "GetDescriptor (?p - 1) h0"
    have prev: "t \<in> U \<and> t \<noteq> s \<and> start (spans h0 t) + slength (spans h0 t) = start (spans h0 s)" if "?prev = Some t" for t
      using lookup_before [OF d0(2,3), of s t] d0(1) that h0 by (simp add: GetDescriptor_def)
    let ?f = "\<lambda>t x. x\<lparr>start := start x - slength (spans h0 t), slength := slength x + slength (spans h0 t)\<rparr>"
    have "outcome (mad E) (CheckAndHandlePreMerge E s ?prev h0)
     (\<lambda>(r, h1). outcome (mad E) (case r of None \<Rightarrow> Some h1 | Some t \<Rightarrow>
          pagemap_set (start (spans (upd_span s (\<lambda>x. x\<lparr>start := start x - slength (spans h1 t), slength := slength x + slength (spans h1 t)\<rparr>)
             (heap_DeleteSpan t h1)) s)) s
            (upd_span s (\<lambda>x. x\<lparr>start := start x - slength (spans h1 t), slength := slength x + slength (spans h1 t)\<rparr>) (heap_DeleteSpan t h1)))
        (\<lambda>h'. \<exists>U'. merging E mapped s U h0 U' h' \<and> absorbed s ?prev U h0 U' h'))"
      by (rule merge_neighbour [OF i0 [THEN conjunct1] i0 [THEN conjunct2, THEN conjunct1] i0 [THEN conjunct2, THEN conjunct2],
            where f = ?f and p = "\<lambda>t. start (spans h0 s) - slength (spans h0 t)"])
        (use prev in \<open>auto simp: frame\<close>)
    then show ?case
    proof (rule outcome_bind2I, goal_cases)
      case (1 h1)
      then obtain U1 where m1: "merging E mapped s U h0 U1 h1" and a1: "absorbed s ?prev U h0 U1 h1" by blast
      note i1 = merging_start [OF m1]
      note d1 = heap_invD [OF i1 [THEN conjunct1]]
      have e1: "?p + ?n = start (spans h1 s) + slength (spans h1 s)"
        using a1 h0 prev by (fastforce simp: absorbed_def)
      let ?next = "GetDescriptor (?p + ?n) h1"
      have nxt: "t \<in> U1 \<and> t \<noteq> s \<and> start (spans h1 s) + slength (spans h1 s) = start (spans h1 t)" if "?next = Some t" for t
        using lookup_after [OF d1(2,3), of s t] d1(1) that by (simp add: GetDescriptor_def e1)
      let ?f = "\<lambda>t x. x\<lparr>slength := slength x + slength (spans h1 t)\<rparr>"
      have "outcome (mad E) (CheckAndHandlePreMerge E s ?next h1)
       (\<lambda>(r, h2). outcome (mad E) (case r of None \<Rightarrow> Some h2 | Some t \<Rightarrow>
            pagemap_set (start (spans (upd_span s (\<lambda>x. x\<lparr>slength := slength x + slength (spans h2 t)\<rparr>) (heap_DeleteSpan t h2)) s)
                + slength (spans (upd_span s (\<lambda>x. x\<lparr>slength := slength x + slength (spans h2 t)\<rparr>) (heap_DeleteSpan t h2)) s) - 1) s
              (upd_span s (\<lambda>x. x\<lparr>slength := slength x + slength (spans h2 t)\<rparr>) (heap_DeleteSpan t h2)))
          (\<lambda>h'. \<exists>U'. merging E mapped s U1 h1 U' h' \<and> absorbed s ?next U1 h1 U' h'))"
        by (rule merge_neighbour [OF i1 [THEN conjunct1] i1 [THEN conjunct2, THEN conjunct1] i1 [THEN conjunct2, THEN conjunct2],
              where f = ?f and p = "\<lambda>t. start (spans h1 s) + (slength (spans h1 s) + slength (spans h1 t)) - 1"])
          (use nxt in \<open>auto simp: frame\<close>)
      then show ?case
      proof (rule outcome_bind2I, goal_cases)
        case (1 h2)
        then obtain U2 where m2: "merging E mapped s U1 h1 U2 h2" and a2: "absorbed s ?next U1 h1 U2 h2" by blast
        have m: "merging E mapped s U h U1 h1" "merging E mapped s U h U2 h2"
          using merging_trans [OF m0 m1] merging_trans [OF merging_trans [OF m0 m1] m2] by blast+
        have "location (spans h2 s) = ON_RETURNED_FREELIST" if "location (spans h s) = ON_RETURNED_FREELIST"
          using that h0 a1 a2 by (auto simp: absorbed_def)
        moreover have "\<not> aggressive_decommit h \<longrightarrow> absorbed s (GetDescriptor (start (spans h s) - 1) h) U h U1 h1"
          using a1 h0 by auto
        ultimately show ?case using m m2 a2 by (simp only: outcome_simps) blast
      qed
    qed
  qed
qed

text \<open>After both merges the span has no neighbour of its own location left.\<close>

lemma absorbed_coalesced:
  assumes inv: "heap_inv E mapped U {s} h" and agg: "\<not> aggressive_decommit h"
    and co: "coalesced (U - {s}) (spans h)"
    and a1: "absorbed s (GetDescriptor (start (spans h s) - 1) h) U h U1 h1"
    and a2: "absorbed s (GetDescriptor (start (spans h s) + slength (spans h s)) h1) U1 h1 U2 h2"
    and m1: "merging E mapped s U h U1 h1" and m2: "merging E mapped s U1 h1 U2 h2"
  shows "coalesced U2 (spans h2)"
proof -
  note d = heap_invD [OF inv]
  have i1: "heap_inv E mapped U1 {s} h1" using m1 by (simp add: merging_def)
  note d1 = heap_invD [OF i1]
  have agg1: "\<not> aggressive_decommit h1" using m1 agg by (simp add: merging_def calm_def steady_def)
  have sU: "s \<in> U" "s \<in> U1" "s \<in> U2" "U1 \<subseteq> U" "U2 \<subseteq> U1" using m1 m2 d(1) by (auto simp: merging_def)
  have same1: "start (spans h1 u) = start (spans h u) \<and> slength (spans h1 u) = slength (spans h u) \<and> location (spans h1 u) = location (spans h u)"
    if "u \<in> U1" "u \<noteq> s" for u using m1 that by (auto simp: merging_def)
  have same2: "start (spans h2 u) = start (spans h1 u) \<and> slength (spans h2 u) = slength (spans h1 u) \<and> location (spans h2 u) = location (spans h1 u)"
    if "u \<in> U2" "u \<noteq> s" for u using m2 that by (auto simp: merging_def)
  let ?prev = "GetDescriptor (start (spans h s) - 1) h"
  let ?next = "GetDescriptor (start (spans h s) + slength (spans h s)) h1"
  have prev: "start (spans h t) + slength (spans h t) = start (spans h s)" "t \<in> U - {s}" if "?prev = Some t" for t
    using lookup_before [OF d(2,3) sU(1), of t] that by (auto simp: GetDescriptor_def)
  have e1: "start (spans h1 s) + slength (spans h1 s) = start (spans h s) + slength (spans h s)"
    using a1 prev by (fastforce simp: absorbed_def)
  have nxt: "start (spans h1 t) = start (spans h1 s) + slength (spans h1 s)" "t \<in> U1 - {s}" if "?next = Some t" for t
    using lookup_after [OF d1(2,3) sU(2), of t] that by (auto simp: GetDescriptor_def e1)
  have s2: "start (spans h2 s) = start (spans h1 s)"
  proof -
    { fix t assume "?next = Some t" "start (spans h1 t) + slength (spans h1 t) = start (spans h1 s)"
      then have False using nxt(1) geo_okD(3) [OF d1(2) sU(2)] geo_okD(3) [OF d1(2), of t] nxt(2) by auto }
    then show ?thesis using a2 unfolding absorbed_def by auto
  qed
  have l2: "location (spans h2 s) = location (spans h1 s)" "location (spans h1 s) = location (spans h s)"
    using a1 a2 by (auto simp: absorbed_def)
  show ?thesis
    unfolding coalesced_def
  proof (intro ballI impI)
    fix u v assume uv: "u \<in> U2" "v \<in> U2" and adj: "start (spans h2 u) + slength (spans h2 u) = start (spans h2 v)"
      and free: "location (spans h2 u) \<noteq> IN_USE"
    consider (neither) "u \<noteq> s" "v \<noteq> s" | (right) "u = s" "v \<noteq> s" | (left) "u \<noteq> s" "v = s" | (both) "u = s" "v = s" by blast
    then show "location (spans h2 u) \<noteq> location (spans h2 v)"
    proof cases
      case neither
      then have "u \<in> U - {s}" "v \<in> U - {s}" "u \<in> U1" "v \<in> U1" using uv sU by auto
      then show ?thesis using co adj free neither same1 [of u] same1 [of v] same2 [of u] same2 [of v] uv
        unfolding coalesced_def by metis
    next
      case both
      then show ?thesis using adj heap_invD(2) [of E mapped U2 "{s}" h2] geo_okD(3) [of U2 "spans h2" s] m2 sU(3)
        by (auto simp: merging_def)
    next
      case right
      have v: "v \<in> U1" "v \<in> U - {s}" using uv(2) sU right by auto
      from a2 [unfolded absorbed_def] consider (none) "U2 = U1" "spans h2 s = spans h1 s"
          "\<forall>t. ?next = Some t \<longrightarrow> location (spans h1 t) \<noteq> location (spans h1 s)"
        | (some) t where "?next = Some t" "U2 = U1 - {t}" "slength (spans h2 s) = slength (spans h1 s) + slength (spans h1 t)"
          "location (spans h1 t) = location (spans h1 s)" using agg1 by blast
      then show ?thesis
      proof cases
        case none
        have "start (spans h1 v) = start (spans h s) + slength (spans h s)"
          using adj right none(2) same2 [OF uv(2) right(2)] e1 by simp
        then have "?next = Some v" using d1(3) v(1) by (metis GetDescriptor_def map_ok_def bounds_ok_def)
        then show ?thesis using none(2,3) right same2 [OF uv(2) right(2)] by auto
      next
        case some
        have t: "t \<in> U1" "t \<noteq> s" "t \<in> U - {s}" using nxt(2) [OF some(1)] sU by auto
        have "start (spans h t) + slength (spans h t) = start (spans h v)"
          using adj right some(3) s2 nxt(1) [OF some(1)] same1 [OF t(1,2)] same1 [OF v(1) right(2)] same2 [OF uv(2) right(2)]
          by simp
        then have "location (spans h t) \<noteq> location (spans h v)"
          using co t(3) v(2) free right some(4) same1 [OF t(1,2)] l2 unfolding coalesced_def by metis
        then show ?thesis using right some(4) same1 [OF t(1,2)] same1 [OF v(1) right(2)] same2 [OF uv(2) right(2)] l2 by simp
      qed
    next
      case left
      have u: "u \<in> U1" "u \<in> U" "u \<in> U - {s}" using uv(1) sU left by auto
      have adj1: "start (spans h u) + slength (spans h u) = start (spans h1 s)"
        using adj left s2 same1 [OF u(1) left(1)] same2 [OF uv(1) left(1)] by simp
      from a1 [unfolded absorbed_def] consider (none) "U1 = U" "spans h1 s = spans h s"
          "\<forall>t. ?prev = Some t \<longrightarrow> location (spans h t) \<noteq> location (spans h s)"
        | (some) t where "?prev = Some t" "U1 = U - {t}" "start (spans h1 s) = start (spans h t) \<or>
            start (spans h s) + slength (spans h s) = start (spans h t)"
          "location (spans h t) = location (spans h s)" using agg by blast
      then show ?thesis
      proof cases
        case none
        have "start (spans h s) - 1 = start (spans h u) + slength (spans h u) - 1" using adj1 none(2) by simp
        then have "?prev = Some u" using d(3) u(2) by (metis GetDescriptor_def map_ok_def bounds_ok_def)
        then show ?thesis using none(3) left same1 [OF u(1) left(1)] same2 [OF uv(1) left(1)] l2 by simp
      next
        case some
        note t = prev [OF some(1)]
        have "start (spans h1 s) = start (spans h t)"
          using some(3) t geo_okD(3) [OF d(2), of t] geo_okD(3) [OF d(2) sU(1)] by auto
        then have "location (spans h u) \<noteq> location (spans h t)"
          using co t(2) u(3) adj1 free same1 [OF u(1) left(1)] same2 [OF uv(1) left(1)] unfolding coalesced_def by metis
        then show ?thesis using some(4) left same1 [OF u(1) left(1)] same2 [OF uv(1) left(1)] l2 by simp
      qed
    qed
  qed
qed

subsection \<open>Releasing free spans\<close>

text \<open>What every operation that frees or releases pages guarantees.\<close>

definition inuse_spans :: "nat set \<Rightarrow> 'o page_heap \<Rightarrow> nat set" where
  "inuse_spans U h = {t \<in> U. location (spans h t) = IN_USE}"

text \<open>Free pages stay free, and the pages of the spans \<open>S\<close> become free; spans only grow.\<close>

definition frees :: "nat set \<Rightarrow> nat set \<Rightarrow> span_store \<Rightarrow> nat set \<Rightarrow> span_store \<Rightarrow> bool" where
  "frees S U sp U' sp' \<longleftrightarrow> (\<forall>u\<in>U. location (sp u) \<noteq> IN_USE \<or> u \<in> S \<longrightarrow>
     (\<exists>v\<in>U'. location (sp' v) \<noteq> IN_USE \<and> extent (sp u) \<subseteq> extent (sp' v)))"

lemma frees_trans: "frees S U sp U1 sp1 \<Longrightarrow> frees {} U1 sp1 U2 sp2 \<Longrightarrow> frees S U sp U2 sp2"
  unfolding frees_def by (meson subset_trans)

lemma frees_cong:
  assumes "frees S U sp1 U' sp'"
    and "\<And>u. u \<in> U \<Longrightarrow> start (sp1 u) = start (sp u) \<and> slength (sp1 u) = slength (sp u)"
    and "\<And>u. u \<in> U \<Longrightarrow> location (sp u) \<noteq> IN_USE \<or> u \<in> S' \<Longrightarrow> location (sp1 u) \<noteq> IN_USE \<or> u \<in> S"
  shows "frees S' U sp U' sp'"
  using assms unfolding frees_def by (metis (no_types, lifting))

lemma frees_same: "(\<And>u. u \<in> U \<Longrightarrow> start (sp' u) = start (sp u) \<and> slength (sp' u) = slength (sp u) \<and> location (sp' u) = location (sp u))
    \<Longrightarrow> frees {} U sp U sp'"
  unfolding frees_def by (metis empty_iff order_refl)

text \<open>A free span has no size class.\<close>

definition clean :: "nat set \<Rightarrow> span_store \<Rightarrow> bool" where
  "clean U sp \<longleftrightarrow> (\<forall>u\<in>U. location (sp u) \<noteq> IN_USE \<longrightarrow> sizeclass (sp u) = 0)"

lemma clean_cong:
  assumes "clean U sp" and "U' \<subseteq> U"
    and "\<And>u. u \<in> U' \<Longrightarrow> location (sp' u) \<noteq> IN_USE \<Longrightarrow> location (sp u) \<noteq> IN_USE \<and> sizeclass (sp' u) = sizeclass (sp u)"
  shows "clean U' sp'"
  using assms unfolding clean_def by (metis subsetD)

definition released :: "'o env \<Rightarrow> ('o \<Rightarrow> nat set) \<Rightarrow> nat set \<Rightarrow> nat set \<Rightarrow> 'o page_heap \<Rightarrow> nat set \<Rightarrow> 'o page_heap \<Rightarrow> bool" where
  "released E mapped S U h U' h' \<longleftrightarrow> U' \<subseteq> U \<and> heap_inv E mapped U' {} h' \<and> commit_ok {} h'
     \<and> heap_keep S U h U' h' \<and> steady h h' \<and> SystemTaken (sysmem (meta h')) = SystemTaken (sysmem (meta h))
     \<and> committed_bytes (stats h') \<le> committed_bytes (stats h)
     \<and> inuse_spans U' h' \<subseteq> inuse_spans U h - S \<and> frees S U (spans h) U' (spans h')
     \<and> (clean U (spans h) \<longrightarrow> clean U' (spans h'))
     \<and> (\<not> aggressive_decommit h \<longrightarrow> coalesced (U - S) (spans h) \<longrightarrow> coalesced U' (spans h'))"

lemma released_trans:
  assumes "released E mapped S U h U1 h1" and "released E mapped {} U1 h1 U2 h2"
  shows "released E mapped S U h U2 h2"
proof -
  note a = assms(1) [unfolded released_def] and b = assms(2) [unfolded released_def Diff_empty]
  have "heap_keep S U h U2 h2" by (rule heap_keep_trans [of S U h U1 h1 "{}"]) (use a b in blast)+
  moreover have "steady h h2" using steady_trans a b by blast
  moreover have "frees S U (spans h) U2 (spans h2)" using frees_trans a b by blast
  moreover have "committed_bytes (stats h2) \<le> committed_bytes (stats h)" using a b order_trans by blast
  moreover have "aggressive_decommit h1 = aggressive_decommit h" using a by (simp add: steady_def)
  ultimately show ?thesis unfolding released_def
    by (intro conjI; use a b in \<open>(elim conjE)?; (assumption | blast | simp)\<close>)
qed

lemma released_refl: "heap_inv E mapped U {} h \<Longrightarrow> commit_ok {} h \<Longrightarrow> released E mapped {} U h U h"
  by (simp add: released_def heap_keep_refl steady_refl frees_same)

lemma Merge_released:
  assumes inv: "heap_inv E mapped U {s} h" and ls: "location (spans h s) \<noteq> IN_USE"
    and c: "commit_ok (if location (spans h s) = ON_RETURNED_FREELIST then {s} else {}) h"
  shows "outcome (mad E) (MergeIntoFreeList E s h) (\<lambda>h'. \<exists>U'. released E mapped {s} U h U' h'
     \<and> heap_keep {} U h U' h' \<and> release_index h' = release_index h
     \<and> s \<in> U' \<and> location (spans h' s) \<noteq> IN_USE \<and> extent (spans h s) \<subseteq> extent (spans h' s)
     \<and> (location (spans h s) = ON_RETURNED_FREELIST \<longrightarrow> free_bytes (stats h') \<le> free_bytes (stats h)))"
proof (rule outcome_mono [OF MergeIntoFreeList_ok [OF assms]], elim exE conjE, goal_cases)
  case (1 h' U' U1 h1 h2)
  note m = 1(2)
  have sX: "s \<in> {s}" by simp
  have i2: "heap_inv E mapped U' {s} h2" "location (spans h2 s) \<noteq> IN_USE"
    "commit_ok (if location (spans h2 s) = ON_RETURNED_FREELIST then {s} else {}) h2" using m by (simp_all add: merging_def)
  note p = Prepend_inv [OF i2(1) sX i2(2)]
  have "commit_ok {} h'"
    using commit_ok_Prepend [OF i2(1) sX i2(2,3)] 1(3)
    by (cases "location (spans h2 s) = ON_RETURNED_FREELIST") simp_all
  moreover have k: "heap_keep {} U h U' h'"
    using heap_keep_trans [of "{}" U h U' h2 "{}" U' h'] p(2) [where S = "{}"] m 1(3) by (auto simp: merging_def)
  moreover have "calm h h'" using calm_trans [of h h2 h'] calm_frame(2) m 1(3) by (auto simp: merging_def)
  moreover have "coalesced U' (spans h')" if "\<not> aggressive_decommit h" "coalesced (U - {s}) (spans h)"
  proof -
    have "coalesced U' (spans h2)" using absorbed_coalesced [OF inv that] 1(4) that(1) by blast
    then show ?thesis by (rule coalesced_cong) (auto simp: 1(3) frame)
  qed
  moreover have "heap_keep {s} U h U' h'" using k by (auto simp: heap_keep_def)
  moreover have iu: "inuse_spans U' h' \<subseteq> inuse_spans U h - {s}"
  proof
    fix t assume "t \<in> inuse_spans U' h'"
    then have t: "t \<in> U'" "location (spans h2 t) = IN_USE" by (simp_all add: inuse_spans_def 1(3) frame)
    then have "t \<noteq> s" using i2(2) by auto
    then have "location (spans h t) = IN_USE" "t \<in> U" using m t by (auto simp: merging_def)
    then show "t \<in> inuse_spans U h - {s}" using \<open>t \<noteq> s\<close> by (simp add: inuse_spans_def)
  qed
  moreover have "frees {s} U (spans h) U' (spans h')"
    unfolding frees_def
  proof (intro ballI impI)
    fix u assume u: "u \<in> U" "location (spans h u) \<noteq> IN_USE \<or> u \<in> {s}"
    show "\<exists>v\<in>U'. location (spans h' v) \<noteq> IN_USE \<and> extent (spans h u) \<subseteq> extent (spans h' v)"
    proof (cases "u \<in> U' - {s}")
      case True
      then show ?thesis using m u by (intro bexI [of _ u]) (auto simp: merging_def 1(3) frame)
    next
      case False
      then have "extent (spans h u) \<subseteq> extent (spans h2 s)" using m u(1) unfolding merging_def by blast
      then show ?thesis using m i2(2) by (intro bexI [of _ s]) (auto simp: merging_def 1(3) frame)
    qed
  qed
  moreover have "clean U' (spans h')" if "clean U (spans h)"
  proof (rule clean_cong [OF that])
    fix u assume u: "u \<in> U'" "location (spans h' u) \<noteq> IN_USE"
    show "location (spans h u) \<noteq> IN_USE \<and> sizeclass (spans h' u) = sizeclass (spans h u)"
    proof (cases "u = s")
      case True
      then show ?thesis using ls m by (simp add: merging_def calm_def 1(3) frame)
    next
      case False
      then show ?thesis using u m by (simp add: merging_def calm_def 1(3) frame)
    qed
  qed (use m in \<open>simp add: merging_def\<close>)
  ultimately show ?case
    using m p(1,5) 1(3,5) iu unfolding released_def merging_def calm_def
    by (intro exI [of _ U']) (auto simp: frame)
qed

lemma ReleaseSpan_ok:
  assumes inv: "heap_inv E mapped U {} h" and c: "commit_ok {} h" and s: "s \<in> U" "location (spans h s) = ON_NORMAL_FREELIST"
  shows "outcome (mad E) (ReleaseSpan E s h) (\<lambda>(n, h'). \<exists>U'. released E mapped {} U h U' h'
     \<and> release_index h' = release_index h
     \<and> committed_bytes (stats h') + n * 2 ^ kPageShift \<le> committed_bytes (stats h)
     \<and> free_bytes (stats h') + n * 2 ^ kPageShift \<le> free_bytes (stats h)
     \<and> (n = 0 \<longrightarrow> \<not> releases E))"
proof -
  have pre: "{} \<inter> free_at ON_RETURNED_FREELIST (U - {}) (spans h) = {}" "s \<notin> free_at ON_RETURNED_FREELIST (U - {}) (spans h)"
    "{} \<subseteq> U" "s \<in> U - {}" using s by (auto simp: free_at_def)
  have refuse: "\<not> releases E" if d: "DecommitSpan E s h = Some (False, h1)" for h1
  proof
    assume r: "releases E"
    obtain G where G: "meta_ok (plat E) mapped G (meta h)" using heap_invD(5) [OF inv] unfolding memory_ok_def by blast
    from d obtain sm where "TCMalloc_SystemRelease (plat E) (page_bytes (start (spans h s))) (page_bytes (slength (spans h s))) (sysmem (meta h)) = Some (False, sm)"
      by (auto simp: DecommitSpan_def Let_def frame split: bind_splits)
    from SystemRelease_released [OF r G _ _ this] geo_okD(3,4) [OF heap_invD(2) [OF inv] s(1)] show False by simp
  qed
  show ?thesis
    unfolding ReleaseSpan_def Let_def
  proof (rule outcome_bindI [OF DecommitSpan_ok [OF inv c pre(3,4,1,2)]], goal_cases)
    case (1 x)
    obtain rv h1 where x: "x = (rv, h1)" by (cases x)
    have h1: "heap_inv E mapped U {} h1" "calm h h1" "spans h1 = spans h" "pagemap h1 = pagemap h"
      "free_bytes (stats h1) = free_bytes (stats h)"
      "committed_bytes (stats h1) + (if rv then slength (spans h s) * 2 ^ kPageShift else 0) = committed_bytes (stats h)"
      "commit_ok (if rv then {s} else {}) h1"
      using 1(2) by (auto simp: x)
    have k1: "heap_keep {} U h U h1" by (rule heap_keep_same) (simp_all add: h1)
    show ?case
    proof (cases rv)
      case False
      have "released E mapped {} U h U h1"
        using h1 k1 False by (auto simp: released_def calm_def inuse_spans_def frees_same)
      then show ?thesis using False h1(2,5,6) refuse [of h1] 1(1)
        by (auto simp: x calm_def intro!: exI [of _ U])
    next
      case True
      let ?f = "\<lambda>x::span. x\<lparr>location := ON_RETURNED_FREELIST\<rparr>"
      have sl: "s \<in> U - {}" "location (spans h1 s) \<noteq> IN_USE" using s h1(3) by simp_all
      note r = Remove_inv [OF h1(1) sl]
      define h2 where "h2 = RemoveFromFreeList s h1"
      have c2: "commit_ok {s} h2"
        using commit_ok_Remove [OF h1(1) sl, of "{s}"] h1(3,7) True s(2) by (simp add: h2_def)
      define h3 where "h3 = upd_span s ?f h2"
      have i3: "heap_inv E mapped U {s} h3" "heap_keep {} U h2 U h3" "commit_ok {s} h3"
        using upd_span_inv(1,2,4) [of E mapped U "{s}" h2 s ?f] r(1) c2 s(2) h1(3) by (simp_all add: h3_def h2_def frame)
      have l3: "location (spans h3 s) = ON_RETURNED_FREELIST" by (simp add: h3_def frame)
      have geo3: "start (spans h3 u) = start (spans h u)" "slength (spans h3 u) = slength (spans h u)" for u
        by (simp_all add: h3_def h2_def frame h1(3))
      have k3: "heap_keep {} U h U h3"
        by (rule heap_keep_trans [OF heap_keep_trans [OF k1 r(2) [where S = "{}", folded h2_def]] i3(2)]) simp_all
      have calm3: "calm h h3" unfolding h3_def h2_def
        by (rule calm_trans [OF calm_trans [OF h1(2) calm_frame(1)] calm_frame(3)]) simp
      have st3: "free_bytes (stats h3) + slength (spans h s) * 2 ^ kPageShift = free_bytes (stats h)"
        "committed_bytes (stats h3) + slength (spans h s) * 2 ^ kPageShift = committed_bytes (stats h)"
        using r(5) h1(3,5,6) True s(2) by (simp_all add: h3_def h2_def frame)
      have co: "coalesced (U - {s}) (spans h3)" if "coalesced U (spans h)"
        by (rule coalesced_cong [OF that]) (auto simp: h3_def h2_def frame h1(3))
      have "location (spans h3 s) \<noteq> IN_USE" "commit_ok (if location (spans h3 s) = ON_RETURNED_FREELIST then {s} else {}) h3"
        using l3 i3 by simp_all
      note M = Merge_released [OF i3(1) this]
      have n: "slength (spans h2 s) = slength (spans h s)" "slength (spans h s) \<noteq> 0"
        using geo_okD(3) [OF heap_invD(2) [OF inv] s(1)] by (simp_all add: h2_def frame h1(3))
      have "outcome (mad E) (MergeIntoFreeList E s h3) (\<lambda>h'. \<exists>U'. released E mapped {} U h U' h'
         \<and> release_index h' = release_index h
         \<and> committed_bytes (stats h') + slength (spans h s) * 2 ^ kPageShift \<le> committed_bytes (stats h)
         \<and> free_bytes (stats h') + slength (spans h s) * 2 ^ kPageShift \<le> free_bytes (stats h))"
      proof (rule outcome_mono [OF M], elim exE conjE, goal_cases)
        case (1 h4 U4)
        have "heap_keep {} U h U4 h4" by (rule heap_keep_trans [OF k3 1(3)]) simp
        moreover have "steady h h4" using calm3 1(2) steady_trans by (auto simp: calm_def released_def)
        moreover have "inuse_spans U4 h4 \<subseteq> inuse_spans U h"
          using 1(2) l3 by (auto simp: released_def inuse_spans_def h3_def h2_def frame h1(3) split: if_splits)
        moreover have "frees {} U (spans h) U4 (spans h4)"
          by (rule frees_cong [of "{s}" U "spans h3"])
            (use 1(2) geo3 l3 in \<open>auto simp: released_def h3_def h2_def frame h1(3)\<close>)
        moreover have "clean U (spans h3)" if "clean U (spans h)"
          by (rule clean_cong [OF that]) (use s(2) in \<open>auto simp: h3_def h2_def frame h1(3) split: if_splits\<close>)
        ultimately have "released E mapped {} U h U4 h4"
          using 1(2) calm3 st3 co unfolding released_def calm_def steady_def by auto
        then show ?case using 1 calm3 st3 l3 by (auto simp: calm_def released_def intro!: exI [of _ U4])
      qed
      then show ?thesis using True n
        by (simp only: x prod.case if_True h2_def [symmetric] h3_def [symmetric] outcome_bind) simp
    qed
  qed
qed

end
