(* ===== verification/PageHeapFree.thy ===== *)
theory PageHeapFree
  imports PageHeapOps
begin

text \<open>
  Releasing and freeing: \<open>ReleaseAtLeastNPages\<close> terminates, the scavenger and the deletion of a
  span keep the invariant, and the limit on the heap is enforced by releasing.
\<close>

text \<open>The span that the round looks at for one index.\<close>

definition candidate :: "nat \<Rightarrow> 'o page_heap \<Rightarrow> nat option" where
  "candidate i h = (if i = kMaxPages then (case large_normal h of [] \<Rightarrow> None | e # _ \<Rightarrow> Some (fst e))
                    else (case free_normal h i of [] \<Rightarrow> None | xs \<Rightarrow> Some (last xs)))"

lemma candidate_ok:
  assumes inv: "heap_inv E mapped U {} h" and "candidate i h = Some s" and "i \<le> kMaxPages"
  shows "s \<in> U \<and> location (spans h s) = ON_NORMAL_FREELIST"
proof -
  have N: "half_ok (free_at ON_NORMAL_FREELIST U (spans h)) (spans h) (free_normal h) (large_normal h) (free_bytes (stats h))"
    using heap_invD(4) [OF inv] by (simp add: on_lists_def)
  have "s \<in> free_at ON_NORMAL_FREELIST U (spans h)"
  proof (cases "i = kMaxPages")
    case True
    then obtain e l where "large_normal h = e # l" "s = fst e" using assms(2) by (auto simp: candidate_def split: list.splits)
    then show ?thesis using half_okD(4) [OF N] by (metis (no_types, lifting) fst_conv imageE insertI1 list.simps(15) mem_Collect_eq)
  next
    case False
    then have i: "i < kMaxPages" using assms(3) by simp
    have "free_normal h i \<noteq> []" "s = last (free_normal h i)" using assms(2) False by (auto simp: candidate_def split: list.splits)
    then have "s \<in> set (free_normal h i)" by simp
    then show ?thesis using half_okD(2) [OF N i] by simp
  qed
  then show ?thesis by (simp add: free_at_def)
qed

lemma no_candidate:
  assumes inv: "heap_inv E mapped U {} h" and "\<And>i. i \<le> kMaxPages \<Longrightarrow> candidate i h = None"
  shows "free_bytes (stats h) = 0"
proof -
  let ?A = "free_at ON_NORMAL_FREELIST U (spans h)"
  have N: "half_ok ?A (spans h) (free_normal h) (large_normal h) (free_bytes (stats h))"
    using heap_invD(4) [OF inv] by (simp add: on_lists_def)
  have "?A = {}"
  proof (rule ccontr)
    assume "?A \<noteq> {}"
    then obtain s where s: "s \<in> ?A" by blast
    then have pos: "0 < slength (spans h s)" using geo_okD(3) [OF heap_invD(2) [OF inv]] by (simp add: free_at_def)
    show False
    proof (cases "kMaxPages < slength (spans h s)")
      case True
      then have "(s, slength (spans h s)) \<in> set (large_normal h)" using half_okD(4) [OF N] s by blast
      then show False using assms(2) [of kMaxPages] by (auto simp: candidate_def split: list.splits)
    next
      case False
      let ?i = "slength (spans h s) - 1"
      have i: "?i < kMaxPages" using False pos by simp
      have "s \<in> set (free_normal h ?i)" using half_okD(2) [OF N i] s pos by simp
      then show False using assms(2) [of ?i] i by (auto simp: candidate_def split: list.splits if_splits)
    qed
  qed
  then show ?thesis using half_okD(5) [OF N] by simp
qed

definition norm_index :: "nat \<Rightarrow> nat" where
  "norm_index i = (if kMaxPages < i then 0 else i)"

lemma norm_index_step: "norm_index (norm_index i + 1) = (norm_index i + 1) mod 129"
  by (auto simp: norm_index_def mod_if)

lemma norm_index_idem: "norm_index i < 129" "norm_index (norm_index i) = norm_index i"
  by (auto simp: norm_index_def)

lemma set_index_ok:
  assumes "heap_inv E mapped U X h"
  shows "heap_inv E mapped U X (h\<lparr>release_index := i\<rparr>)"
  by (rule heap_inv_cong [OF assms]) simp_all

lemma set_index_released:
  "heap_inv E mapped U {} h \<Longrightarrow> commit_ok {} h \<Longrightarrow> released E mapped {} U h U (h\<lparr>release_index := i\<rparr>)"
  using set_index_ok [of E mapped U "{}" h i]
  by (simp add: released_def commit_ok_def steady_def heap_keep_def GetDescriptor_def inuse_spans_def frees_same)

lemma candidate_index [simp]: "candidate i (h\<lparr>release_index := k\<rparr>) = candidate i h"
  by (simp add: candidate_def)

lemma release_round_step:
  "release_round E num (Suc i) r h =
     (if r < num then
        (let h = h\<lparr>release_index := norm_index (release_index h)\<rparr>
         in case candidate (release_index h) h of
              None \<Rightarrow> release_round E num i r (h\<lparr>release_index := release_index h + 1\<rparr>)
            | Some s \<Rightarrow> ReleaseSpan E s h \<bind> (\<lambda>(n, h). if n = 0 then Some (True, r, h)
                else release_round E num i (r + n) (h\<lparr>release_index := release_index h + 1\<rparr>)))
      else Some (False, r, h))"
proof -
  have "(if kMaxPages < release_index h then h\<lparr>release_index := 0\<rparr> else h) = h\<lparr>release_index := norm_index (release_index h)\<rparr>"
    by (simp add: norm_index_def)
  then show ?thesis by (simp only: release_round.simps candidate_def Let_def)
qed

text \<open>What a round of the release loop achieves.\<close>

definition round_ok ::
  "'o env \<Rightarrow> ('o \<Rightarrow> nat set) \<Rightarrow> nat \<Rightarrow> nat \<Rightarrow> nat \<Rightarrow> nat set \<Rightarrow> 'o page_heap \<Rightarrow> bool \<times> nat \<times> 'o page_heap \<Rightarrow> bool" where
  "round_ok E mapped num i r0 U h = (\<lambda>(ret, r, h'). \<exists>U'. released E mapped {} U h U' h' \<and> r0 \<le> r
     \<and> committed_bytes (stats h') + (r - r0) * 2 ^ kPageShift \<le> committed_bytes (stats h)
     \<and> free_bytes (stats h') + (r - r0) * 2 ^ kPageShift \<le> free_bytes (stats h)
     \<and> (ret \<longrightarrow> \<not> releases E)
     \<and> (\<not> ret \<and> r = r0 \<and> r0 < num \<longrightarrow>
          (\<forall>j<i. candidate ((norm_index (release_index h) + j) mod 129) h = None)))"

lemma release_round_ok:
  assumes "heap_inv E mapped U {} h" and "commit_ok {} h"
  shows "outcome (mad E) (release_round E num i r0 h) (round_ok E mapped num i r0 U h)"
  using assms
proof (induction i arbitrary: U h r0)
  case 0
  then show ?case by (auto simp: round_ok_def intro!: exI [of _ U] released_refl)
next
  case (Suc i)
  show ?case
  proof (cases "r0 < num")
    case False
    then show ?thesis using Suc.prems by (auto simp: round_ok_def intro!: exI [of _ U] released_refl)
  next
    case True
    let ?k = "norm_index (release_index h)"
    let ?h = "h\<lparr>release_index := ?k\<rparr>"
    have i0: "heap_inv E mapped U {} ?h" "commit_ok {} ?h" "released E mapped {} U h U ?h"
      using set_index_ok [OF Suc.prems(1)] Suc.prems(2) set_index_released [OF Suc.prems] by (simp_all add: commit_ok_def)
    have k: "?k \<le> kMaxPages" using norm_index_idem(1) [of "release_index h"] by simp
    show ?thesis
    proof (cases "candidate ?k ?h")
      case None
      let ?h1 = "h\<lparr>release_index := ?k + 1\<rparr>"
      have i1: "heap_inv E mapped U {} ?h1" "commit_ok {} ?h1" "released E mapped {} U h U ?h1"
        using set_index_ok [OF Suc.prems(1)] Suc.prems(2) set_index_released [OF Suc.prems] by (simp_all add: commit_ok_def)
      have "outcome (mad E) (release_round E num i r0 ?h1) (round_ok E mapped num (Suc i) r0 U h)"
      proof (rule outcome_mono [OF Suc.IH [OF i1(1,2), of r0]], goal_cases)
        case (1 x)
        obtain ret r h' where x: "x = (ret, r, h')" by (cases x)
        from 1(2) obtain U' where U': "released E mapped {} U ?h1 U' h'" "r0 \<le> r"
          "committed_bytes (stats h') + (r - r0) * 2 ^ kPageShift \<le> committed_bytes (stats h)"
          "free_bytes (stats h') + (r - r0) * 2 ^ kPageShift \<le> free_bytes (stats h)" "ret \<longrightarrow> \<not> releases E"
          and last: "\<not> ret \<and> r = r0 \<and> r0 < num \<longrightarrow> (\<forall>j<i. candidate ((norm_index (?k + 1) + j) mod 129) h = None)"
          by (auto simp: x round_ok_def)
        have rel: "released E mapped {} U h U' h'" by (rule released_trans [OF i1(3) U'(1)])
        have "candidate ((?k + j) mod 129) h = None" if "j < Suc i" "\<not> ret \<and> r = r0 \<and> r0 < num" for j
        proof (cases j)
          case 0
          then show ?thesis using None norm_index_idem(1) [of "release_index h"] by simp
        next
          case (Suc l)
          have "(norm_index (?k + 1) + l) mod 129 = (?k + j) mod 129"
            unfolding norm_index_step Suc by (simp add: mod_simps)
          then show ?thesis using last that Suc by force
        qed
        then show ?case using U' rel by (auto simp: x round_ok_def)
      qed
      then show ?thesis using True None by (simp add: release_round_step Let_def del: release_round.simps)
    next
      case (Some s)
      have s: "s \<in> U" "location (spans ?h s) = ON_NORMAL_FREELIST"
        using candidate_ok [OF i0(1) Some k] by simp_all
      have "outcome (mad E) (ReleaseSpan E s ?h \<bind> (\<lambda>(n, h). if n = 0 then Some (True, r0, h)
                else release_round E num i (r0 + n) (h\<lparr>release_index := release_index h + 1\<rparr>)))
          (round_ok E mapped num (Suc i) r0 U h)"
      proof (rule outcome_bindI [OF ReleaseSpan_ok [OF i0(1,2) s]], goal_cases)
        case (1 x)
        obtain n h1 where x: "x = (n, h1)" by (cases x)
        from 1(2) obtain U1 where U1: "released E mapped {} U ?h U1 h1"
          "committed_bytes (stats h1) + n * 2 ^ kPageShift \<le> committed_bytes (stats h)"
          "free_bytes (stats h1) + n * 2 ^ kPageShift \<le> free_bytes (stats h)" "n = 0 \<longrightarrow> \<not> releases E"
          by (auto simp: x)
        have r1: "released E mapped {} U h U1 h1" by (rule released_trans [OF i0(3) U1(1)])
        show ?case
        proof (cases "n = 0")
          case True
          then show ?thesis using U1 r1 by (auto simp: x round_ok_def)
        next
          case False
          let ?h2 = "h1\<lparr>release_index := release_index h1 + 1\<rparr>"
          have i1: "heap_inv E mapped U1 {} h1" "commit_ok {} h1" using U1(1) by (simp_all add: released_def)
          have i2: "heap_inv E mapped U1 {} ?h2" "commit_ok {} ?h2" "released E mapped {} U1 h1 U1 ?h2"
            using set_index_ok [OF i1(1)] i1(2) set_index_released [OF i1] by (simp_all add: commit_ok_def)
          have "outcome (mad E) (release_round E num i (r0 + n) ?h2) (round_ok E mapped num (Suc i) r0 U h)"
          proof (rule outcome_mono [OF Suc.IH [OF i2(1,2), of "r0 + n"]], goal_cases)
            case (1 y)
            obtain ret r h' where y: "y = (ret, r, h')" by (cases y)
            from 1(2) obtain U' where U': "released E mapped {} U1 ?h2 U' h'" "r0 + n \<le> r"
              "committed_bytes (stats h') + (r - (r0 + n)) * 2 ^ kPageShift \<le> committed_bytes (stats h1)"
              "free_bytes (stats h') + (r - (r0 + n)) * 2 ^ kPageShift \<le> free_bytes (stats h1)" "ret \<longrightarrow> \<not> releases E"
              by (auto simp: y round_ok_def)
            have "released E mapped {} U h U' h'" by (rule released_trans [OF released_trans [OF r1 i2(3)] U'(1)])
            moreover have "(r - r0) * 2 ^ kPageShift = (r - (r0 + n)) * 2 ^ kPageShift + n * 2 ^ kPageShift"
              using U'(2) by (simp add: algebra_simps diff_mult_distrib2)
            ultimately show ?case using U' U1 False by (auto simp: y round_ok_def)
          qed
          then show ?thesis using False by (simp add: x)
        qed
      qed
      then show ?thesis using True Some by (simp add: release_round_step Let_def del: release_round.simps)
    qed
  qed
qed

subsection \<open>The release loop\<close>

definition pages_ok ::
  "'o env \<Rightarrow> ('o \<Rightarrow> nat set) \<Rightarrow> nat \<Rightarrow> nat \<Rightarrow> nat set \<Rightarrow> 'o page_heap \<Rightarrow> nat \<times> 'o page_heap \<Rightarrow> bool" where
  "pages_ok E mapped num r0 U h = (\<lambda>(r, h'). \<exists>U'. released E mapped {} U h U' h' \<and> r0 \<le> r
     \<and> committed_bytes (stats h') + (r - r0) * 2 ^ kPageShift \<le> committed_bytes (stats h)
     \<and> (num \<le> r \<or> free_bytes (stats h') = 0 \<or> \<not> releases E))"

lemma all_indices:
  assumes "\<forall>j<129. candidate ((k + j) mod 129) h = None" and "k < 129" and "i \<le> kMaxPages"
  shows "candidate i h = None"
proof -
  have "(k + (i + 129 - k) mod 129) mod 129 = (k + (i + 129 - k)) mod 129" by (rule mod_add_right_eq)
  also have "\<dots> = i" using assms(2,3) by simp
  finally show ?thesis using assms(1) [rule_format, of "(i + 129 - k) mod 129"] by simp
qed

lemma release_loop_pages_ok:
  assumes "heap_inv E mapped U {} h" and "commit_ok {} h"
  shows "outcome (mad E) (release_loop_pages E num r0 h) (pages_ok E mapped num r0 U h)"
  using assms
proof (induction "free_bytes (stats h)" arbitrary: U h r0 rule: less_induct)
  case less
  show ?case
  proof (cases "r0 < num \<and> 0 < free_bytes (stats h)")
    case False
    then show ?thesis using less.prems
      by (subst release_loop_pages.simps) (auto simp: pages_ok_def intro!: exI [of _ U] released_refl)
  next
    case True
    have "outcome (mad E) (release_round E num (kMaxPages + 1) r0 h \<bind> (\<lambda>(ret, r, h).
        if ret then Some (r, h) else release_loop_pages E num r h)) (pages_ok E mapped num r0 U h)"
    proof (rule outcome_bindI [OF release_round_ok [OF less.prems]], goal_cases)
      case (1 x)
      obtain ret r h1 where x: "x = (ret, r, h1)" by (cases x)
      from 1(2) obtain U1 where U1: "released E mapped {} U h U1 h1" "r0 \<le> r"
        "committed_bytes (stats h1) + (r - r0) * 2 ^ kPageShift \<le> committed_bytes (stats h)"
        "free_bytes (stats h1) + (r - r0) * 2 ^ kPageShift \<le> free_bytes (stats h)" "ret \<longrightarrow> \<not> releases E"
        and none: "\<not> ret \<and> r = r0 \<and> r0 < num \<longrightarrow>
          (\<forall>j<129. candidate ((norm_index (release_index h) + j) mod 129) h = None)"
        by (auto simp: x round_ok_def)
      show ?case
      proof (cases ret)
        case ret: True
        then show ?thesis using U1 by (auto simp: x pages_ok_def)
      next
        case False
        have "r \<noteq> r0"
        proof
          assume "r = r0"
          then have "free_bytes (stats h) = 0"
            using none False True all_indices norm_index_idem(1) by (intro no_candidate [OF less.prems(1)]) blast
          then show False using True by simp
        qed
        then have r: "r0 < r" "free_bytes (stats h1) < free_bytes (stats h)" using U1(2,4) by simp_all
        have i1: "heap_inv E mapped U1 {} h1" "commit_ok {} h1" using U1(1) by (simp_all add: released_def)
        have "outcome (mad E) (release_loop_pages E num r h1) (pages_ok E mapped num r0 U h)"
        proof (rule outcome_mono [OF less.hyps [OF r(2) i1]], goal_cases)
          case (1 y)
          obtain r2 h2 where y: "y = (r2, h2)" by (cases y)
          from 1(2) obtain U2 where U2: "released E mapped {} U1 h1 U2 h2" "r \<le> r2"
            "committed_bytes (stats h2) + (r2 - r) * 2 ^ kPageShift \<le> committed_bytes (stats h1)"
            "num \<le> r2 \<or> free_bytes (stats h2) = 0 \<or> \<not> releases E" by (auto simp: y pages_ok_def)
          have "(r2 - r0) * 2 ^ kPageShift = (r2 - r) * 2 ^ kPageShift + (r - r0) * 2 ^ kPageShift"
            using U2(2) r(1) by (simp flip: add_mult_distrib)
          then show ?case using U2 U1 r(1) released_trans [OF U1(1) U2(1)] by (auto simp: y pages_ok_def)
        qed
        then show ?thesis using False by (simp add: x)
      qed
    qed
    then show ?thesis using True by (subst release_loop_pages.simps) simp
  qed
qed

lemma ReleaseAtLeastNPages_ok:
  assumes "heap_inv E mapped U {} h" and "commit_ok {} h"
  shows "outcome (mad E) (ReleaseAtLeastNPages E num h) (pages_ok E mapped num 0 U h)"
  unfolding ReleaseAtLeastNPages_def by (rule release_loop_pages_ok [OF assms])

subsection \<open>Scavenging and deleting\<close>

lemma frame_released:
  assumes "heap_inv E mapped U {} h" and "commit_ok {} h"
  shows "released E mapped {} U h U (h\<lparr>scavenge_counter := k\<rparr>)"
    and "released E mapped {} U h U (upd_stats (\<lambda>st. st\<lparr>scavenge_count := n\<rparr>) h)"
proof -
  have "heap_inv E mapped U {} (h\<lparr>scavenge_counter := k\<rparr>)" by (rule heap_inv_cong [OF assms(1)]) simp_all
  then show "released E mapped {} U h U (h\<lparr>scavenge_counter := k\<rparr>)" using assms(2)
    by (simp add: released_def commit_ok_def steady_def heap_keep_def GetDescriptor_def inuse_spans_def frees_same)
  have "heap_inv E mapped U {} (upd_stats (\<lambda>st. st\<lparr>scavenge_count := n\<rparr>) h)"
    by (rule heap_inv_cong [OF assms(1)]) (simp_all add: frame)
  then show "released E mapped {} U h U (upd_stats (\<lambda>st. st\<lparr>scavenge_count := n\<rparr>) h)" using assms(2)
    by (simp add: released_def commit_ok_def steady_def heap_keep_def GetDescriptor_def inuse_spans_def frees_same frame)
qed

lemma releasedD: "released E mapped S U h U' h' \<Longrightarrow> heap_inv E mapped U' {} h' \<and> commit_ok {} h'"
  by (simp add: released_def)

lemma upd_stats_const: "upd_stats (\<lambda>st. st\<lparr>scavenge_count := add64 (scavenge_count st) 1\<rparr>) h
    = upd_stats (\<lambda>st. st\<lparr>scavenge_count := add64 (scavenge_count (stats h)) 1\<rparr>) h"
  by (simp add: upd_stats_def)

lemma IncrementalScavenge_ok:
  assumes "heap_inv E mapped U {} h" and "commit_ok {} h"
  shows "outcome (mad E) (IncrementalScavenge E n h) (\<lambda>h'. \<exists>U'. released E mapped {} U h U' h')"
proof -
  let ?h1 = "h\<lparr>scavenge_counter := scavenge_counter h - int n\<rparr>"
  have r1: "released E mapped {} U h U ?h1" by (rule frame_released(1) [OF assms])
  note i1 = releasedD [OF r1, THEN conjunct1] releasedD [OF r1, THEN conjunct2]
  let ?h2 = "upd_stats (\<lambda>st. st\<lparr>scavenge_count := add64 (scavenge_count st) 1\<rparr>) ?h1"
  have r2: "released E mapped {} U h U ?h2"
    unfolding upd_stats_const by (rule released_trans [OF r1 frame_released(2) [OF i1]])
  note i2 = releasedD [OF r2, THEN conjunct1] releasedD [OF r2, THEN conjunct2]
  have counter: "\<exists>U'. released E mapped {} U h U' (h'\<lparr>scavenge_counter := k\<rparr>)" if "released E mapped {} U h U' h'" for U' h' k
    using released_trans [OF that frame_released(1)] releasedD [OF that] by blast
  show ?thesis
  proof (cases "0 \<le> scavenge_counter ?h1 \<or> tcmalloc_release_rate E \<le> 1 / 1000000")
    case True
    then show ?thesis using r1 counter [OF r1] by (auto simp: IncrementalScavenge_def Let_def)
  next
    case False
    then have c: "\<not> 0 \<le> scavenge_counter ?h1" "\<not> tcmalloc_release_rate E \<le> 1 / 1000000" by blast+
    have rel: "outcome (mad E) (ReleaseAtLeastNPages E 1 ?h2) (\<lambda>(r, h'). \<exists>U'. released E mapped {} U h U' h')"
    proof (rule outcome_mono [OF ReleaseAtLeastNPages_ok [OF i2]], goal_cases)
      case (1 x)
      then show ?case using released_trans [OF r2] by (auto simp: pages_ok_def)
    qed
    show ?thesis
      unfolding IncrementalScavenge_def Let_def if_not_P [OF c(1)] if_not_P [OF c(2)]
      by (rule outcome_bindI [OF rel]) (use counter in \<open>auto split: prod.splits\<close>)
  qed
qed

lemma DeleteLocked_ok:
  assumes inv: "heap_inv E mapped U {} h" and c: "commit_ok {} h" and s: "s \<in> U" "location (spans h s) = IN_USE"
  shows "outcome (mad E) (DeleteLocked E s h) (\<lambda>h'. \<exists>U'. released E mapped {s} U h U' h')"
proof -
  let ?f = "\<lambda>x::span. x\<lparr>sizeclass := 0, sample := False, location := ON_NORMAL_FREELIST\<rparr>"
  let ?h1 = "upd_span s ?f h"
  have "on_lists (U - {s}) h"
  proof -
    have at: "free_at lc (U - {s}) (spans h) = free_at lc U (spans h)" if "lc \<noteq> IN_USE" for lc
      using s(2) that by (auto simp: free_at_def)
    then show ?thesis using heap_invD(4) [OF inv] by (simp add: on_lists_def)
  qed
  then have i0: "heap_inv E mapped U {s} h" using inv s(1) by (simp add: heap_inv_def)
  have sX: "s \<in> {s}" by simp
  have i1: "heap_inv E mapped U {s} ?h1" "heap_keep {s} U h U ?h1" "steady h ?h1" "commit_ok {} ?h1"
    using upd_span_inv [OF i0 sX, of ?f] c by simp_all
  have l1: "location (spans ?h1 s) \<noteq> IN_USE" "commit_ok (if location (spans ?h1 s) = ON_RETURNED_FREELIST then {s} else {}) ?h1"
    using i1(4) by (simp_all add: frame)
  show ?thesis
    unfolding DeleteLocked_def Let_def
  proof (rule outcome_bindI [OF Merge_released [OF i1(1) l1]], elim exE conjE, goal_cases)
    case (1 h2 U2)
    have k: "heap_keep {s} U h U2 h2"
      by (rule heap_keep_trans [OF i1(2), of "{s}"]) (use 1(2) in \<open>auto simp: released_def\<close>)
    have co: "coalesced (U - {s}) (spans ?h1)" if "coalesced (U - {s}) (spans h)"
      by (rule coalesced_cong [OF that]) (auto simp: frame)
    have "inuse_spans U ?h1 - {s} = inuse_spans U h - {s}" by (auto simp: inuse_spans_def frame)
    moreover have "frees {s} U (spans h) U2 (spans h2)"
      by (rule frees_cong [of "{s}" U "spans ?h1"]) (use 1(2) in \<open>auto simp: released_def frame\<close>)
    moreover have "clean U (spans ?h1)" if "clean U (spans h)" using that by (auto simp: clean_def frame)
    ultimately have r2: "released E mapped {s} U h U2 h2"
      using 1(2) k steady_trans [OF i1(3), of h2] co by (auto simp: released_def frame)
    note i2 = releasedD [OF r2, THEN conjunct1] releasedD [OF r2, THEN conjunct2]
    show ?case
      by (rule outcome_mono [OF IncrementalScavenge_ok [OF i2]]) (use released_trans [OF r2] in blast)
  qed
qed

subsection \<open>The heap limit\<close>

lemma unmapped_pages:
  assumes "heap_inv E mapped U X h"
  shows "2 ^ kPageShift dvd unmapped_bytes (stats h)"
  using heap_invD(4) [OF assms] half_okD(5) unfolding on_lists_def by (metis dvd_triv_right)

lemma commit_unmapped: "commit_ok {} h \<Longrightarrow> committed_bytes (stats h) + unmapped_bytes (stats h) = system_bytes (stats h)"
  by (simp add: commit_ok_def)

definition within_limit :: "'o env \<Rightarrow> nat \<Rightarrow> 'o page_heap \<Rightarrow> bool" where
  "within_limit E n h \<longleftrightarrow> EnsureLimit E n False h = Some (True, h)"

lemma EnsureLimit_no_release:
  "\<exists>ok. EnsureLimit E n False h = Some (ok, h)"
  by (auto simp: EnsureLimit_def Let_def)

lemma taken_pages:
  assumes inv: "heap_inv E mapped U {} h" and "commit_ok {} h"
  shows "sub64 (SystemTaken (sysmem (meta h)) div 2 ^ kPageShift) (unmapped_bytes (stats h) div 2 ^ kPageShift)
      = SystemTaken (sysmem (meta h)) div 2 ^ kPageShift - unmapped_bytes (stats h) div 2 ^ kPageShift"
    and "SystemTaken (sysmem (meta h)) div 2 ^ kPageShift \<le> 2 ^ 35"
proof -
  have "unmapped_bytes (stats h) \<le> SystemTaken (sysmem (meta h))"
    using heap_inv_bytes(2) [OF inv] commit_unmapped [OF assms(2)] by linarith
  then have "unmapped_bytes (stats h) div 2 ^ kPageShift \<le> SystemTaken (sysmem (meta h)) div 2 ^ kPageShift"
    by (rule div_le_mono)
  moreover have le: "SystemTaken (sysmem (meta h)) div 2 ^ kPageShift \<le> 2 ^ 48 div 2 ^ kPageShift"
    by (rule div_le_mono) (use heap_inv_bytes(3) [OF inv] in simp)
  ultimately show "sub64 (SystemTaken (sysmem (meta h)) div 2 ^ kPageShift) (unmapped_bytes (stats h) div 2 ^ kPageShift)
      = SystemTaken (sysmem (meta h)) div 2 ^ kPageShift - unmapped_bytes (stats h) div 2 ^ kPageShift"
    by (simp add: sub64_eq)
  show "SystemTaken (sysmem (meta h)) div 2 ^ kPageShift \<le> 2 ^ 35" using le by simp
qed

lemma EnsureLimit_ok:
  assumes inv: "heap_inv E mapped U {} h" and c: "commit_ok {} h" and n: "n \<le> 2 ^ 51"
  shows "outcome (mad E) (EnsureLimit E n w h) (\<lambda>(ok, h'). \<exists>U'. released E mapped {} U h U' h'
     \<and> (\<not> w \<longrightarrow> U' = U \<and> h' = h) \<and> (ok \<longrightarrow> within_limit E n h'))"
proof -
  define limit where "limit = u64_of_int (ssize64 (tcmalloc_heap_limit_mb E * 1024 * 1024) div 2 ^ kPageShift)"
  let ?T = "SystemTaken (sysmem (meta h)) div 2 ^ kPageShift"
  define taken where "taken = ?T - unmapped_bytes (stats h) div 2 ^ kPageShift"
  note tp = taken_pages [OF inv c]
  have tk: "taken \<le> 2 ^ 35" using tp(2) by (simp add: taken_def)
  have lim: "limit < 2 ^ 64" by (simp add: limit_def u64_of_int_def nat_less_iff)
  have eq: "EnsureLimit E m v g = (if limit = 0 then Some (True, g) else do {
       let takenPages = sub64 (SystemTaken (sysmem (meta g)) div 2 ^ kPageShift) (unmapped_bytes (stats g) div 2 ^ kPageShift);
       (takenPages, g) \<leftarrow> (if limit < add64 takenPages m \<and> v then do {
            (released, g) \<leftarrow> ReleaseAtLeastNPages E (sub64 (add64 takenPages m) limit) g;
            Some (sub64 takenPages released, g) }
          else Some (takenPages, g));
       Some (add64 takenPages m \<le> limit, g) })" for m v g
    by (simp add: EnsureLimit_def limit_def Let_def)
  have add: "add64 k n = k + n" if "k \<le> 2 ^ 35" for k using n that by (simp add: add64_eq)
  show ?thesis
  proof (cases "limit = 0 \<or> taken + n \<le> limit \<or> \<not> w")
    case True
    then have "EnsureLimit E n w h = Some (limit = 0 \<or> taken + n \<le> limit, h)"
      unfolding eq tp(1) taken_def [symmetric] by (auto simp: add [OF tk])
    moreover have "within_limit E n h" if "limit = 0 \<or> taken + n \<le> limit"
      using that unfolding within_limit_def eq tp(1) taken_def [symmetric] by (auto simp: add [OF tk])
    ultimately show ?thesis using released_refl [OF inv c] by auto
  next
    case False
    then have e: "EnsureLimit E n w h = ReleaseAtLeastNPages E (sub64 (taken + n) limit) h \<bind>
        (\<lambda>(r, g). Some (add64 (sub64 taken r) n \<le> limit, g))"
      unfolding eq tp(1) taken_def [symmetric]
      by (cases "ReleaseAtLeastNPages E (sub64 (taken + n) limit) h") (auto simp: add [OF tk])
    show ?thesis unfolding e
    proof (rule outcome_bindI [OF ReleaseAtLeastNPages_ok [OF inv c]], goal_cases)
      case (1 x)
      obtain r h1 where x: "x = (r, h1)" by (cases x)
      from 1(2) obtain U1 where U1: "released E mapped {} U h U1 h1"
        and r: "committed_bytes (stats h1) + r * 2 ^ kPageShift \<le> committed_bytes (stats h)"
        by (auto simp: x pages_ok_def)
      note i1 = releasedD [OF U1, THEN conjunct1] releasedD [OF U1, THEN conjunct2]
      have st: "SystemTaken (sysmem (meta h1)) = SystemTaken (sysmem (meta h))" "system_bytes (stats h1) = system_bytes (stats h)"
        using U1 by (simp_all add: released_def steady_def)
      obtain a where a: "unmapped_bytes (stats h) = 8192 * a" using unmapped_pages [OF inv] by (auto elim: dvdE)
      obtain b where b: "unmapped_bytes (stats h1) = 8192 * b" using unmapped_pages [OF i1(1)] by (auto elim: dvdE)
      have "8192 * a + r * 8192 \<le> 8192 * b"
        using r commit_unmapped [OF c] commit_unmapped [OF i1(2)] st(2) a b by simp
      then have ab: "a + r \<le> b" by simp
      have "8192 * b \<le> SystemTaken (sysmem (meta h))"
        using b heap_inv_bytes(2) [OF i1(1)] commit_unmapped [OF i1(2)] st by linarith
      then have bT: "b \<le> ?T" by (simp add: less_eq_div_iff_mult_less_eq mult.commute)
      have t: "taken = ?T - a" using a by (simp add: taken_def)
      then have "r \<le> taken" using ab bT by simp
      then have sub: "sub64 taken r = taken - r" using tk by (simp add: sub64_eq)
      have ok: "(add64 (sub64 taken r) n \<le> limit) = (taken - r + n \<le> limit)"
        using add [of "taken - r"] tk by (simp add: sub)
      have "within_limit E n h1" if "taken - r + n \<le> limit"
      proof -
        have "?T - b + n \<le> limit" using that t ab by simp
        moreover have "add64 (?T - b) n = ?T - b + n" by (rule add) (use tp(2) in simp)
        ultimately show ?thesis
          unfolding within_limit_def eq using taken_pages(1) [OF i1] st(1) b by auto
      qed
      then show ?case using U1 False ok by (auto simp: x)
    qed
  qed
qed

end
