(* ===== verification/PageHeapAlloc.thy ===== *)
theory PageHeapAlloc
  imports PageHeapFree
begin

text \<open>
  Allocation: carving a span out of a free one, the search through the free lists and sets,
  growing the heap, and the public entry points. The operations may abort where memory for the
  allocator's own data runs out; otherwise they keep the invariant, and a span they return has
  the requested length and was free before.
\<close>

lemma outcome_True: "outcome True r (\<lambda>_. True)"
  by (cases r) simp_all

subsection \<open>New span objects\<close>

lemma memory_ok_New:
  assumes m: "memory_ok E mapped U P pool stpool md b"
    and n: "PageHeapAllocator_New (plat E) sizeof_Span pool md = Some (t, pool', md')"
  shows "t \<notin> U \<and> t \<noteq> 0 \<and> memory_ok E mapped (insert t U) P pool' stpool md' b"
proof -
  obtain M N V G B where o: "pool_ok sizeof_Span M U pool" "pool_ok sizeof_StackTrace N V stpool"
    "meta_ok (plat E) mapped G md" "M \<subseteq> G" "N \<subseteq> G" "B \<subseteq> G" "M \<inter> N = {}" "M \<inter> B = {}" "N \<inter> B = {}"
    "page_area P \<subseteq> B" "b = card B" using m unfolding memory_ok_def by blast
  obtain M' G' where r: "M \<subseteq> M'" "G \<subseteq> G'" "M' \<subseteq> G'" "(M' - M) \<inter> G = {}" "t \<notin> U" "t \<noteq> 0"
    "pool_ok sizeof_Span M' (insert t U) pool'" "meta_ok (plat E) mapped G' md'"
    using PageHeapAllocator_New_ok [OF o(1,3,4) n] by blast
  have "N \<subseteq> G'" "B \<subseteq> G'" "M' \<inter> N = {}" "M' \<inter> B = {}" using o r(1-4) by blast+
  then show ?thesis unfolding memory_ok_def using r(3,5-8) o(2,9-11) by blast
qed

lemma memory_ok_New_trace:
  assumes m: "memory_ok E mapped U P pool stpool md b"
    and n: "PageHeapAllocator_New (plat E) sizeof_StackTrace stpool md = Some (t, stpool', md')"
  shows "memory_ok E mapped U P pool stpool' md' b"
proof -
  obtain M N V G B where o: "pool_ok sizeof_Span M U pool" "pool_ok sizeof_StackTrace N V stpool"
    "meta_ok (plat E) mapped G md" "M \<subseteq> G" "N \<subseteq> G" "B \<subseteq> G" "M \<inter> N = {}" "M \<inter> B = {}" "N \<inter> B = {}"
    "page_area P \<subseteq> B" "b = card B" using m unfolding memory_ok_def by blast
  obtain N' G' where r: "N \<subseteq> N'" "G \<subseteq> G'" "N' \<subseteq> G'" "(N' - N) \<inter> G = {}"
    "pool_ok sizeof_StackTrace N' (insert t V) stpool'" "meta_ok (plat E) mapped G' md'"
    using PageHeapAllocator_New_ok [OF o(2,3,5) n] by blast
  have "M \<subseteq> G'" "B \<subseteq> G'" "M \<inter> N' = {}" "N' \<inter> B = {}" using o r(1-4) by blast+
  then show ?thesis unfolding memory_ok_def using r(3,5,6) o(1,8,10,11) by blast
qed

lemma heap_NewSpan_Some:
  assumes "heap_NewSpan E p len h = Some (t, h')"
  shows "\<exists>pool md. PageHeapAllocator_New (plat E) sizeof_Span (span_allocator h) (meta h) = Some (t, pool, md)
     \<and> h' = h\<lparr>spans := (spans h)(t := Span_ctor\<lparr>start := p, slength := len\<rparr>), span_allocator := pool, meta := md\<rparr>"
  using assms by (auto simp: heap_NewSpan_def NewSpan_def split: bind_splits)

subsection \<open>Splitting\<close>

text \<open>
  The state after a detached span \<open>s\<close> was cut to \<open>n\<close> pages and the rest became the new span \<open>t\<close>.
\<close>

lemma split_step:
  assumes inv: "heap_inv E mapped U X h" and s: "s \<in> X" and n: "0 < n" "n < slength (spans h s)"
    and new: "heap_NewSpan E (start (spans h s) + n) (slength (spans h s) - n) h = Some (t, h1)"
    and h': "spans h' = (spans h)(s := (spans h s)\<lparr>slength := n\<rparr>, t := Span_ctor\<lparr>start := start (spans h s) + n,
        slength := slength (spans h s) - n, location := lc\<rparr>)"
      "pm_get (pagemap h') = (pm_get (pagemap h))(start (spans h s) + n \<mapsto> t,
         start (spans h s) + slength (spans h s) - 1 \<mapsto> t, start (spans h s) + n - 1 \<mapsto> s)"
      "pm_ensured (pagemap h') = pm_ensured (pagemap h)"
      "free_normal h' = free_normal h" "free_returned h' = free_returned h"
      "large_normal h' = large_normal h" "large_returned h' = large_returned h" "stats h' = stats h"
      "span_allocator h' = span_allocator h1" "stacktrace_allocator h' = stacktrace_allocator h" "meta h' = meta h1"
  shows "heap_inv E mapped (insert t U) (insert t X) h'" and "t \<notin> U" and "t \<noteq> 0"
    and "s \<in> S \<or> location (spans h s) \<noteq> IN_USE \<Longrightarrow> heap_keep S U h (insert t U) h'"
    and "s \<in> C \<Longrightarrow> finite C \<Longrightarrow> t \<notin> C \<Longrightarrow> commit_ok C h \<Longrightarrow> commit_ok (insert t C) h'"
    and "commit_ok {} h \<Longrightarrow> commit_ok {} h'"
proof -
  note d = heap_invD [OF inv]
  have sU: "s \<in> U" using d(1) s by blast
  obtain pool md where a: "PageHeapAllocator_New (plat E) sizeof_Span (span_allocator h) (meta h) = Some (t, pool, md)"
    "span_allocator h1 = pool" "meta h1 = md" using heap_NewSpan_Some [OF new] by auto
  note mn = memory_ok_New [OF d(5) a(1)]
  then show tU: "t \<notin> U" and tz: "t \<noteq> 0" by blast+
  have ts: "t \<noteq> s" using sU tU by blast
  have same: "start (spans h' u) = start (spans h u) \<and> slength (spans h' u) = slength (spans h u)" if "u \<in> U - {s}" for u
    using that tU by (auto simp: h'(1))
  have ss: "start (spans h' s) = start (spans h s)" "slength (spans h' s) = n"
    and tt: "start (spans h' t) = start (spans h s) + n" "slength (spans h' t) = slength (spans h s) - n"
    using ts by (simp_all add: h'(1))
  have g: "geo_ok (insert t U) (spans h')" "covered (insert t U) (spans h') = covered U (spans h)"
    by (rule geo_ok_split [OF d(2) sU tU tz n same ss tt], assumption)+
  have "bounds_ok (insert t U) (spans h') (pm_get (pagemap h'))"
    by (rule bounds_ok_split [OF d(2) _ sU tU n same ss tt h'(2)]) (use d(3) in \<open>auto simp: map_ok_def\<close>)
  moreover have ext: "start (spans h s) + n \<in> extent (spans h s)" "start (spans h s) + slength (spans h s) - 1 \<in> extent (spans h s)"
    "start (spans h s) + n - 1 \<in> extent (spans h s)" using n by auto
  have "p \<in> covered U (spans h)" if "pm_get (pagemap h') p \<noteq> pm_get (pagemap h) p" for p
  proof -
    have "p \<in> extent (spans h s)" using that ext unfolding h'(2) by (metis (no_types, lifting) fun_upd_other)
    then show ?thesis using sU by (auto simp: covered_def)
  qed
  ultimately have mo: "map_ok (insert t U) (spans h') (pagemap h')"
    by (intro map_ok_update [OF d(3) g(2) _ h'(3)])
  have Y: "insert t U - insert t X = U - X" using tU by blast
  have "on_lists (U - X) h'" by (rule on_lists_cong [OF d(4)]) (use s tU h' in auto)
  then show "heap_inv E mapped (insert t U) (insert t X) h'"
    using g mo mn a(2,3) d(1) h'(8-11) unfolding heap_inv_def Y by auto
  show "heap_keep S U h (insert t U) h'" if "s \<in> S \<or> location (spans h s) \<noteq> IN_USE"
    unfolding heap_keep_def
  proof (intro ballI impI)
    fix u assume u: "u \<in> U - S" "location (spans h u) = IN_USE"
    then have ne: "u \<noteq> s" "u \<noteq> t" using that tU by auto
    have "p \<notin> extent (spans h s)" if "p \<in> extent (spans h u)" for p
      using same_page [OF d(2) _ sU that] u(1) ne(1) by blast
    then have "\<forall>p\<in>extent (spans h u). GetDescriptor p h' = GetDescriptor p h"
      using ext unfolding GetDescriptor_def h'(2) by (metis (no_types, lifting) fun_upd_other)
    then show "u \<in> insert t U \<and> spans h' u = spans h u \<and> (\<forall>p\<in>extent (spans h u). GetDescriptor p h' = GetDescriptor p h)"
      using u ne by (simp add: h'(1))
  qed
  show "commit_ok (insert t C) h'" if "s \<in> C" "finite C" "t \<notin> C" "commit_ok C h"
  proof -
    have "(\<Sum>u\<in>C. slength (spans h u)) = slength (spans h s) + (\<Sum>u\<in>C - {s}. slength (spans h u))"
      by (rule sum.remove [OF that(2,1)])
    moreover have "(\<Sum>u\<in>C. slength (spans h' u)) = n + (\<Sum>u\<in>C - {s}. slength (spans h' u))"
      using sum.remove [OF that(2,1), of "\<lambda>u. slength (spans h' u)"] ss by simp
    moreover have "(\<Sum>u\<in>C - {s}. slength (spans h' u)) = (\<Sum>u\<in>C - {s}. slength (spans h u))"
      by (rule sum.cong) (use that(3) in \<open>auto simp: h'(1)\<close>)
    ultimately have "(\<Sum>u\<in>insert t C. slength (spans h' u)) = (\<Sum>u\<in>C. slength (spans h u))"
      using that(2,3) tt n by simp
    then show ?thesis using that(4) h'(8) by (simp add: commit_ok_def)
  qed
  show "commit_ok {} h \<Longrightarrow> commit_ok {} h'" using h'(8) by (simp add: commit_ok_def)
qed

lemma inuse_attach:
  assumes "location (spans h s) = IN_USE" and "s \<in> U"
  shows "heap_inv E mapped U (insert s X) h \<longleftrightarrow> heap_inv E mapped U X h"
proof -
  have at: "free_at lc (U - insert s X) (spans h) = free_at lc (U - X) (spans h)" if "lc \<noteq> IN_USE" for lc
    using assms(1) that by (auto simp: free_at_def)
  have "on_lists (U - insert s X) h \<longleftrightarrow> on_lists (U - X) h"
    unfolding on_lists_def at [OF span_location.distinct(2)] at [OF span_location.distinct(4)] finite_Diff_insert ..
  then show ?thesis using assms(2) unfolding heap_inv_def by blast
qed

lemma int32_of_small: "n \<le> len \<Longrightarrow> len < 2 ^ 31 \<Longrightarrow> int32_of (sub64 len n) = int (len - n)"
  by (simp add: int32_of_def sub64_eq)

text \<open>Cutting a span commutes with putting another one on its list.\<close>

lemma SpanSet_insert_cong:
  "(\<And>u. start (sp' u) = start (sp u)) \<Longrightarrow> SpanSet_insert sp' e l = SpanSet_insert sp e l"
  by (induction l) (auto simp: SpanBestFitLess_def split: prod.splits)

lemma Prepend_commute:
  assumes "s \<noteq> t" and "\<And>x. start (f x) = start x" and "\<And>x v. f (x\<lparr>has_span_iter := v\<rparr>) = (f x)\<lparr>has_span_iter := v\<rparr>"
  shows "(upd_span s f (PrependToFreeList t h))\<lparr>pagemap := m\<rparr> = PrependToFreeList t ((upd_span s f h)\<lparr>pagemap := m\<rparr>)"
proof -
  have e: "SpanSet_insert ((spans h)(s := f (spans h s))) e l = SpanSet_insert (spans h) e l" for e l
    by (rule SpanSet_insert_cong) (simp add: assms(2))
  show ?thesis using assms(1)
    by (simp add: PrependToFreeList_def Let_def upd_span_def upd_stats_def mkSpanPtrWithLength_def SetSpanSetIterator_def
        e fun_upd_twist [of s t])
qed

lemma CommitSpan_ok:
  assumes inv: "heap_inv E mapped U X h" and c: "commit_ok {s} h" and s: "s \<in> U"
  shows "heap_inv E mapped U X (CommitSpan s h)" and "commit_ok {} (CommitSpan s h)"
    and "spans (CommitSpan s h) = spans h" and "pagemap (CommitSpan s h) = pagemap h" and "steady h (CommitSpan s h)"
proof -
  show "heap_inv E mapped U X (CommitSpan s h)"
    by (rule heap_inv_cong [OF inv]) (simp_all add: CommitSpan_def Let_def frame TCMalloc_SystemCommit_def)
  have len: "slength (spans h s) * 2 ^ kPageShift \<le> 2 ^ 48" using heap_inv_bytes(6) [OF inv s] .
  have sys: "system_bytes (stats h) \<le> 2 ^ 48" using heap_inv_bytes(2,3) [OF inv] by linarith
  then have "committed_bytes (stats h) + slength (spans h s) * 8192 \<le> 2 ^ 48" using c by (simp add: commit_ok_def)
  then have "add64 (committed_bytes (stats h)) (shl64 (slength (spans h s)) 13) = committed_bytes (stats h) + slength (spans h s) * 8192"
    using len by (simp add: shl64_eq add64_eq)
  then show "commit_ok {} (CommitSpan s h)" using c by (simp add: commit_ok_def CommitSpan_def Let_def frame)
qed (simp_all add: CommitSpan_def Let_def frame steady_def)

text \<open>
  How carving changes the spans: \<open>s\<close> is cut to \<open>n\<close> pages and in use, and a new span that is
  where \<open>s\<close> was covers the rest.
\<close>

definition cut_spans :: "nat \<Rightarrow> nat \<Rightarrow> nat set \<Rightarrow> span_store \<Rightarrow> nat set \<Rightarrow> span_store \<Rightarrow> bool" where
  "cut_spans s n U sp U' sp' \<longleftrightarrow> U \<subseteq> U'
     \<and> (\<forall>u\<in>U - {s}. start (sp' u) = start (sp u) \<and> slength (sp' u) = slength (sp u) \<and> location (sp' u) = location (sp u))
     \<and> start (sp' s) = start (sp s) \<and> slength (sp' s) = n \<and> location (sp' s) = IN_USE
     \<and> (\<forall>t\<in>U' - U. n < slength (sp s) \<and> start (sp' t) = start (sp s) + n \<and> slength (sp' t) = slength (sp s) - n
          \<and> location (sp' t) = location (sp s))
     \<and> (\<forall>u\<in>U. sizeclass (sp' u) = sizeclass (sp u)) \<and> (\<forall>t\<in>U' - U. sizeclass (sp' t) = 0)"

lemma cut_clean:
  assumes "cut_spans s n U sp U' sp'" and "s \<in> U" and "location (sp s) \<noteq> IN_USE" and "clean U sp"
  shows "clean U' sp' \<and> sizeclass (sp' s) = 0"
proof -
  have "sizeclass (sp' u) = 0" if "u \<in> U'" "location (sp' u) \<noteq> IN_USE" for u
  proof (cases "u \<in> U")
    case True
    have "u \<noteq> s" using assms(1) that(2) by (auto simp: cut_spans_def)
    then have "location (sp u) \<noteq> IN_USE" using assms(1) True that(2) by (simp add: cut_spans_def)
    then show ?thesis using assms(1,4) True by (simp add: cut_spans_def clean_def)
  next
    case False
    then show ?thesis using assms(1) that(1) by (simp add: cut_spans_def)
  qed
  then show ?thesis using assms by (simp add: cut_spans_def clean_def)
qed

lemma cut_inuse:
  assumes "cut_spans s n U (spans h) U' (spans h')" and "s \<in> U" and "location (spans h s) \<noteq> IN_USE"
  shows "inuse_spans U' h' = insert s (inuse_spans U h)"
proof (rule set_eqI)
  fix u
  consider "u = s" | "u \<in> U" "u \<noteq> s" | "u \<notin> U" "u \<noteq> s" using assms(2) by blast
  then show "u \<in> inuse_spans U' h' \<longleftrightarrow> u \<in> insert s (inuse_spans U h)"
    using assms by cases (auto simp: cut_spans_def inuse_spans_def)
qed

lemma cut_coalesced:
  assumes cut: "cut_spans s n U sp U' sp'" and "s \<in> U" and "location (sp s) \<noteq> IN_USE" and g: "geo_ok U sp"
    and "0 < n" and c: "coalesced U sp"
  shows "coalesced U' sp'"
  unfolding coalesced_def
proof (intro ballI impI notI)
  fix u v assume uv: "u \<in> U'" "v \<in> U'" "start (sp' u) + slength (sp' u) = start (sp' v)" "location (sp' u) \<noteq> IN_USE"
    "location (sp' u) = location (sp' v)"
  have ne: "u \<noteq> s" "v \<noteq> s" using uv(4,5) cut by (auto simp: cut_spans_def)
  have old: "start (sp' w) = start (sp w) \<and> slength (sp' w) = slength (sp w) \<and> location (sp' w) = location (sp w)"
    if "w \<in> U" "w \<noteq> s" for w using cut that by (simp add: cut_spans_def)
  have new: "n < slength (sp s) \<and> start (sp' w) = start (sp s) + n \<and> slength (sp' w) = slength (sp s) - n
          \<and> location (sp' w) = location (sp s)" if "w \<in> U'" "w \<notin> U" for w using cut that by (simp add: cut_spans_def)
  show False
  proof (cases "u \<in> U")
    case True
    note u = old [OF True ne(1)]
    show False
    proof (cases "v \<in> U")
      case True
      have "start (sp u) + slength (sp u) = start (sp v)" "location (sp u) \<noteq> IN_USE" "location (sp u) = location (sp v)"
        using uv(3-5) u old [OF True ne(2)] by simp_all
      then show False using c \<open>u \<in> U\<close> True unfolding coalesced_def by blast
    next
      case False
      then have "start (sp u) + slength (sp u) = start (sp s) + n" "n < slength (sp s)"
        using uv(2,3) u new [of v] by simp_all
      then show False using geo_ok_apart [OF g True \<open>s \<in> U\<close> ne(1)] geo_okD(3) [OF g True] \<open>0 < n\<close>
        by (auto simp: apart_def)
    qed
  next
    case False
    note u = new [OF uv(1) False]
    have "v \<in> U" using uv(2,3) u new [of v] by fastforce
    then have "start (sp s) + slength (sp s) = start (sp v)" "location (sp s) = location (sp v)"
      using u uv(3,5) old [OF _ ne(2)] by simp_all
    then show False using c \<open>s \<in> U\<close> \<open>v \<in> U\<close> assms(3) unfolding coalesced_def by blast
  qed
qed

lemma Carve_cut:
  assumes inv: "heap_inv E mapped U {s} h" and s: "location (spans h s) = IN_USE" and lc: "lc \<noteq> IN_USE"
    and n: "0 < n" "n < slength (spans h s)" and c: "commit_ok (if lc = ON_RETURNED_FREELIST then {s} else {}) h"
  shows "outcome True
     (do { (leftover, h) \<leftarrow> heap_NewSpan E (start (spans h s) + n) (slength (spans h s) - n) h;
           let h = upd_span leftover (\<lambda>x. x\<lparr>location := lc\<rparr>) h;
           h \<leftarrow> RecordSpan leftover h;
           let h = PrependToFreeList leftover h;
           let h = upd_span s (\<lambda>x. x\<lparr>slength := n\<rparr>) h;
           pagemap_set (start (spans h s) + n - 1) s h })
     (\<lambda>h'. \<exists>t. t \<notin> U \<and> heap_inv E mapped (insert t U) {s} h' \<and> heap_keep {s} U h (insert t U) h' \<and> steady h h'
        \<and> commit_ok (if lc = ON_RETURNED_FREELIST then {s} else {}) h'
        \<and> cut_spans s n U ((spans h)(s := (spans h s)\<lparr>location := lc\<rparr>)) (insert t U) (spans h'))"
    (is "outcome True (heap_NewSpan _ _ _ _ \<bind> _) ?P")
proof (rule outcome_bindI [OF outcome_True], goal_cases)
  case (1 x)
  let ?a = "start (spans h s)" and ?l = "slength (spans h s)"
  note d = heap_invD [OF inv]
  have sU: "s \<in> U" using d(1) by simp
  have ens: "pm_ensured (pagemap h) p" if "p \<in> extent (spans h s)" for p
    using d(3) that sU by (auto simp: map_ok_def covered_def)
  obtain t h2 where x: "x = (t, h2)" by (cases x)
  have new: "heap_NewSpan E (?a + n) (?l - n) h = Some (t, h2)" using 1 by (simp add: x)
  obtain pool md where a: "PageHeapAllocator_New (plat E) sizeof_Span (span_allocator h) (meta h) = Some (t, pool, md)"
    and h2: "h2 = h\<lparr>spans := (spans h)(t := Span_ctor\<lparr>start := ?a + n, slength := ?l - n\<rparr>),
      span_allocator := pool, meta := md\<rparr>" using heap_NewSpan_Some [OF new] by blast
  have tU: "t \<notin> U" using memory_ok_New [OF d(5) a] by blast
  then have ts: "t \<noteq> s" "s \<noteq> t" using sU by blast+
  define h3 where "h3 = upd_span t (\<lambda>x. x\<lparr>location := lc\<rparr>) h2"
  have h3: "spans h3 = (spans h)(t := Span_ctor\<lparr>start := ?a + n, slength := ?l - n, location := lc\<rparr>)"
    "pagemap h3 = pagemap h" by (simp_all add: h3_def h2 frame)
  have t3: "start (spans h3 t) = ?a + n" "slength (spans h3 t) = ?l - n" by (simp_all add: h3(1))
  have "pm_ensured (pagemap h3) (start (spans h3 t))" "pm_ensured (pagemap h3) (start (spans h3 t) + slength (spans h3 t) - 1)"
    "0 < slength (spans h3 t)"
    unfolding t3 h3(2) using n by (auto intro!: ens)
  from RecordSpan_ok [OF this] obtain m where
    m: "RecordSpan t h3 = Some (h3\<lparr>pagemap := m\<rparr>)"
      "pm_get m = (pm_get (pagemap h))(?a + n \<mapsto> t, ?a + ?l - 1 \<mapsto> t)" "pm_ensured m = pm_ensured (pagemap h)"
    using n by (auto simp: t3 h3(2))
  let ?h4 = "h3\<lparr>pagemap := m\<rparr>" and ?f = "\<lambda>x::span. x\<lparr>slength := n\<rparr>"
  let ?h6 = "upd_span s ?f (PrependToFreeList t ?h4)"
  have st: "start (spans ?h6 s) = ?a" using ts by (simp add: frame h3)
  have "pm_ensured (pagemap ?h6) (?a + n - 1)" using m(3) n by (auto intro!: ens simp: frame)
  from pagemap_set_ok [OF this, of s] obtain m2 where
    m2: "pagemap_set (?a + n - 1) s ?h6 = Some (?h6\<lparr>pagemap := m2\<rparr>)"
      "pm_get m2 = (pm_get m)(?a + n - 1 \<mapsto> s)" "pm_ensured m2 = pm_ensured (pagemap h)"
    using m(3) by (auto simp: frame)
  define g where "g = (upd_span s ?f ?h4)\<lparr>pagemap := m2\<rparr>"
  have fin: "?h6\<lparr>pagemap := m2\<rparr> = PrependToFreeList t g"
    unfolding g_def by (rule Prepend_commute) (use ts in simp_all)
  have g: "spans g = (spans h)(s := (spans h s)\<lparr>slength := n\<rparr>, t := Span_ctor\<lparr>start := ?a + n, slength := ?l - n, location := lc\<rparr>)"
    "pm_get (pagemap g) = (pm_get (pagemap h))(?a + n \<mapsto> t, ?a + ?l - 1 \<mapsto> t, ?a + n - 1 \<mapsto> s)"
    "pm_ensured (pagemap g) = pm_ensured (pagemap h)"
    "free_normal g = free_normal h" "free_returned g = free_returned h"
    "large_normal g = large_normal h" "large_returned g = large_returned h" "stats g = stats h"
    "span_allocator g = span_allocator h2" "stacktrace_allocator g = stacktrace_allocator h" "meta g = meta h2"
    using ts m(2) m2(2,3) by (simp_all add: g_def h3_def h2 frame fun_upd_twist)
  have sX: "s \<in> {s}" by simp
  note sp = split_step [OF inv sX n new g]
  have tX: "t \<in> insert t {s}" and tl: "location (spans g t) \<noteq> IN_USE" using lc by (simp_all add: g(1))
  note p = Prepend_inv [OF sp(1) tX tl]
  have k: "heap_keep {s} U h (insert t U) (PrependToFreeList t g)"
    by (rule heap_keep_trans [OF sp(4) p(2) [where S = "{}"]]) simp_all
  have "steady h g" by (simp add: steady_def g_def h3_def h2 frame)
  then have sd: "steady h (PrependToFreeList t g)" using p(3) by (rule steady_trans)
  have co: "commit_ok (if lc = ON_RETURNED_FREELIST then {s} else {}) (PrependToFreeList t g)"
  proof (cases "lc = ON_RETURNED_FREELIST")
    case True
    then have "commit_ok (insert t {s}) g" using sp(5) [of "{s}"] c ts by simp
    then show ?thesis using commit_ok_Prepend [OF sp(1) tX tl, of "insert t {s}"] True ts by (simp add: g(1) insert_Diff_if)
  next
    case False
    then have "commit_ok {} g" using sp(6) c by simp
    then show ?thesis using commit_ok_Prepend [OF sp(1) tX tl, of "{}"] False by (simp add: g(1))
  qed
  have "cut_spans s n U ((spans h)(s := (spans h s)\<lparr>location := lc\<rparr>)) (insert t U) (spans (PrependToFreeList t g))"
    using tU ts sU n s by (auto simp: cut_spans_def frame g(1) Span_ctor_def)
  moreover have "insert t {s} - {t} = {s}" using ts by blast
  ultimately have "?P (PrependToFreeList t g)" using p(1) k sd co tU by metis
  then show ?case
    by (simp only: x prod.case Let_def h3_def [symmetric] m(1) bind.simps st m2(1) fin outcome_simps)
qed

text \<open>
  What an operation that takes a span out of the free ones guarantees.
\<close>

definition quiet :: "'o page_heap \<Rightarrow> 'o page_heap \<Rightarrow> bool" where
  "quiet h h' \<longleftrightarrow> smallest_span_size h' = smallest_span_size h \<and> aggressive_decommit h' = aggressive_decommit h
     \<and> pagemap_cache h' = pagemap_cache h"

lemma quiet_trans: "quiet h h1 \<Longrightarrow> quiet h1 h2 \<Longrightarrow> quiet h h2"
  by (simp add: quiet_def)

lemma steady_quiet: "steady h h' \<Longrightarrow> quiet h h'"
  by (simp add: steady_def quiet_def)

definition allocated ::
  "'o env \<Rightarrow> ('o \<Rightarrow> nat set) \<Rightarrow> nat \<Rightarrow> nat \<Rightarrow> nat set \<Rightarrow> 'o page_heap \<Rightarrow> nat set \<Rightarrow> 'o page_heap \<Rightarrow> bool" where
  "allocated E mapped s n U h U' h' \<longleftrightarrow> s \<in> U' \<and> heap_inv E mapped U' {} h' \<and> commit_ok {} h'
     \<and> heap_keep {} U h U' h' \<and> location (spans h' s) = IN_USE \<and> slength (spans h' s) = n
     \<and> s \<notin> inuse_spans U h \<and> inuse_spans U' h' = insert s (inuse_spans U h)
     \<and> quiet h h' \<and> (clean U (spans h) \<longrightarrow> clean U' (spans h') \<and> sizeclass (spans h' s) = 0)
     \<and> (\<not> aggressive_decommit h \<longrightarrow> coalesced U (spans h) \<longrightarrow> coalesced U' (spans h'))"

lemma span_small:
  assumes "heap_inv E mapped U X h" and "s \<in> U" and "system_bytes (stats h) < 2 ^ 44"
  shows "slength (spans h s) < 2 ^ 31"
proof -
  have "slength (spans h s) \<le> (\<Sum>s\<in>U. slength (spans h s))"
    by (rule member_le_sum) (use assms(2) heap_invD(6) [OF assms(1)] in auto)
  then show ?thesis using heap_inv_bytes(1) [OF assms(1)] assms(3) by simp
qed

lemma Carve_ok:
  assumes inv: "heap_inv E mapped U {} h" and c: "commit_ok {} h"
    and s: "s \<in> U" "location (spans h s) \<noteq> IN_USE" and n: "0 < n" "n \<le> slength (spans h s)"
    and small: "system_bytes (stats h) < 2 ^ 44"
  shows "outcome True (Carve E s n h) (\<lambda>(r, h'). r = s \<and> start (spans h' s) = start (spans h s)
     \<and> (\<exists>U'. allocated E mapped s n U h U' h'))"
proof -
  let ?lc = "location (spans h s)" and ?C = "if location (spans h s) = ON_RETURNED_FREELIST then {s} else {}"
  define h1 where "h1 = upd_span s (\<lambda>x. x\<lparr>location := IN_USE\<rparr>) (RemoveFromFreeList s h)"
  have sX: "s \<in> U - {}" and sX': "s \<in> {s}" using s by simp_all
  note r = Remove_inv [OF inv sX s(2)]
  have c0: "commit_ok ?C (RemoveFromFreeList s h)"
    using commit_ok_Remove [OF inv sX s(2) c] by (simp split: if_splits)
  have i1: "heap_inv E mapped U {s} h1" "heap_keep {s} U (RemoveFromFreeList s h) U h1" "steady (RemoveFromFreeList s h) h1"
    "commit_ok ?C h1"
    using upd_span_inv [OF r(1) sX', of "\<lambda>x. x\<lparr>location := IN_USE\<rparr>"] c0 by (simp_all add: h1_def)
  have k1: "heap_keep {} U h U h1"
    by (rule heap_keep_trans [OF r(2) [where S = "{}"] i1(2)]) (use s(2) in simp)
  have st1: "steady h h1" by (rule steady_trans [OF r(3) i1(3)])
  have s1: "start (spans h1 u) = start (spans h u)" "slength (spans h1 u) = slength (spans h u)"
    "u \<noteq> s \<Longrightarrow> location (spans h1 u) = location (spans h u)" "location (spans h1 s) = IN_USE"
    "sizeclass (spans h1 u) = sizeclass (spans h u)" for u by (simp_all add: h1_def frame)
  have ex: "int32_of (sub64 (slength (spans h1 s)) n) = int (slength (spans h1 s) - n)"
    using int32_of_small [OF n(2) span_small [OF inv s(1) small]] by (simp add: s1)
  define P where "P h' \<longleftrightarrow> (\<exists>U'. heap_inv E mapped U' {s} h' \<and> heap_keep {} U h U' h' \<and> steady h h'
      \<and> commit_ok ?C h' \<and> cut_spans s n U (spans h) U' (spans h'))" for h'
  have fin: "start (spans (if ?lc = ON_RETURNED_FREELIST then CommitSpan s h' else h') s) = start (spans h s)
      \<and> (\<exists>U'. allocated E mapped s n U h U' (if ?lc = ON_RETURNED_FREELIST then CommitSpan s h' else h'))"
    if "P h'" for h'
  proof -
    define k where "k = (if ?lc = ON_RETURNED_FREELIST then CommitSpan s h' else h')"
    obtain U' where p: "heap_inv E mapped U' {s} h'" "heap_keep {} U h U' h'" "steady h h'"
      "commit_ok ?C h'" and cut: "cut_spans s n U (spans h) U' (spans h')" using \<open>P h'\<close> unfolding P_def by blast
    have sU': "s \<in> U'" using heap_invD(1) [OF p(1)] by simp
    have "location (spans h' s) = IN_USE" using cut by (simp add: cut_spans_def)
    then have i2: "heap_inv E mapped U' {} h'" using p(1) inuse_attach [OF _ sU', of h' E mapped "{}"] by simp
    have i3: "heap_inv E mapped U' {} k" "commit_ok {} k" "steady h' k" "spans k = spans h'"
      "pagemap k = pagemap h'"
      using i2 p(4) CommitSpan_ok [OF i2 _ sU'] steady_refl by (auto simp: k_def split: if_splits)
    have "heap_keep {} U h U' k"
      by (rule heap_keep_trans [OF p(2) heap_keep_same [where S = "{}"]]) (use i3 in auto)
    moreover have "quiet h k" using steady_trans [OF p(3) i3(3)] by (rule steady_quiet)
    moreover have "inuse_spans U' k = insert s (inuse_spans U h)"
      using cut_inuse [of s n U h U' k] cut i3(4) s by simp
    moreover have "coalesced U (spans h) \<Longrightarrow> coalesced U' (spans k)"
      using cut_coalesced [OF cut s heap_invD(2) [OF inv] n(1)] i3(4) by simp
    moreover have "clean U (spans h) \<Longrightarrow> clean U' (spans k) \<and> sizeclass (spans k s) = 0"
      using cut_clean [OF cut s] i3(4) by simp
    ultimately show ?thesis unfolding k_def [symmetric]
      using cut i3 sU' s(2) by (auto simp: allocated_def cut_spans_def inuse_spans_def)
  qed
  have "outcome True (if 0 < int32_of (sub64 (slength (spans h1 s)) n) then do {
             (leftover, h) \<leftarrow> heap_NewSpan E (start (spans h1 s) + n) (nat (int32_of (sub64 (slength (spans h1 s)) n))) h1;
             let h = upd_span leftover (\<lambda>x. x\<lparr>location := ?lc\<rparr>) h;
             h \<leftarrow> RecordSpan leftover h;
             let h = PrependToFreeList leftover h;
             let h = upd_span s (\<lambda>x. x\<lparr>slength := n\<rparr>) h;
             pagemap_set (start (spans h s) + n - 1) s h }
           else Some h1) P"
  proof (cases "n = slength (spans h s)")
    case True
    then have no: "\<not> 0 < int (slength (spans h1 s) - n)" by (simp add: s1)
    have "cut_spans s n U (spans h) U (spans h1)" using True s1 by (auto simp: cut_spans_def)
    then have "P h1" using i1(1,4) k1 st1 unfolding P_def by blast
    then show ?thesis unfolding ex if_not_P [OF no] by simp
  next
    case False
    then have n1: "n < slength (spans h1 s)" using n by (simp add: s1)
    have pos: "0 < int (slength (spans h1 s) - n)" using n1 by simp
    show ?thesis unfolding ex if_P [OF pos] nat_int
    proof (rule outcome_mono [OF Carve_cut [OF i1(1) s1(4) s(2) n(1) n1 i1(4)]], elim exE conjE)
      fix h' t assume a: "heap_inv E mapped (insert t U) {s} h'" "heap_keep {s} U h1 (insert t U) h'" "steady h1 h'"
        "commit_ok ?C h'" "cut_spans s n U ((spans h1)(s := (spans h1 s)\<lparr>location := ?lc\<rparr>)) (insert t U) (spans h')"
      have "heap_keep {} U h (insert t U) h'" by (rule heap_keep_trans [OF k1 a(2)]) (use s(2) in simp)
      moreover have "cut_spans s n U (spans h) (insert t U) (spans h')"
        using a(5) by (auto simp: cut_spans_def s1)
      ultimately show "P h'" using a(1,4) steady_trans [OF st1 a(3)] unfolding P_def by blast
    qed
  qed
  then show ?thesis
    unfolding Carve_def Let_def h1_def [symmetric]
    by (rule outcome_bindI) (simp only: outcome_simps prod.case fin simp_thms)
qed

subsection \<open>Searching\<close>

lemma released_inuse:
  assumes "released E mapped {} U h U' h'"
  shows "inuse_spans U' h' = inuse_spans U h"
  using assms by (fastforce simp: released_def heap_keep_def inuse_spans_def)

lemma released_allocated:
  assumes "released E mapped {} U h U1 h1" and "allocated E mapped s n U1 h1 U2 h2"
  shows "allocated E mapped s n U h U2 h2"
proof -
  have "heap_keep {} U h U2 h2"
    by (rule heap_keep_trans [of "{}" U h U1 h1 "{}"]) (use assms in \<open>auto simp: released_def allocated_def\<close>)
  moreover have "quiet h h2" using assms by (simp add: released_def allocated_def steady_def quiet_def)
  ultimately show ?thesis
    using assms released_inuse [OF assms(1)] by (auto simp: released_def allocated_def quiet_def steady_def)
qed

text \<open>The outcome of a search for \<open>n\<close> pages; null is 0.\<close>

definition searched ::
  "'o env \<Rightarrow> ('o \<Rightarrow> nat set) \<Rightarrow> nat \<Rightarrow> nat set \<Rightarrow> 'o page_heap \<Rightarrow> nat \<times> 'o page_heap \<Rightarrow> bool" where
  "searched E mapped n U h = (\<lambda>(r, h'). \<exists>U'.
     if r = 0 then released E mapped {} U h U' h' else allocated E mapped r n U h U' h')"

lemma searched_trans: "released E mapped {} U h U1 h1 \<Longrightarrow> searched E mapped n U1 h1 x \<Longrightarrow> searched E mapped n U h x"
  unfolding searched_def using released_trans released_allocated by (fastforce split: if_splits)

lemma Carve_searched:
  assumes "heap_inv E mapped U {} h" and "commit_ok {} h"
    and "s \<in> U" and "location (spans h s) \<noteq> IN_USE" and "0 < n" and "n \<le> slength (spans h s)"
    and "system_bytes (stats h) < 2 ^ 44"
  shows "outcome True (Carve E s n h) (searched E mapped n U h)"
proof (rule outcome_mono [OF Carve_ok [OF assms]], goal_cases)
  case (1 x)
  then show ?case using geo_okD(1) [OF heap_invD(2) [OF assms(1)] assms(3)] by (auto simp: searched_def)
qed

lemma find_sorted:
  assumes "find P xs = Some x" and "sorted_wrt R xs" and "y \<in> set xs" and "P y"
  shows "y = x \<or> R x y"
  using assms by (induction xs) (auto split: if_splits)

text \<open>\<open>upper_bound\<close> of the lookup key, which starts at page 0, is the best fit.\<close>

lemma upper_bound:
  assumes h: "half_ok A sp f l b" and pos: "\<And>s. s \<in> A \<Longrightarrow> 0 < start (sp s)"
  shows "SpanSet_upper_bound sp n l = Some e \<Longrightarrow> fst e \<in> A \<and> snd e = slength (sp (fst e)) \<and> kMaxPages < snd e \<and> n \<le> snd e
       \<and> (\<forall>s\<in>A. kMaxPages < slength (sp s) \<longrightarrow> n \<le> slength (sp s)
           \<longrightarrow> snd e < slength (sp s) \<or> snd e = slength (sp s) \<and> start (sp (fst e)) \<le> start (sp s))"
    and "SpanSet_upper_bound sp n l = None \<Longrightarrow> s \<in> A \<Longrightarrow> kMaxPages < slength (sp s) \<Longrightarrow> slength (sp s) < n"
proof -
  let ?P = "\<lambda>(b, blen). if n < blen then True else if blen < n then False else 0 < start (sp b)"
  have P: "?P (s, slength (sp s)) \<longleftrightarrow> n \<le> slength (sp s)" if "s \<in> A" for s using pos [OF that] by auto
  note m = half_okD(4) [OF h]
  show "fst e \<in> A \<and> snd e = slength (sp (fst e)) \<and> kMaxPages < snd e \<and> n \<le> snd e
       \<and> (\<forall>s\<in>A. kMaxPages < slength (sp s) \<longrightarrow> n \<le> slength (sp s)
           \<longrightarrow> snd e < slength (sp s) \<or> snd e = slength (sp s) \<and> start (sp (fst e)) \<le> start (sp s))"
    if f: "SpanSet_upper_bound sp n l = Some e"
  proof -
    have e: "e \<in> set l" "?P e" using f by (auto simp: SpanSet_upper_bound_def find_Some_iff dest: nth_mem)
    then have eA: "fst e \<in> A" "snd e = slength (sp (fst e))" "kMaxPages < snd e" using m by auto
    moreover have "n \<le> snd e" using e(2) by (auto split: if_splits)
    moreover have "snd e < slength (sp s) \<or> snd e = slength (sp s) \<and> start (sp (fst e)) \<le> start (sp s)"
      if "s \<in> A" "kMaxPages < slength (sp s)" "n \<le> slength (sp s)" for s
    proof -
      have "(s, slength (sp s)) \<in> set l" using m that by blast
      then have "(s, slength (sp s)) = e \<or> SpanBestFitLess sp e (s, slength (sp s))"
        using find_sorted [OF f [unfolded SpanSet_upper_bound_def] half_okD(3) [OF h]] P [OF that(1)] that(3) by blast
      then show ?thesis by (cases e) (auto simp: SpanBestFitLess_iff)
    qed
    ultimately show ?thesis by blast
  qed
  show "slength (sp s) < n" if f: "SpanSet_upper_bound sp n l = None" and s: "s \<in> A" "kMaxPages < slength (sp s)"
  proof -
    have "(s, slength (sp s)) \<in> set l" using m s by blast
    then show ?thesis using f P [OF s(1)] unfolding SpanSet_upper_bound_def find_None_iff by fastforce
  qed
qed

abbreviation lists_of :: "span_location \<Rightarrow> 'o page_heap \<Rightarrow> nat \<Rightarrow> nat list" where
  "lists_of lc h \<equiv> (if lc = ON_RETURNED_FREELIST then free_returned h else free_normal h)"

lemma heap_lists:
  assumes inv: "heap_inv E mapped U {} h"
  shows "half_ok (free_at ON_NORMAL_FREELIST U (spans h)) (spans h) (free_normal h) (large_normal h) (free_bytes (stats h))"
    and "half_ok (free_at ON_RETURNED_FREELIST U (spans h)) (spans h) (free_returned h) (large_returned h) (unmapped_bytes (stats h))"
    and "s \<in> free_at lc U (spans h) \<Longrightarrow> 0 < start (spans h s)"
  using heap_invD(4) [OF inv] geo_okD(2) [OF heap_invD(2) [OF inv], of s] by (simp_all add: on_lists_def free_at_def)

text \<open>The best free span of more than \<open>kMaxPages\<close> pages, and whether it is a normal one.\<close>

definition best_large :: "nat \<Rightarrow> 'o page_heap \<Rightarrow> nat option" where
  "best_large n h =
     (let best_normal = map_option fst (SpanSet_upper_bound (spans h) n (large_normal h))
      in (case SpanSet_upper_bound (spans h) n (large_returned h) of
            None \<Rightarrow> best_normal
          | Some place \<Rightarrow>
              (case best_normal of
                 None \<Rightarrow> Some (fst place)
               | Some b \<Rightarrow> if slength (spans h (fst place)) < slength (spans h b) then Some (fst place) else best_normal)))"

definition free_large :: "nat \<Rightarrow> nat set \<Rightarrow> 'o page_heap \<Rightarrow> nat \<Rightarrow> bool" where
  "free_large n U h s \<longleftrightarrow> s \<in> U \<and> location (spans h s) \<noteq> IN_USE \<and> kMaxPages < slength (spans h s) \<and> n \<le> slength (spans h s)"

lemma free_large_at:
  "free_large n U h s \<longleftrightarrow> (\<exists>lc. lc \<noteq> IN_USE \<and> s \<in> free_at lc U (spans h)) \<and> kMaxPages < slength (spans h s) \<and> n \<le> slength (spans h s)"
  by (auto simp: free_large_def free_at_def)

text \<open>
  The choice of \<open>AllocLarge\<close>: a shortest fitting span, a normal one if there is one of that
  length, and among those the one with the lowest address.
\<close>

definition precedes :: "span \<Rightarrow> span \<Rightarrow> bool" where
  "precedes x y \<longleftrightarrow> slength x < slength y
     \<or> slength x = slength y \<and> (if location x = location y then start x \<le> start y else location x = ON_NORMAL_FREELIST)"

definition best_fit :: "nat \<Rightarrow> nat set \<Rightarrow> 'o page_heap \<Rightarrow> nat \<Rightarrow> bool" where
  "best_fit n U h s \<longleftrightarrow> free_large n U h s \<and> (\<forall>t. free_large n U h t \<longrightarrow> precedes (spans h s) (spans h t))"

lemma precedes_trans: "precedes x y \<Longrightarrow> precedes y z \<Longrightarrow> precedes x z"
  by (auto simp: precedes_def split: if_splits)

lemma upper_bound_best:
  assumes inv: "heap_inv E mapped U {} h" and lc: "lc \<noteq> IN_USE"
    and l: "l = (if lc = ON_RETURNED_FREELIST then large_returned h else large_normal h)"
  shows "SpanSet_upper_bound (spans h) n l = Some e \<Longrightarrow> free_large n U h (fst e) \<and> location (spans h (fst e)) = lc
      \<and> (\<forall>t. free_large n U h t \<longrightarrow> location (spans h t) = lc \<longrightarrow> precedes (spans h (fst e)) (spans h t))"
    and "SpanSet_upper_bound (spans h) n l = None \<Longrightarrow> free_large n U h t \<Longrightarrow> location (spans h t) \<noteq> lc"
proof -
  obtain f b where H: "half_ok (free_at lc U (spans h)) (spans h) f l b"
    using heap_lists(1,2) [OF inv] lc l by (cases lc) auto
  have pos: "0 < start (spans h s)" if "s \<in> free_at lc U (spans h)" for s using heap_lists(3) [OF inv that] .
  note ub = upper_bound [OF H pos, where n = n]
  show "free_large n U h (fst e) \<and> location (spans h (fst e)) = lc
      \<and> (\<forall>t. free_large n U h t \<longrightarrow> location (spans h t) = lc \<longrightarrow> precedes (spans h (fst e)) (spans h t))"
    if "SpanSet_upper_bound (spans h) n l = Some e"
    using ub(1) [OF _ that] lc by (auto simp: free_large_def free_at_def precedes_def)
  show "location (spans h t) \<noteq> lc" if "SpanSet_upper_bound (spans h) n l = None" "free_large n U h t"
    using ub(2) [OF _ that(1), of t] that(2) by (auto simp: free_large_def free_at_def)
qed

lemma best_large_ok:
  assumes inv: "heap_inv E mapped U {} h"
  shows "best_large n h = Some s \<Longrightarrow> best_fit n U h s"
    and "best_large n h = None \<Longrightarrow> \<not> free_large n U h s"
proof -
  note N = upper_bound_best [OF inv, of ON_NORMAL_FREELIST "large_normal h" n, simplified]
  note R = upper_bound_best [OF inv, of ON_RETURNED_FREELIST "large_returned h" n, simplified]
  have loc: "location (spans h t) = ON_NORMAL_FREELIST \<or> location (spans h t) = ON_RETURNED_FREELIST"
    if "free_large n U h t" for t
    using that by (cases "location (spans h t)") (auto simp: free_large_def)
  show "best_fit n U h s" if b: "best_large n h = Some s"
  proof (cases "SpanSet_upper_bound (spans h) n (large_normal h)")
    case None
    then obtain e where e: "SpanSet_upper_bound (spans h) n (large_returned h) = Some e" "s = fst e"
      using b by (auto simp: best_large_def split: option.splits)
    show ?thesis using R(1) [OF e(1)] N(2) [OF None] loc unfolding best_fit_def e(2) by blast
  next
    case (Some d)
    note d = N(1) [OF Some]
    show ?thesis
    proof (cases "SpanSet_upper_bound (spans h) n (large_returned h)")
      case None
      then have s: "s = fst d" using b Some by (simp add: best_large_def)
      show ?thesis using d R(2) [OF None] loc unfolding best_fit_def s by blast
    next
      case e: (Some e)
      note r = R(1) [OF e]
      have s: "s = (if slength (spans h (fst e)) < slength (spans h (fst d)) then fst e else fst d)"
        using b Some e by (simp add: best_large_def split: if_splits)
      have p: "precedes (spans h s) (spans h (fst d))" "precedes (spans h s) (spans h (fst e))"
        using d [THEN conjunct2, THEN conjunct1] r [THEN conjunct2, THEN conjunct1] by (auto simp: s precedes_def)
      have "precedes (spans h s) (spans h t)" if t: "free_large n U h t" for t
        using loc [OF t] d r t precedes_trans [OF p(1)] precedes_trans [OF p(2)] by metis
      moreover have "free_large n U h s" using d r by (simp add: s)
      ultimately show ?thesis unfolding best_fit_def by blast
    qed
  qed
  show "\<not> free_large n U h s" if "best_large n h = None"
  proof
    assume s: "free_large n U h s"
    have "SpanSet_upper_bound (spans h) n (large_normal h) = None" "SpanSet_upper_bound (spans h) n (large_returned h) = None"
      using that by (auto simp: best_large_def Let_def split: option.splits if_splits)
    then show False using N(2) R(2) loc [OF s] s by blast
  qed
qed

lemma AllocLarge_best:
  "AllocLarge E n h = (case best_large n h of
     None \<Rightarrow> Some (0, h)
   | Some b \<Rightarrow>
       if best_large n h = map_option fst (SpanSet_upper_bound (spans h) n (large_normal h)) then Carve E b n h
       else do {
         (ok, h) \<leftarrow> EnsureLimit E n False h;
         if ok then Carve E b n h
         else do {
           (ok, h) \<leftarrow> EnsureLimit E n True h;
           if ok then AllocLarge E n h else Some (0, h) } })"
proof -
  have m: "(case x of None \<Rightarrow> None | Some place \<Rightarrow> Some (fst place)) = map_option fst x" for x :: "SpanPtrWithLength option"
    by (cases x) simp_all
  let ?bn = "map_option fst (SpanSet_upper_bound (spans h) n (large_normal h))"
  have e: "AllocLarge E n h = (if best_large n h = ?bn
     then (case best_large n h of None \<Rightarrow> Some (0, h) | Some b \<Rightarrow> Carve E b n h)
     else do {
       (ok, h') \<leftarrow> EnsureLimit E n False h;
       if ok then Carve E (the (best_large n h)) n h'
       else do {
         (ok, h') \<leftarrow> EnsureLimit E n True h';
         if ok then AllocLarge E n h' else Some (0, h') } })"
    by (subst AllocLarge.simps) (simp only: Let_def m best_large_def [unfolded Let_def, symmetric])
  have n: "best_large n h = None \<Longrightarrow> ?bn = None"
    by (auto simp: best_large_def Let_def split: option.splits if_splits)
  show ?thesis
  proof (cases "best_large n h")
    case None
    show ?thesis unfolding e n [OF None] unfolding None by (simp only: simp_thms if_True option.case)
  next
    case (Some b)
    show ?thesis unfolding e Some option.case option.sel ..
  qed
qed

lemma searched_none: "heap_inv E mapped U {} h \<Longrightarrow> commit_ok {} h \<Longrightarrow> searched E mapped n U h (0, h)"
  using released_refl by (fastforce simp: searched_def)

lemma best_carve:
  assumes "heap_inv E mapped U {} h" and "commit_ok {} h" and "0 < n" and "system_bytes (stats h) < 2 ^ 44"
    and "best_large n h = Some b"
  shows "outcome True (Carve E b n h) (searched E mapped n U h)"
  using best_large_ok(1) [OF assms(1,5)] assms
  by (intro Carve_searched) (auto simp: best_fit_def free_large_def)

lemma AllocLarge_within:
  assumes "heap_inv E mapped U {} h" and "commit_ok {} h" and "0 < n" and "system_bytes (stats h) < 2 ^ 44"
    and "within_limit E n h"
  shows "outcome True (AllocLarge E n h) (searched E mapped n U h)"
    and "AllocLarge E n h = (case best_large n h of None \<Rightarrow> Some (0, h) | Some b \<Rightarrow> Carve E b n h)"
proof -
  show e: "AllocLarge E n h = (case best_large n h of None \<Rightarrow> Some (0, h) | Some b \<Rightarrow> Carve E b n h)"
    by (subst AllocLarge_best) (use assms(5) in \<open>simp add: within_limit_def split: option.split\<close>)
  show "outcome True (AllocLarge E n h) (searched E mapped n U h)"
    unfolding e using searched_none [OF assms(1,2)] best_carve [OF assms(1-4)] by (simp split: option.split)
qed

lemma released_small: "released E mapped S U h U' h' \<Longrightarrow> system_bytes (stats h) < 2 ^ 44 \<Longrightarrow> system_bytes (stats h') < 2 ^ 44"
  by (simp add: released_def steady_def)

lemma AllocLarge_ok:
  assumes inv: "heap_inv E mapped U {} h" "commit_ok {} h" "0 < n" "system_bytes (stats h) < 2 ^ 44" and n: "n \<le> 2 ^ 51"
  shows "outcome True (AllocLarge E n h) (searched E mapped n U h)"
proof (cases "best_large n h")
  case None
  then show ?thesis using searched_none [OF inv(1,2)] by (subst AllocLarge_best) simp
next
  case (Some b)
  note carve = best_carve [OF inv Some]
  obtain ok where ok: "EnsureLimit E n False h = Some (ok, h)" using EnsureLimit_no_release by blast
  have "outcome True (EnsureLimit E n True h \<bind> (\<lambda>(ok, h). if ok then AllocLarge E n h else Some (0, h))) (searched E mapped n U h)"
  proof (rule outcome_bindI [OF outcome_weaken [OF EnsureLimit_ok [OF inv(1,2) n]]], simp, goal_cases)
    case (1 x)
    obtain ok h1 where x: "x = (ok, h1)" by (cases x)
    from 1(2) obtain U1 where r: "released E mapped {} U h U1 h1" and w: "ok \<Longrightarrow> within_limit E n h1" by (auto simp: x)
    note i1 = releasedD [OF r, THEN conjunct1] releasedD [OF r, THEN conjunct2]
    have "outcome True (if ok then AllocLarge E n h1 else Some (0, h1)) (searched E mapped n U1 h1)"
      using AllocLarge_within(1) [OF i1 inv(3) released_small [OF r inv(4)] w] searched_none [OF i1] by simp
    then show ?case unfolding x prod.case by (rule outcome_mono) (rule searched_trans [OF r])
  qed
  then show ?thesis
    by (subst AllocLarge_best) (use carve ok in \<open>auto simp: Some split: if_splits\<close>)
qed

text \<open>The lists of short spans.\<close>

lemma short_list:
  assumes inv: "heap_inv E mapped U {} h" and "0 < k" and "k \<le> kMaxPages" and lc: "lc \<noteq> IN_USE"
  shows "set (lists_of lc h (k - 1)) = {s \<in> U. location (spans h s) = lc \<and> slength (spans h s) = k}"
proof -
  have k: "k - 1 < kMaxPages" using assms(2,3) by simp
  show ?thesis
    using half_okD(2) [OF heap_lists(1) [OF inv] k] half_okD(2) [OF heap_lists(2) [OF inv] k] assms(2) lc
    by (cases lc) (auto simp: free_at_def)
qed

lemma short_carve:
  assumes inv: "heap_inv E mapped U {} h" "commit_ok {} h" "0 < n" "system_bytes (stats h) < 2 ^ 44"
    and k: "n \<le> k" "k \<le> kMaxPages" and lc: "lc \<noteq> IN_USE" and x: "lists_of lc h (k - 1) = x # xs"
  shows "outcome True (Carve E x n h) (searched E mapped n U h)"
proof -
  have "x \<in> set (lists_of lc h (k - 1))" using x by simp
  then have "x \<in> U" "location (spans h x) = lc" "slength (spans h x) = k"
    using short_list [OF inv(1) _ k(2) lc] inv(3) k(1) by auto
  then show ?thesis using inv k lc by (intro Carve_searched) simp_all
qed

lemma search_lists_ok:
  assumes "heap_inv E mapped U {} h" "commit_ok {} h" "0 < n" "system_bytes (stats h) < 2 ^ 44" and "n \<le> 2 ^ 51"
    and "n \<le> k"
  shows "outcome True (search_lists E n k h) (searched E mapped n U h)"
  using assms
proof (induction "kMaxPages + 1 - k" arbitrary: k h U rule: less_induct)
  case less
  note inv = less(2-5) and nb = less(6)
  have k0: "k \<noteq> 0" and nk: "n \<le> k + 1" using less(4,7) by simp_all
  show ?case
  proof (cases "k \<le> kMaxPages")
    case False
    then show ?thesis using AllocLarge_ok [OF inv nb] by (simp add: search_lists.simps [of E n k])
  next
    case k: True
    then have dec: "kMaxPages + 1 - (k + 1) < kMaxPages + 1 - k" by simp
    show ?thesis
    proof (cases "free_normal h (k - 1)")
      case (Cons x xs)
      then show ?thesis using short_carve [OF inv less(7) k, of ON_NORMAL_FREELIST] k k0
        by (simp add: search_lists.simps [of E n k])
    next
      case nil: Nil
      show ?thesis
      proof (cases "free_returned h (k - 1)")
        case Nil
        then show ?thesis using less(1) [OF dec inv nb nk] nil k k0 by (simp add: search_lists.simps [of E n k])
      next
        case cons: (Cons y ys)
        let ?rest = "\<lambda>(ok, h). if ok then (case free_returned h (k - 1) of x # _ \<Rightarrow> Carve E x n h | [] \<Rightarrow> search_lists E n (k + 1) h)
            else search_lists E n (k + 1) h"
        have e: "search_lists E n k h = EnsureLimit E n True h \<bind> ?rest"
          using nil cons k k0 by (simp add: search_lists.simps [of E n k] Option.bind_def split: option.split)
        show ?thesis unfolding e
        proof (rule outcome_bindI [OF outcome_weaken [OF EnsureLimit_ok [OF inv(1,2) nb]]], simp, goal_cases)
          case (1 x)
          obtain ok h1 where x: "x = (ok, h1)" by (cases x)
          from 1(2) obtain U1 where r: "released E mapped {} U h U1 h1" by (auto simp: x)
          note i1 = releasedD [OF r, THEN conjunct1] releasedD [OF r, THEN conjunct2] inv(3) released_small [OF r inv(4)]
          have "outcome True (?rest (ok, h1)) (searched E mapped n U1 h1)"
            using less(1) [OF dec i1 nb nk] short_carve [OF i1 less(7) k, of ON_RETURNED_FREELIST]
            by (simp split: list.split)
          then show ?case unfolding x by (rule outcome_mono) (rule searched_trans [OF r])
        qed
      qed
    qed
  qed
qed

text \<open>
  Without a heap limit the search is a best fit: the shortest free span that is long enough, a
  normal one if there is one of that length, and (0, unchanged heap) when no free span is long
  enough.
\<close>

definition unlimited :: "'o env \<Rightarrow> bool" where
  "unlimited E \<longleftrightarrow> tcmalloc_heap_limit_mb E = 0"

lemma unlimited_EnsureLimit [simp]: "unlimited E \<Longrightarrow> EnsureLimit E n w h = Some (True, h)"
  by (simp add: unlimited_def EnsureLimit_def u64_of_int_def)

definition free_fit :: "nat \<Rightarrow> nat set \<Rightarrow> 'o page_heap \<Rightarrow> nat \<Rightarrow> bool" where
  "free_fit n U h s \<longleftrightarrow> s \<in> U \<and> location (spans h s) \<noteq> IN_USE \<and> n \<le> slength (spans h s)"

definition chosen :: "nat \<Rightarrow> nat set \<Rightarrow> 'o page_heap \<Rightarrow> nat \<Rightarrow> bool" where
  "chosen n U h s \<longleftrightarrow> free_fit n U h s \<and> (\<forall>t. free_fit n U h t \<longrightarrow>
     slength (spans h s) < slength (spans h t) \<or> slength (spans h s) = slength (spans h t)
       \<and> (location (spans h s) = ON_NORMAL_FREELIST \<or> location (spans h t) = ON_RETURNED_FREELIST))"

lemma search_lists_best:
  assumes inv: "heap_inv E mapped U {} h" and u: "unlimited E" and "0 < n" and "n \<le> k"
    and "\<And>t. free_fit n U h t \<Longrightarrow> k \<le> slength (spans h t)"
  shows "(\<exists>s. chosen n U h s \<and> search_lists E n k h = Carve E s n h)
     \<or> (\<forall>s. \<not> free_fit n U h s) \<and> search_lists E n k h = Some (0, h)"
  using assms(3-5)
proof (induction "kMaxPages + 1 - k" arbitrary: k rule: less_induct)
  case less
  have k0: "0 < k" using less(2,3) by simp
  have fit: "free_fit n U h t" if "t \<in> U" "location (spans h t) \<noteq> IN_USE" "slength (spans h t) = k" for t
    using that less(3) by (simp add: free_fit_def)
  show ?case
  proof (cases "k \<le> kMaxPages")
    case True
    have N: "set (free_normal h (k - 1)) = {s \<in> U. location (spans h s) = ON_NORMAL_FREELIST \<and> slength (spans h s) = k}"
      and R: "set (free_returned h (k - 1)) = {s \<in> U. location (spans h s) = ON_RETURNED_FREELIST \<and> slength (spans h s) = k}"
      using short_list [OF inv k0 True, of ON_NORMAL_FREELIST] short_list [OF inv k0 True, of ON_RETURNED_FREELIST] by simp_all
    have least: "k \<le> slength (spans h t)" if "free_fit n U h t" for t using less(4) [OF that] .
    show ?thesis
    proof (cases "free_normal h (k - 1)")
      case (Cons x xs)
      then have x: "x \<in> U" "location (spans h x) = ON_NORMAL_FREELIST" "slength (spans h x) = k" using N by auto
      then have "chosen n U h x" using fit [of x] least by (fastforce simp: chosen_def)
      then show ?thesis using Cons True k0 by (auto simp: search_lists.simps [of E n k])
    next
      case nil: Nil
      show ?thesis
      proof (cases "free_returned h (k - 1)")
        case (Cons x xs)
        then have x: "x \<in> U" "location (spans h x) = ON_RETURNED_FREELIST" "slength (spans h x) = k" using R by auto
        have "location (spans h t) = ON_RETURNED_FREELIST" if "free_fit n U h t" "slength (spans h t) = k" for t
          using that N nil by (cases "location (spans h t)") (auto simp: free_fit_def)
        then have "chosen n U h x" using fit [of x] x least unfolding chosen_def
          by (metis le_neq_implies_less span_location.distinct(3))
        then show ?thesis using Cons nil True k0 u by (auto simp: search_lists.simps [of E n k])
      next
        case Nil
        have "k + 1 \<le> slength (spans h t)" if t: "free_fit n U h t" for t
        proof -
          have "slength (spans h t) \<noteq> k"
            using t N R nil Nil by (cases "location (spans h t)") (auto simp: free_fit_def)
          then show ?thesis using least [OF t] by simp
        qed
        then have "(\<exists>s. chosen n U h s \<and> search_lists E n (k + 1) h = Carve E s n h)
           \<or> (\<forall>s. \<not> free_fit n U h s) \<and> search_lists E n (k + 1) h = Some (0, h)"
          using less True by (intro less(1)) simp_all
        then show ?thesis using nil Nil True k0 by (simp add: search_lists.simps [of E n k])
      qed
    qed
  next
    case False
    have fl: "free_large n U h t \<longleftrightarrow> free_fit n U h t" for t
      using less(4) [of t] False by (auto simp: free_large_def free_fit_def)
    have e: "search_lists E n k h = (case best_large n h of None \<Rightarrow> Some (0, h) | Some b \<Rightarrow> Carve E b n h)"
      using False u by (simp add: search_lists.simps [of E n k] AllocLarge_best split: option.split)
    show ?thesis
    proof (cases "best_large n h")
      case None
      then show ?thesis using best_large_ok(2) [OF inv None] e fl by simp
    next
      case (Some b)
      have "chosen n U h b"
        using best_large_ok(1) [OF inv Some] unfolding best_fit_def chosen_def fl precedes_def
        by (metis free_fit_def span_location.exhaust)
      then show ?thesis using e Some by auto
    qed
  qed
qed

end
