(* ===== verification/PageHeapGrow.thy ===== *)
theory PageHeapGrow
  imports PageHeapAlloc
begin

text \<open>
  Growing the heap by a block of system memory, and the public entry points that allocate.
\<close>

subsection \<open>Page-map memory\<close>

lemma Ensure2_loop_state:
  assumes "\<And>s. Q s \<Longrightarrow> Q (snd (alloc (8 * 2 ^ LEAF_BITS2 bits) s))" and "Q s"
  shows "Q (snd (snd (Ensure2_loop bits alloc limit key m s)))"
  using assms
proof (induction bits alloc limit key m s rule: Ensure2_loop.induct)
  case (1 bits alloc limit key m s)
  have k: "Q (snd (snd (Ensure2_key bits alloc key m s)))"
    using 1(2) [OF 1(3)] 1(3) by (auto simp: Ensure2_key_def Let_def split: option.splits prod.splits)
  show ?case
    using 1(1) [OF _ refl _ 1(2) k] k 1(3) by (subst Ensure2_loop.simps) (simp add: Let_def)
qed

text \<open>An allocation that returns keeps what was known of the metadata memory.\<close>

lemma pagemap_allocator_ok:
  assumes "\<forall>md. st = Some md \<longrightarrow> meta_ok (plat E) mapped G md" and "bytes + 64 < 2 ^ 64"
  shows "\<forall>md. snd (pagemap_allocator E bytes st) = Some md \<longrightarrow> meta_ok (plat E) mapped G md"
proof (cases st)
  case (Some md)
  then show ?thesis using MetaDataAlloc_fresh [of "plat E" mapped G md bytes] assms
    by (auto simp: pagemap_allocator_def split: option.splits prod.splits)
qed (simp add: pagemap_allocator_def)

lemma Ensure_meta_ok:
  assumes "meta_ok (plat E) mapped G md"
    and "PageMap2_Ensure pagemap_bits (pagemap_allocator E) x n m (Some md) = (ok, m', Some md')"
  shows "meta_ok (plat E) mapped G md'"
proof -
  let ?Q = "\<lambda>st. \<forall>md. st = Some md \<longrightarrow> meta_ok (plat E) mapped G md"
  have "?Q (snd (snd (PageMap2_Ensure pagemap_bits (pagemap_allocator E) x n m (Some md))))"
    unfolding PageMap2_Ensure_def
  proof (rule Ensure2_loop_state [where Q = ?Q])
    show "?Q (snd (pagemap_allocator E (8 * 2 ^ LEAF_BITS2 pagemap_bits) st))" if "?Q st" for st
      by (rule pagemap_allocator_ok [OF that]) (simp add: LEAF_BITS2_def)
  qed (use assms(1) in simp)
  then show ?thesis using assms(2) by simp
qed

lemma memory_ok_meta:
  assumes "memory_ok E mapped U P pool stpool md b"
    and "\<And>G. meta_ok (plat E) mapped G md \<Longrightarrow> meta_ok (plat E) mapped G md'"
  shows "memory_ok E mapped U P pool stpool md' b"
  using assms unfolding memory_ok_def by metis

subsection \<open>A block of system memory\<close>

lemma page_area_block: "8192 dvd r \<Longrightarrow> 8192 dvd a \<Longrightarrow> page_area {r div 8192..<r div 8192 + a div 8192} = {r..<r + a}"
proof (elim dvdE)
  fix k l :: nat assume "r = 8192 * k" "a = 8192 * l"
  then show ?thesis by (auto simp: page_area_def div_less_iff_less_mult less_eq_div_iff_mult_less_eq)
qed

lemma grow_block:
  assumes m: "meta_ok (plat E) mapped G md" and ask: "ask \<le> kMaxValidPages"
    and a: "TCMalloc_SystemAlloc (plat E) (page_bytes ask) kPageSize (sysmem md) = Some (r, actual, sm)"
  shows "if r = 0 then meta_ok (plat E) mapped G (md\<lparr>sysmem := sm\<rparr>)
       else 8192 dvd r \<and> 8192 dvd actual \<and> page_bytes ask \<le> actual \<and> r + actual \<le> 2 ^ kAddressBits
         \<and> {r..<r + actual} \<inter> G = {} \<and> meta_ok (plat E) mapped (G \<union> {r..<r + actual}) (md\<lparr>sysmem := sm\<rparr>)"
    and "meta_ok (plat E) mapped G (md\<lparr>sysmem := sm\<rparr>)"
proof -
  have pb: "page_bytes ask = ask * 8192" using ask by (simp add: shl64_eq kMaxValidPages_def)
  show *: "if r = 0 then meta_ok (plat E) mapped G (md\<lparr>sysmem := sm\<rparr>)
       else 8192 dvd r \<and> 8192 dvd actual \<and> page_bytes ask \<le> actual \<and> r + actual \<le> 2 ^ kAddressBits
         \<and> {r..<r + actual} \<inter> G = {} \<and> meta_ok (plat E) mapped (G \<union> {r..<r + actual}) (md\<lparr>sysmem := sm\<rparr>)"
  proof (cases "ask = kMaxValidPages")
    case True
    then have "add64 (page_bytes ask) kPageSize < page_bytes ask" unfolding pb by (simp add: kMaxValidPages_def add64_def kPageSize_def)
    then have "r = 0" "sm = sysmem md" using a by (auto simp: TCMalloc_SystemAlloc_def)
    then show ?thesis using m by simp
  next
    case False
    then have "page_bytes ask + max kPageSize sizeof_MemoryAligner < 2 ^ 64" "kPageSize = 2 ^ 13"
      "max kPageSize sizeof_MemoryAligner = 8192"
      using ask unfolding pb by (simp_all add: kMaxValidPages_def kPageSize_def sizeof_MemoryAligner_def)
    then show ?thesis using meta_ok_block [OF m a, of 13] by (auto split: if_splits)
  qed
  show "meta_ok (plat E) mapped G (md\<lparr>sysmem := sm\<rparr>)"
    using * meta_ok_subset [of "plat E" mapped "G \<union> {r..<r + actual}" "md\<lparr>sysmem := sm\<rparr>" G] by (auto split: if_splits)
qed

lemma grow_memory:
  assumes m: "memory_ok E mapped U P pool stpool md b" and ask: "ask \<le> kMaxValidPages"
    and a: "TCMalloc_SystemAlloc (plat E) (page_bytes ask) kPageSize (sysmem md) = Some (r, actual, sm)"
  shows "memory_ok E mapped U P pool stpool (md\<lparr>sysmem := sm\<rparr>) b"
    and "r \<noteq> 0 \<Longrightarrow> n = actual div 2 ^ kPageShift \<Longrightarrow> p = r div 2 ^ kPageShift \<Longrightarrow>
      memory_ok E mapped U (P \<union> {p..<p + n}) pool stpool (md\<lparr>sysmem := sm\<rparr>) (b + n * 2 ^ kPageShift)
      \<and> P \<inter> {p..<p + n} = {} \<and> 0 < p \<and> p + n \<le> 2 ^ 35 \<and> ask \<le> n"
proof -
  obtain M N V G B where o: "pool_ok sizeof_Span M U pool" "pool_ok sizeof_StackTrace N V stpool"
    "meta_ok (plat E) mapped G md" "M \<subseteq> G" "N \<subseteq> G" "B \<subseteq> G" "M \<inter> N = {}" "M \<inter> B = {}" "N \<inter> B = {}"
    "page_area P \<subseteq> B" "b = card B" using m unfolding memory_ok_def by blast
  have pb: "page_bytes ask = ask * 8192" using ask by (simp add: shl64_eq kMaxValidPages_def)
  note blk = grow_block(1) [OF o(3) ask a] and keep = grow_block(2) [OF o(3) ask a]
  show "memory_ok E mapped U P pool stpool (md\<lparr>sysmem := sm\<rparr>) b"
    unfolding memory_ok_def using o keep by blast
  show "memory_ok E mapped U (P \<union> {p..<p + n}) pool stpool (md\<lparr>sysmem := sm\<rparr>) (b + n * 2 ^ kPageShift)
      \<and> P \<inter> {p..<p + n} = {} \<and> 0 < p \<and> p + n \<le> 2 ^ 35 \<and> ask \<le> n"
    if "r \<noteq> 0" and n: "n = actual div 2 ^ kPageShift" and p: "p = r div 2 ^ kPageShift"
  proof -
    let ?R = "{r..<r + actual}"
    have d: "8192 dvd r" "8192 dvd actual" "ask * 8192 \<le> actual" "r + actual \<le> 2 ^ 48"
      "?R \<inter> G = {}" "meta_ok (plat E) mapped (G \<union> ?R) (md\<lparr>sysmem := sm\<rparr>)"
      using blk \<open>r \<noteq> 0\<close> pb by auto
    have area: "page_area {p..<p + n} = ?R" using page_area_block [OF d(1,2)] by (simp add: n p)
    then have sub: "page_area (P \<union> {p..<p + n}) \<subseteq> B \<union> ?R" using o(10) by (auto simp: page_area_def)
    have "finite G"
      using o(3) unfolding meta_ok_def by (meson finite_lessThan finite_subset)
    then have "finite B" using o(6) finite_subset by blast
    moreover have "B \<inter> ?R = {}" using d(5) o(6) by blast
    ultimately have "card (B \<union> ?R) = b + actual" using o(11) by (simp add: card_Un_disjoint)
    moreover have "n * 2 ^ kPageShift = actual" using d(2) by (simp add: n)
    ultimately have card: "card (B \<union> ?R) = b + n * 2 ^ kPageShift" by simp
    have "memory_ok E mapped U (P \<union> {p..<p + n}) pool stpool (md\<lparr>sysmem := sm\<rparr>) (b + n * 2 ^ kPageShift)"
      unfolding memory_ok_def card [symmetric]
    proof (rule exI [of _ M], rule exI [of _ N], rule exI [of _ V], rule exI [of _ "G \<union> ?R"],
        rule exI [of _ "B \<union> ?R"], intro conjI refl)
      show "M \<subseteq> G \<union> ?R" "N \<subseteq> G \<union> ?R" "B \<union> ?R \<subseteq> G \<union> ?R" "M \<inter> (B \<union> ?R) = {}" "N \<inter> (B \<union> ?R) = {}"
        using o(4-9) d(5) by blast+
    qed (fact o(1,2,7) d(6) sub)+
    moreover have "P \<inter> {p..<p + n} = {}"
    proof (rule ccontr)
      assume "P \<inter> {p..<p + n} \<noteq> {}"
      then obtain q where q: "q \<in> P" "q \<in> {p..<p + n}" by blast
      then have "q * 8192 \<in> page_area P" "q * 8192 \<in> page_area {p..<p + n}" by (simp_all add: page_area_def)
      then show False using area o(6,10) d(5) by blast
    qed
    moreover obtain k l where kl: "r = 8192 * k" "actual = 8192 * l" using d(1,2) by (elim dvdE)
    then have "p = k" "n = l" by (simp_all add: n p)
    then have "0 < p" "ask \<le> n" "p + n \<le> 2 ^ 35" using d(3,4) \<open>r \<noteq> 0\<close> kl by simp_all
    ultimately show ?thesis by blast
  qed
qed

text \<open>The new block as a span in use.\<close>

lemma grow_span:
  assumes inv: "heap_inv E mapped U {} h" and s: "s \<notin> U" "s \<noteq> 0" and n: "0 < n" and p: "0 < p" "p + n \<le> 2 ^ 35"
    and new: "covered U (spans h) \<inter> {p..<p + n} = {}"
    and h': "spans h' = (spans h)(s := Span_ctor\<lparr>start := p, slength := n\<rparr>)"
      "pm_get (pagemap h') = (pm_get (pagemap h))(p \<mapsto> s, p + n - 1 \<mapsto> s)"
      "\<And>j. pm_ensured (pagemap h) j \<or> p \<le> j \<and> j < p + n \<Longrightarrow> pm_ensured (pagemap h') j"
      "free_normal h' = free_normal h" "free_returned h' = free_returned h"
      "large_normal h' = large_normal h" "large_returned h' = large_returned h"
      "free_bytes (stats h') = free_bytes (stats h)" "unmapped_bytes (stats h') = unmapped_bytes (stats h)"
    and mem: "memory_ok E mapped (insert s U) (covered U (spans h) \<union> {p..<p + n}) (span_allocator h') (stacktrace_allocator h')
        (meta h') (system_bytes (stats h'))"
  shows "heap_inv E mapped (insert s U) {} h'" and "heap_keep {} U h (insert s U) h'"
proof -
  note d = heap_invD [OF inv]
  have other: "spans h' u = spans h u" if "u \<in> U" for u using that s(1) by (auto simp: h'(1))
  have sn: "start (spans h' s) = p" "slength (spans h' s) = n" "location (spans h' s) = IN_USE"
    by (simp_all add: h'(1) Span_ctor_def)
  have out: "q \<notin> {p..<p + n}" if "u \<in> U" "q \<in> extent (spans h u)" for u q
    using new that unfolding covered_def by blast
  have "apart (spans h' s) (spans h' u)" if u: "u \<in> U" for u
  proof -
    have "extent (spans h' s) \<inter> extent (spans h' u) = {}" unfolding sn other [OF u] using out [OF u] by blast
    then show ?thesis using apart_extent [of "spans h' s" "spans h' u"] n geo_okD(3) [OF d(2) u] sn other [OF u] by simp
  qed
  moreover have "geo_ok U (spans h')" by (rule geo_ok_cong [OF d(2)]) (simp add: other)
  ultimately have g: "geo_ok (insert s U) (spans h')" using s n p sn by (subst geo_ok_insert) simp_all
  have cov: "covered (insert s U) (spans h') = covered U (spans h) \<union> {p..<p + n}"
    using covered_insert [of s U "spans h'"] covered_cong [of U "spans h'" "spans h"] other sn by auto
  have ends: "start (spans h u) \<in> extent (spans h u)" "start (spans h u) + slength (spans h u) - 1 \<in> extent (spans h u)"
    if "u \<in> U" for u using geo_okD(3) [OF d(2) that] by auto
  have keep: "pm_get (pagemap h') q = pm_get (pagemap h) q" if "u \<in> U" "q \<in> extent (spans h u)" for u q
    using out [OF that] n by (auto simp: h'(2))
  have "bounds_ok (insert s U) (spans h') (pm_get (pagemap h'))"
    unfolding bounds_ok_def
  proof (intro ballI)
    fix u assume "u \<in> insert s U"
    then consider "u = s" | "u \<in> U" by blast
    then show "pm_get (pagemap h') (start (spans h' u)) = Some u
        \<and> pm_get (pagemap h') (start (spans h' u) + slength (spans h' u) - 1) = Some u"
    proof cases
      case 1
      then show ?thesis using n by (simp add: sn h'(2))
    next
      case 2
      then show ?thesis using d(3) keep [OF 2 ends(1) [OF 2]] keep [OF 2 ends(2) [OF 2]]
        unfolding other [OF 2] by (simp add: map_ok_def bounds_ok_def)
    qed
  qed
  moreover have "q \<in> covered (insert s U) (spans h')" if "pm_get (pagemap h') q \<noteq> None" for q
    using that d(3) n unfolding cov map_ok_def by (auto simp: h'(2) split: if_splits)
  ultimately have "map_ok (insert s U) (spans h') (pagemap h')"
    using d(3) h'(3) unfolding map_ok_def cov by auto
  moreover have "on_lists U h'"
    by (rule on_lists_cong [of U h]) (use d(4) h' other in auto)
  then have "on_lists (insert s U - {s}) h'" using s(1) by simp
  ultimately have "heap_inv E mapped (insert s U) {s} h'"
    using g mem unfolding heap_inv_def cov by simp
  then show "heap_inv E mapped (insert s U) {} h'" using inuse_attach [OF sn(3)] by blast
  show "heap_keep {} U h (insert s U) h'"
    unfolding heap_keep_def GetDescriptor_def
  proof (intro ballI impI conjI)
    fix u assume u: "u \<in> U - {}"
    then show "u \<in> insert s U" "spans h' u = spans h u" using other by auto
    fix q assume "q \<in> extent (spans h u)"
    then show "pm_get (pagemap h') q = pm_get (pagemap h) q" using keep u by blast
  qed
qed

subsection \<open>Growing the heap\<close>

text \<open>What operations guarantee that may take memory from the system but hand out none of it.\<close>

definition grown :: "'o env \<Rightarrow> ('o \<Rightarrow> nat set) \<Rightarrow> nat set \<Rightarrow> 'o page_heap \<Rightarrow> nat set \<Rightarrow> 'o page_heap \<Rightarrow> bool" where
  "grown E mapped U h U' h' \<longleftrightarrow> heap_inv E mapped U' {} h' \<and> commit_ok {} h' \<and> heap_keep {} U h U' h' \<and> quiet h h'
     \<and> inuse_spans U' h' = inuse_spans U h \<and> frees {} U (spans h) U' (spans h')
     \<and> (clean U (spans h) \<longrightarrow> clean U' (spans h'))
     \<and> (\<not> aggressive_decommit h \<longrightarrow> coalesced U (spans h) \<longrightarrow> coalesced U' (spans h'))"

lemma grownD: "grown E mapped U h U' h' \<Longrightarrow> heap_inv E mapped U' {} h' \<and> commit_ok {} h'"
  by (simp add: grown_def)

lemma released_grown:
  assumes "released E mapped {} U h U' h'"
  shows "grown E mapped U h U' h'"
  using assms released_inuse [OF assms] by (simp add: released_def grown_def steady_def quiet_def)

lemma grown_trans:
  assumes "grown E mapped U h U1 h1" and "grown E mapped U1 h1 U2 h2"
  shows "grown E mapped U h U2 h2"
proof -
  have "heap_keep {} U h U2 h2"
    by (rule heap_keep_trans [of "{}" U h U1 h1 "{}"]) (use assms in \<open>auto simp: grown_def\<close>)
  moreover have "frees {} U (spans h) U2 (spans h2)" using assms frees_trans [of "{}" U "spans h" U1 "spans h1" U2 "spans h2"] by (simp add: grown_def)
  ultimately show ?thesis using assms by (simp add: grown_def quiet_def)
qed

lemma grown_allocated:
  assumes "grown E mapped U h U1 h1" and "allocated E mapped s n U1 h1 U2 h2"
  shows "allocated E mapped s n U h U2 h2"
proof -
  have "heap_keep {} U h U2 h2"
    by (rule heap_keep_trans [of "{}" U h U1 h1 "{}"]) (use assms in \<open>auto simp: grown_def allocated_def\<close>)
  then show ?thesis using assms by (simp add: grown_def allocated_def quiet_def)
qed

text \<open>Changes that touch neither spans nor the page map.\<close>

lemma grown_frame:
  assumes inv: "heap_inv E mapped U {} h" "commit_ok {} h"
    and h': "spans h' = spans h" "pm_get (pagemap h') = pm_get (pagemap h)"
      "\<And>j. pm_ensured (pagemap h) j \<Longrightarrow> pm_ensured (pagemap h') j"
      "free_normal h' = free_normal h" "free_returned h' = free_returned h"
      "large_normal h' = large_normal h" "large_returned h' = large_returned h"
      "free_bytes (stats h') = free_bytes (stats h)" "unmapped_bytes (stats h') = unmapped_bytes (stats h)"
      "quiet h h'" "commit_ok {} h'"
    and mem: "memory_ok E mapped U (covered U (spans h)) (span_allocator h') (stacktrace_allocator h')
        (meta h') (system_bytes (stats h'))"
  shows "grown E mapped U h U h'"
proof -
  note d = heap_invD [OF inv(1)]
  have "on_lists U h'" by (rule on_lists_cong [of U h]) (use d(4) h' in auto)
  moreover have "map_ok U (spans h') (pagemap h')" using d(3) h'(1-3) by (simp add: map_ok_def)
  ultimately have "heap_inv E mapped U {} h'" using d(2) mem h'(1) by (simp add: heap_inv_def)
  moreover have "heap_keep {} U h U h'" by (simp add: heap_keep_def GetDescriptor_def h'(1,2))
  ultimately show ?thesis using h'(1,10,11) frees_same [of U "spans h" "spans h"] by (simp add: grown_def inuse_spans_def)
qed

definition block_ready :: "'o env \<Rightarrow> ('o \<Rightarrow> nat set) \<Rightarrow> nat \<Rightarrow> nat \<Rightarrow> nat set \<Rightarrow> 'o page_heap \<Rightarrow> bool" where
  "block_ready E mapped p n U h \<longleftrightarrow>
     memory_ok E mapped U (covered U (spans h) \<union> {p..<p + n}) (span_allocator h) (stacktrace_allocator h) (meta h)
       (system_bytes (stats h) + n * 2 ^ kPageShift)
     \<and> covered U (spans h) \<inter> {p..<p + n} = {} \<and> 0 < p \<and> p + n \<le> 2 ^ 35"

lemma try_alloc_ok:
  assumes inv: "heap_inv E mapped U {} h" "commit_ok {} h" and ask: "ask \<le> kMaxValidPages"
  shows "outcome True (do {
      (ok, h) \<leftarrow> EnsureLimit E ask True h;
      if ok then do {
        (ptr, actual_size, sm) \<leftarrow> TCMalloc_SystemAlloc (plat E) (page_bytes ask) kPageSize (sysmem (meta h));
        Some (ptr, actual_size, h\<lparr>meta := (meta h)\<lparr>sysmem := sm\<rparr>\<rparr>) }
      else Some (0, 0, h) })
    (\<lambda>(ptr, actual, h'). \<exists>U'. grown E mapped U h U' h' \<and> (ptr \<noteq> 0 \<longrightarrow>
        block_ready E mapped (ptr div 2 ^ kPageShift) (actual div 2 ^ kPageShift) U' h' \<and> ask \<le> actual div 2 ^ kPageShift))"
proof -
  have "ask \<le> 2 ^ 51" using ask by (simp add: kMaxValidPages_def)
  from outcome_weaken [OF EnsureLimit_ok [OF inv this]] show ?thesis
  proof (rule outcome_bindI, simp, goal_cases)
    case (1 x)
    obtain ok h1 where x: "x = (ok, h1)" by (cases x)
    from 1(2) obtain U1 where r: "released E mapped {} U h U1 h1" by (auto simp: x)
    note i1 = releasedD [OF r, THEN conjunct1] releasedD [OF r, THEN conjunct2] and g1 = released_grown [OF r]
    show ?case
    proof (cases ok)
      case False
      then show ?thesis using g1 by (auto simp: x)
    next
      case True
      show ?thesis unfolding x prod.case if_P [OF True]
      proof (rule outcome_bindI [OF outcome_True], goal_cases)
        case (1 y)
        obtain ptr actual sm where y: "y = (ptr, actual, sm)" by (cases y) auto
        note mem = grow_memory [OF heap_invD(5) [OF i1(1)] ask 1(1) [unfolded y]]
        let ?h2 = "h1\<lparr>meta := (meta h1)\<lparr>sysmem := sm\<rparr>\<rparr>"
        have "grown E mapped U1 h1 U1 ?h2"
          by (rule grown_frame [OF i1]) (use mem(1) i1(2) in \<open>simp_all add: quiet_def commit_ok_def\<close>)
        then have "grown E mapped U h U1 ?h2" by (rule grown_trans [OF g1])
        moreover have "block_ready E mapped (ptr div 2 ^ kPageShift) (actual div 2 ^ kPageShift) U1 ?h2 \<and> ask \<le> actual div 2 ^ kPageShift"
          if "ptr \<noteq> 0" using mem(2) [OF that refl refl] by (simp add: block_ready_def)
        ultimately show ?case by (auto simp: y)
      qed
    qed
  qed
qed

text \<open>The accounting and the page map for a new block.\<close>

lemma block_stats:
  assumes inv: "heap_inv E mapped U {} h" "commit_ok {} h" and b: "block_ready E mapped p n U h"
    and h1: "h1 = upd_stats (\<lambda>st. st\<lparr>
                    reserve_count := add64 (reserve_count st) 1,
                    commit_count := add64 (commit_count st) 1,
                    system_bytes := add64 (system_bytes st) (page_bytes n),
                    committed_bytes := add64 (committed_bytes st) (page_bytes n),
                    total_commit_bytes := add64 (total_commit_bytes st) (page_bytes n),
                    total_reserve_bytes := add64 (total_reserve_bytes st) (page_bytes n)\<rparr>) h"
  shows "system_bytes (stats h1) = system_bytes (stats h) + n * 2 ^ kPageShift" and "commit_ok {} h1"
proof -
  have fin: "finite (covered U (spans h) \<union> {p..<p + n})" using covered_finite [OF heap_invD(2) [OF inv(1)]] by simp
  have "system_bytes (stats h) + n * 2 ^ kPageShift \<le> 2 ^ 48"
    using memory_ok_bytes(2,3) [OF b [unfolded block_ready_def, THEN conjunct1] fin] by simp
  moreover have "page_bytes n = n * 8192" using b by (simp add: block_ready_def shl64_eq)
  moreover have "committed_bytes (stats h) \<le> system_bytes (stats h)" using inv(2) by (simp add: commit_ok_def)
  ultimately show "system_bytes (stats h1) = system_bytes (stats h) + n * 2 ^ kPageShift" "commit_ok {} h1"
    using inv(2) by (simp_all add: h1 upd_stats_def add64_eq commit_ok_def)
qed

lemma no_Preallocate: "PageMap2_PreallocateMoreMemory pagemap_bits al m s = (m, s)"
  by (simp add: PageMap2_PreallocateMoreMemory_def)

lemma block_span:
  assumes inv: "heap_inv E mapped U {} h" "commit_ok {} h" and b: "block_ready E mapped p n U h" and n: "0 < n"
    and h1: "stats h1 = st" "system_bytes st = system_bytes (stats h) + n * 2 ^ kPageShift" "commit_ok {} h1"
      "free_bytes st = free_bytes (stats h)" "unmapped_bytes st = unmapped_bytes (stats h)"
      "spans h1 = spans h" "span_allocator h1 = span_allocator h" "stacktrace_allocator h1 = stacktrace_allocator h"
      "free_normal h1 = free_normal h" "free_returned h1 = free_returned h"
      "large_normal h1 = large_normal h" "large_returned h1 = large_returned h" "quiet h h1"
    and e: "PageMap2_Ensure pagemap_bits (pagemap_allocator E) (p - 1) (n + 2) (pagemap h) (Some (meta h)) = (ok, pm, Some md)"
      "pagemap h1 = pm" "meta h1 = md"
  shows "grown E mapped U h U h1"
    and "ok \<Longrightarrow> outcome True (do { (s, h) \<leftarrow> heap_NewSpan E p n h1; h \<leftarrow> RecordSpan s h; h \<leftarrow> DeleteLocked E s h; Some (True, g, h) })
      (\<lambda>(r, g', h'). g' = g \<and> (\<exists>U'. grown E mapped U h U' h' \<and> (\<exists>v\<in>U'. location (spans h' v) \<noteq> IN_USE \<and> n \<le> slength (spans h' v))))"
proof -
  note d = heap_invD [OF inv(1)]
  have br: "covered U (spans h) \<inter> {p..<p + n} = {}" "0 < p" "p + n \<le> 2 ^ 35" using b by (simp_all add: block_ready_def)
  have meta: "\<And>G. meta_ok (plat E) mapped G (meta h) \<Longrightarrow> meta_ok (plat E) mapped G md"
    using Ensure_meta_ok e(1) by blast
  have mem: "memory_ok E mapped U (covered U (spans h) \<union> {p..<p + n}) (span_allocator h) (stacktrace_allocator h) md (system_bytes st)"
    unfolding h1(2) by (rule memory_ok_meta [OF b [unfolded block_ready_def, THEN conjunct1] meta])
  then have mem0: "memory_ok E mapped U (covered U (spans h)) (span_allocator h) (stacktrace_allocator h) md (system_bytes st)"
    unfolding memory_ok_def using page_area_mono [of "covered U (spans h)" "covered U (spans h) \<union> {p..<p + n}"] by blast
  have pg: "pm_get pm = pm_get (pagemap h)" "\<And>j. pm_ensured (pagemap h) j \<Longrightarrow> pm_ensured pm j"
    using pm2.get_Ensure [of pagemap_bits "pagemap_allocator E" "p - 1" "n + 2" "pagemap h" "Some (meta h)"]
      pm2.ensured_mono [of pagemap_bits "pagemap h" _ "pagemap_allocator E" "p - 1" "n + 2" "Some (meta h)"] e(1) by auto
  show "grown E mapped U h U h1"
    by (rule grown_frame [OF inv]) (use h1 pg e mem0 in auto)
  assume ok: ok
  have en: "pm_ensured pm j" if "p - 1 \<le> j" "j < p + n + 1" for j
    using pm2.Ensure_ok [of pagemap_bits "pagemap_allocator E" "p - 1" "n + 2" "pagemap h" "Some (meta h)" j]
      e(1) ok br that by simp
  show "outcome True (do { (s, h) \<leftarrow> heap_NewSpan E p n h1; h \<leftarrow> RecordSpan s h; h \<leftarrow> DeleteLocked E s h; Some (True, g, h) })
      (\<lambda>(r, g', h'). g' = g \<and> (\<exists>U'. grown E mapped U h U' h' \<and> (\<exists>v\<in>U'. location (spans h' v) \<noteq> IN_USE \<and> n \<le> slength (spans h' v))))"
  proof (rule outcome_bindI [OF outcome_True], goal_cases)
    case (1 x)
    obtain s h2 where x: "x = (s, h2)" by (cases x)
    obtain pool md2 where a: "PageHeapAllocator_New (plat E) sizeof_Span (span_allocator h1) (meta h1) = Some (s, pool, md2)"
      and h2: "h2 = h1\<lparr>spans := (spans h1)(s := Span_ctor\<lparr>start := p, slength := n\<rparr>), span_allocator := pool, meta := md2\<rparr>"
      using heap_NewSpan_Some 1(1) [unfolded x] by blast
    have s: "s \<notin> U" "s \<noteq> 0"
      and mem2: "memory_ok E mapped (insert s U) (covered U (spans h) \<union> {p..<p + n}) pool (stacktrace_allocator h) md2 (system_bytes st)"
      using memory_ok_New [OF mem a [unfolded h1(7) e(3)]] by blast+
    have sp: "start (spans h2 s) = p" "slength (spans h2 s) = n" "pagemap h2 = pm" by (simp_all add: h2 e(2))
    have "pm_ensured (pagemap h2) (start (spans h2 s))" "pm_ensured (pagemap h2) (start (spans h2 s) + slength (spans h2 s) - 1)"
      "0 < slength (spans h2 s)" unfolding sp using n br by (auto intro!: en)
    from RecordSpan_ok [OF this] obtain m where
      m: "RecordSpan s h2 = Some (h2\<lparr>pagemap := m\<rparr>)" "pm_get m = (pm_get (pagemap h))(p \<mapsto> s, p + n - 1 \<mapsto> s)"
        "pm_ensured m = pm_ensured pm" by (auto simp: sp pg(1))
    let ?h3 = "h2\<lparr>pagemap := m\<rparr>"
    have i3: "heap_inv E mapped (insert s U) {} ?h3" "heap_keep {} U h (insert s U) ?h3"
      by (rule grow_span [OF inv(1) s n br(2,3,1)]; use h1 m(2,3) pg(2) en mem2 in \<open>auto simp: h2\<close>)+
    have c3: "commit_ok {} ?h3" using h1(3) by (simp add: h2 commit_ok_def)
    have sl: "s \<in> insert s U" "location (spans ?h3 s) = IN_USE" by (simp_all add: h2 Span_ctor_def)
    have spo: "spans ?h3 u = spans h u" if "u \<in> U" for u using that s(1) h1(6) by (auto simp: h2)
    show ?case unfolding x prod.case m(1) bind.bind_lunit
    proof (rule outcome_bindI [OF outcome_weaken [OF DeleteLocked_ok [OF i3(1) c3 sl]]], simp, elim exE, goal_cases)
      case (1 h4 U4)
      note r = 1(2)
      have k: "heap_keep {} U h U4 h4"
        by (rule heap_keep_trans [OF i3(2), of "{s}"]) (use r s in \<open>auto simp: released_def\<close>)
      have "coalesced (insert s U - {s}) (spans ?h3)" if "coalesced U (spans h)"
        by (rule coalesced_cong [OF that]) (use spo in auto)
      moreover have "aggressive_decommit ?h3 = aggressive_decommit h" using h1(13) by (simp add: h2 quiet_def)
      moreover have "frees {} U (spans h) U4 (spans h4)"
        using r spo unfolding released_def frees_def by (metis (no_types, lifting) empty_iff insertCI)
      moreover have "inuse_spans U4 h4 = inuse_spans U h"
      proof
        have "inuse_spans (insert s U) ?h3 - {s} \<subseteq> inuse_spans U h" using spo by (auto simp: inuse_spans_def)
        then show "inuse_spans U4 h4 \<subseteq> inuse_spans U h" using r by (auto simp: released_def)
        show "inuse_spans U h \<subseteq> inuse_spans U4 h4" using k by (auto simp: heap_keep_def inuse_spans_def)
      qed
      moreover have "clean (insert s U) (spans ?h3)" if "clean U (spans h)"
        using that spo sl by (auto simp: clean_def)
      moreover have "quiet h h4" using r h1(13) by (simp add: released_def steady_def quiet_def h2)
      ultimately have "grown E mapped U h U4 h4" using r k by (simp add: released_def grown_def)
      moreover obtain v where v: "v \<in> U4" "location (spans h4 v) \<noteq> IN_USE" "extent (spans ?h3 s) \<subseteq> extent (spans h4 v)"
        using r unfolding released_def frees_def by blast
      then have "n \<le> slength (spans h4 v)" using n sp by (simp add: atLeastLessThan_subset_iff)
      ultimately show ?case using v by auto
    qed
  qed
qed

lemma GrowHeap_ok:
  assumes inv: "heap_inv E mapped U {} h" "commit_ok {} h" and n: "0 < n"
  shows "outcome True (GrowHeap E n g h) (\<lambda>(ok, g', h'). \<exists>U'. grown E mapped U h U' h'
     \<and> (ok \<longrightarrow> n \<le> kMaxValidPages \<and> (\<exists>v\<in>U'. location (spans h' v) \<noteq> IN_USE \<and> n \<le> slength (spans h' v))))"
proof (cases "n > kMaxValidPages")
  case True
  then show ?thesis using released_grown [OF released_refl [OF inv]] by (auto simp: GrowHeap_def)
next
  case False
  let ?attempt = "\<lambda>ask h. do {
      (ok, h) \<leftarrow> EnsureLimit E ask True h;
      if ok then do {
        (ptr, actual_size, sm) \<leftarrow> TCMalloc_SystemAlloc (plat E) (page_bytes ask) kPageSize (sysmem (meta h));
        Some (ptr, actual_size, h\<lparr>meta := (meta h)\<lparr>sysmem := sm\<rparr>\<rparr>) }
      else Some (0, 0, h) }"
  let ?ask = "if n > kMinSystemAlloc then n else kMinSystemAlloc"
  let ?T = "\<lambda>(ptr, actual, h'). \<exists>U'. grown E mapped U h U' h' \<and> (ptr \<noteq> 0 \<longrightarrow>
        block_ready E mapped (ptr div 2 ^ kPageShift) (actual div 2 ^ kPageShift) U' h' \<and> n \<le> actual div 2 ^ kPageShift)"
  have ask: "?ask \<le> kMaxValidPages" "n \<le> kMaxValidPages" "n \<le> ?ask"
    using False by (auto simp: kMaxValidPages_def kMinSystemAlloc_def)
  have first: "outcome True (?attempt ?ask h) ?T"
    by (rule outcome_mono [OF try_alloc_ok [OF inv ask(1)]]) (use ask(3) order_trans in \<open>fastforce split: prod.splits\<close>)
  show ?thesis
    unfolding GrowHeap_def if_not_P [OF False] Let_def
  proof (rule outcome_bindI [OF first], goal_cases)
    case (1 x)
    obtain ptr actual h1 where x: "x = (ptr, actual, h1)" by (cases x) auto
    from 1(2) obtain U1 where g1: "grown E mapped U h U1 h1" by (auto simp: x)
    note i1 = grownD [OF g1, THEN conjunct1] grownD [OF g1, THEN conjunct2]
    have second: "outcome True (if ptr = 0 \<and> n < ?ask then ?attempt n h1 else Some (ptr, actual, h1)) ?T"
    proof (cases "ptr = 0 \<and> n < ?ask")
      case True
      have "outcome True (?attempt n h1) ?T"
        by (rule outcome_mono [OF try_alloc_ok [OF i1 ask(2)]]) (use grown_trans [OF g1] in blast)
      then show ?thesis unfolding if_P [OF True] .
    next
      case False
      have "?T (ptr, actual, h1)" using 1(2) by (simp only: x)
      then show ?thesis unfolding if_not_P [OF False] outcome_simps .
    qed
    show ?case unfolding x prod.case
    proof (rule outcome_bindI [OF second], goal_cases)
      case (1 y)
      obtain ptr actual h2 where y: "y = (ptr, actual, h2)" by (cases y) auto
      from 1(2) obtain U2 where g2: "grown E mapped U h U2 h2"
        and b: "ptr \<noteq> 0 \<Longrightarrow> block_ready E mapped (ptr div 2 ^ kPageShift) (actual div 2 ^ kPageShift) U2 h2
          \<and> n \<le> actual div 2 ^ kPageShift" by (auto simp: y)
      note i2 = grownD [OF g2, THEN conjunct1] grownD [OF g2, THEN conjunct2]
      show ?case
      proof (cases "ptr = 0")
        case True
        then show ?thesis using g2 by (auto simp: y)
      next
        case False
        define k where "k = actual div 2 ^ kPageShift"
        define p where "p = ptr div 2 ^ kPageShift"
        define h3 where "h3 = upd_stats (\<lambda>st. st\<lparr>
                    reserve_count := add64 (reserve_count st) 1,
                    commit_count := add64 (commit_count st) 1,
                    system_bytes := add64 (system_bytes st) (page_bytes k),
                    committed_bytes := add64 (committed_bytes st) (page_bytes k),
                    total_commit_bytes := add64 (total_commit_bytes st) (page_bytes k),
                    total_reserve_bytes := add64 (total_reserve_bytes st) (page_bytes k)\<rparr>) h2"
        have bl: "block_ready E mapped p k U2 h2" "n \<le> k" "0 < k" using b [OF False] n by (simp_all add: k_def p_def)
        note st = block_stats [OF i2 bl(1) h3_def]
        have same: "pagemap h3 = pagemap h2" "meta h3 = meta h2" by (simp_all add: h3_def upd_stats_def)
        obtain ok pm mdo where e: "PageMap2_Ensure pagemap_bits (pagemap_allocator E) (p - 1) (k + 2) (pagemap h2) (Some (meta h2))
            = (ok, pm, mdo)" by (metis prod_cases3)
        have rest: "outcome True (mdo \<bind> (\<lambda>md. let h = h3\<lparr>pagemap := pm, meta := md\<rparr> in
            if ok then do { (s, h) \<leftarrow> heap_NewSpan E p k h; h \<leftarrow> RecordSpan s h; h \<leftarrow> DeleteLocked E s h;
              Some (True, add64 g (page_bytes k), h) }
            else Some (False, add64 g (page_bytes k), h)))
          (\<lambda>(ok, g', h'). \<exists>U'. grown E mapped U h U' h'
             \<and> (ok \<longrightarrow> n \<le> kMaxValidPages \<and> (\<exists>v\<in>U'. location (spans h' v) \<noteq> IN_USE \<and> n \<le> slength (spans h' v))))"
        proof (cases mdo)
          case (Some md)
          let ?h4 = "h3\<lparr>pagemap := pm, meta := md\<rparr>"
          have sp: "grown E mapped U2 h2 U2 ?h4"
            "ok \<Longrightarrow> outcome True (do { (s, h) \<leftarrow> heap_NewSpan E p k ?h4; h \<leftarrow> RecordSpan s h; h \<leftarrow> DeleteLocked E s h;
              Some (True, add64 g (page_bytes k), h) })
              (\<lambda>(r, g', h'). g' = add64 g (page_bytes k) \<and> (\<exists>U'. grown E mapped U2 h2 U' h'
                \<and> (\<exists>v\<in>U'. location (spans h' v) \<noteq> IN_USE \<and> k \<le> slength (spans h' v))))"
            by (rule block_span [OF i2 bl(1,3) refl _ _ _ _ _ _ _ _ _ _ _ _ e [unfolded Some]];
                use st in \<open>simp add: h3_def upd_stats_def quiet_def commit_ok_def\<close>)+
          show ?thesis
          proof (cases ok)
            case True
            show ?thesis unfolding Some bind.bind_lunit Let_def if_P [OF True]
              by (rule outcome_mono [OF sp(2) [OF True]])
                (use grown_trans [OF g2] bl(2) ask(2) order_trans in \<open>fastforce split: prod.splits\<close>)
          next
            case False
            then show ?thesis using grown_trans [OF g2 sp(1)] by (auto simp: Some)
          qed
        qed simp
        then show ?thesis unfolding y prod.case if_not_P [OF False] k_def [symmetric] p_def [symmetric] h3_def [symmetric]
          by (simp only: no_Preallocate same if_cancel prod.case e Let_def)
      qed
    qed
  qed
qed

subsection \<open>Allocating pages\<close>

text \<open>
  A bound on the memory of the process that the following assumes: less than \<open>2\<^sup>44\<close> bytes are mapped at any time.
  \<open>Carve\<close> and \<open>Split\<close> compute the length of what is left of a span in an \<open>int\<close>, which is right only for spans
  of less than \<open>2\<^sup>31\<close> pages; beyond the bound they go wrong.
\<close>

definition tame :: "('o \<Rightarrow> nat set) \<Rightarrow> bool" where
  "tame mapped \<longleftrightarrow> (\<forall>s. finite (mapped s) \<and> card (mapped s) < 2 ^ 44)"

lemma tame_bytes:
  assumes "heap_inv E mapped U X h" and "tame mapped"
  shows "system_bytes (stats h) < 2 ^ 44"
proof -
  obtain G B where m: "meta_ok (plat E) mapped G (meta h)" "B \<subseteq> G" "system_bytes (stats h) = card B"
    using heap_invD(5) [OF assms(1)] unfolding memory_ok_def by blast
  let ?M = "mapped (os (sysmem (meta h)))"
  have "B \<subseteq> ?M" using meta_ok_mapped [OF m(1)] m(2) by blast
  moreover have "finite ?M" "card ?M < 2 ^ 44" using assms(2) by (simp_all add: tame_def)
  ultimately show ?thesis using card_mono [of ?M B] m(3) by simp
qed

text \<open>The outcome of an allocation that may grow the heap.\<close>

definition obtained ::
  "'o env \<Rightarrow> ('o \<Rightarrow> nat set) \<Rightarrow> nat \<Rightarrow> nat set \<Rightarrow> 'o page_heap \<Rightarrow> nat \<times> 'o page_heap \<Rightarrow> bool" where
  "obtained E mapped n U h = (\<lambda>(r, h'). \<exists>U'.
     if r = 0 then grown E mapped U h U' h' else allocated E mapped r n U h U' h')"

lemma obtained_trans: "grown E mapped U h U1 h1 \<Longrightarrow> obtained E mapped n U1 h1 x \<Longrightarrow> obtained E mapped n U h x"
  unfolding obtained_def using grown_trans grown_allocated by (fastforce split: if_splits)

lemma searched_obtained: "searched E mapped n U h x \<Longrightarrow> obtained E mapped n U h x"
  unfolding obtained_def searched_def using released_grown by (fastforce split: if_splits)

lemma Search_ok:
  assumes "heap_inv E mapped U {} h" "commit_ok {} h" and "tame mapped" and "0 < n"
  shows "outcome True (SearchFreeAndLargeLists E n h) (obtained E mapped n U h)"
proof (cases "n \<le> 2 ^ 51")
  case True
  show ?thesis unfolding SearchFreeAndLargeLists_def
    by (rule outcome_mono [OF search_lists_ok [OF assms(1,2,4) tame_bytes [OF assms(1,3)] True order_refl] searched_obtained])
next
  case False
  have "best_large n h = None"
  proof (rule ccontr)
    assume "best_large n h \<noteq> None"
    then obtain s where "best_large n h = Some s" by blast
    then have s: "s \<in> U" "n \<le> slength (spans h s)"
      using best_large_ok(1) [OF assms(1)] by (auto simp: best_fit_def free_large_def)
    then show False using geo_okD(4) [OF heap_invD(2) [OF assms(1)] s(1)] False by simp
  qed
  then have "SearchFreeAndLargeLists E n h = Some (0, h)"
    using False by (simp add: SearchFreeAndLargeLists_def search_lists.simps [of E n n] AllocLarge_best)
  then show ?thesis using released_grown [OF released_refl [OF assms(1,2)]] by (auto simp: obtained_def)
qed

lemma NewLocked_ok:
  assumes inv: "heap_inv E mapped U {} h" "commit_ok {} h" and tame: "tame mapped" and n: "0 < RoundUpSize n h"
  shows "outcome True (NewLocked E n g h) (\<lambda>(r, g', h'). obtained E mapped (RoundUpSize n h) U h (r, h'))"
proof -
  define m where "m = RoundUpSize n h"
  note m0 = n [folded m_def]
  let ?O = "\<lambda>(r, h'). obtained E mapped m U h (r, h')"
  let ?O3 = "\<lambda>(r, g', h'). obtained E mapped m U h (r, h')"
  have search: "outcome True (SearchFreeAndLargeLists E m h') ?O" if "grown E mapped U h U' h'" for U' h'
    using Search_ok [OF _ _ tame m0, of E U' h'] grownD [OF that] obtained_trans [OF that]
    by (auto intro: outcome_mono)
  have g0: "grown E mapped U h U h" by (rule released_grown [OF released_refl [OF inv]])
  have got: "\<exists>U'. grown E mapped U h U' h'" if "obtained E mapped m U h (0, h')" for h'
    using that by (auto simp: obtained_def)
  show ?thesis
    unfolding NewLocked_def Let_def m_def [symmetric]
  proof (rule outcome_bindI [OF search [OF g0]], goal_cases)
    case (1 x)
    obtain r h1 where x: "x = (r, h1)" by (cases x)
    note o1 = 1(2) [unfolded x prod.case]
    show ?case
    proof (cases "r = 0")
      case False
      then show ?thesis using o1 by (simp add: x)
    next
      case r0: True
      then obtain U1 where g1: "grown E mapped U h U1 h1" using got o1 by blast
      note i1 = grownD [OF g1, THEN conjunct1] grownD [OF g1, THEN conjunct2]
      let ?c = "free_bytes (stats h1) \<noteq> 0 \<and> unmapped_bytes (stats h1) \<noteq> 0
             \<and> system_bytes (stats h1) div 4 \<le> add64 (free_bytes (stats h1)) (unmapped_bytes (stats h1))
             \<and> system_bytes (stats h1) div kForcedCoalesceInterval
                 \<noteq> add64 (system_bytes (stats h1)) (page_bytes m) div kForcedCoalesceInterval"
      have again: "outcome True (if ?c then do { (_, h) \<leftarrow> ReleaseAtLeastNPages E 0x7fffffff h1; SearchFreeAndLargeLists E m h }
          else Some (0, h1)) ?O"
      proof (cases ?c)
        case True
        show ?thesis unfolding if_P [OF True]
        proof (rule outcome_bindI [OF outcome_weaken [OF ReleaseAtLeastNPages_ok [OF i1]]], simp, goal_cases)
          case (1 y)
          obtain k h2 where y: "y = (k, h2)" by (cases y)
          obtain U2 where "released E mapped {} U1 h1 U2 h2" using 1(2) by (auto simp: y pages_ok_def)
          from search [OF grown_trans [OF g1 released_grown [OF this]]] show ?case by (simp add: y)
        qed
      next
        case False
        show ?thesis unfolding if_not_P [OF False] using o1 r0 by simp
      qed
      have nr: "\<not> r \<noteq> 0" using r0 by simp
      show ?thesis unfolding x prod.case if_not_P [OF nr]
      proof (rule outcome_bindI [OF again], goal_cases)
        case (1 y)
        obtain r2 h2 where y: "y = (r2, h2)" by (cases y)
        note o2 = 1(2) [unfolded y prod.case]
        show ?case
        proof (cases "r2 = 0")
          case False
          then show ?thesis using o2 by (simp add: y)
        next
          case r0: True
          then obtain U2 where g2: "grown E mapped U h U2 h2" using got o2 by blast
          note i2 = grownD [OF g2, THEN conjunct1] grownD [OF g2, THEN conjunct2]
          have nr: "\<not> r2 \<noteq> 0" using r0 by simp
          show ?thesis unfolding y prod.case if_not_P [OF nr]
          proof (rule outcome_bindI [OF GrowHeap_ok [OF i2 m0]], goal_cases)
            case (1 z)
            obtain ok g3 h3 where z: "z = (ok, g3, h3)" by (cases z) auto
            obtain U3 where g3: "grown E mapped U h U3 h3" using 1(2) grown_trans [OF g2] by (auto simp: z)
            show ?case
            proof (cases ok)
              case True
              have "outcome True (SearchFreeAndLargeLists E m h3 \<bind> (\<lambda>(result, h). Some (result, g3, h))) ?O3"
                by (rule outcome_bindI [OF search [OF g3]]) (auto split: prod.splits)
              then show ?thesis using True by (simp add: z)
            next
              case False
              then show ?thesis using g3 by (auto simp: z obtained_def)
            qed
          qed
        qed
      qed
    qed
  qed
qed

end
