(* ===== verification/PageHeapNew.thy ===== *)
theory PageHeapNew
  imports PageHeapGrow
begin

text \<open>
  The public operations of the page heap on states that satisfy the invariant: what \<open>New\<close>,
  \<open>NewWithSizeClass\<close>, \<open>NewAligned\<close> and \<open>Split\<close> return, when \<open>New\<close> fails, and that the heap's
  own consistency check succeeds.
\<close>

subsection \<open>Rounding\<close>

lemma RoundUpSize_spec:
  assumes k: "smallest_span_size h = 2 ^ k" "k < 64" and n: "n < 2 ^ 64"
  shows "2 ^ k dvd RoundUpSize n h" and "RoundUpSize n h < 2 ^ 64"
    and "n \<le> 2 ^ 64 - 2 ^ k \<Longrightarrow> n \<le> RoundUpSize n h \<and> RoundUpSize n h < n + 2 ^ k"
    and "2 ^ 64 - 2 ^ k < n \<Longrightarrow> RoundUpSize n h = 2 ^ 64 - 2 ^ k"
proof -
  have p: "(2::nat) ^ k \<le> 2 ^ 64" "(1::nat) \<le> 2 ^ k" "(2::nat) ^ k \<le> 2 ^ 63"
    using power_increasing [of k 63 "2::nat"] k(2) by auto
  have k64: "k \<le> 64" using k(2) by simp
  have s1: "sub64 (2 ^ k) 1 = 2 ^ k - 1" using p by (simp add: sub64_eq)
  have d64: "(2::nat) ^ k dvd 2 ^ 64" using k64 by (rule le_imp_power_dvd)
  define x where "x = sub64 (add64 n (2 ^ k)) 1"
  have xb: "x < 2 ^ 64" unfolding x_def by (rule sub64_bound)
  have R: "RoundUpSize n h = (if x - x mod 2 ^ k < n then 2 ^ 64 - 2 ^ k else x - x mod 2 ^ k)"
  proof -
    have "(2 ^ 64 - 1) AND ((2::nat) ^ 64 - 2 ^ k) = 2 ^ 64 - 2 ^ k"
      using and_low_mask [of "2 ^ 64 - 2 ^ k" 64] p by (simp add: and.commute)
    then show ?thesis
      unfolding RoundUpSize_def Let_def k(1) s1 not64_mask [OF k64] x_def [symmetric] and_high_mask [OF k64 xb] by simp
  qed
  have dv: "2 ^ k dvd x - x mod 2 ^ k" for x :: nat by (rule dvd_minus_mod)
  show "2 ^ k dvd RoundUpSize n h" unfolding R using dv d64 by (simp add: dvd_diff_nat)
  show "RoundUpSize n h < 2 ^ 64" unfolding R using xb p by auto
  show "n \<le> RoundUpSize n h \<and> RoundUpSize n h < n + 2 ^ k" if "n \<le> 2 ^ 64 - 2 ^ k"
  proof -
    have "x = n + 2 ^ k - 1"
    proof (cases "n + 2 ^ k = 2 ^ 64")
      case True
      then show ?thesis by (simp add: x_def add64_def sub64_def)
    next
      case False
      then have a: "n + 2 ^ k < 2 ^ 64" and b: "1 \<le> n + 2 ^ k" using that p by linarith+
      show ?thesis unfolding x_def add64_eq [OF a] by (rule sub64_eq [OF b a])
    qed
    moreover have "x mod 2 ^ k < 2 ^ k" by simp
    ultimately have "n \<le> x - x mod 2 ^ k" "x - x mod 2 ^ k < n + 2 ^ k" using p by linarith+
    then show ?thesis unfolding R by simp
  qed
  show "RoundUpSize n h = 2 ^ 64 - 2 ^ k" if "2 ^ 64 - 2 ^ k < n"
  proof -
    have "add64 n (2 ^ k) = n + 2 ^ k - 2 ^ 64"
      unfolding add64_def using that n p by (subst mod_if) simp
    moreover have "1 \<le> n + 2 ^ k - 2 ^ 64" "n + 2 ^ k - 2 ^ 64 < 2 ^ 64" using that n p(1) by linarith+
    ultimately have "x = n + 2 ^ k - 2 ^ 64 - 1" unfolding x_def by (metis sub64_eq)
    then have "x < 2 ^ k" using n p by linarith
    then show ?thesis unfolding R using that by simp
  qed
qed

subsection \<open>Size classes and growth records\<close>

lemma heap_inv_memory:
  assumes "heap_inv E mapped U X h" and "spans h' = spans h" "pagemap h' = pagemap h" "stats h' = stats h"
    "free_normal h' = free_normal h" "free_returned h' = free_returned h"
    "large_normal h' = large_normal h" "large_returned h' = large_returned h"
    and "memory_ok E mapped U (covered U (spans h)) (span_allocator h') (stacktrace_allocator h') (meta h') (system_bytes (stats h))"
  shows "heap_inv E mapped U X h'"
  using assms by (simp add: heap_inv_def on_lists_def)

lemma HandleUnlock_ok:
  assumes "heap_inv E mapped U X h"
  shows "outcome True (HandleUnlock E g h) (\<lambda>h'. heap_inv E mapped U X h' \<and> spans h' = spans h \<and> pagemap h' = pagemap h
     \<and> stats h' = stats h \<and> pagemap_cache h' = pagemap_cache h \<and> smallest_span_size h' = smallest_span_size h
     \<and> aggressive_decommit h' = aggressive_decommit h)"
proof (cases "g = 0")
  case False
  show ?thesis unfolding HandleUnlock_def if_P [OF False]
  proof (rule outcome_bindI [OF outcome_True], goal_cases)
    case (1 x)
    obtain t pool md where x: "x = (t, pool, md)" by (cases x) auto
    note m = memory_ok_New_trace [OF heap_invD(5) [OF assms] 1(1) [unfolded x]]
    show ?case
      using heap_inv_memory [OF assms, of "h\<lparr>stacktrace_allocator := pool, meta := md, growth_stacks := (t, g) # growth_stacks h\<rparr>"] m
      by (simp add: x)
  qed
qed (use assms in \<open>simp add: HandleUnlock_def\<close>)

text \<open>Registering gives the interior pages of a span in use their entries in the page map.\<close>

lemma RegisterSizeClass_ok:
  assumes inv: "heap_inv E mapped U {} h" and s: "s \<in> U" "location (spans h s) = IN_USE"
  shows "\<exists>m. RegisterSizeClass s sc h = Some ((upd_span s (\<lambda>x. x\<lparr>sizeclass := sc mod 256\<rparr>) h)\<lparr>pagemap := m\<rparr>)
     \<and> heap_inv E mapped U {} ((upd_span s (\<lambda>x. x\<lparr>sizeclass := sc mod 256\<rparr>) h)\<lparr>pagemap := m\<rparr>)
     \<and> heap_keep {s} U h U ((upd_span s (\<lambda>x. x\<lparr>sizeclass := sc mod 256\<rparr>) h)\<lparr>pagemap := m\<rparr>)
     \<and> (\<forall>p \<in> extent (spans h s). pm_get m p = Some s)"
proof -
  let ?a = "start (spans h s)" and ?l = "slength (spans h s)"
  let ?h1 = "upd_span s (\<lambda>x. x\<lparr>sizeclass := sc mod 256\<rparr>) h"
  note d = heap_invD [OF inv]
  have l: "0 < ?l" using geo_okD(3) [OF d(2) s(1)] .
  have sX: "s \<in> {s}" by simp
  have i0: "heap_inv E mapped U {s} h" using inuse_attach [OF s(2,1)] inv by blast
  have i1: "heap_inv E mapped U {s} ?h1" by (rule upd_span_inv(1) [OF i0 sX]) simp_all
  have e: "\<forall>j. ?a + 1 \<le> j \<and> j < ?a + 1 + (?l - 2) \<longrightarrow> pm_ensured (pagemap h) j"
    using d(3) s(1) by (auto simp: map_ok_def covered_def)
  from pm2.set_pages_ok [OF e, of "Some s"] obtain m where
    m: "set_pages (PageMap2_set pagemap_bits) (?a + 1) (?l - 2) (Some s) (pagemap h) = Some m"
      "pm_ensured m = pm_ensured (pagemap h)"
      "pm_get m = (\<lambda>j. if ?a + 1 \<le> j \<and> j < ?a + 1 + (?l - 2) then Some s else pm_get (pagemap h) j)" by blast
  let ?h2 = "?h1\<lparr>pagemap := m\<rparr>"
  have r: "RegisterSizeClass s sc h = Some ?h2"
    using m(1) by (simp add: RegisterSizeClass_def Let_def frame)
  have b: "pm_get (pagemap h) ?a = Some s" "pm_get (pagemap h) (?a + ?l - 1) = Some s"
    using d(3) s(1) by (auto simp: map_ok_def bounds_ok_def)
  have full: "pm_get m p = Some s" if "p \<in> extent (spans h s)" for p
  proof -
    have "p = ?a \<or> p = ?a + ?l - 1 \<or> ?a + 1 \<le> p \<and> p < ?a + 1 + (?l - 2)" using that by auto
    then show ?thesis using b by (auto simp: m(3))
  qed
  have out: "pm_get m p = pm_get (pagemap h) p" if "p \<notin> extent (spans h s)" for p
    using that by (auto simp: m(3))
  have cov: "covered U (spans ?h2) = covered U (spans h)" by (rule covered_cong) (simp add: frame)
  have "bounds_ok U (spans ?h2) (pm_get m)"
    unfolding bounds_ok_def
  proof (intro ballI)
    fix u assume u: "u \<in> U"
    have eb: "start (spans h u) \<in> extent (spans h u)" "start (spans h u) + slength (spans h u) - 1 \<in> extent (spans h u)"
      using geo_okD(3) [OF d(2) u] by auto
    have bu: "pm_get (pagemap h) (start (spans h u)) = Some u" "pm_get (pagemap h) (start (spans h u) + slength (spans h u) - 1) = Some u"
      using d(3) u by (auto simp: map_ok_def bounds_ok_def)
    have g2: "start (spans ?h2 u) = start (spans h u)" "slength (spans ?h2 u) = slength (spans h u)" by (simp_all add: frame)
    have "pm_get m q = Some u" if "q \<in> extent (spans h u)" "pm_get (pagemap h) q = Some u" for q
    proof (cases "u = s")
      case False
      then have "q \<notin> extent (spans h s)" using same_page [OF d(2) u s(1) that(1)] by blast
      then show ?thesis using out that(2) by simp
    qed (use full that(1) in simp)
    then show "pm_get m (start (spans ?h2 u)) = Some u \<and> pm_get m (start (spans ?h2 u) + slength (spans ?h2 u) - 1) = Some u"
      unfolding g2 using eb bu by blast
  qed
  then have "map_ok U (spans ?h2) m"
    by (intro map_ok_update [OF d(3) cov _ m(2)]) (use out s(1) in \<open>auto simp: covered_def\<close>)
  then have "heap_inv E mapped U {s} ?h2"
    using heap_invD [OF i1] by (simp add: heap_inv_def on_lists_def frame)
  then have "heap_inv E mapped U {} ?h2" using inuse_attach [of ?h2 s U] s by (simp add: frame)
  moreover have "heap_keep {s} U h U ?h2"
    unfolding heap_keep_def GetDescriptor_def
  proof (intro ballI impI conjI)
    fix u assume u: "u \<in> U - {s}"
    then show "u \<in> U" "spans ?h2 u = spans h u" by (auto simp: frame)
    fix p assume "p \<in> extent (spans h u)"
    then have "p \<notin> extent (spans h s)" using same_page [OF d(2) _ s(1)] u by blast
    then show "pm_get (pagemap ?h2) p = pm_get (pagemap h) p" using out by simp
  qed
  ultimately show ?thesis using r full by blast
qed

subsection \<open>The contract of the public operations\<close>

text \<open>The states between two public operations; \<open>U\<close> is the set of span objects in existence.\<close>

definition heap_ok :: "'o env \<Rightarrow> ('o \<Rightarrow> nat set) \<Rightarrow> nat set \<Rightarrow> 'o page_heap \<Rightarrow> bool" where
  "heap_ok E mapped U h \<longleftrightarrow> heap_inv E mapped U {} h \<and> commit_ok {} h \<and> clean U (spans h)
     \<and> (\<exists>k<64. smallest_span_size h = 2 ^ k)"

text \<open>A span of \<open>n\<close> pages was handed out.\<close>

definition granted ::
  "'o env \<Rightarrow> ('o \<Rightarrow> nat set) \<Rightarrow> nat \<Rightarrow> nat \<Rightarrow> nat \<Rightarrow> nat set \<Rightarrow> 'o page_heap \<Rightarrow> nat set \<Rightarrow> 'o page_heap \<Rightarrow> bool" where
  "granted E mapped s n sc U h U' h' \<longleftrightarrow> heap_ok E mapped U' h'
     \<and> s \<in> U' \<and> location (spans h' s) = IN_USE \<and> slength (spans h' s) = n \<and> sizeclass (spans h' s) = sc
     \<and> s \<notin> inuse_spans U h \<and> inuse_spans U' h' = insert s (inuse_spans U h) \<and> heap_keep {} U h U' h'
     \<and> (\<forall>p \<in> extent (spans h' s). sc \<noteq> 0 \<or> p = start (spans h' s) \<longrightarrow> GetDescriptor p h' = Some s)
     \<and> pagemap_cache h' = Invalidate (pagemap_cache h) (of_nat (start (spans h' s)))
     \<and> smallest_span_size h' = smallest_span_size h \<and> aggressive_decommit h' = aggressive_decommit h
     \<and> (\<not> aggressive_decommit h \<longrightarrow> coalesced U (spans h) \<longrightarrow> coalesced U' (spans h'))"

lemma allocated_granted:
  assumes ok: "heap_ok E mapped U h" and a: "allocated E mapped s n U h U' h1"
    and i2: "heap_inv E mapped U' {} h2" and k2: "heap_keep {s} U' h1 U' h2" and st: "stats h2 = stats h1"
    and sp: "spans h2 = (spans h1)(s := (spans h1 s)\<lparr>sizeclass := sc\<rparr>)"
    and pc: "pagemap_cache h2 = Invalidate (pagemap_cache h) (of_nat (start (spans h2 s)))"
    and same: "smallest_span_size h2 = smallest_span_size h1" "aggressive_decommit h2 = aggressive_decommit h1"
    and full: "\<And>p. sc \<noteq> 0 \<Longrightarrow> p \<in> extent (spans h2 s) \<Longrightarrow> GetDescriptor p h2 = Some s"
  shows "granted E mapped s n sc U h U' h2"
proof -
  note al = a [unfolded allocated_def]
  have sU: "s \<in> U'" and loc: "location (spans h1 s) = IN_USE" using al by blast+
  have "clean U' (spans h1)" using al ok by (simp add: heap_ok_def)
  then have cl: "clean U' (spans h2)" using loc by (auto simp: clean_def sp)
  have co: "commit_ok {} h2" using al st by (simp add: commit_ok_def)
  have "heap_keep {} U h U' h2"
    by (rule heap_keep_trans [of "{}" U h U' h1 "{s}"]) (use al k2 in \<open>auto simp: inuse_spans_def\<close>)
  moreover have "inuse_spans U' h2 = inuse_spans U' h1" by (auto simp: inuse_spans_def sp)
  moreover have "coalesced U' (spans h2)" if "coalesced U' (spans h1)"
    by (rule coalesced_cong [OF that]) (auto simp: sp)
  moreover have "GetDescriptor (start (spans h2 s)) h2 = Some s"
    using heap_invD(3) [OF i2] sU by (simp add: map_ok_def bounds_ok_def GetDescriptor_def)
  ultimately show ?thesis
    using al ok i2 cl co pc same full unfolding granted_def heap_ok_def
    by (auto simp: sp quiet_def)
qed

text \<open>The outcome of a public allocation, with null as 0.\<close>

definition served ::
  "'o env \<Rightarrow> ('o \<Rightarrow> nat set) \<Rightarrow> nat \<Rightarrow> nat \<Rightarrow> nat set \<Rightarrow> 'o page_heap \<Rightarrow> nat \<times> 'o page_heap \<Rightarrow> bool" where
  "served E mapped n sc U h = (\<lambda>(r, h'). \<exists>U'.
     if r = 0 then heap_ok E mapped U' h' \<and> grown E mapped U h U' h' else granted E mapped r n sc U h U' h')"

lemma grown_heap_ok: "grown E mapped U h U' h' \<Longrightarrow> heap_ok E mapped U h \<Longrightarrow> heap_ok E mapped U' h'"
  by (simp add: grown_def heap_ok_def quiet_def)

lemma HandleUnlock_served:
  assumes ok: "heap_ok E mapped U h" and s: "served E mapped n sc U h (r, h1)"
  shows "outcome True (HandleUnlock E g h1) (\<lambda>h'. served E mapped n sc U h (r, h'))"
proof -
  obtain U1 where U1: "if r = 0 then heap_ok E mapped U1 h1 \<and> grown E mapped U h U1 h1 else granted E mapped r n sc U h U1 h1"
    using s by (auto simp: served_def)
  then have i1: "heap_inv E mapped U1 {} h1" by (auto simp: granted_def heap_ok_def split: if_splits)
  show ?thesis
  proof (rule outcome_mono [OF HandleUnlock_ok [OF i1]], goal_cases)
    case (1 h')
    have e: "extent (spans h' u) = extent (spans h1 u)" "GetDescriptor p h' = GetDescriptor p h1" "inuse_spans V h' = inuse_spans V h1"
      "commit_ok {} h' = commit_ok {} h1" "heap_keep {} U h V h' = heap_keep {} U h V h1"
      for u p V using 1(2) by (simp_all add: GetDescriptor_def inuse_spans_def commit_ok_def heap_keep_def)
    have "heap_ok E mapped U1 h1 \<Longrightarrow> heap_ok E mapped U1 h'" using 1(2) e(4) by (simp add: heap_ok_def)
    moreover have "grown E mapped U h U1 h1 \<Longrightarrow> grown E mapped U h U1 h'"
      using 1(2) e(3-5) by (simp add: grown_def quiet_def)
    moreover have "granted E mapped r n sc U h U1 h1 \<Longrightarrow> granted E mapped r n sc U h U1 h'"
      unfolding granted_def heap_ok_def e(2-5) using 1(2) by auto
    ultimately show ?case using U1 by (auto simp: served_def)
  qed
qed

lemma NewWithSizeClass_ok:
  assumes ok: "heap_ok E mapped U h" and tame: "tame mapped" and n: "0 < RoundUpSize n h" and sc: "sc < 256"
  shows "outcome True (NewWithSizeClass E n sc h) (served E mapped (RoundUpSize n h) sc U h)"
proof -
  have inv: "heap_inv E mapped U {} h" "commit_ok {} h" using ok by (simp_all add: heap_ok_def)
  show ?thesis
    unfolding NewWithSizeClass_def
  proof (rule outcome_bindI [OF NewLocked_ok [OF inv tame n]], goal_cases)
    case (1 x)
    obtain s g h1 where x: "x = (s, g, h1)" by (cases x) auto
    from 1(2) obtain U1 where o: "if s = 0 then grown E mapped U h U1 h1 else allocated E mapped s (RoundUpSize n h) U h U1 h1"
      by (auto simp: x obtained_def)
    have "outcome True (if s = 0 then Some h1 else let h = InvalidateCachedSizeClass (start (spans h1 s)) h1 in
            if sc \<noteq> 0 then RegisterSizeClass s sc h else Some h)
        (\<lambda>h'. served E mapped (RoundUpSize n h) sc U h (s, h'))"
    proof (cases "s = 0")
      case True
      then show ?thesis using o grown_heap_ok [OF _ ok] by (auto simp: served_def)
    next
      case False
      then have al: "allocated E mapped s (RoundUpSize n h) U h U1 h1" using o by simp
      let ?h2 = "InvalidateCachedSizeClass (start (spans h1 s)) h1"
      have i1: "heap_inv E mapped U1 {} h1" "s \<in> U1" "location (spans h1 s) = IN_USE" using al by (auto simp: allocated_def)
      have f2: "spans ?h2 = spans h1" "pagemap ?h2 = pagemap h1" "stats ?h2 = stats h1"
        by (simp_all add: InvalidateCachedSizeClass_def)
      have i2: "heap_inv E mapped U1 {} ?h2"
        by (rule heap_inv_memory [OF i1(1)]) (use heap_invD(5) [OF i1(1)] in \<open>simp_all add: InvalidateCachedSizeClass_def\<close>)
      have s0: "sizeclass (spans h1 s) = 0" using al ok by (simp add: allocated_def heap_ok_def)
      have pc: "pagemap_cache h1 = pagemap_cache h" using al by (simp add: allocated_def quiet_def)
      show ?thesis
      proof (cases "sc = 0")
        case True
        have "granted E mapped s (RoundUpSize n h) 0 U h U1 ?h2"
          by (rule allocated_granted [OF ok al i2])
            (use s0 pc f2 in \<open>auto simp: InvalidateCachedSizeClass_def heap_keep_def GetDescriptor_def\<close>)
        then show ?thesis using False True by (auto simp: served_def Let_def)
      next
        case sc0: False
        have s2: "location (spans ?h2 s) = IN_USE" using i1(3) f2 by simp
        from RegisterSizeClass_ok [OF i2 i1(2) s2, of sc] sc obtain m where
          m: "RegisterSizeClass s sc ?h2 = Some ((upd_span s (\<lambda>x. x\<lparr>sizeclass := sc\<rparr>) ?h2)\<lparr>pagemap := m\<rparr>)"
            "heap_inv E mapped U1 {} ((upd_span s (\<lambda>x. x\<lparr>sizeclass := sc\<rparr>) ?h2)\<lparr>pagemap := m\<rparr>)"
            "heap_keep {s} U1 ?h2 U1 ((upd_span s (\<lambda>x. x\<lparr>sizeclass := sc\<rparr>) ?h2)\<lparr>pagemap := m\<rparr>)"
            "\<forall>p \<in> extent (spans ?h2 s). pm_get m p = Some s" by auto
        have "granted E mapped s (RoundUpSize n h) sc U h U1 ((upd_span s (\<lambda>x. x\<lparr>sizeclass := sc\<rparr>) ?h2)\<lparr>pagemap := m\<rparr>)"
          by (rule allocated_granted [OF ok al m(2)])
            (use m(3,4) pc f2 in \<open>auto simp: InvalidateCachedSizeClass_def heap_keep_def GetDescriptor_def frame\<close>)
        then show ?thesis using False sc0 m(1) by (auto simp: served_def Let_def)
      qed
    qed
    then show ?case unfolding x prod.case
    proof (rule outcome_bindI, goal_cases)
      case (1 h2)
      show ?case by (rule outcome_bindI [OF HandleUnlock_served [OF ok 1(2)]]) simp
    qed
  qed
qed

subsection \<open>When an allocation fails\<close>

lemma Search_null:
  assumes "heap_inv E mapped U {} h" "commit_ok {} h" "tame mapped" "unlimited E" "0 < n"
    and r: "SearchFreeAndLargeLists E n h = Some (0, h')"
  shows "\<not> free_fit n U h s" "h' = h"
proof -
  have *: "(\<exists>s. chosen n U h s \<and> search_lists E n n h = Carve E s n h)
     \<or> (\<forall>s. \<not> free_fit n U h s) \<and> search_lists E n n h = Some (0, h)"
    by (rule search_lists_best [OF assms(1,4,5)]) (auto simp: free_fit_def)
  have "False" if "chosen n U h s" "search_lists E n n h = Carve E s n h" for s
  proof -
    have s: "s \<in> U" "location (spans h s) \<noteq> IN_USE" "n \<le> slength (spans h s)"
      using that(1) by (auto simp: chosen_def free_fit_def)
    have "Carve E s n h = Some (0, h')" using r that(2) by (simp add: SearchFreeAndLargeLists_def)
    from outcomeD [OF Carve_ok [OF assms(1,2) s(1,2) assms(5) s(3) tame_bytes [OF assms(1,3)]] this]
    have "s = 0" by simp
    then show False using geo_okD(1) [OF heap_invD(2) [OF assms(1)] s(1)] by simp
  qed
  with * have e: "(\<forall>s. \<not> free_fit n U h s) \<and> search_lists E n n h = Some (0, h)" by blast
  then show "\<not> free_fit n U h s" by simp
  show "h' = h" using r e by (simp add: SearchFreeAndLargeLists_def)
qed

text \<open>
  The memory that the heap asks the system for when it needs \<open>n\<close> pages: 128 pages at least, and \<open>n\<close> where the system has
  no 128. Growing fails where the request exceeds the address space, the system returns null for it, or the
  page map cannot be extended to the block.
\<close>

definition system_block :: "'o env \<Rightarrow> nat \<Rightarrow> 'o sys \<Rightarrow> (nat \<times> nat \<times> 'o sys) option" where
  "system_block E n s = do {
     let ask = max n kMinSystemAlloc;
     (p, a, s) \<leftarrow> TCMalloc_SystemAlloc (plat E) (page_bytes ask) kPageSize s;
     if p = 0 \<and> n < ask then TCMalloc_SystemAlloc (plat E) (page_bytes n) kPageSize s else Some (p, a, s) }"

definition cannot_grow :: "'o env \<Rightarrow> nat \<Rightarrow> 'o page_heap \<Rightarrow> bool" where
  "cannot_grow E n h \<longleftrightarrow> n > kMaxValidPages
     \<or> (\<exists>p a sm. system_block E n (sysmem (meta h)) = Some (p, a, sm)
          \<and> (p = 0 \<or> \<not> fst (PageMap2_Ensure pagemap_bits (pagemap_allocator E) (p div 2 ^ kPageShift - 1) (a div 2 ^ kPageShift + 2)
                (pagemap h) (Some ((meta h)\<lparr>sysmem := sm\<rparr>)))))"

lemma try_alloc_unlimited:
  assumes "unlimited E"
    and "(do {
      (ok, h) \<leftarrow> EnsureLimit E k True h;
      if ok then do {
        (ptr, actual_size, sm) \<leftarrow> TCMalloc_SystemAlloc (plat E) (page_bytes k) kPageSize (sysmem (meta h));
        Some (ptr, actual_size, h\<lparr>meta := (meta h)\<lparr>sysmem := sm\<rparr>\<rparr>) }
      else Some (0, 0, h) }) = Some (ptr, a, h1)"
  obtains sm where "TCMalloc_SystemAlloc (plat E) (page_bytes k) kPageSize (sysmem (meta h)) = Some (ptr, a, sm)"
    "h1 = h\<lparr>meta := (meta h)\<lparr>sysmem := sm\<rparr>\<rparr>"
  using assms by (auto simp: Option.bind_eq_Some_conv)

lemma GrowHeap_refused:
  assumes u: "unlimited E"
  shows "outcome True (GrowHeap E n g h) (\<lambda>(ok, g', h'). \<not> ok \<longrightarrow> cannot_grow E n h)"
proof (cases "n > kMaxValidPages")
  case True
  then show ?thesis by (simp add: cannot_grow_def GrowHeap_def)
next
  case False
  let ?ask = "if n > kMinSystemAlloc then n else kMinSystemAlloc"
  have ask: "?ask = max n kMinSystemAlloc" by auto
  show ?thesis
    unfolding GrowHeap_def if_not_P [OF False] Let_def
  proof (rule outcome_bindI [OF outcome_True], goal_cases)
    case (1 x)
    obtain ptr a h1 where x: "x = (ptr, a, h1)" by (cases x) auto
    obtain sm where s1: "TCMalloc_SystemAlloc (plat E) (page_bytes ?ask) kPageSize (sysmem (meta h)) = Some (ptr, a, sm)"
      "h1 = h\<lparr>meta := (meta h)\<lparr>sysmem := sm\<rparr>\<rparr>" using try_alloc_unlimited [OF u 1(1) [unfolded x]] .
    show ?case unfolding x prod.case
    proof (rule outcome_bindI [OF outcome_True], goal_cases)
      case (1 y)
      obtain ptr2 a2 h2 where y: "y = (ptr2, a2, h2)" by (cases y) auto
      have "\<exists>sm2. system_block E n (sysmem (meta h)) = Some (ptr2, a2, sm2) \<and> h2 = h\<lparr>meta := (meta h)\<lparr>sysmem := sm2\<rparr>\<rparr>"
      proof (cases "ptr = 0 \<and> n < ?ask")
        case True
        note e2 = 1(1) [unfolded if_P [OF True] y]
        obtain sm2 where "TCMalloc_SystemAlloc (plat E) (page_bytes n) kPageSize (sysmem (meta h1)) = Some (ptr2, a2, sm2)"
          "h2 = h1\<lparr>meta := (meta h1)\<lparr>sysmem := sm2\<rparr>\<rparr>" using try_alloc_unlimited [OF u e2] .
        then show ?thesis using s1 True unfolding system_block_def Let_def ask by simp
      next
        case False
        then show ?thesis using 1(1) s1 unfolding if_not_P [OF False] system_block_def Let_def ask by (auto simp: y)
      qed
      then obtain sm2 where s2: "system_block E n (sysmem (meta h)) = Some (ptr2, a2, sm2)" "h2 = h\<lparr>meta := (meta h)\<lparr>sysmem := sm2\<rparr>\<rparr>" by blast
      show ?case
      proof (cases "ptr2 = 0")
        case True
        then show ?thesis using s2(1) by (auto simp: y cannot_grow_def)
      next
        case p2: False
        define k where "k = a2 div 2 ^ kPageShift"
        obtain ok pm mdo where e: "PageMap2_Ensure pagemap_bits (pagemap_allocator E) (ptr2 div 2 ^ kPageShift - 1) (k + 2)
            (pagemap h2) (Some (meta h2)) = (ok, pm, mdo)" by (metis prod_cases3)
        have "cannot_grow E n h" if "\<not> ok"
          using s2 e that unfolding cannot_grow_def k_def by (intro disjI2 exI [of _ ptr2] exI [of _ a2] exI [of _ sm2]) simp
        then have r: "outcome True (mdo \<bind> (\<lambda>md. if ok then A md else Some (False, gg, B md))) (\<lambda>(ok, g', h'). \<not> ok \<longrightarrow> cannot_grow E n h)"
          if "\<And>md. outcome True (A md) (\<lambda>(ok, g', h'). ok)" for A :: "'a metadata \<Rightarrow> (bool \<times> nat \<times> 'a page_heap) option" and gg B
          using that by (cases mdo; cases ok) (auto intro: outcome_mono)
        have f: "pagemap (upd_stats f h2) = pagemap h2" "meta (upd_stats f h2) = meta h2" for f by (simp_all add: frame)
        show ?thesis unfolding y prod.case if_not_P [OF p2] k_def [symmetric] no_Preallocate f if_cancel e prod.case Let_def
          by (rule r, rule outcomeI) (auto simp: Option.bind_eq_Some_conv)
      qed
    qed
  qed
qed

text \<open>The heap in the state in which it asks the system: as it was, or after everything on the normal lists was released.\<close>

definition before_growth :: "'o env \<Rightarrow> 'o page_heap \<Rightarrow> 'o page_heap \<Rightarrow> bool" where
  "before_growth E h h1 \<longleftrightarrow> h1 = h \<or> (\<exists>k. ReleaseAtLeastNPages E 0x7fffffff h = Some (k, h1))"

lemma NewLocked_null:
  assumes inv: "heap_inv E mapped U {} h" "commit_ok {} h" and tame: "tame mapped" and u: "unlimited E"
    and n: "0 < RoundUpSize n h"
  shows "outcome True (NewLocked E n g h) (\<lambda>(r, g', h'). r = 0 \<longrightarrow> (\<exists>h1. before_growth E h h1 \<and> cannot_grow E (RoundUpSize n h) h1)
     \<and> (\<forall>s\<in>U. location (spans h s) \<noteq> IN_USE \<longrightarrow> slength (spans h s) < RoundUpSize n h))"
proof -
  define m where "m = RoundUpSize n h"
  note m0 = n [folded m_def]
  let ?Q = "\<lambda>(r, g', h'). r = 0 \<longrightarrow> (\<exists>h1. before_growth E h h1 \<and> cannot_grow E m h1) \<and> (\<forall>s\<in>U. location (spans h s) \<noteq> IN_USE \<longrightarrow> slength (spans h s) < m)"
  have search: "outcome True (SearchFreeAndLargeLists E m h1) (\<lambda>(r, h'). obtained E mapped m U1 h1 (r, h')
        \<and> (r = 0 \<longrightarrow> h' = h1 \<and> (\<forall>s. \<not> free_fit m U1 h1 s)))" if g: "grown E mapped U h U1 h1" for U1 h1
  proof (rule outcome_mono [OF Search_ok [OF _ _ tame m0]])
    show "heap_inv E mapped U1 {} h1" "commit_ok {} h1" using grownD [OF g] by blast+
    fix x assume "SearchFreeAndLargeLists E m h1 = Some x" "obtained E mapped m U1 h1 x"
    then show "case x of (r, h') \<Rightarrow> obtained E mapped m U1 h1 (r, h') \<and> (r = 0 \<longrightarrow> h' = h1 \<and> (\<forall>s. \<not> free_fit m U1 h1 s))"
      using Search_null [OF _ _ tame u m0] grownD [OF g] by (cases x) auto
  qed
  have g0: "grown E mapped U h U h" by (rule released_grown [OF released_refl [OF inv]])
  have got: "\<exists>U'. grown E mapped U h U' h'" if "grown E mapped U h U1 h1" "obtained E mapped m U1 h1 (0, h')" for U1 h1 h'
    using that(2) grown_trans [OF that(1)] by (auto simp: obtained_def)
  show ?thesis
    unfolding NewLocked_def Let_def m_def [symmetric]
  proof (rule outcome_bindI [OF search [OF g0]], goal_cases)
    case (1 x)
    obtain r h1 where x: "x = (r, h1)" by (cases x)
    show ?case
    proof (cases "r = 0")
      case False
      then show ?thesis by (simp add: x)
    next
      case r0: True
      then obtain U1 where g1: "grown E mapped U h U1 h1" and none: "\<forall>s. \<not> free_fit m U h s" and h1: "h1 = h"
        using got [OF g0, of h1] 1(2) by (auto simp: x)
      have none': "\<forall>s\<in>U. location (spans h s) \<noteq> IN_USE \<longrightarrow> slength (spans h s) < m"
        using none by (auto simp: free_fit_def)
      note i1 = grownD [OF g1, THEN conjunct1] grownD [OF g1, THEN conjunct2]
      have again: "outcome True (if c then do { (_, h) \<leftarrow> ReleaseAtLeastNPages E 0x7fffffff h1; SearchFreeAndLargeLists E m h }
          else Some (0, h1)) (\<lambda>(r, h'). r = 0 \<longrightarrow> (\<exists>U'. grown E mapped U h U' h') \<and> before_growth E h h')" for c
      proof (cases c)
        case True
        show ?thesis unfolding if_P [OF True]
        proof (rule outcome_bindI [OF outcome_weaken [OF ReleaseAtLeastNPages_ok [OF i1]]], simp, goal_cases)
          case (1 y)
          obtain k h2 where y: "y = (k, h2)" by (cases y)
          obtain U2 where "released E mapped {} U1 h1 U2 h2" using 1(2) by (auto simp: y pages_ok_def)
          note g2 = grown_trans [OF g1 released_grown [OF this]]
          show ?case unfolding y prod.case by (rule outcome_mono [OF search [OF g2]]) (use got [OF g2] 1(1) in \<open>auto simp: before_growth_def y h1\<close>)
        qed
      next
        case False
        show ?thesis unfolding if_not_P [OF False] using g1 by (auto simp: before_growth_def h1)
      qed
      have nr: "\<not> r \<noteq> 0" using r0 by simp
      show ?thesis unfolding x prod.case if_not_P [OF nr]
      proof (rule outcome_bindI [OF again], goal_cases)
        case (1 y)
        obtain r2 h2 where y: "y = (r2, h2)" by (cases y)
        show ?case
        proof (cases "r2 = 0")
          case False
          then show ?thesis by (simp add: y)
        next
          case r0: True
          then obtain U2 where g2: "grown E mapped U h U2 h2" and b2: "before_growth E h h2" using 1(2) by (auto simp: y)
          note i2 = grownD [OF g2, THEN conjunct1] grownD [OF g2, THEN conjunct2]
          have nr: "\<not> r2 \<noteq> 0" using r0 by simp
          show ?thesis unfolding y prod.case if_not_P [OF nr]
          proof (rule outcome_bindI [OF GrowHeap_ok [OF i2 m0]], goal_cases)
            case (1 z)
            obtain ok g3 h3 where z: "z = (ok, g3, h3)" by (cases z) auto
            obtain U3 where g3: "grown E mapped U h U3 h3" and fit: "ok \<Longrightarrow> \<exists>v. free_fit m U3 h3 v"
              using 1(2) grown_trans [OF g2] by (auto simp: z free_fit_def)
            show ?case
            proof (cases ok)
              case True
              have "outcome True (SearchFreeAndLargeLists E m h3 \<bind> (\<lambda>(result, h). Some (result, g3, h))) ?Q"
                by (rule outcome_bindI [OF search [OF g3]]) (use fit [OF True] in \<open>auto split: prod.splits\<close>)
              then show ?thesis using True by (simp add: z)
            next
              case False
              then show ?thesis using outcomeD [OF GrowHeap_refused [OF u] 1(1) [unfolded z]] none' b2 by (auto simp: z)
            qed
          qed
        qed
      qed
    qed
  qed
qed

subsection \<open>Splitting a span in use\<close>

lemma Split_ok:
  assumes inv: "heap_inv E mapped U {} h" and c: "commit_ok {} h" and s: "s \<in> U" "location (spans h s) = IN_USE"
    and n: "0 < n" "n < slength (spans h s)" and small: "system_bytes (stats h) < 2 ^ 44"
  shows "outcome True (Split E s n h) (\<lambda>(t, h'). t \<notin> U \<and> heap_inv E mapped (insert t U) {} h' \<and> commit_ok {} h'
     \<and> heap_keep {s} U h (insert t U) h' \<and> steady h h'
     \<and> spans h' = (spans h)(s := (spans h s)\<lparr>slength := n\<rparr>, t := Span_ctor\<lparr>start := start (spans h s) + n, slength := slength (spans h s) - n\<rparr>))"
proof -
  let ?a = "start (spans h s)" and ?l = "slength (spans h s)"
  note d = heap_invD [OF inv]
  have l31: "?l < 2 ^ 31" by (rule span_small [OF inv s(1) small])
  have ex: "u64_of_int (int32_of (sub64 ?l n)) = ?l - n"
    using int32_of_small [of n ?l] n l31 by (simp add: u64_of_int_def)
  have i0: "heap_inv E mapped U {s} h" using inuse_attach [OF s(2,1)] inv by blast
  have sX: "s \<in> {s}" by simp
  have ens: "pm_ensured (pagemap h) p" if "p \<in> extent (spans h s)" for p
    using d(3) that s(1) by (auto simp: map_ok_def covered_def)
  show ?thesis
    unfolding Split_def Let_def ex
  proof (rule outcome_bindI [OF outcome_True], goal_cases)
    case (1 x)
    obtain t h2 where x: "x = (t, h2)" by (cases x)
    have new: "heap_NewSpan E (?a + n) (?l - n) h = Some (t, h2)" using 1 by (simp add: x)
    obtain pool md where a: "PageHeapAllocator_New (plat E) sizeof_Span (span_allocator h) (meta h) = Some (t, pool, md)"
      and h2: "h2 = h\<lparr>spans := (spans h)(t := Span_ctor\<lparr>start := ?a + n, slength := ?l - n\<rparr>),
        span_allocator := pool, meta := md\<rparr>" using heap_NewSpan_Some [OF new] by blast
    have tU: "t \<notin> U" using memory_ok_New [OF d(5) a] by blast
    then have ts: "t \<noteq> s" "s \<noteq> t" using s(1) by blast+
    have t2: "start (spans h2 t) = ?a + n" "slength (spans h2 t) = ?l - n" "pagemap h2 = pagemap h" by (simp_all add: h2)
    have "pm_ensured (pagemap h2) (start (spans h2 t))" "pm_ensured (pagemap h2) (start (spans h2 t) + slength (spans h2 t) - 1)"
      "0 < slength (spans h2 t)"
      unfolding t2 using n by (auto intro!: ens)
    from RecordSpan_ok [OF this] obtain m where
      m: "RecordSpan t h2 = Some (h2\<lparr>pagemap := m\<rparr>)"
        "pm_get m = (pm_get (pagemap h))(?a + n \<mapsto> t, ?a + ?l - 1 \<mapsto> t)" "pm_ensured m = pm_ensured (pagemap h)"
      using n by (auto simp: t2)
    let ?h3 = "h2\<lparr>pagemap := m\<rparr>"
    have "pm_ensured (pagemap ?h3) (?a + n - 1)" using m(3) n by (auto intro!: ens)
    from pagemap_set_ok [OF this, of s] obtain m2 where
      m2: "pagemap_set (?a + n - 1) s ?h3 = Some (?h3\<lparr>pagemap := m2\<rparr>)"
        "pm_get m2 = (pm_get m)(?a + n - 1 \<mapsto> s)" "pm_ensured m2 = pm_ensured (pagemap h)" using m(3) by auto
    have st: "start (spans ?h3 s) = ?a" using ts by (simp add: h2)
    let ?g = "upd_span s (\<lambda>x. x\<lparr>slength := n\<rparr>) (?h3\<lparr>pagemap := m2\<rparr>)"
    have sp: "spans ?g = (spans h)(s := (spans h s)\<lparr>slength := n\<rparr>, t := Span_ctor\<lparr>start := ?a + n, slength := ?l - n\<rparr>)"
      using ts by (simp add: frame h2 fun_upd_twist)
    have g: "spans ?g = (spans h)(s := (spans h s)\<lparr>slength := n\<rparr>, t := Span_ctor\<lparr>start := ?a + n, slength := ?l - n, location := IN_USE\<rparr>)"
      "pm_get (pagemap ?g) = (pm_get (pagemap h))(?a + n \<mapsto> t, ?a + ?l - 1 \<mapsto> t, ?a + n - 1 \<mapsto> s)"
      "pm_ensured (pagemap ?g) = pm_ensured (pagemap h)"
      "free_normal ?g = free_normal h" "free_returned ?g = free_returned h"
      "large_normal ?g = large_normal h" "large_returned ?g = large_returned h" "stats ?g = stats h"
      "span_allocator ?g = span_allocator h2" "stacktrace_allocator ?g = stacktrace_allocator h" "meta ?g = meta h2"
      unfolding sp using m(2) m2(2,3) by (simp_all add: frame h2 Span_ctor_def)
    note ss = split_step [OF i0 sX n new g]
    have loc: "location (spans ?g t) = IN_USE" "location (spans ?g s) = IN_USE" unfolding g(1) using s(2) ts by simp_all
    have mem: "t \<in> insert t U" "s \<in> insert t U" using s(1) by simp_all
    have "heap_inv E mapped (insert t U) {} ?g"
      using ss(1) unfolding inuse_attach [OF loc(1) mem(1)] inuse_attach [OF loc(2) mem(2)] .
    moreover have "steady h ?g" by (simp add: steady_def frame h2)
    ultimately show ?case
      using ss(4) [of "{s}"] ss(6) [OF c] tU sp
      by (simp only: x prod.case m(1) bind.bind_lunit st m2(1) outcome_simps) simp
  qed
qed

text \<open>Splitting an allocated span and giving one of the two parts back.\<close>

lemma split_delete:
  assumes al: "allocated E mapped s L U h U1 h1" and cl: "clean U (spans h)"
    and t: "t \<notin> U1" "heap_keep {s} U1 h1 (insert t U1) h2" "steady h1 h2"
      "spans h2 = (spans h1)(s := (spans h1 s)\<lparr>slength := k\<rparr>, t := Span_ctor\<lparr>start := start (spans h1 s) + k, slength := L - k\<rparr>)"
    and xy: "x = s \<and> y = t \<or> x = t \<and> y = s"
    and r: "released E mapped {x} (insert t U1) h2 U' h'"
  shows "allocated E mapped y (if y = s then k else L - k) U h U' h' \<and> start (spans h' y) = start (spans h2 y)"
proof -
  note a = al [unfolded allocated_def] and rl = r [unfolded released_def]
  have s: "s \<in> U1" "location (spans h1 s) = IN_USE" "s \<notin> inuse_spans U h" "inuse_spans U1 h1 = insert s (inuse_spans U h)"
    using a by blast+
  have ts: "t \<noteq> s" using t(1) s(1) by blast
  have sub: "inuse_spans U h \<subseteq> U1" using s(4) by (auto simp: inuse_spans_def)
  have k2: "heap_keep {} U h (insert t U1) h2"
    by (rule heap_keep_trans [of "{}" U h U1 h1 "{s}"]) (use a t(2) in \<open>auto simp: inuse_spans_def\<close>)
  have xo: "x \<notin> inuse_spans U h" "y \<notin> inuse_spans U h" "x \<noteq> y" "{x, y} = {s, t}" using xy s(3) sub t(1) ts by auto
  have k: "heap_keep {} U h U' h'"
    by (rule heap_keep_trans [OF k2, of "{x}"]) (use rl xo(1) in \<open>auto simp: inuse_spans_def\<close>)
  have i2: "inuse_spans (insert t U1) h2 = insert x (insert y (inuse_spans U h))"
  proof -
    have "inuse_spans (insert t U1) h2 = insert t (inuse_spans U1 h1)"
      using t(1) s(1,2) by (auto simp: inuse_spans_def t(4) Span_ctor_def)
    then show ?thesis using s(4) xo(4) by auto
  qed
  have yin: "y \<in> insert t U1 - {x}" "location (spans h2 y) = IN_USE" using i2 xo(3) by (auto simp: inuse_spans_def)
  then have y: "y \<in> U'" "spans h' y = spans h2 y" using rl unfolding heap_keep_def by blast+
  have "inuse_spans U' h' = insert y (inuse_spans U h)"
  proof
    show "inuse_spans U' h' \<subseteq> insert y (inuse_spans U h)" using rl i2 by blast
    have "inuse_spans U h \<subseteq> inuse_spans U' h'" using k by (auto simp: heap_keep_def inuse_spans_def)
    then show "insert y (inuse_spans U h) \<subseteq> inuse_spans U' h'" using y yin(2) by (simp add: inuse_spans_def)
  qed
  moreover have "clean U' (spans h')" "sizeclass (spans h' y) = 0"
  proof -
    have c1: "clean U1 (spans h1)" "sizeclass (spans h1 s) = 0" using a cl by blast+
    then have "clean (insert t U1) (spans h2)" using s(2) by (auto simp: clean_def t(4) Span_ctor_def)
    then show "clean U' (spans h')" using rl by blast
    show "sizeclass (spans h' y) = 0" unfolding y(2) using xy ts c1(2) by (auto simp: t(4) Span_ctor_def)
  qed
  moreover have "coalesced U' (spans h')" if "\<not> aggressive_decommit h" "coalesced U (spans h)"
  proof -
    have "coalesced U1 (spans h1)" using a that by blast
    moreover have "location (spans h2 s) = IN_USE" "location (spans h2 t) = IN_USE" using s(2) ts by (simp_all add: t(4) Span_ctor_def)
    ultimately have "coalesced (insert t U1) (spans h2)" using s(2) unfolding coalesced_def
      by (auto simp: t(4) split: if_splits)
    then have "coalesced (insert t U1 - {x}) (spans h2)" by (rule coalesced_cong) auto
    moreover have "\<not> aggressive_decommit h2" using a t(3) that(1) by (simp add: quiet_def steady_def)
    ultimately show ?thesis using rl by blast
  qed
  moreover have "quiet h h'" using a t(3) rl by (simp add: quiet_def steady_def)
  moreover have "slength (spans h2 y) = (if y = s then k else L - k)" using xy ts by (auto simp: t(4))
  ultimately show ?thesis using y yin(2) xo(2) k rl unfolding allocated_def by auto
qed

lemma trim:
  assumes al: "allocated E mapped s L U h U1 h1" and cl: "clean U (spans h)" and tame: "tame mapped"
    and k: "0 < k" "k < L"
  shows "outcome True (do { (rest, h) \<leftarrow> Split E s k h1; h \<leftarrow> DeleteLocked E s h; Some (rest, h) })
      (\<lambda>(r, h'). \<exists>U'. allocated E mapped r (L - k) U h U' h' \<and> start (spans h' r) = start (spans h1 s) + k)"
    and "outcome True (do { (trailer, h) \<leftarrow> Split E s k h1; DeleteLocked E trailer h })
      (\<lambda>h'. \<exists>U'. allocated E mapped s k U h U' h' \<and> start (spans h' s) = start (spans h1 s))"
proof -
  have i1: "heap_inv E mapped U1 {} h1" "commit_ok {} h1" "s \<in> U1" "location (spans h1 s) = IN_USE" "slength (spans h1 s) = L"
    using al by (auto simp: allocated_def)
  have kl: "k < slength (spans h1 s)" using k(2) i1(5) by simp
  note sp = Split_ok [OF i1(1-4) k(1) kl tame_bytes [OF i1(1) tame], unfolded i1(5)]
  have ne: "t \<noteq> s" if "t \<notin> U1" for t using i1(3) that by blast
  show "outcome True (do { (rest, h) \<leftarrow> Split E s k h1; h \<leftarrow> DeleteLocked E s h; Some (rest, h) })
      (\<lambda>(r, h'). \<exists>U'. allocated E mapped r (L - k) U h U' h' \<and> start (spans h' r) = start (spans h1 s) + k)"
  proof (rule outcome_bindI [OF sp], goal_cases)
    case (1 x)
    obtain t h2 where x: "x = (t, h2)" by (cases x)
    note t = 1(2) [unfolded x prod.case]
    have pre: "heap_inv E mapped (insert t U1) {} h2" "commit_ok {} h2" "s \<in> insert t U1" "location (spans h2 s) = IN_USE"
      using t i1(3,4) by (auto simp: Span_ctor_def)
    show ?case unfolding x prod.case
    proof (rule outcome_bindI [OF outcome_weaken [OF DeleteLocked_ok [OF pre]]], simp, elim exE, goal_cases)
      case (1 h3 U3)
      have "allocated E mapped t (if t = s then k else L - k) U h U3 h3 \<and> start (spans h3 t) = start (spans h2 t)"
        by (rule split_delete [OF al cl _ _ _ _ _ 1(2)]) (use t in auto)
      then show ?case using t ne [of t] by auto
    qed
  qed
  show "outcome True (do { (trailer, h) \<leftarrow> Split E s k h1; DeleteLocked E trailer h })
      (\<lambda>h'. \<exists>U'. allocated E mapped s k U h U' h' \<and> start (spans h' s) = start (spans h1 s))"
  proof (rule outcome_bindI [OF sp], goal_cases)
    case (1 x)
    obtain t h2 where x: "x = (t, h2)" by (cases x)
    note t = 1(2) [unfolded x prod.case]
    have pre: "heap_inv E mapped (insert t U1) {} h2" "commit_ok {} h2" "t \<in> insert t U1" "location (spans h2 t) = IN_USE"
      using t by (auto simp: Span_ctor_def)
    show ?case unfolding x prod.case
    proof (rule outcome_mono [OF outcome_weaken [OF DeleteLocked_ok [OF pre]]], simp, elim exE, goal_cases)
      case (1 h3 U3)
      have "allocated E mapped s (if s = s then k else L - k) U h U3 h3 \<and> start (spans h3 s) = start (spans h2 s)"
        by (rule split_delete [OF al cl _ _ _ _ _ 1(2)]) (use t in auto)
      then show ?case using t ne [of t] by auto
    qed
  qed
qed

subsection \<open>Aligned allocation\<close>

lemma align_test:
  assumes "j + 13 < 64"
  shows "page_bytes p AND sub64 (page_bytes (2 ^ j)) 1 = 0 \<longleftrightarrow> 2 ^ j dvd p"
proof -
  have b: "(2::nat) ^ (j + 13) < 2 ^ 64" by (rule power_strict_increasing) (use assms in auto)
  have e: "page_bytes (2 ^ j) = 2 ^ (j + 13)" using b by (simp add: shl64_eq power_add)
  have one: "(1::nat) \<le> 2 ^ (j + 13)" by simp
  have "sub64 (page_bytes (2 ^ j)) 1 = 2 ^ (j + 13) - 1"
    unfolding e by (rule sub64_eq [OF one b])
  then have "page_bytes p AND sub64 (page_bytes (2 ^ j)) 1 = (p * 2 ^ 13) mod 2 ^ 64 mod 2 ^ (j + 13)"
    by (simp only: and_low_mask shl64_def kPageShift_def)
  also have "\<dots> = (p * 2 ^ 13) mod 2 ^ (j + 13)"
    by (rule mod_mod_cancel, rule le_imp_power_dvd) (use assms in simp)
  also have "\<dots> = 0 \<longleftrightarrow> 2 ^ j dvd p" by (simp add: power_add mod_eq_0_iff_dvd)
  finally show ?thesis .
qed

lemma align_skip_ok:
  assumes j: "j + 13 < 64" and p: "p < 2 ^ 35"
  shows "\<exists>k < 2 ^ j. align_skip (page_bytes (2 ^ j)) p 0 = Some k \<and> 2 ^ j dvd p + k"
proof -
  define k where "k = (2 ^ j - p mod 2 ^ j) mod 2 ^ j"
  have k: "k < 2 ^ j" by (simp add: k_def)
  have "(p + k) mod 2 ^ j = (p mod 2 ^ j + (2 ^ j - p mod 2 ^ j)) mod 2 ^ j"
    unfolding k_def mod_add_left_eq mod_add_right_eq ..
  also have "p mod 2 ^ j + (2 ^ j - p mod 2 ^ j) = 2 ^ j"
    using mod_less_divisor [of "2 ^ j" p] by (intro le_add_diff_inverse) (simp add: less_imp_le)
  finally have dv: "2 ^ j dvd p + k" by (simp add: mod_eq_0_iff_dvd)
  have le51: "(2::nat) ^ j \<le> 2 ^ 51" by (rule power_increasing) (use j in auto)
  have "align_skip (page_bytes (2 ^ j)) p (k - i) = Some k" if "i \<le> k" for i
    using that
  proof (induction i)
    case 0
    have "add64 p k = p + k" using p k le51 by (intro add64_eq) simp
    then show ?case using dv align_test [OF j] by (subst align_skip.simps) simp
  next
    case (Suc i)
    have a: "add64 p (k - Suc i) = p + (k - Suc i)" "add64 (k - Suc i) 1 = k - i"
      using p k le51 Suc.prems by (simp_all add: add64_eq)
    have "\<not> 2 ^ j dvd p + (k - Suc i)"
    proof
      assume d: "2 ^ j dvd p + (k - Suc i)"
      have "2 ^ j dvd (p + k) - (p + (k - Suc i))" by (rule dvd_diff_nat [OF dv d])
      then have "2 ^ j dvd Suc i" using Suc.prems by (simp add: Suc_diff_le)
      then show False using dvd_imp_le [of "2 ^ j" "Suc i"] k Suc.prems by simp
    qed
    then show ?case using Suc align_test [OF j, of "p + (k - Suc i)"] a by (subst align_skip.simps) simp
  qed
  from this [of k] k dv show ?thesis by auto
qed

lemma New_huge:
  assumes ok: "heap_ok E mapped U h" and tame: "tame mapped"
  shows "outcome True (New E (2 ^ 64 - 1) h) (\<lambda>(r, h'). r = 0 \<and> served E mapped n sc U h (0, h'))"
proof -
  obtain k where k: "k < 64" "smallest_span_size h = 2 ^ k" using ok by (auto simp: heap_ok_def)
  define m where "m = RoundUpSize (2 ^ 64 - 1) h"
  have le: "(2::nat) ^ k \<le> 2 ^ 63" by (rule power_increasing) (use k in auto)
  have "(2::nat) ^ 63 \<le> m"
  proof (cases "(2::nat) ^ 64 - 1 \<le> 2 ^ 64 - 2 ^ k")
    case True
    then show ?thesis using RoundUpSize_spec(3) [OF k(2,1), of "2 ^ 64 - 1"] by (simp add: m_def)
  next
    case False
    then show ?thesis using RoundUpSize_spec(4) [OF k(2,1), of "2 ^ 64 - 1"] le by (simp add: m_def)
  qed
  then have m: "0 < m" "2 ^ 51 < m" by simp_all
  show ?thesis unfolding New_def
  proof (rule outcome_mono [OF NewWithSizeClass_ok [OF ok tame]], goal_cases)
    case 1
    then show ?case using m(1) by (simp add: m_def)
  next
    case (3 x)
    obtain r h' where x: "x = (r, h')" by (cases x)
    have "r = 0"
    proof (rule ccontr)
      assume "r \<noteq> 0"
      then obtain U' where g: "granted E mapped r m 0 U h U' h'" using 3(2) by (auto simp: x served_def m_def)
      then have "heap_inv E mapped U' {} h'" "r \<in> U'" "slength (spans h' r) = m" by (auto simp: granted_def heap_ok_def)
      then show False using geo_okD(4) [OF heap_invD(2)] m(2) by fastforce
    qed
    then show ?case using 3(2) by (auto simp: x served_def)
  qed simp
qed

lemma Invalidate_granted:
  assumes ok: "heap_ok E mapped U h" and al: "allocated E mapped s n U h U1 h1"
  shows "granted E mapped s n 0 U h U1 (InvalidateCachedSizeClass (start (spans h1 s)) h1)"
proof (rule allocated_granted [OF ok al])
  have "heap_inv E mapped U1 {} h1" using al by (simp add: allocated_def)
  then show "heap_inv E mapped U1 {} (InvalidateCachedSizeClass (start (spans h1 s)) h1)"
    by (rule heap_inv_memory) (use heap_invD(5) [OF \<open>heap_inv E mapped U1 {} h1\<close>] in \<open>simp_all add: InvalidateCachedSizeClass_def\<close>)
  have "sizeclass (spans h1 s) = 0" "pagemap_cache h1 = pagemap_cache h"
    using al ok by (simp_all add: allocated_def heap_ok_def quiet_def)
  then show "spans (InvalidateCachedSizeClass (start (spans h1 s)) h1) = (spans h1)(s := (spans h1 s)\<lparr>sizeclass := 0\<rparr>)"
    "pagemap_cache (InvalidateCachedSizeClass (start (spans h1 s)) h1)
       = Invalidate (pagemap_cache h) (of_nat (start (spans (InvalidateCachedSizeClass (start (spans h1 s)) h1) s)))"
    by (auto simp: InvalidateCachedSizeClass_def)
qed (simp_all add: InvalidateCachedSizeClass_def heap_keep_def GetDescriptor_def)

lemma NewAligned_ok:
  assumes ok: "heap_ok E mapped U h" and tame: "tame mapped" and n: "n < 2 ^ 64" "0 < RoundUpSize n h"
    and j: "j + 13 < 64"
  shows "outcome True (NewAligned E n (2 ^ j) h) (\<lambda>(r, h'). served E mapped (RoundUpSize n h) 0 U h (r, h')
     \<and> (r \<noteq> 0 \<longrightarrow> 2 ^ j dvd start (spans h' r)))"
proof -
  have inv: "heap_inv E mapped U {} h" "commit_ok {} h" and cl: "clean U (spans h)" using ok by (simp_all add: heap_ok_def)
  obtain k where k: "smallest_span_size h = 2 ^ k" "k < 64" using ok by (auto simp: heap_ok_def)
  define m where "m = RoundUpSize n h"
  let ?Q = "\<lambda>(r, h'). served E mapped m 0 U h (r, h') \<and> (r \<noteq> 0 \<longrightarrow> 2 ^ j dvd start (spans h' r))"
  have m: "0 < m" "m < 2 ^ 64" using n(2) RoundUpSize_spec(2) [OF k n(1)] by (simp_all add: m_def)
  have jb: "(2::nat) ^ j < 2 ^ 64" by (rule power_strict_increasing) (use j in auto)
  define alloc where "alloc = add64 m (2 ^ j)"
  have ab: "alloc < 2 ^ 64" unfolding alloc_def by (rule add64_bound)
  show ?thesis
  proof (cases "alloc < m \<or> alloc < 2 ^ j")
    case True
    have "outcome True (New E (2 ^ 64 - 1) h \<bind> (\<lambda>(s, h). if s = 0 then Some (0, h) else None)) ?Q"
      by (rule outcome_bindI [OF New_huge [OF ok tame, of m 0]]) auto
    then show ?thesis unfolding NewAligned_def Let_def m_def [symmetric] alloc_def [symmetric] if_P [OF True] .
  next
    case False
    have alloc: "alloc = m + 2 ^ j"
      using False m(2) jb add64_overflow_iff [OF m(2) jb] by (auto simp: alloc_def add64_eq not_less)
    have a0: "0 < RoundUpSize alloc h"
    proof (cases "alloc \<le> 2 ^ 64 - 2 ^ k")
      case True
      then show ?thesis using RoundUpSize_spec(3) [OF k ab] alloc m(1) by simp
    next
      case f: False
      have "(2::nat) ^ k < 2 ^ 64" by (rule power_strict_increasing) (use k in auto)
      then show ?thesis using RoundUpSize_spec(4) [OF k ab] f by simp
    qed
    show ?thesis unfolding NewAligned_def Let_def m_def [symmetric] alloc_def [symmetric] if_not_P [OF False]
    proof (rule outcome_bindI [OF NewLocked_ok [OF inv tame a0]], goal_cases)
      case (1 x)
      obtain s g h1 where x: "x = (s, g, h1)" by (cases x) auto
      from 1(2) obtain U1 where o: "if s = 0 then grown E mapped U h U1 h1 else allocated E mapped s (RoundUpSize alloc h) U h U1 h1"
        by (auto simp: x obtained_def)
      have "outcome True (if s = 0 then Some (0, h1)
          else do {
            skip \<leftarrow> align_skip (page_bytes (2 ^ j)) (start (spans h1 s)) 0;
            (s, h) \<leftarrow>
              (if 0 < skip then do {
                 (rest, h) \<leftarrow> Split E s skip h1;
                 h \<leftarrow> DeleteLocked E s h;
                 Some (rest, h) }
               else Some (s, h1));
            h \<leftarrow> (if m < slength (spans h s) then do {
                   (trailer, h) \<leftarrow> Split E s m h;
                   DeleteLocked E trailer h }
                 else Some h);
            Some (s, InvalidateCachedSizeClass (start (spans h s)) h) }) ?Q"
      proof (cases "s = 0")
        case True
        then show ?thesis using o grown_heap_ok [OF _ ok] by (auto simp: served_def)
      next
        case s0: False
        let ?L = "RoundUpSize alloc h"
        have al: "allocated E mapped s ?L U h U1 h1" using o s0 by simp
        have i1: "heap_inv E mapped U1 {} h1" "s \<in> U1" "slength (spans h1 s) = ?L" using al by (auto simp: allocated_def)
        note geo = geo_okD [OF heap_invD(2) [OF i1(1)] i1(2)]
        have L: "m + 2 ^ j \<le> ?L"
        proof (cases "alloc \<le> 2 ^ 64 - 2 ^ k")
          case True
          then show ?thesis using RoundUpSize_spec(3) [OF k ab] alloc by simp
        next
          case f: False
          have "(2::nat) ^ k \<le> 2 ^ 63" by (rule power_increasing) (use k in auto)
          then have "2 ^ 63 \<le> ?L" using RoundUpSize_spec(4) [OF k ab] f by simp
          then show ?thesis using geo(4) i1(3) by simp
        qed
        obtain sk where sk: "sk < 2 ^ j" "align_skip (page_bytes (2 ^ j)) (start (spans h1 s)) 0 = Some sk"
          "2 ^ j dvd start (spans h1 s) + sk" using align_skip_ok [OF j] geo(5) by blast
        have front: "outcome True (if 0 < sk then do { (rest, h) \<leftarrow> Split E s sk h1; h \<leftarrow> DeleteLocked E s h; Some (rest, h) }
               else Some (s, h1))
            (\<lambda>(r, h'). \<exists>U'. allocated E mapped r (?L - sk) U h U' h' \<and> start (spans h' r) = start (spans h1 s) + sk)"
          using trim(1) [OF al cl tame, of sk] sk(1) L m(1) al by (cases "sk = 0") auto
        show ?thesis unfolding if_not_P [OF s0] sk(2) bind.bind_lunit
        proof (rule outcome_bindI [OF front], goal_cases)
          case (1 y)
          obtain r h2 where y: "y = (r, h2)" by (cases y)
          obtain U2 where a2: "allocated E mapped r (?L - sk) U h U2 h2" "start (spans h2 r) = start (spans h1 s) + sk"
            using 1(2) by (auto simp: y)
          have l2: "slength (spans h2 r) = ?L - sk" "m \<le> ?L - sk" using a2(1) sk(1) L by (auto simp: allocated_def)
          have rear: "outcome True (if m < slength (spans h2 r) then do { (trailer, h) \<leftarrow> Split E r m h2; DeleteLocked E trailer h }
              else Some h2) (\<lambda>h'. \<exists>U'. allocated E mapped r m U h U' h' \<and> start (spans h' r) = start (spans h2 r))"
            using trim(2) [OF a2(1) cl tame m(1)] l2 a2(1) by (cases "m < ?L - sk") auto
          show ?case unfolding y prod.case
          proof (rule outcome_bindI [OF rear], elim exE conjE, goal_cases)
            case (1 h3 U3)
            have "heap_inv E mapped U3 {} h3" "r \<in> U3" using 1(2) by (auto simp: allocated_def)
            then have "r \<noteq> 0" using geo_okD(1) [OF heap_invD(2)] by blast
            moreover have "spans (InvalidateCachedSizeClass p h3) = spans h3" for p by (simp add: InvalidateCachedSizeClass_def)
            ultimately show ?case
              using Invalidate_granted [OF ok 1(2)] 1(3) a2(2) sk(3) by (auto simp: served_def)
          qed
        qed
      qed
      then show ?case unfolding x prod.case
      proof (rule outcome_bindI, goal_cases)
        case (1 y)
        obtain r h2 where y: "y = (r, h2)" by (cases y)
        have s2: "served E mapped m 0 U h (r, h2)" "r \<noteq> 0 \<Longrightarrow> 2 ^ j dvd start (spans h2 r)" using 1(2) by (auto simp: y)
        show ?case unfolding y prod.case
        proof (rule outcome_bindI [OF HandleUnlock_served [OF ok s2(1)]], goal_cases)
          case (1 h3)
          have "spans h3 = spans h2" using 1(1) by (auto simp: HandleUnlock_def Option.bind_eq_Some_conv split: if_splits)
          then show ?case using 1(2) s2(2) by simp
        qed
      qed
    qed
  qed
qed

end
