(* ===== verification/FlatHeap.thy ===== *)
theory FlatHeap
  imports PageHeapNew
begin

text \<open>
  The initial state of the page heap satisfies the invariant; and, on the concrete platform of
  the system-memory theory, a first allocation evaluated step by step. The latter is used where a
  property is shown to apply.
\<close>

subsection \<open>The initial state\<close>

lemma initial_heap_ok:
  assumes m: "meta_ok (plat E) mapped {} md"
    and p1: "PageHeapAllocator_Init (plat E) sizeof_Span a md = Some (pool, md1)"
    and p2: "PageHeapAllocator_Init (plat E) sizeof_StackTrace b md1 = Some (stpool, md2)"
    and c: "PageHeap_ctor (2 ^ k) sp pool stpool md2 = Some h" and k: "k < 64"
  shows "heap_ok E mapped {} h" and "coalesced {} (spans h)" and "inuse_spans {} h = {}"
proof -
  have s: "0 < sizeof_Span" "sizeof_Span \<le> kAllocIncrement" "0 < sizeof_StackTrace" "sizeof_StackTrace \<le> kAllocIncrement"
    by (simp_all add: sizeof_Span_def sizeof_StackTrace_def kAllocIncrement_def)
  obtain M H where 1: "pool_ok sizeof_Span M {} pool" "meta_ok (plat E) mapped H md1" "M \<subseteq> H"
    using pool_live_Init [OF m s(1,2) p1] by (auto simp: pool_live_def)
  obtain N G where 2: "pool_ok sizeof_StackTrace N {} stpool" "meta_ok (plat E) mapped G md2" "N \<subseteq> G" "H \<subseteq> G" "N \<inter> H = {}"
    using pool_live_Init [OF 1(2) s(3,4) p2] by (auto simp: pool_live_def)
  have h: "h = \<lparr>smallest_span_size = 2 ^ k, pagemap_cache = Clear, pagemap = PageMap2_ctor,
        large_normal = [], large_returned = [], free_normal = (\<lambda>_. []), free_returned = (\<lambda>_. []),
        stats = Stats_ctor, scavenge_counter = 0, release_index = kMaxPages,
        aggressive_decommit = False, spans = sp, span_allocator = pool,
        stacktrace_allocator = stpool, growth_stacks = [], meta = md2\<rparr>"
    using c by (simp add: PageHeap_ctor_def split: if_splits)
  have "memory_ok E mapped {} {} pool stpool md2 0"
    unfolding memory_ok_def
    by (rule exI [of _ M], rule exI [of _ N], rule exI [of _ "{}"], rule exI [of _ G], rule exI [of _ "{}"])
      (use 1 2 in \<open>auto simp: page_area_def\<close>)
  then have "heap_inv E mapped {} {} h"
    by (simp add: heap_inv_def h geo_ok_def map_ok_def bounds_ok_def covered_def on_lists_def half_ok_def free_at_def
        Stats_ctor_def PageMap2_ctor_def PageMap2_get_def Let_def)
  then show "heap_ok E mapped {} h"
    using k by (auto simp: heap_ok_def commit_ok_def clean_def h Stats_ctor_def)
  show "coalesced {} (spans h)" "inuse_spans {} h = {}" by (simp_all add: coalesced_def inuse_spans_def)
qed

subsection \<open>The flat platform\<close>

definition flat_env :: "(nat \<times> nat) env" where
  "flat_env = \<lparr>plat = flat_platform, tcmalloc_release_rate = 0, tcmalloc_heap_limit_mb = 0\<rparr>"

lemma flat_env [simp]: "plat flat_env = flat_platform" "unlimited flat_env" "tcmalloc_release_rate flat_env = 0"
  by (simp_all add: flat_env_def unlimited_def)

lemma flat_tame: "tame flat_mapped"
proof -
  have "finite (flat_mapped (b, m)) \<and> card (flat_mapped (b, m)) < 2 ^ 44" for b m
  proof -
    have s: "flat_mapped (b, m) \<subseteq> {2 ^ 20..<2 ^ 43}" by (auto simp: flat_mapped_def)
    then have "card (flat_mapped (b, m)) \<le> card {2 ^ 20..<(2::nat) ^ 43}" by (intro card_mono) auto
    then show ?thesis using finite_subset [OF s] by simp
  qed
  then show ?thesis by (auto simp: tame_def)
qed

lemma flat_sane: "\<not> mad flat_env"
proof -
  have "release_loop flat_platform a n st = Some (True, st)" for a n st
    by (subst release_loop.simps) (simp add: flat_platform_def)
  then show ?thesis by (simp add: mad_def)
qed

definition flat_sys_at :: "nat \<Rightarrow> nat \<Rightarrow> (nat \<times> nat) sys" where
  "flat_sys_at b t = \<lparr>os = (b, 2 ^ 40), pagesize = 0, hint = 0, failed = (\<lambda>_. True)(0 := False, 1 := False),
     allocs = [0 \<mapsto> SbrkSysAllocator, 1 \<mapsto> MmapSysAllocator], system_alloc_inited = True, SystemTaken = t\<rparr>"

lemmas flat_sys_defs = TCMalloc_SystemAlloc_def flat_platform_def flat_sys_def flat_sys_at_def add64_def sub64_def mul64_def
  InitSystemAllocators_def SetChildAllocator_def DefaultSysAllocator_ctor_def
  DefaultSysAllocator_Alloc_def SbrkSysAllocator_Alloc_def round_up64_def CheckAddressBits_def
  MAP_FAILED_def both_allocators

lemma flat_alloc_chunk:
  "TCMalloc_SystemAlloc flat_platform 8388608 64 flat_sys = Some (1048576, 8388608, flat_sys_at 9437184 8388608)"
  using and_low_mask [of 1048576 6] by (simp add: flat_sys_defs)

lemma flat_alloc_pages:
  "TCMalloc_SystemAlloc flat_platform 1048576 8192 (flat_sys_at 9437184 8388608)
    = Some (9437184, 1048576, flat_sys_at 10485760 9437184)"
  using and_low_mask [of 9437184 13] by (simp add: flat_sys_defs)

definition flat_meta :: "(nat \<times> nat) sys \<Rightarrow> nat \<Rightarrow> (nat \<times> nat) metadata" where
  "flat_meta s n = \<lparr>sysmem = s, metadata_system_bytes = n, metadata_chunk_alloc = 1048576 + n,
     metadata_chunk_avail = 8388608 - n\<rparr>"

lemma flat_meta_first:
  "MetaDataAlloc flat_platform 131072 flat_metadata = Some (1048576, flat_meta (flat_sys_at 9437184 8388608) 131072)"
  by (simp add: MetaDataAlloc_def flat_metadata_def kMetadataAllocChunkSize_def kMetadataAllignment_def Let_def
      add64_def sub64_def flat_alloc_chunk flat_meta_def)

lemma flat_meta_next:
  "MetaDataAlloc flat_platform 131072 (flat_meta s 131072) = Some (1179648, flat_meta s 262144)"
  "MetaDataAlloc flat_platform 2097152 (flat_meta s 262144) = Some (1310720, flat_meta s 2359296)"
  using and_low_mask [of 18446744073708371968 6] and_low_mask [of 18446744073708240896 6]
  by (simp_all add: MetaDataAlloc_def kMetadataAllocChunkSize_def kMetadataAllignment_def Let_def
      add64_def sub64_def flat_meta_def)

definition flat_heap :: "(nat \<times> nat) page_heap" where
  "flat_heap = \<lparr>smallest_span_size = 1, pagemap_cache = Clear, pagemap = PageMap2_ctor,
        large_normal = [], large_returned = [], free_normal = (\<lambda>_. []), free_returned = (\<lambda>_. []),
        stats = Stats_ctor, scavenge_counter = 0, release_index = kMaxPages,
        aggressive_decommit = False, spans = (\<lambda>_. Span_ctor),
        span_allocator = \<lparr>free_area = 1048624, free_avail = 131024, free_list = [1048576], inuse = 0\<rparr>,
        stacktrace_allocator = \<lparr>free_area = 1179912, free_avail = 130808, free_list = [1179648], inuse = 0\<rparr>,
        growth_stacks = [], meta = flat_meta (flat_sys_at 9437184 8388608) 262144\<rparr>"

lemma flat_heap_ok: "heap_ok flat_env flat_mapped {} flat_heap"
proof (rule initial_heap_ok(1))
  let ?a = "\<lparr>free_area = 0, free_avail = 0, free_list = [], inuse = 0\<rparr>"
  show "meta_ok (plat flat_env) flat_mapped {} flat_metadata" using flat_meta_ok by simp
  show "PageHeapAllocator_Init (plat flat_env) sizeof_Span ?a flat_metadata
      = Some (span_allocator flat_heap, flat_meta (flat_sys_at 9437184 8388608) 131072)"
    by (simp add: PageHeapAllocator_Init_def PageHeapAllocator_New_def PageHeapAllocator_Delete_def Let_def
        flat_meta_first kAllocIncrement_def sizeof_Span_def add64_def sub64_def flat_heap_def)
  show "PageHeapAllocator_Init (plat flat_env) sizeof_StackTrace ?a (flat_meta (flat_sys_at 9437184 8388608) 131072)
      = Some (stacktrace_allocator flat_heap, flat_meta (flat_sys_at 9437184 8388608) 262144)"
    by (simp add: PageHeapAllocator_Init_def PageHeapAllocator_New_def PageHeapAllocator_Delete_def Let_def
        flat_meta_next kAllocIncrement_def sizeof_StackTrace_def add64_def sub64_def flat_heap_def)
  show "PageHeap_ctor (2 ^ 0) (\<lambda>_. Span_ctor) (span_allocator flat_heap) (stacktrace_allocator flat_heap)
      (flat_meta (flat_sys_at 9437184 8388608) 262144) = Some flat_heap"
    by (simp add: PageHeap_ctor_def flat_heap_def sub64_def)
qed simp

lemma flat_round: "RoundUpSize 128 flat_heap = 128"
  using RoundUpSize_spec(3) [of flat_heap 0 128] by (simp add: flat_heap_def)

lemma flat_search: "SearchFreeAndLargeLists flat_env 128 flat_heap = Some (0, flat_heap)"
proof -
  have "heap_inv flat_env flat_mapped {} {} flat_heap" using flat_heap_ok by (simp add: heap_ok_def)
  from search_lists_best [OF this, of 128 128] show ?thesis
    by (auto simp: SearchFreeAndLargeLists_def chosen_def free_fit_def)
qed

text \<open>The heap after it grew by 128 pages, all on one free span.\<close>

definition flat_leaf :: "nat leaf" where
  "flat_leaf = empty_leaf(1152 \<mapsto> 1048576, 1279 \<mapsto> 1048576)"

lemma flat_ensure:
  "PageMap2_Ensure 35 (pagemap_allocator flat_env) 1151 130 PageMap2_ctor (Some (flat_meta s 262144))
    = (True, [0 \<mapsto> empty_leaf], Some (flat_meta s 2359296))"
  by (simp add: PageMap2_Ensure_def Ensure2_loop.simps [of 35 _ 1280] Ensure2_key_def Let_def LEAF_BITS2_def ROOT_BITS2_def
      add64_def sub64_def PageMap2_ctor_def pagemap_allocator_def flat_meta_next)

definition flat_grown :: "(nat \<times> nat) page_heap" where
  "flat_grown = flat_heap\<lparr>pagemap := [0 \<mapsto> flat_leaf], free_normal := (\<lambda>_. [])(127 := [1048576]),
     stats := Stats_ctor\<lparr>system_bytes := 1048576, free_bytes := 1048576, committed_bytes := 1048576, commit_count := 1,
       total_commit_bytes := 1048576, reserve_count := 1, total_reserve_bytes := 1048576\<rparr>,
     scavenge_counter := kDefaultReleaseDelay,
     spans := (\<lambda>_. Span_ctor)(1048576 := Span_ctor\<lparr>start := 1152, slength := 128, location := ON_NORMAL_FREELIST\<rparr>),
     span_allocator := \<lparr>free_area = 1048624, free_avail = 131024, free_list = [], inuse = 1\<rparr>,
     meta := flat_meta (flat_sys_at 10485760 9437184) 2359296\<rparr>"

lemma flat_pagemap:
  "PageMap2_set 35 [0 \<mapsto> empty_leaf] 1152 (Some 1048576) = Some [0 \<mapsto> empty_leaf(1152 \<mapsto> 1048576)]"
  "PageMap2_set 35 [0 \<mapsto> empty_leaf(1152 \<mapsto> 1048576)] 1279 (Some 1048576) = Some [0 \<mapsto> flat_leaf]"
  "PageMap2_set 35 [0 \<mapsto> flat_leaf] 1279 (Some 1048576) = Some [0 \<mapsto> flat_leaf]"
  "PageMap2_get 35 [0 \<mapsto> flat_leaf] 1151 = None" "PageMap2_get 35 [0 \<mapsto> flat_leaf] 1280 = None"
  by (simp_all add: PageMap2_set_def PageMap2_get_def Let_def LEAF_BITS2_def ROOT_BITS2_def flat_leaf_def empty_leaf_def)

lemma flat_GrowHeap: "GrowHeap flat_env 128 0 flat_heap = Some (True, 1048576, flat_grown)"
proof -
  have sm: "sysmem (flat_meta s n) = s" "(flat_meta s n)\<lparr>sysmem := s'\<rparr> = flat_meta s' n" for s s' n
    by (simp_all add: flat_meta_def)
  show ?thesis
    by (simp add: GrowHeap_def kMaxValidPages_def kMinSystemAlloc_def Let_def kPageSize_def shl64_def flat_heap_def sm
        flat_alloc_pages upd_stats_def no_Preallocate flat_ensure heap_NewSpan_def NewSpan_def PageHeapAllocator_New_def
        RecordSpan_def pagemap_set_def flat_pagemap DeleteLocked_def MergeIntoFreeList_def upd_span_def
        CheckAndHandlePreMerge_def GetDescriptor_def PrependToFreeList_def IncrementalScavenge_def
        flat_grown_def Stats_ctor_def add64_def Span_ctor_def)
qed

lemma flat_grown_span:
  "free_normal flat_grown 127 = [1048576]" "slength (spans flat_grown 1048576) = 128"
  "location (spans flat_grown 1048576) = ON_NORMAL_FREELIST"
  "stacktrace_allocator flat_grown = \<lparr>free_area = 1179912, free_avail = 130808, free_list = [1179648], inuse = 0\<rparr>"
  by (simp_all add: flat_grown_def flat_heap_def)

lemma flat_New_exists: "\<exists>h. New flat_env 128 flat_heap = Some (1048576, h)"
proof -
  have "int32_of (sub64 128 128) = 0" by (simp add: int32_of_def sub64_def)
  then obtain h where h: "Carve flat_env 1048576 128 flat_grown = Some (1048576, h)"
    "stacktrace_allocator h = stacktrace_allocator flat_grown" by (simp add: Carve_def flat_grown_span frame)
  have s: "SearchFreeAndLargeLists flat_env 128 flat_grown = Some (1048576, h)"
    by (simp add: SearchFreeAndLargeLists_def search_lists.simps [of flat_env 128 128 flat_grown] flat_grown_span h(1))
  have z: "free_bytes (stats flat_heap) = 0" by (simp add: flat_heap_def Stats_ctor_def)
  have "NewLocked flat_env 128 0 flat_heap = Some (1048576, 1048576, h)"
    by (simp add: NewLocked_def flat_round flat_search z flat_GrowHeap s)
  then show ?thesis
    using h(2) by (simp add: New_def NewWithSizeClass_def InvalidateCachedSizeClass_def HandleUnlock_def PageHeapAllocator_New_def
        flat_grown_span Let_def)
qed

text \<open>The state after that allocation; everything else about it follows from the properties of \<open>New\<close>.\<close>

definition flat_new :: "(nat \<times> nat) page_heap" where
  "flat_new = snd (the (New flat_env 128 flat_heap))"

lemma flat_New: "New flat_env 128 flat_heap = Some (1048576, flat_new)"
  using flat_New_exists by (auto simp: flat_new_def)

lemma flat_new_ok:
  "\<exists>U. heap_ok flat_env flat_mapped U flat_new \<and> inuse_spans U flat_new = {1048576}
     \<and> slength (spans flat_new 1048576) = 128 \<and> smallest_span_size flat_new = 1"
proof -
  have "outcome True (New flat_env 128 flat_heap) (served flat_env flat_mapped 128 0 {} flat_heap)"
    using NewWithSizeClass_ok [OF flat_heap_ok flat_tame, of 128 0] by (simp add: New_def flat_round)
  then obtain U where "granted flat_env flat_mapped 1048576 128 0 {} flat_heap U flat_new"
    unfolding flat_New served_def by auto
  then have "heap_ok flat_env flat_mapped U flat_new" "slength (spans flat_new 1048576) = 128"
    "inuse_spans U flat_new = insert 1048576 (inuse_spans {} flat_heap)" "smallest_span_size flat_new = smallest_span_size flat_heap" unfolding granted_def by blast+
  moreover have "inuse_spans {} flat_heap = {}" "smallest_span_size flat_heap = 1" by (simp_all add: inuse_spans_def flat_heap_def)
  ultimately show ?thesis by metis
qed

end
