(* ===== verification/PageHeapReach.thy ===== *)
theory PageHeapReach
  imports FlatHeap
begin

text \<open>
  The page heap as its clients see it: the states reachable by any sequence of public operations,
  with the set of spans that clients hold, and the properties of those states and operations.
\<close>

subsection \<open>The consistency check\<close>

lemma check_lists_all:
  assumes "\<And>i. i < n \<Longrightarrow> CheckList (free_normal h i) (Suc i) (Suc i) ON_NORMAL_FREELIST h = Some True"
    and "\<And>i. i < n \<Longrightarrow> CheckList (free_returned h i) (Suc i) (Suc i) ON_RETURNED_FREELIST h = Some True"
  shows "check_lists n h = Some True"
  using assms by (induction n) simp_all

lemma CheckExpensive_ok:
  assumes "heap_inv E mapped U {} h"
  shows "CheckExpensive h = Some True"
proof -
  note d = heap_invD [OF assms]
  have N: "half_ok (free_at ON_NORMAL_FREELIST U (spans h)) (spans h) (free_normal h) (large_normal h) (free_bytes (stats h))"
    and R: "half_ok (free_at ON_RETURNED_FREELIST U (spans h)) (spans h) (free_returned h) (large_returned h) (unmapped_bytes (stats h))"
    using d(4) by (simp_all add: on_lists_def)
  have c: "check_span h s" if "s \<in> U" for s
    using d(3) that by (auto simp: check_span_def GetDescriptor_def map_ok_def bounds_ok_def)
  have l: "CheckList (f i) (Suc i) (Suc i) lc h = Some True" and s: "CheckSet es (kMaxPages + 1) lc h = Some True"
    if "half_ok (free_at lc U (spans h)) (spans h) f es b" "i < kMaxPages" for lc f es b i
    using half_okD(2) [OF that] half_okD(4) [OF that(1)] c by (auto simp: CheckList_def CheckSet_def free_at_def)
  have "check_lists kMaxPages h = Some True" by (rule check_lists_all) (use l [OF N] l [OF R] in blast)+
  then show ?thesis using s [OF N, of 0] s [OF R, of 0] by (simp add: CheckExpensive_def)
qed

subsection \<open>The free spans\<close>

text \<open>The spans on the normal and on the returned free lists.\<close>

definition normal_spans :: "'o page_heap \<Rightarrow> nat set" where
  "normal_spans h = (\<Union>i<kMaxPages. set (free_normal h i)) \<union> fst ` set (large_normal h)"

definition returned_spans :: "'o page_heap \<Rightarrow> nat set" where
  "returned_spans h = (\<Union>i<kMaxPages. set (free_returned h i)) \<union> fst ` set (large_returned h)"

lemma listed_spans:
  assumes "heap_inv E mapped U {} h"
  shows "normal_spans h = free_at ON_NORMAL_FREELIST U (spans h)"
    and "returned_spans h = free_at ON_RETURNED_FREELIST U (spans h)"
proof -
  have all: "(\<Union>i<kMaxPages. set (f i)) \<union> fst ` set es = A" if h: "half_ok A (spans h) f es b"
    and pos: "\<And>s. s \<in> A \<Longrightarrow> 0 < slength (spans h s)" for A f es b
  proof -
    have "(\<Union>i<kMaxPages. set (f i)) = {s \<in> A. slength (spans h s) \<le> kMaxPages}"
    proof (intro set_eqI iffI)
      fix s assume "s \<in> {s \<in> A. slength (spans h s) \<le> kMaxPages}"
      then have "slength (spans h s) - 1 < kMaxPages" "s \<in> set (f (slength (spans h s) - 1))"
        using half_okD(2) [OF h, of "slength (spans h s) - 1"] pos [of s] by auto
      then show "s \<in> (\<Union>i<kMaxPages. set (f i))" by blast
    qed (use half_okD(2) [OF h] in auto)
    moreover have "fst ` set es = {s \<in> A. kMaxPages < slength (spans h s)}" by (simp add: half_okD(4) [OF h] image_image)
    ultimately show ?thesis by auto
  qed
  have pos: "0 < slength (spans h s)" if "s \<in> free_at lc U (spans h)" for s lc
    using that geo_okD(3) [OF heap_invD(2) [OF assms]] by (auto simp: free_at_def)
  have l: "half_ok (free_at ON_NORMAL_FREELIST U (spans h)) (spans h) (free_normal h) (large_normal h) (free_bytes (stats h))"
    "half_ok (free_at ON_RETURNED_FREELIST U (spans h)) (spans h) (free_returned h) (large_returned h) (unmapped_bytes (stats h))"
    using heap_invD(4) [OF assms] by (simp_all add: on_lists_def)
  show "normal_spans h = free_at ON_NORMAL_FREELIST U (spans h)"
    unfolding normal_spans_def by (rule all [OF l(1) pos])
  show "returned_spans h = free_at ON_RETURNED_FREELIST U (spans h)"
    unfolding returned_spans_def by (rule all [OF l(2) pos])
qed

lemma free_spans:
  assumes "heap_inv E mapped U {} h"
  shows "normal_spans h \<union> returned_spans h = U - inuse_spans U h"
proof -
  have "location (spans h s) = IN_USE \<or> location (spans h s) = ON_NORMAL_FREELIST \<or> location (spans h s) = ON_RETURNED_FREELIST" for s
    by (cases "location (spans h s)") auto
  then show ?thesis unfolding listed_spans [OF assms] by (auto simp: free_at_def inuse_spans_def)
qed

subsection \<open>The operations on spans that clients hold\<close>

text \<open>
  A state of the heap in which clients hold the spans \<open>H\<close>. If \<open>a\<close> is false, aggressive
  decommit was never switched on, and free neighbours with the same location are merged.
\<close>

definition holds_with :: "'o env \<Rightarrow> ('o \<Rightarrow> nat set) \<Rightarrow> bool \<Rightarrow> nat set \<Rightarrow> nat set \<Rightarrow> 'o page_heap \<Rightarrow> bool" where
  "holds_with E mapped a H U h \<longleftrightarrow> heap_ok E mapped U h \<and> inuse_spans U h = H
     \<and> (\<not> a \<longrightarrow> \<not> aggressive_decommit h \<and> coalesced U (spans h))"

definition heap_holds :: "'o env \<Rightarrow> ('o \<Rightarrow> nat set) \<Rightarrow> bool \<Rightarrow> nat set \<Rightarrow> 'o page_heap \<Rightarrow> bool" where
  "heap_holds E mapped a H h \<longleftrightarrow> (\<exists>U. holds_with E mapped a H U h)"

lemma holds_withD:
  assumes "holds_with E mapped a H U h"
  shows "heap_ok E mapped U h" and "heap_inv E mapped U {} h" and "commit_ok {} h" and "inuse_spans U h = H" and "H \<subseteq> U"
    and "\<forall>s\<in>H. location (spans h s) = IN_USE" and "\<not> a \<longrightarrow> \<not> aggressive_decommit h \<and> coalesced U (spans h)"
  using assms by (auto simp: holds_with_def heap_ok_def inuse_spans_def)

text \<open>What every operation leaves of the spans in \<open>K\<close>, and of their entries in the page map.\<close>

definition untouched :: "nat set \<Rightarrow> 'o page_heap \<Rightarrow> 'o page_heap \<Rightarrow> bool" where
  "untouched K h h' \<longleftrightarrow> (\<forall>t\<in>K. spans h' t = spans h t
     \<and> (\<forall>p \<in> extent (spans h t). GetDescriptor p h' = GetDescriptor p h))"

lemma heap_keep_untouched: "heap_keep S U h U' h' \<Longrightarrow> untouched (inuse_spans U h - S) h h'"
  by (auto simp: heap_keep_def untouched_def inuse_spans_def)

lemma RoundUpSize_pos:
  assumes "heap_ok E mapped U h" "0 < n" "n < 2 ^ 64"
  shows "0 < RoundUpSize n h" and "RoundUpSize n h \<le> 2 ^ 35 \<Longrightarrow> n \<le> RoundUpSize n h"
proof -
  obtain k where k: "smallest_span_size h = 2 ^ k" "k < 64" using assms(1) by (auto simp: heap_ok_def)
  have p: "(2::nat) ^ k \<le> 2 ^ 63" using power_increasing [of k 63 "2::nat"] k(2) by simp
  have "n \<le> RoundUpSize n h \<or> RoundUpSize n h = 2 ^ 64 - 2 ^ k"
    using RoundUpSize_spec(3,4) [OF k assms(3)] by linarith
  then show "0 < RoundUpSize n h" "RoundUpSize n h \<le> 2 ^ 35 \<Longrightarrow> n \<le> RoundUpSize n h" using p assms(2) by auto
qed

lemma served_holds:
  assumes "heap_ok E mapped U h" and "inuse_spans U h = H" and "\<not> a \<longrightarrow> \<not> aggressive_decommit h \<and> coalesced U (spans h)"
    and "served E mapped n sc U h (r, h')"
  shows "heap_holds E mapped a (if r = 0 then H else insert r H) h'" and "untouched H h h'"
proof -
  obtain V where V: "if r = 0 then heap_ok E mapped V h' \<and> grown E mapped U h V h' else granted E mapped r n sc U h V h'"
    using assms(4) by (auto simp: served_def)
  have "heap_ok E mapped V h'" "inuse_spans V h' = (if r = 0 then H else insert r H)"
    "aggressive_decommit h' = aggressive_decommit h" "\<not> aggressive_decommit h \<Longrightarrow> coalesced U (spans h) \<Longrightarrow> coalesced V (spans h')"
    "heap_keep {} U h V h'"
    using V assms(2) by (auto simp: granted_def grown_def quiet_def split: if_splits)
  then show "heap_holds E mapped a (if r = 0 then H else insert r H) h'" "untouched H h h'"
    using assms(2,3) heap_keep_untouched [of "{}" U h V h'] by (auto simp: heap_holds_def holds_with_def)
qed

lemma released_holds:
  assumes "heap_ok E mapped U h" and "inuse_spans U h = H" and "\<not> a \<longrightarrow> \<not> aggressive_decommit h \<and> coalesced U (spans h)"
    and r: "released E mapped S U h U' h'"
  shows "heap_holds E mapped a (H - S) h'" and "untouched (H - S) h h'"
proof -
  note d = r [unfolded released_def]
  have "coalesced (U - S) (spans h)" if "\<not> a" by (rule coalesced_cong [of U "spans h"]) (use assms(3) that in auto)
  moreover have "inuse_spans U' h' = H - S"
    using d assms(2) by (auto simp: heap_keep_def inuse_spans_def)
  moreover have "heap_ok E mapped U' h'" using d assms(1) by (simp add: heap_ok_def steady_def)
  moreover have "aggressive_decommit h' = aggressive_decommit h" using d by (simp add: steady_def)
  ultimately show "heap_holds E mapped a (H - S) h'" using d assms(3) by (auto simp: heap_holds_def holds_with_def)
  show "untouched (H - S) h h'" using heap_keep_untouched [of S U h U' h'] d assms(2) by simp
qed

text \<open>Clients write the fields of their spans that the heap does not read.\<close>

lemma write_span_holds:
  assumes "heap_holds E mapped a H h" and s: "s \<in> H"
    and f: "\<And>x. start (f x) = start x" "\<And>x. slength (f x) = slength x" "\<And>x. location (f x) = location x"
  shows "heap_holds E mapped a H (upd_span s f h)" and "untouched (H - {s}) h (upd_span s f h)"
proof -
  from assms(1) obtain U where "holds_with E mapped a H U h" by (auto simp: heap_holds_def)
  note U = holds_withD [OF this]
  let ?h = "upd_span s f h"
  have i: "heap_inv E mapped U {} ?h" by (rule heap_inv_cong [OF U(2)]) (auto simp: frame f)
  have "clean U (spans h)" using U(1) by (simp add: heap_ok_def)
  then have "clean U (spans ?h)" by (rule clean_cong) (use U(6) s in \<open>auto simp: frame f\<close>)
  then have "heap_ok E mapped U ?h" using U(1,3) i by (simp add: heap_ok_def frame commit_ok_def)
  moreover have "inuse_spans U ?h = H" using U(4) f(3) by (auto simp: inuse_spans_def frame)
  moreover have "coalesced U (spans ?h)" if "coalesced U (spans h)" by (rule coalesced_cong [OF that]) (auto simp: frame f)
  ultimately show "heap_holds E mapped a H ?h" using U(7) by (auto simp: heap_holds_def holds_with_def frame)
  show "untouched (H - {s}) h ?h" by (auto simp: untouched_def frame GetDescriptor_def)
qed

lemma set_cache_holds:
  assumes "heap_holds E mapped a H h"
  shows "heap_holds E mapped a H (h\<lparr>pagemap_cache := c\<rparr>)"
proof -
  from assms obtain U where "holds_with E mapped a H U h" by (auto simp: heap_holds_def)
  note U = holds_withD [OF this]
  have "heap_inv E mapped U {} (h\<lparr>pagemap_cache := c\<rparr>)"
    by (rule heap_inv_memory [OF U(2)]) (use heap_invD(5) [OF U(2)] in simp_all)
  then show ?thesis using U by (auto simp: heap_holds_def holds_with_def heap_ok_def commit_ok_def inuse_spans_def)
qed

lemma set_aggressive_holds:
  assumes "heap_holds E mapped a H h"
  shows "heap_holds E mapped True H (SetAggressiveDecommit b h)"
proof -
  from assms obtain U where "holds_with E mapped a H U h" by (auto simp: heap_holds_def)
  note U = holds_withD [OF this]
  have "heap_inv E mapped U {} (SetAggressiveDecommit b h)"
    by (rule heap_inv_memory [OF U(2)]) (use heap_invD(5) [OF U(2)] in \<open>simp_all add: SetAggressiveDecommit_def\<close>)
  then show ?thesis
    using U by (auto simp: heap_holds_def holds_with_def heap_ok_def commit_ok_def inuse_spans_def SetAggressiveDecommit_def)
qed

lemma Split_holds:
  assumes h: "heap_holds E mapped a H h" and tame: "tame mapped" and s: "s \<in> H" "0 < n" "n < slength (spans h s)"
    and r: "Split E s n h = Some (t, h')"
  shows "heap_holds E mapped a (insert t H) h'" and "t \<notin> H" and "untouched (H - {s}) h h'"
    and "spans h' s = (spans h s)\<lparr>slength := n\<rparr>"
    and "start (spans h' t) = start (spans h s) + n" and "slength (spans h' t) = slength (spans h s) - n"
proof -
  from h obtain U where "holds_with E mapped a H U h" by (auto simp: heap_holds_def)
  note U = holds_withD [OF this]
  have sU: "s \<in> U" "location (spans h s) = IN_USE" using s(1) U by auto
  have o: "t \<notin> U \<and> heap_inv E mapped (insert t U) {} h' \<and> commit_ok {} h' \<and> heap_keep {s} U h (insert t U) h' \<and> steady h h'
     \<and> spans h' = (spans h)(s := (spans h s)\<lparr>slength := n\<rparr>, t := Span_ctor\<lparr>start := start (spans h s) + n, slength := slength (spans h s) - n\<rparr>)"
    using outcomeD [OF Split_ok [OF U(2,3) sU s(2,3) tame_bytes [OF U(2) tame]] r] by simp
  then have sp: "spans h' = (spans h)(s := (spans h s)\<lparr>slength := n\<rparr>, t := Span_ctor\<lparr>start := start (spans h s) + n, slength := slength (spans h s) - n\<rparr>)"
    and tU: "t \<notin> U" and ts: "t \<noteq> s" using sU by auto
  have cl: "clean (insert t U) (spans h')"
    using U(1) by (auto simp: clean_def sp Span_ctor_def heap_ok_def)
  have use: "inuse_spans (insert t U) h' = insert t H" using U(4) by (auto simp: inuse_spans_def sp Span_ctor_def)
  have co: "coalesced (insert t U) (spans h')" if co: "coalesced U (spans h)"
    unfolding coalesced_def
  proof (intro ballI impI)
    fix u v assume a: "u \<in> insert t U" "v \<in> insert t U" "start (spans h' u) + slength (spans h' u) = start (spans h' v)"
      "location (spans h' u) \<noteq> IN_USE"
    then have u: "u \<in> U" "u \<noteq> s" "u \<noteq> t" using sU ts by (auto simp: sp Span_ctor_def split: if_splits)
    then have lu: "spans h' u = spans h u" by (simp add: sp)
    show "location (spans h' u) \<noteq> location (spans h' v)"
    proof (cases "v = t")
      case True
      then show ?thesis using a(4) by (simp add: sp Span_ctor_def)
    next
      case False
      then have "v \<in> U" "start (spans h' v) = start (spans h v)" "location (spans h' v) = location (spans h v)"
        using a(2) by (auto simp: sp)
      then show ?thesis using co u a(3,4) lu unfolding coalesced_def by metis
    qed
  qed
  have "heap_ok E mapped (insert t U) h'" using o cl U(1) by (simp add: heap_ok_def steady_def)
  then show "heap_holds E mapped a (insert t H) h'"
    using use co U(7) o by (auto simp: heap_holds_def holds_with_def steady_def)
  show "t \<notin> H" using tU U(5) by blast
  show "untouched (H - {s}) h h'" using heap_keep_untouched [of "{s}" U h "insert t U" h'] o U(4) by simp
  show "spans h' s = (spans h s)\<lparr>slength := n\<rparr>" "start (spans h' t) = start (spans h s) + n"
    "slength (spans h' t) = slength (spans h s) - n" using ts by (simp_all add: sp)
qed

subsection \<open>Reachable states\<close>

text \<open>
  The states that a sequence of public operations reaches from a new heap, with the spans that the
  clients hold; \<open>a\<close> tells whether they may switch aggressive decommit on. An operation that does
  not return has no successor state.
\<close>

inductive heap_reach :: "'o env \<Rightarrow> ('o \<Rightarrow> nat set) \<Rightarrow> bool \<Rightarrow> nat set \<Rightarrow> 'o page_heap \<Rightarrow> bool"
  for E :: "'o env" and mapped :: "'o \<Rightarrow> nat set" and a :: bool
where
  reach_ctor: "meta_ok (plat E) mapped {} md \<Longrightarrow> PageHeapAllocator_Init (plat E) sizeof_Span x md = Some (pool, md1)
    \<Longrightarrow> PageHeapAllocator_Init (plat E) sizeof_StackTrace y md1 = Some (stpool, md2)
    \<Longrightarrow> PageHeap_ctor (2 ^ k) sp pool stpool md2 = Some h \<Longrightarrow> k < 64 \<Longrightarrow> heap_reach E mapped a {} h"
| reach_New: "heap_reach E mapped a H h \<Longrightarrow> 0 < n \<Longrightarrow> n < 2 ^ 64 \<Longrightarrow> sc < 256
    \<Longrightarrow> NewWithSizeClass E n sc h = Some (s, h') \<Longrightarrow> heap_reach E mapped a (if s = 0 then H else insert s H) h'"
| reach_NewAligned: "heap_reach E mapped a H h \<Longrightarrow> 0 < n \<Longrightarrow> n < 2 ^ 64 \<Longrightarrow> j + 13 < 64
    \<Longrightarrow> NewAligned E n (2 ^ j) h = Some (s, h') \<Longrightarrow> heap_reach E mapped a (if s = 0 then H else insert s H) h'"
| reach_Delete: "heap_reach E mapped a H h \<Longrightarrow> s \<in> H \<Longrightarrow> Delete E s h = Some h' \<Longrightarrow> heap_reach E mapped a (H - {s}) h'"
| reach_Split: "heap_reach E mapped a H h \<Longrightarrow> s \<in> H \<Longrightarrow> 0 < n \<Longrightarrow> n < slength (spans h s)
    \<Longrightarrow> Split E s n h = Some (t, h') \<Longrightarrow> heap_reach E mapped a (insert t H) h'"
| reach_Release: "heap_reach E mapped a H h \<Longrightarrow> ReleaseAtLeastNPages E n h = Some (r, h') \<Longrightarrow> heap_reach E mapped a H h'"
| reach_Aggressive: "heap_reach E mapped a H h \<Longrightarrow> a \<Longrightarrow> heap_reach E mapped a H (SetAggressiveDecommit b h)"
| reach_Cache: "heap_reach E mapped a H h \<Longrightarrow> heap_reach E mapped a H (SetCachedSizeClass p cl h)"
| reach_write: "heap_reach E mapped a H h \<Longrightarrow> s \<in> H
    \<Longrightarrow> (\<And>x. start (f x) = start x \<and> slength (f x) = slength x \<and> location (f x) = location x)
    \<Longrightarrow> heap_reach E mapped a H (upd_span s f h)"

lemma NewWithSizeClass_holds:
  assumes h: "heap_holds E mapped a H h" and tame: "tame mapped" and n: "0 < n" "n < 2 ^ 64" "sc < 256"
    and r: "NewWithSizeClass E n sc h = Some (s, h')"
  shows "heap_holds E mapped a (if s = 0 then H else insert s H) h'" and "untouched H h h'"
proof -
  from h obtain U where "holds_with E mapped a H U h" by (auto simp: heap_holds_def)
  note U = holds_withD [OF this]
  note s = outcomeD [OF NewWithSizeClass_ok [OF U(1) tame RoundUpSize_pos(1) [OF U(1) n(1,2)] n(3)] r]
  show "heap_holds E mapped a (if s = 0 then H else insert s H) h'" "untouched H h h'"
    using served_holds [OF U(1,4,7) s] by blast+
qed

lemma NewAligned_holds:
  assumes h: "heap_holds E mapped a H h" and tame: "tame mapped" and n: "0 < n" "n < 2 ^ 64" "j + 13 < 64"
    and r: "NewAligned E n (2 ^ j) h = Some (s, h')"
  shows "heap_holds E mapped a (if s = 0 then H else insert s H) h'" and "untouched H h h'"
proof -
  from h obtain U where "holds_with E mapped a H U h" by (auto simp: heap_holds_def)
  note U = holds_withD [OF this]
  have s: "served E mapped (RoundUpSize n h) 0 U h (s, h')"
    using outcomeD [OF NewAligned_ok [OF U(1) tame n(2) RoundUpSize_pos(1) [OF U(1) n(1,2)] n(3)] r] by simp
  show "heap_holds E mapped a (if s = 0 then H else insert s H) h'" "untouched H h h'"
    using served_holds [OF U(1,4,7) s] by blast+
qed

text \<open>The spans that clients hold, and what they get.\<close>

lemma holds_spans:
  assumes "heap_holds E mapped a H h"
  shows "finite H" and "s \<in> H \<Longrightarrow> s \<noteq> 0 \<and> location (spans h s) = IN_USE \<and> 0 < start (spans h s) \<and> 0 < slength (spans h s)
       \<and> start (spans h s) + slength (spans h s) \<le> 2 ^ 35 \<and> GetDescriptor (start (spans h s)) h = Some s"
    and "s \<in> H \<Longrightarrow> t \<in> H \<Longrightarrow> p \<in> extent (spans h s) \<Longrightarrow> p \<in> extent (spans h t) \<Longrightarrow> s = t"
proof -
  from assms obtain U where "holds_with E mapped a H U h" by (auto simp: heap_holds_def)
  note U = holds_withD [OF this]
  note d = heap_invD [OF U(2)]
  show "finite H" using d(6) U(5) finite_subset by blast
  show "s \<noteq> 0 \<and> location (spans h s) = IN_USE \<and> 0 < start (spans h s) \<and> 0 < slength (spans h s)
       \<and> start (spans h s) + slength (spans h s) \<le> 2 ^ 35 \<and> GetDescriptor (start (spans h s)) h = Some s" if "s \<in> H"
  proof -
    have s: "s \<in> U" using that U(5) by blast
    show ?thesis using geo_okD(1-4) [OF d(2) s] U(6) that s d(3) by (simp add: GetDescriptor_def map_ok_def bounds_ok_def)
  qed
  show "s \<in> H \<Longrightarrow> t \<in> H \<Longrightarrow> p \<in> extent (spans h s) \<Longrightarrow> p \<in> extent (spans h t) \<Longrightarrow> s = t"
    using same_page [OF d(2)] U(5) by blast
qed

lemma granted_apart:
  assumes "granted E mapped s n sc U h U' h'" and "inuse_spans U h = H" and t: "t \<in> H"
  shows "spans h' t = spans h t \<and> extent (spans h t) \<inter> extent (spans h' s) = {}"
proof -
  note g = assms(1) [unfolded granted_def]
  have i: "heap_inv E mapped U' {} h'" and k: "heap_keep {} U h U' h'" and s: "s \<in> U'" using g by (auto simp: heap_ok_def)
  have tU: "t \<in> U'" "spans h' t = spans h t" using k t assms(2) by (auto simp: heap_keep_def inuse_spans_def)
  moreover have "t \<noteq> s" using t g assms(2) by auto
  ultimately show ?thesis using same_page [OF heap_invD(2) [OF i] tU(1) s] by (metis disjoint_iff)
qed

lemma New_details:
  assumes h: "heap_holds E mapped a H h" and tame: "tame mapped" and n: "0 < n" "n < 2 ^ 64" "sc < 256"
    and r: "NewWithSizeClass E n sc h = Some (s, h')"
  shows "smallest_span_size h' = smallest_span_size h"
    and "pagemap_cache h' = (if s = 0 then pagemap_cache h else Invalidate (pagemap_cache h) (of_nat (start (spans h' s))))"
    and "s \<noteq> 0 \<Longrightarrow> s \<notin> H \<and> slength (spans h' s) = RoundUpSize n h \<and> sizeclass (spans h' s) = sc
      \<and> (\<forall>t\<in>H. extent (spans h t) \<inter> extent (spans h' s) = {})
      \<and> (\<forall>p \<in> extent (spans h' s). sc \<noteq> 0 \<or> p = start (spans h' s) \<longrightarrow> GetDescriptor p h' = Some s)"
proof -
  from h obtain U where "holds_with E mapped a H U h" by (auto simp: heap_holds_def)
  note U = holds_withD [OF this]
  note s = outcomeD [OF NewWithSizeClass_ok [OF U(1) tame RoundUpSize_pos(1) [OF U(1) n(1,2)] n(3)] r]
  then obtain V where V: "if s = 0 then heap_ok E mapped V h' \<and> grown E mapped U h V h'
      else granted E mapped s (RoundUpSize n h) sc U h V h'" by (auto simp: served_def)
  show "smallest_span_size h' = smallest_span_size h"
    "pagemap_cache h' = (if s = 0 then pagemap_cache h else Invalidate (pagemap_cache h) (of_nat (start (spans h' s))))"
    using V by (auto simp: granted_def grown_def quiet_def split: if_splits)
  show "s \<notin> H \<and> slength (spans h' s) = RoundUpSize n h \<and> sizeclass (spans h' s) = sc
      \<and> (\<forall>t\<in>H. extent (spans h t) \<inter> extent (spans h' s) = {})
      \<and> (\<forall>p \<in> extent (spans h' s). sc \<noteq> 0 \<or> p = start (spans h' s) \<longrightarrow> GetDescriptor p h' = Some s)" if "s \<noteq> 0"
  proof -
    have g: "granted E mapped s (RoundUpSize n h) sc U h V h'" using V that by simp
    show ?thesis using g [unfolded granted_def] granted_apart [OF g U(4)] U(4) by blast
  qed
qed

lemma Delete_holds:
  assumes h: "heap_holds E mapped a H h" and "s \<in> H"
  shows "outcome (mad E) (Delete E s h) (\<lambda>h'. heap_holds E mapped a (H - {s}) h' \<and> untouched (H - {s}) h h'
     \<and> smallest_span_size h' = smallest_span_size h \<and> pagemap_cache h' = pagemap_cache h \<and> (\<exists>v \<in> normal_spans h' \<union> returned_spans h'. extent (spans h s) \<subseteq> extent (spans h' v)))"
proof -
  from h obtain U where "holds_with E mapped a H U h" by (auto simp: heap_holds_def)
  note U = holds_withD [OF this]
  have s: "s \<in> U" "location (spans h s) = IN_USE" using U assms(2) by auto
  show ?thesis unfolding Delete_def
  proof (rule outcome_mono [OF DeleteLocked_ok [OF U(2,3) s]], elim exE)
    fix h' U' assume r: "released E mapped {s} U h U' h'"
    then have "heap_inv E mapped U' {} h'" "frees {s} U (spans h) U' (spans h')" by (auto simp: released_def)
    then have "\<exists>v \<in> normal_spans h' \<union> returned_spans h'. extent (spans h s) \<subseteq> extent (spans h' v)"
      using s(1) unfolding free_spans [OF \<open>heap_inv E mapped U' {} h'\<close>] frees_def inuse_spans_def by blast
    moreover have "smallest_span_size h' = smallest_span_size h" "pagemap_cache h' = pagemap_cache h" using r by (simp_all add: released_def steady_def)
    ultimately show "heap_holds E mapped a (H - {s}) h' \<and> untouched (H - {s}) h h'
       \<and> smallest_span_size h' = smallest_span_size h \<and> pagemap_cache h' = pagemap_cache h \<and> (\<exists>v \<in> normal_spans h' \<union> returned_spans h'. extent (spans h s) \<subseteq> extent (spans h' v))"
      using released_holds [OF U(1,4,7) r] by blast
  qed
qed

lemma Release_holds:
  assumes h: "heap_holds E mapped a H h"
  shows "outcome (mad E) (ReleaseAtLeastNPages E n h) (\<lambda>(r, h'). heap_holds E mapped a H h' \<and> untouched H h h'
     \<and> committed_bytes (stats h') + r * 2 ^ kPageShift \<le> committed_bytes (stats h)
     \<and> (n \<le> r \<or> free_bytes (stats h') = 0 \<or> \<not> releases E))"
proof -
  from h obtain U where "holds_with E mapped a H U h" by (auto simp: heap_holds_def)
  note U = holds_withD [OF this]
  show ?thesis
  proof (rule outcome_mono [OF ReleaseAtLeastNPages_ok [OF U(2,3)]], goal_cases)
    case (1 x)
    then show ?case using released_holds [OF U(1,4,7), of "{}"] by (cases x) (auto simp: pages_ok_def)
  qed
qed

lemma heap_reach_holds:
  assumes "heap_reach E mapped a H h" and "tame mapped"
  shows "heap_holds E mapped a H h"
  using assms(1)
proof induction
  case (reach_ctor md x pool md1 y stpool md2 k sp h)
  have "aggressive_decommit h = False" using reach_ctor(4) by (auto simp: PageHeap_ctor_def split: if_splits)
  then show ?case using initial_heap_ok [OF reach_ctor] by (auto simp: heap_holds_def holds_with_def)
next
  case (reach_Delete H h s h')
  then show ?case using outcomeD [OF Delete_holds [OF reach_Delete(4,2)] reach_Delete(3)] by simp
next
  case (reach_Release H h n r h')
  then show ?case using outcomeD [OF Release_holds [OF reach_Release(3)] reach_Release(2)] by simp
next
  case (reach_Aggressive H h b)
  then show ?case using set_aggressive_holds by auto
next
  case (reach_Cache H h p cl)
  then show ?case by (simp add: SetCachedSizeClass_def set_cache_holds)
next
  case (reach_write H h s f)
  then show ?case using write_span_holds(1) [of E mapped a H h s f] by blast
next
  case (reach_New H h n sc s h')
  show ?case by (rule NewWithSizeClass_holds(1) [OF reach_New(6) assms(2) reach_New(2-5)])
next
  case (reach_NewAligned H h n j s h')
  show ?case by (rule NewAligned_holds(1) [OF reach_NewAligned(6) assms(2) reach_NewAligned(2-5)])
next
  case (reach_Split H h s n t h')
  show ?case by (rule Split_holds(1) [OF reach_Split(6) assms(2) reach_Split(2-5)])
qed

end
