(* ===== verification/PageHeapProps.thy ===== *)
theory PageHeapProps
  imports PageHeapReach
begin

text \<open>
  The properties of the page heap, over the states that its clients can bring about.
\<close>

text \<open>The first allocation on the concrete platform, as a reachable state.\<close>

lemma flat_reach_init:
  assumes [simp]: "plat E = flat_platform"
  shows "heap_reach E flat_mapped False {} flat_heap"
proof (rule reach_ctor)
  let ?a = "\<lparr>free_area = 0, free_avail = 0, free_list = [], inuse = 0\<rparr>"
  show "meta_ok (plat E) flat_mapped {} flat_metadata" using flat_meta_ok by simp
  show "PageHeapAllocator_Init (plat E) sizeof_Span ?a flat_metadata
      = Some (span_allocator flat_heap, flat_meta (flat_sys_at 9437184 8388608) 131072)"
    by (simp add: PageHeapAllocator_Init_def PageHeapAllocator_New_def PageHeapAllocator_Delete_def Let_def
        flat_meta_first kAllocIncrement_def sizeof_Span_def add64_def sub64_def flat_heap_def)
  show "PageHeapAllocator_Init (plat E) sizeof_StackTrace ?a (flat_meta (flat_sys_at 9437184 8388608) 131072)
      = Some (stacktrace_allocator flat_heap, flat_meta (flat_sys_at 9437184 8388608) 262144)"
    by (simp add: PageHeapAllocator_Init_def PageHeapAllocator_New_def PageHeapAllocator_Delete_def Let_def
        flat_meta_next kAllocIncrement_def sizeof_StackTrace_def add64_def sub64_def flat_heap_def)
  show "PageHeap_ctor (2 ^ 0) (\<lambda>_. Span_ctor) (span_allocator flat_heap) (stacktrace_allocator flat_heap)
      (flat_meta (flat_sys_at 9437184 8388608) 262144) = Some flat_heap"
    by (simp add: PageHeap_ctor_def flat_heap_def sub64_def)
qed simp

lemma flat_reach_heap: "heap_reach flat_env flat_mapped False {} flat_heap"
  by (rule flat_reach_init) simp

lemma flat_reach_new: "heap_reach flat_env flat_mapped False {1048576} flat_new"
proof -
  have "NewWithSizeClass flat_env 128 0 flat_heap = Some (1048576, flat_new)" using flat_New unfolding New_def .
  from reach_New [OF flat_reach_heap _ _ _ this] show ?thesis by simp
qed

text \<open>The state after the span was given back.\<close>

lemma flat_delete:
  "\<exists>h v. Delete flat_env 1048576 flat_new = Some h \<and> heap_reach flat_env flat_mapped False {} h
     \<and> v \<in> normal_spans h \<union> returned_spans h \<and> extent (spans flat_new 1048576) \<subseteq> extent (spans h v)"
proof -
  have "1048576 \<in> {1048576::nat}" by simp
  from Delete_holds [OF heap_reach_holds [OF flat_reach_new flat_tame] this] flat_sane
  obtain h v where h: "Delete flat_env 1048576 flat_new = Some h" "v \<in> normal_spans h \<union> returned_spans h"
    "extent (spans flat_new 1048576) \<subseteq> extent (spans h v)" by (auto simp: outcome_def split: option.splits)
  moreover have "heap_reach flat_env flat_mapped False ({1048576} - {1048576}) h" by (rule reach_Delete [OF flat_reach_new _ h(1)]) simp
  ultimately show ?thesis by simp blast
qed

text \<open>C1 Safety of the page heap. In every state that a sequence of public operations reaches from a new heap, on a system
  that never has \<open>2 ^ 44\<close> bytes or more mapped for the process, the heap's
  own check \<open>CheckExpensive\<close> succeeds, every span that a client holds is marked in use and found by the page
  map at its first and last page, the spans that clients hold do not overlap, and the bytes taken from the system are
  exactly the committed ones and those on the returned lists.\<close>

theorem page_heap_safe:
  assumes "heap_reach E mapped a H h" and "tame mapped"
  shows "CheckExpensive h = Some True
    \<and> (\<forall>s\<in>H. location (spans h s) = IN_USE \<and> 0 < slength (spans h s) \<and> check_span h s)
    \<and> (\<forall>s\<in>H. \<forall>t\<in>H. s \<noteq> t \<longrightarrow> extent (spans h s) \<inter> extent (spans h t) = {})
    \<and> committed_bytes (stats h) + unmapped_bytes (stats h) = system_bytes (stats h)"
proof -
  obtain U where "holds_with E mapped a H U h" using heap_reach_holds [OF assms] by (auto simp: heap_holds_def)
  note U = holds_withD [OF this]
  note d = heap_invD [OF U(2)]
  have "0 < slength (spans h s) \<and> check_span h s" if "s \<in> H" for s
    using that U(5) d(3) geo_okD(3) [OF d(2)] by (auto simp: check_span_def GetDescriptor_def map_ok_def bounds_ok_def)
  moreover have "extent (spans h s) \<inter> extent (spans h t) = {}" if "s \<in> H" "t \<in> H" "s \<noteq> t" for s t
    using same_page [OF d(2), of s t] that U(5) by blast
  ultimately show ?thesis using CheckExpensive_ok [OF U(2)] commit_unmapped [OF U(3)] U(6) by blast
qed

theorem page_heap_safe_witness: "CheckExpensive flat_new = Some True \<and> check_span flat_new 1048576"
  using page_heap_safe [OF flat_reach_new flat_tame] by simp


text \<open>C4 Without aggressive decommit, and with less than \<open>2 ^ 44\<close> bytes mapped, the heap is always fully coalesced: of two spans on the normal free lists, or on the
  returned ones, neither ends where the other starts.\<close>

theorem page_heap_coalesced:
  assumes "heap_reach E mapped False H h" and "tame mapped"
    and "s \<in> normal_spans h \<and> t \<in> normal_spans h \<or> s \<in> returned_spans h \<and> t \<in> returned_spans h"
  shows "start (spans h s) + slength (spans h s) \<noteq> start (spans h t)"
proof -
  obtain U where "holds_with E mapped False H U h" using heap_reach_holds [OF assms(1,2)] by (auto simp: heap_holds_def)
  note U = holds_withD [OF this]
  show ?thesis using assms(3) U(7) unfolding listed_spans [OF U(2)] coalesced_def free_at_def by fastforce
qed

theorem page_heap_coalesced_witness:
  "\<exists>h s. Delete flat_env 1048576 flat_new = Some h \<and> s \<in> normal_spans h \<union> returned_spans h
     \<and> start (spans h s) + slength (spans h s) \<noteq> start (spans h s)"
  using flat_delete page_heap_coalesced [OF _ flat_tame] by (metis Un_iff)

text \<open>C2 What \<open>NewWithSizeClass\<close> hands out, unless it returns null and with less than \<open>2 ^ 44\<close> bytes mapped: a span that no client holds, of the rounded length, with
  the size class; no page of it belongs to a span that a client holds; the page map finds it from its first page,
  and from every page if it has a size class; and the spans that clients hold are unchanged.\<close>

theorem New_contract:
  assumes "heap_reach E mapped a H h" and "tame mapped" and "0 < n" and "n < 2 ^ 64" and "sc < 256"
    and "NewWithSizeClass E n sc h = Some (s, h')" and "s \<noteq> 0"
  shows "s \<notin> H \<and> slength (spans h' s) = RoundUpSize n h \<and> n \<le> slength (spans h' s) \<and> sizeclass (spans h' s) = sc
    \<and> location (spans h' s) = IN_USE
    \<and> (\<forall>t\<in>H. spans h' t = spans h t \<and> extent (spans h t) \<inter> extent (spans h' s) = {})
    \<and> (\<forall>p \<in> extent (spans h' s). sc \<noteq> 0 \<or> p = start (spans h' s) \<longrightarrow> GetDescriptor p h' = Some s)"
proof -
  obtain U where "holds_with E mapped a H U h" using heap_reach_holds [OF assms(1,2)] by (auto simp: heap_holds_def)
  note U = holds_withD [OF this]
  note p = RoundUpSize_pos [OF U(1) assms(3,4)]
  obtain U' where "granted E mapped s (RoundUpSize n h) sc U h U' h'"
    using outcomeD [OF NewWithSizeClass_ok [OF U(1) assms(2) p(1) assms(5)] assms(6)] assms(7) by (auto simp: served_def)
  note g = this [unfolded granted_def]
  have i: "heap_inv E mapped U' {} h'" and s: "s \<in> U'" using g by (auto simp: heap_ok_def)
  have "slength (spans h' s) \<le> 2 ^ 35" using geo_okD(4) [OF heap_invD(2) [OF i] s] by simp
  then show ?thesis using g p(2) U(4) granted_apart [OF \<open>granted E mapped s (RoundUpSize n h) sc U h U' h'\<close> U(4)] by auto
qed

theorem New_contract_witness: "slength (spans flat_new 1048576) = 128 \<and> GetDescriptor (start (spans flat_new 1048576)) flat_new = Some 1048576"
proof -
  have "NewWithSizeClass flat_env 128 0 flat_heap = Some (1048576, flat_new)" using flat_New unfolding New_def .
  from New_contract [OF flat_reach_heap flat_tame _ _ _ this] show ?thesis by (simp add: flat_round)
qed

text \<open>C7 With less than \<open>2 ^ 44\<close> bytes mapped, an aligned allocation starts at a multiple of the alignment and has the rounded length exactly: what is
  before and after it goes back to the free lists. It overlaps no span that a client holds.\<close>

theorem NewAligned_contract:
  assumes "heap_reach E mapped a H h" and "tame mapped" and "0 < n" and "n < 2 ^ 64" and "j + 13 < 64"
    and "NewAligned E n (2 ^ j) h = Some (s, h')" and "s \<noteq> 0"
  shows "2 ^ j dvd start (spans h' s) \<and> s \<notin> H \<and> slength (spans h' s) = RoundUpSize n h
    \<and> (\<forall>t\<in>H. spans h' t = spans h t \<and> extent (spans h t) \<inter> extent (spans h' s) = {})"
proof -
  obtain U where "holds_with E mapped a H U h" using heap_reach_holds [OF assms(1,2)] by (auto simp: heap_holds_def)
  note U = holds_withD [OF this]
  note o = outcomeD [OF NewAligned_ok [OF U(1) assms(2,4) RoundUpSize_pos(1) [OF U(1) assms(3,4)] assms(5)] assms(6)]
  then obtain U' where "granted E mapped s (RoundUpSize n h) 0 U h U' h'" using assms(7) by (auto simp: served_def)
  note g = this [unfolded granted_def]
  then show ?thesis using o assms(7) U(4) granted_apart [OF \<open>granted E mapped s (RoundUpSize n h) 0 U h U' h'\<close> U(4)] by auto
qed

lemma flat_NewAligned: "\<exists>s h. NewAligned flat_env 127 1 flat_heap = Some (s, h) \<and> s \<noteq> 0"
proof -
  have r: "RoundUpSize 127 flat_heap = 127" "RoundUpSize 128 flat_heap = 128"
    using RoundUpSize_spec(3) [of flat_heap 0 127] RoundUpSize_spec(3) [of flat_heap 0 128] by (simp_all add: flat_heap_def)
  have e: "int32_of (sub64 128 128) = 0" "int32_of (sub64 128 127) = 1" by (simp_all add: int32_of_def sub64_def)
  define h1 where "h1 = upd_span 1048576 (\<lambda>x. x\<lparr>location := IN_USE\<rparr>) (RemoveFromFreeList 1048576 flat_grown)"
  have c: "Carve flat_env 1048576 128 flat_grown = Some (1048576, h1)"
    by (simp add: Carve_def flat_grown_span frame e h1_def)
  have s: "SearchFreeAndLargeLists flat_env 128 flat_grown = Some (1048576, h1)"
    by (simp add: SearchFreeAndLargeLists_def search_lists.simps [of flat_env 128 128 flat_grown] flat_grown_span c)
  have z: "free_bytes (stats flat_heap) = 0" by (simp add: flat_heap_def Stats_ctor_def)
  have n: "NewLocked flat_env 128 0 flat_heap = Some (1048576, 1048576, h1)"
    by (simp add: NewLocked_def r flat_search z flat_GrowHeap s)
  have a: "align_skip 8192 1152 0 = Some 0"
    using and_low_mask [of 9437184 13] by (simp add: align_skip.simps shl64_def add64_def sub64_def)
  have f: "spans h1 1048576 = Span_ctor\<lparr>start := 1152, slength := 128, location := IN_USE\<rparr>"
    "pagemap h1 = [0 \<mapsto> flat_leaf]" "span_allocator h1 = \<lparr>free_area = 1048624, free_avail = 131024, free_list = [], inuse = 1\<rparr>"
    "stacktrace_allocator h1 = \<lparr>free_area = 1179912, free_avail = 130808, free_list = [1179648], inuse = 0\<rparr>"
    "scavenge_counter h1 = 2 ^ 18" "aggressive_decommit h1 = False"
    by (simp_all add: h1_def frame flat_grown_def flat_heap_def RemoveFromFreeList_def Let_def upd_stats_def upd_span_def kDefaultReleaseDelay_def)
  show ?thesis
    by (simp add: NewAligned_def r add64_def n f a shl64_def Split_def e u64_of_int_def heap_NewSpan_def NewSpan_def
        PageHeapAllocator_New_def RecordSpan_def pagemap_set_def PageMap2_set_def PageMap2_get_def Let_def LEAF_BITS2_def
        ROOT_BITS2_def flat_leaf_def empty_leaf_def DeleteLocked_def MergeIntoFreeList_def CheckAndHandlePreMerge_def
        GetDescriptor_def PrependToFreeList_def IncrementalScavenge_def upd_span_def upd_stats_def
        InvalidateCachedSizeClass_def HandleUnlock_def Span_ctor_def sizeof_Span_def kAllocIncrement_def)
qed

theorem NewAligned_contract_witness:
  "\<exists>s h. NewAligned flat_env 127 1 flat_heap = Some (s, h) \<and> slength (spans h s) = 127"
proof -
  obtain s h where n: "NewAligned flat_env 127 1 flat_heap = Some (s, h)" "s \<noteq> 0" using flat_NewAligned by blast
  have "RoundUpSize 127 flat_heap = 127" using RoundUpSize_spec(3) [of flat_heap 0 127] by (simp add: flat_heap_def)
  moreover have "NewAligned flat_env 127 (2 ^ 0) flat_heap = Some (s, h)" using n(1) by simp
  note NewAligned_contract [OF flat_reach_heap flat_tame _ _ _ this n(2)]
  ultimately show ?thesis using n(1) by simp
qed

lemma New_null_spans:
  assumes h: "heap_holds E mapped a H h" and "tame mapped" and "unlimited E" and "0 < n" and "n < 2 ^ 64"
    and r: "NewWithSizeClass E n sc h = Some (0, h')"
  shows "(\<exists>h1. before_growth E h h1 \<and> cannot_grow E (RoundUpSize n h) h1)
    \<and> (\<forall>s \<in> normal_spans h \<union> returned_spans h. slength (spans h s) < RoundUpSize n h)"
proof -
  from h obtain U where "holds_with E mapped a H U h" by (auto simp: heap_holds_def)
  note U = holds_withD [OF this]
  obtain g h1 where n: "NewLocked E n 0 h = Some (0, g, h1)"
    using r by (auto simp: NewWithSizeClass_def Option.bind_eq_Some_conv)
  from outcomeD [OF NewLocked_null [OF U(2,3) assms(2,3) RoundUpSize_pos(1) [OF U(1) assms(4,5)]] n]
  show ?thesis unfolding free_spans [OF U(2)] inuse_spans_def by auto
qed

text \<open>C11 When \<open>NewWithSizeClass\<close> returns null, in a heap without a configured limit and with less than \<open>2 ^ 44\<close> bytes mapped:
  no span on the free lists is long enough, and in the state of the heap as it was, or as it is after all its free
  spans were released, growing is impossible: the rounded request exceeds the address space, or the system returns null for
  exactly the block that the heap asks for (128 pages at least, then the request itself), or the page map cannot be
  extended to the block that it returns.\<close>

theorem New_null:
  assumes "heap_reach E mapped a H h" and "tame mapped" and "unlimited E" and "0 < n" and "n < 2 ^ 64"
    and "NewWithSizeClass E n sc h = Some (0, h')"
  shows "(\<exists>h1. (h1 = h \<or> (\<exists>k. ReleaseAtLeastNPages E 0x7fffffff h = Some (k, h1)))
       \<and> (RoundUpSize n h > kMaxValidPages
          \<or> (\<exists>p b sm. system_block E (RoundUpSize n h) (sysmem (meta h1)) = Some (p, b, sm)
               \<and> (p = 0 \<or> \<not> fst (PageMap2_Ensure pagemap_bits (pagemap_allocator E) (p div 2 ^ kPageShift - 1)
                     (b div 2 ^ kPageShift + 2) (pagemap h1) (Some ((meta h1)\<lparr>sysmem := sm\<rparr>)))))))
    \<and> (\<forall>s \<in> normal_spans h \<union> returned_spans h. slength (spans h s) < RoundUpSize n h)"
  using New_null_spans [OF heap_reach_holds [OF assms(1,2)] assms(2-6)] unfolding before_growth_def cannot_grow_def .

text \<open>A request for 32 TiB: the concrete system has no such block.\<close>

lemma flat_block:
  "\<exists>b sm. TCMalloc_SystemAlloc flat_platform (2 ^ 45) 8192 (flat_sys_at 9437184 8388608) = Some (0, b, sm)"
  by (simp add: flat_sys_defs MmapSysAllocator_Alloc_def mmap_full_def Let_def)

lemma flat_New_null: "\<exists>h'. NewWithSizeClass flat_env (2 ^ 32) 0 flat_heap = Some (0, h')"
proof -
  have r: "RoundUpSize (2 ^ 32) flat_heap = 2 ^ 32"
    using RoundUpSize_spec(3) [of flat_heap 0 "2 ^ 32"] by (simp add: flat_heap_def)
  have i: "heap_inv flat_env flat_mapped {} {} flat_heap" using flat_heap_ok by (simp add: heap_ok_def)
  have s: "SearchFreeAndLargeLists flat_env (2 ^ 32) flat_heap = Some (0, flat_heap)"
    using search_lists_best [OF i, of "2 ^ 32" "2 ^ 32"]
    by (auto simp: SearchFreeAndLargeLists_def chosen_def free_fit_def)
  have f: "free_bytes (stats flat_heap) = 0" "sysmem (meta flat_heap) = flat_sys_at 9437184 8388608"
    by (simp_all add: flat_heap_def Stats_ctor_def flat_meta_def)
  obtain b sm where a: "TCMalloc_SystemAlloc flat_platform 35184372088832 8192 (flat_sys_at 9437184 8388608) = Some (0, b, sm)"
    using flat_block by auto
  have g: "\<exists>h'. GrowHeap flat_env (2 ^ 32) 0 flat_heap = Some (False, 0, h')"
    by (simp add: GrowHeap_def kMaxValidPages_def kMinSystemAlloc_def kPageSize_def Let_def shl64_def f a)
  then show ?thesis
    unfolding NewWithSizeClass_def NewLocked_def r Let_def using s f(1) by (auto simp: HandleUnlock_def)
qed

theorem New_null_witness: "\<exists>p b sm. system_block flat_env (2 ^ 32) (sysmem (meta flat_heap)) = Some (p, b, sm)
    \<and> (p = 0 \<or> \<not> fst (PageMap2_Ensure pagemap_bits (pagemap_allocator flat_env) (p div 2 ^ kPageShift - 1)
          (b div 2 ^ kPageShift + 2) (pagemap flat_heap) (Some ((meta flat_heap)\<lparr>sysmem := sm\<rparr>))))"
proof -
  have r: "RoundUpSize (2 ^ 32) flat_heap = 2 ^ 32"
    using RoundUpSize_spec(3) [of flat_heap 0 "2 ^ 32"] by (simp add: flat_heap_def)
  have z: "ReleaseAtLeastNPages flat_env 0x7fffffff flat_heap = Some (k, h1) \<Longrightarrow> h1 = flat_heap" for k h1
    by (simp add: ReleaseAtLeastNPages_def release_loop_pages.simps flat_heap_def Stats_ctor_def)
  obtain h' where "NewWithSizeClass flat_env (2 ^ 32) 0 flat_heap = Some (0, h')" using flat_New_null by blast
  note n = New_null [OF flat_reach_heap flat_tame _ _ _ this, unfolded r]
  have "\<not> kMaxValidPages < 2 ^ 32" "unlimited flat_env" "(0::nat) < 2 ^ 32" "(2::nat) ^ 32 < 2 ^ 64" by (simp_all add: kMaxValidPages_def)
  then show ?thesis using n z by blast
qed

text \<open>C6 Memory that was given back can be allocated again, in a heap without a configured limit (\<open>tcmalloc_heap_limit_mb\<close> is 0),
  with less than \<open>2 ^ 44\<close> bytes mapped, on a system that does not answer \<open>madvise\<close> with \<open>EAGAIN\<close> forever: \<open>Delete\<close> of a
  span that a client holds returns, and if a request that rounds to at most its length returns then its result is not
  null, whether or not the system has more memory.\<close>

theorem Delete_New_live:
  assumes "heap_reach E mapped a H h" and "tame mapped" and "unlimited E" and "s \<in> H" and "\<not> mad E"
  shows "\<exists>h1. Delete E s h = Some h1 \<and> (\<forall>n sc r h2. 0 < n \<longrightarrow> n < 2 ^ 64 \<longrightarrow> RoundUpSize n h \<le> slength (spans h s)
    \<longrightarrow> NewWithSizeClass E n sc h1 = Some (r, h2) \<longrightarrow> r \<noteq> 0)"
proof -
  have hh: "heap_holds E mapped a H h" by (rule heap_reach_holds [OF assms(1,2)])
  from Delete_holds [OF this assms(4)] assms(5) obtain h1 v where h1: "Delete E s h = Some h1" "heap_holds E mapped a (H - {s}) h1"
    "v \<in> normal_spans h1 \<union> returned_spans h1" "extent (spans h s) \<subseteq> extent (spans h1 v)" "smallest_span_size h1 = smallest_span_size h"
    by (auto simp: outcome_def split: option.splits)
  have "slength (spans h s) \<le> slength (spans h1 v)" using card_mono [OF _ h1(4)] by simp
  moreover have "RoundUpSize n h1 = RoundUpSize n h" for n unfolding RoundUpSize_def h1(5) ..
  ultimately show ?thesis using h1(1,3) New_null_spans [OF h1(2) assms(2,3)] by (metis leD order_trans)
qed

theorem Delete_New_live_witness:
  "\<exists>h1. Delete flat_env 1048576 flat_new = Some h1 \<and> (\<nexists>h2. New flat_env 128 h1 = Some (0, h2))"
proof -
  have m: "1048576 \<in> {1048576::nat}" by simp
  have l: "slength (spans flat_new 1048576) = 128" "smallest_span_size flat_new = 1" using flat_new_ok by blast+
  have "RoundUpSize 128 flat_new \<le> slength (spans flat_new 1048576)"
    using RoundUpSize_spec(3) [of flat_new 0 128] by (simp add: l)
  moreover have "(0::nat) < 128" "(128::nat) < 2 ^ 64" by simp_all
  ultimately show ?thesis
    using Delete_New_live [OF flat_reach_new flat_tame _ m flat_sane] unfolding New_def by (metis flat_env(2))
qed

lemma no_free_bytes:
  assumes "heap_holds E mapped a H h" and "free_bytes (stats h) = 0"
  shows "normal_spans h = {}"
proof -
  obtain U where "holds_with E mapped a H U h" using assms(1) by (auto simp: heap_holds_def)
  note U = holds_withD [OF this]
  note d = heap_invD [OF U(2)]
  let ?N = "free_at ON_NORMAL_FREELIST (U - {}) (spans h)"
  have "free_bytes (stats h) = sum (\<lambda>t. slength (spans h t)) ?N * 2 ^ kPageShift"
    using d(4) unfolding on_lists_def by (blast dest: half_okD(5))
  moreover have "finite ?N" using d(6) by (simp add: free_at_def)
  ultimately have "?N = {}" using assms(2) geo_okD(3) [OF d(2)] by (fastforce simp: free_at_def)
  then show ?thesis unfolding listed_spans [OF U(2)] by simp
qed

text \<open>C9 \<open>ReleaseAtLeastNPages\<close> returns, unless the system answers \<open>madvise\<close> with \<open>EAGAIN\<close> forever (with less than
  \<open>2 ^ 44\<close> bytes mapped). If releasing is enabled, the system's pages are not larger than those of the heap and \<open>madvise\<close>
  succeeds, it has then released as many pages as it was asked to, or nothing is left on the normal lists. In every
  case the committed bytes fell by at least what it reports, and the spans that clients hold are unchanged.\<close>

theorem ReleaseAtLeastNPages_returns:
  assumes "heap_reach E mapped a H h" and "tame mapped" and "\<not> mad E"
  shows "\<exists>r h'. ReleaseAtLeastNPages E num h = Some (r, h')
    \<and> (\<not> disable_memory_release (plat E) \<and> p_getpagesize (plat E) \<le> kPageSize
         \<and> (\<forall>b n st. fst (fst (p_madvise (plat E) b n st))) \<longrightarrow> num \<le> r \<or> normal_spans h' = {})
    \<and> committed_bytes (stats h') + r * 2 ^ kPageShift \<le> committed_bytes (stats h)
    \<and> (\<forall>s\<in>H. spans h' s = spans h s)"
proof -
  obtain r h' where e: "ReleaseAtLeastNPages E num h = Some (r, h')" "heap_holds E mapped a H h'"
    "num \<le> r \<or> free_bytes (stats h') = 0 \<or> \<not> releases E"
    "committed_bytes (stats h') + r * 2 ^ kPageShift \<le> committed_bytes (stats h)" "\<forall>s\<in>H. spans h' s = spans h s"
    using Release_holds [OF heap_reach_holds [OF assms(1,2)], of num] assms(3)
    by (auto simp: outcome_def untouched_def split: option.splits)
  then show ?thesis using no_free_bytes [OF e(2)] unfolding releases_def by blast
qed

theorem ReleaseAtLeastNPages_returns_witness:
  "\<exists>h r h'. Delete flat_env 1048576 flat_new = Some h \<and> ReleaseAtLeastNPages flat_env 1 h = Some (r, h')
     \<and> (1 \<le> r \<or> normal_spans h' = {})"
proof -
  obtain h where "Delete flat_env 1048576 flat_new = Some h" "heap_reach flat_env flat_mapped False {} h"
    using flat_delete by blast
  moreover have "\<not> disable_memory_release (plat flat_env) \<and> p_getpagesize (plat flat_env) \<le> kPageSize
      \<and> (\<forall>b n st. fst (fst (p_madvise (plat flat_env) b n st)))"
    by (simp add: flat_platform_def kPageSize_def)
  ultimately show ?thesis using ReleaseAtLeastNPages_returns [OF _ flat_tame flat_sane, of False "{}" h 1] by blast
qed

text \<open>C8 The search is best fit when the heap has no limit (\<open>tcmalloc_heap_limit_mb\<close> is 0) and less than \<open>2 ^ 44\<close> bytes are mapped: it carves a shortest of the free spans that are long enough,
  one on a normal list if there is one of that length, and returns null without any change only if none is long
  enough.\<close>

theorem Search_best_fit:
  assumes "heap_reach E mapped a H h" and "tame mapped" and "unlimited E" and "0 < n"
  shows "(\<exists>s \<in> normal_spans h \<union> returned_spans h. n \<le> slength (spans h s)
       \<and> SearchFreeAndLargeLists E n h = Carve E s n h
       \<and> (\<forall>t \<in> normal_spans h \<union> returned_spans h. n \<le> slength (spans h t) \<longrightarrow> slength (spans h s) \<le> slength (spans h t)
            \<and> (slength (spans h s) = slength (spans h t) \<and> t \<in> normal_spans h \<longrightarrow> s \<in> normal_spans h)))
    \<or> (\<forall>s \<in> normal_spans h \<union> returned_spans h. slength (spans h s) < n) \<and> SearchFreeAndLargeLists E n h = Some (0, h)"
proof -
  obtain U where "holds_with E mapped a H U h" using heap_reach_holds [OF assms(1,2)] by (auto simp: heap_holds_def)
  note U = holds_withD [OF this]
  have fit: "free_fit n U h s \<longleftrightarrow> s \<in> normal_spans h \<union> returned_spans h \<and> n \<le> slength (spans h s)" for s
    unfolding free_spans [OF U(2)] by (auto simp: free_fit_def inuse_spans_def)
  have nm: "s \<in> normal_spans h \<longleftrightarrow> s \<in> U \<and> location (spans h s) = ON_NORMAL_FREELIST" for s
    unfolding listed_spans [OF U(2)] by (auto simp: free_at_def)
  have "(\<exists>s. chosen n U h s \<and> search_lists E n n h = Carve E s n h)
     \<or> (\<forall>s. \<not> free_fit n U h s) \<and> search_lists E n n h = Some (0, h)"
    by (rule search_lists_best [OF U(2) assms(3,4)]) (auto simp: free_fit_def)
  then show ?thesis
  proof (elim disjE exE conjE)
    fix s assume c: "chosen n U h s" "search_lists E n n h = Carve E s n h"
    then have f: "free_fit n U h s" by (simp add: chosen_def)
    have "slength (spans h s) \<le> slength (spans h t)
            \<and> (slength (spans h s) = slength (spans h t) \<and> t \<in> normal_spans h \<longrightarrow> s \<in> normal_spans h)"
      if "free_fit n U h t" for t
      using c(1) that f unfolding nm chosen_def by (fastforce simp: free_fit_def)
    then show ?thesis using f c(2) unfolding fit SearchFreeAndLargeLists_def by blast
  next
    assume "\<forall>s. \<not> free_fit n U h s" "search_lists E n n h = Some (0, h)"
    then show ?thesis unfolding fit SearchFreeAndLargeLists_def by force
  qed
qed

theorem Search_best_fit_witness:
  "\<exists>h s. Delete flat_env 1048576 flat_new = Some h \<and> s \<in> normal_spans h \<union> returned_spans h \<and> 128 \<le> slength (spans h s)
     \<and> SearchFreeAndLargeLists flat_env 128 h = Carve flat_env s 128 h"
proof -
  obtain h v where h: "Delete flat_env 1048576 flat_new = Some h" "heap_reach flat_env flat_mapped False {} h"
    "v \<in> normal_spans h \<union> returned_spans h" "extent (spans flat_new 1048576) \<subseteq> extent (spans h v)"
    using flat_delete by blast
  have "slength (spans flat_new 1048576) = 128" using flat_new_ok by blast
  then have "\<not> slength (spans h v) < 128" using card_mono [OF _ h(4)] by simp
  moreover have "unlimited flat_env" "(0::nat) < 128" by simp_all
  ultimately show ?thesis using Search_best_fit [OF h(2) flat_tame, of 128] h(1,3) by blast
qed

text \<open>C10 The heap limit, with less than \<open>2 ^ 44\<close> bytes mapped and a request of at most \<open>2 ^ 51\<close> pages. If \<open>EnsureLimit\<close> agrees to \<open>n\<close> more pages (releasing free spans where it may and must), then the pages
  in use with those \<open>n\<close> stay within \<open>tcmalloc_heap_limit_mb\<close>, counting as in use what was taken from the
  system and not returned. It returns unless \<open>madvise\<close> answers \<open>EAGAIN\<close> forever, and no span that a client holds changes.\<close>

theorem EnsureLimit_enforced:
  assumes "heap_reach E mapped a H h" and "tame mapped" and "\<not> mad E" and "n \<le> 2 ^ 51"
    and "limit = u64_of_int (ssize64 (tcmalloc_heap_limit_mb E * 1024 * 1024) div 2 ^ kPageShift)" and "limit \<noteq> 0"
  shows "\<exists>ok h'. EnsureLimit E n w h = Some (ok, h') \<and> (\<forall>s\<in>H. spans h' s = spans h s)
    \<and> (ok \<longrightarrow> SystemTaken (sysmem (meta h')) div 2 ^ kPageShift - unmapped_bytes (stats h') div 2 ^ kPageShift + n \<le> limit)"
proof -
  obtain U where "holds_with E mapped a H U h" using heap_reach_holds [OF assms(1,2)] by (auto simp: heap_holds_def)
  note U = holds_withD [OF this]
  from EnsureLimit_ok [OF U(2,3) assms(4), of w] assms(3) obtain ok h' U' where
    e: "EnsureLimit E n w h = Some (ok, h')" "released E mapped {} U h U' h'" "ok \<Longrightarrow> within_limit E n h'"
    by (auto simp: outcome_def split: option.splits)
  have i: "heap_inv E mapped U' {} h'" "commit_ok {} h'" using e(2) by (auto simp: released_def)
  note tp = taken_pages [OF i]
  have "SystemTaken (sysmem (meta h')) div 2 ^ kPageShift - unmapped_bytes (stats h') div 2 ^ kPageShift + n \<le> limit" if ok
  proof -
    have "add64 (sub64 (SystemTaken (sysmem (meta h')) div 2 ^ kPageShift) (unmapped_bytes (stats h') div 2 ^ kPageShift)) n \<le> limit"
      using e(3) [OF that] assms(6) unfolding within_limit_def EnsureLimit_def assms(5) [symmetric] by (simp add: Let_def)
    moreover have "SystemTaken (sysmem (meta h')) div 2 ^ kPageShift - unmapped_bytes (stats h') div 2 ^ kPageShift + n < 2 ^ 64"
      using tp(2) assms(4) by (simp add: less_imp_diff_less)
    ultimately show ?thesis unfolding tp(1) by (simp only: add64_eq)
  qed
  then show ?thesis using e(1) released_holds(2) [OF U(1,4,7) e(2)] by (auto simp: untouched_def)
qed

theorem EnsureLimit_enforced_witness:
  "EnsureLimit (flat_env\<lparr>tcmalloc_heap_limit_mb := 100\<rparr>) 128 True flat_heap = Some (True, flat_heap)
    \<and> SystemTaken (sysmem (meta flat_heap)) div 2 ^ kPageShift - unmapped_bytes (stats flat_heap) div 2 ^ kPageShift + 128 \<le> 12800"
proof -
  let ?E = "flat_env\<lparr>tcmalloc_heap_limit_mb := 100\<rparr>"
  have m: "\<not> mad ?E" using flat_sane by (simp add: mad_def)
  have r: "heap_reach ?E flat_mapped False {} flat_heap" by (rule flat_reach_init) simp
  have l: "u64_of_int (ssize64 (tcmalloc_heap_limit_mb ?E * 1024 * 1024) div 2 ^ kPageShift) = 12800" by (simp add: u64_of_int_def)
  have t: "SystemTaken (sysmem (meta flat_heap)) = 8388608" "unmapped_bytes (stats flat_heap) = 0"
    by (simp_all add: flat_heap_def flat_meta_def flat_sys_at_def Stats_ctor_def)
  have "EnsureLimit ?E 128 True flat_heap = Some (True, flat_heap)"
    unfolding EnsureLimit_def l by (simp add: t Let_def add64_def sub64_def)
  then show ?thesis using EnsureLimit_enforced [OF r flat_tame m _ l [symmetric], of 128 True] by auto
qed

text \<open>C29 Rounding up to a multiple of the smallest span: the result is a multiple of it, at least the request and less than
  one smallest span above it; a request for which the sum wraps around becomes the largest multiple instead.\<close>

theorem RoundUpSize_saturates:
  assumes "smallest_span_size h = 2 ^ k" and "k < 64" and "n < 2 ^ 64"
  shows "2 ^ k dvd RoundUpSize n h
    \<and> (if n \<le> 2 ^ 64 - 2 ^ k then n \<le> RoundUpSize n h \<and> RoundUpSize n h < n + 2 ^ k
       else RoundUpSize n h = 2 ^ 64 - 2 ^ k)"
  using RoundUpSize_spec [OF assms] by simp

theorem RoundUpSize_saturates_witness:
  "RoundUpSize (2 ^ 64 - 1) (flat_heap\<lparr>smallest_span_size := 8\<rparr>) = 2 ^ 64 - 8 \<and> RoundUpSize 9 (flat_heap\<lparr>smallest_span_size := 8\<rparr>) = 16"
proof -
  have "(8::nat) = 2 ^ 3" by simp
  then have "2 ^ 3 dvd RoundUpSize 9 (flat_heap\<lparr>smallest_span_size := 8\<rparr>) \<and> 9 \<le> RoundUpSize 9 (flat_heap\<lparr>smallest_span_size := 8\<rparr>)
    \<and> RoundUpSize 9 (flat_heap\<lparr>smallest_span_size := 8\<rparr>) < 9 + 2 ^ 3"
    using RoundUpSize_saturates [of "flat_heap\<lparr>smallest_span_size := 8\<rparr>" 3 9] by simp
  then have "RoundUpSize 9 (flat_heap\<lparr>smallest_span_size := 8\<rparr>) = 16" by (auto elim!: dvdE)
  then show ?thesis using RoundUpSize_saturates [of "flat_heap\<lparr>smallest_span_size := 8\<rparr>" 3 "2 ^ 64 - 1"] by simp
qed

text \<open>C30 How long the span is that \<open>Carve\<close> returns. The leftover of the carved span is computed in an \<open>int\<close>, that is, reduced
  modulo \<open>2 ^ 32\<close>. If that number is positive, which it is for every leftover of less than \<open>2 ^ 31\<close> pages but none, the span
  keeps exactly the pages asked for; otherwise it keeps its whole length: right where nothing is left over,
  and too long where the leftover is at least \<open>2 ^ 31\<close> modulo \<open>2 ^ 32\<close> or a positive multiple of \<open>2 ^ 32\<close>.\<close>

theorem Carve_length:
  assumes "Carve E s n h = Some (r, h')" and "n \<le> slength (spans h s)" and "slength (spans h s) < 2 ^ 64"
  shows "r = s \<and> slength (spans h' s) =
    (if 0 < (slength (spans h s) - n) mod 2 ^ 32 \<and> (slength (spans h s) - n) mod 2 ^ 32 < 2 ^ 31 then n else slength (spans h s))"
proof -
  let ?l = "slength (spans h s) - n"
  have x: "sub64 (slength (spans h s)) n = ?l" using assms(2,3) by (simp add: sub64_eq)
  have z: "int ?l mod 2 ^ 32 = int (?l mod 2 ^ 32)" by (simp add: zmod_int)
  have "0 < int32_of ?l \<longleftrightarrow> 0 < ?l mod 2 ^ 32 \<and> ?l mod 2 ^ 32 < 2 ^ 31"
    unfolding int32_of_def Let_def z by (auto simp: less_le_trans)
  then show ?thesis using assms(1)
    by (auto simp: Carve_def frame Let_def CommitSpan_def x pagemap_set_def Option.bind_eq_Some_conv upd_span_def upd_stats_def split: if_splits)
qed

theorem Carve_length_witness:
  "map_option fst (Carve flat_env 1048576 1 flat_grown) = Some 1048576
   \<and> slength (spans (snd (the (Carve flat_env 1048576 1 flat_grown))) 1048576) = 1
   \<and> slength (spans (snd (the (Carve flat_env 1048576 1 (flat_grown\<lparr>spans := (spans flat_grown)(1048576 :=
     (spans flat_grown 1048576)\<lparr>slength := 2 ^ 31 + 1\<rparr>)\<rparr>)))) 1048576) = 2 ^ 31 + 1"
proof -
  define h where "h = flat_grown\<lparr>spans := (spans flat_grown)(1048576 := (spans flat_grown 1048576)\<lparr>slength := 2 ^ 31 + 1\<rparr>)\<rparr>"
  have l: "slength (spans h 1048576) = 2 ^ 31 + 1" by (simp add: h_def)
  have "int32_of (sub64 (2 ^ 31 + 1) 1) = - (2 ^ 31)" by (simp add: int32_of_def sub64_def)
  then obtain r h' where c: "Carve flat_env 1048576 1 h = Some (r, h')" using l by (auto simp: Carve_def frame Let_def)
  from Carve_length [OF this] have e: "slength (spans h' 1048576) = 2 ^ 31 + 1" unfolding l by auto
  have e1: "int32_of (sub64 128 (Suc 0)) = 127" by (simp add: int32_of_def sub64_def)
  obtain r2 h2 where c2: "Carve flat_env 1048576 1 flat_grown = Some (r2, h2)"
    by (auto simp: Carve_def e1 heap_NewSpan_def NewSpan_def flat_grown_def flat_heap_def flat_leaf_def empty_leaf_def
        PageHeapAllocator_New_def RecordSpan_def pagemap_set_def PageMap2_set_def Let_def LEAF_BITS2_def
        ROOT_BITS2_def PrependToFreeList_def RemoveFromFreeList_def upd_span_def upd_stats_def Span_ctor_def sizeof_Span_def kAllocIncrement_def)
  from Carve_length [OF this] have "r2 = 1048576 \<and> slength (spans h2 1048576) = 1" by (simp add: flat_grown_span)
  then show ?thesis using e unfolding h_def [symmetric] c c2 by simp
qed

end
