(* ===== verification/LinkedList.thy ===== *)
theory LinkedList
  imports Prelude
begin

text \<open>
  The singly linked lists of free objects: \<^verbatim>\<open>linked_list.h\<close>. The link of an object is its first
  word, so the memory is a function from addresses to words and 0 is \<open>nullptr\<close>; an access
  through \<open>nullptr\<close> has no result (\<^term>\<open>None\<close>). \<open>sll\<close> says which list of objects a head pointer
  stands for, and each operation is shown to implement the operation on lists that the thread
  caches and the central free lists rely on.
\<close>

type_synonym mem = "nat \<Rightarrow> nat"

definition SLL_Next :: "mem \<Rightarrow> nat \<Rightarrow> nat option" where
  "SLL_Next m t = (if t = 0 then None else Some (m t))"

definition SLL_SetNext :: "nat \<Rightarrow> nat \<Rightarrow> mem \<Rightarrow> mem option" where
  "SLL_SetNext t n m = (if t = 0 then None else Some (m(t := n)))"

text \<open>The head pointer is passed in and the new one returned first.\<close>

definition SLL_Push :: "nat \<Rightarrow> nat \<Rightarrow> mem \<Rightarrow> (nat \<times> mem) option" where
  "SLL_Push head element m =
     do { m' \<leftarrow> SLL_SetNext element head m; Some (element, m') }"

definition SLL_Pop :: "nat \<Rightarrow> mem \<Rightarrow> (nat \<times> nat) option" where
  "SLL_Pop head m = do { next \<leftarrow> SLL_Next m head; Some (next, head) }"

definition SLL_TryPop :: "nat \<Rightarrow> mem \<Rightarrow> (nat \<times> nat option) option" where
  "SLL_TryPop head m =
     (if head = 0 then Some (head, None)
      else do { next \<leftarrow> SLL_Next m head; Some (next, Some head) })"

primrec SLL_walk :: "mem \<Rightarrow> nat \<Rightarrow> nat \<Rightarrow> nat option" where
  "SLL_walk m 0 tmp = Some tmp"
| "SLL_walk m (Suc i) tmp = do { next \<leftarrow> SLL_Next m tmp; SLL_walk m i next }"

text \<open>Returns the new head, the first and the last node of the removed range, and the memory.\<close>

definition SLL_PopRange :: "nat \<Rightarrow> int \<Rightarrow> mem \<Rightarrow> (nat \<times> nat \<times> nat \<times> mem) option" where
  "SLL_PopRange head N m =
     (if N = 0 then Some (head, 0, 0, m)
      else do {
        tmp \<leftarrow> SLL_walk m (nat (N - 1)) head;
        next \<leftarrow> SLL_Next m tmp;
        m' \<leftarrow> SLL_SetNext tmp 0 m;
        Some (next, head, tmp, m') })"

definition SLL_PushRange :: "nat \<Rightarrow> nat \<Rightarrow> nat \<Rightarrow> mem \<Rightarrow> (nat \<times> mem) option" where
  "SLL_PushRange head start end_ptr m =
     (if start = 0 then Some (head, m)
      else do { m' \<leftarrow> SLL_SetNext end_ptr head m; Some (start, m') })"

partial_function (option) SLL_count :: "mem \<Rightarrow> nat \<Rightarrow> nat \<Rightarrow> nat option" where
  "SLL_count m count head =
     (if head = 0 then Some count
      else do { next \<leftarrow> SLL_Next m head; SLL_count m (count + 1) next })"

definition SLL_Size :: "mem \<Rightarrow> nat \<Rightarrow> nat option" where
  "SLL_Size m head = SLL_count m 0 head"

subsection \<open>The list a pointer stands for\<close>

fun sll :: "mem \<Rightarrow> nat \<Rightarrow> nat list \<Rightarrow> bool" where
  "sll m p [] \<longleftrightarrow> p = 0"
| "sll m p (x # xs) \<longleftrightarrow> x \<noteq> 0 \<and> p = x \<and> sll m (m x) xs"

lemma sll_null: "sll m 0 xs \<longleftrightarrow> xs = []"
  by (cases xs) auto

lemma sll_head: "sll m p xs \<Longrightarrow> p \<noteq> 0 \<Longrightarrow> \<exists>ys. xs = p # ys"
  by (cases xs) auto

lemma sll_frame: "(\<And>a. a \<in> set xs \<Longrightarrow> m' a = m a) \<Longrightarrow> sll m' p xs = sll m p xs"
  by (induction xs arbitrary: p) auto

lemma sll_update [simp]: "a \<notin> set xs \<Longrightarrow> sll (m(a := v)) p xs = sll m p xs"
  by (rule sll_frame) auto

lemma sll_functional: "sll m p xs \<Longrightarrow> sll m p ys \<Longrightarrow> xs = ys"
proof (induction xs arbitrary: p ys)
  case (Cons x xs)
  then show ?case by (cases ys) auto
qed (auto simp: sll_null)

lemma sll_suffix: "sll m p (xs @ ys) \<Longrightarrow> \<exists>q. sll m q ys"
  by (induction xs arbitrary: p) auto

lemma sll_distinct: "sll m p xs \<Longrightarrow> distinct xs"
proof (induction xs arbitrary: p)
  case (Cons x xs)
  have "x \<notin> set xs"
  proof
    assume "x \<in> set xs"
    then obtain ys zs where xs: "xs = ys @ x # zs" by (metis split_list)
    with Cons.prems obtain q where q: "sll m q (x # zs)" using sll_suffix [of m "m x" ys "x # zs"] by auto
    then have "sll m (m x) zs" by simp
    moreover have "sll m (m x) xs" using Cons.prems by simp
    ultimately have "zs = xs" by (rule sll_functional)
    then have "length zs = length xs" by simp
    then show False using xs by simp
  qed
  with Cons show ?case by auto
qed simp

lemma sll_nonzero: "sll m p xs \<Longrightarrow> 0 \<notin> set xs"
  by (induction xs arbitrary: p) auto

text \<open>A segment from a first node to a last one, with the word after it left open.\<close>

lemma sll_append:
  assumes "sll m s xs" and "sll m h ys" and "xs \<noteq> []" and "last xs \<notin> set ys"
  shows "sll (m(last xs := h)) s (xs @ ys)"
  using assms(1,3,4)
proof (induction xs arbitrary: s)
  case (Cons x xs)
  have d: "distinct (x # xs)" using sll_distinct [OF Cons.prems(1)] .
  show ?case
  proof (cases "xs = []")
    case True
    have "x \<noteq> 0" "s = x" "x \<notin> set ys" using Cons.prems True by auto
    then show ?thesis using assms(2) by (simp add: True fun_upd_same del: fun_upd_apply)
  next
    case False
    then have l: "last xs \<noteq> x" using d by auto
    have "sll (m(last xs := h)) (m x) (xs @ ys)"
      using Cons False by (simp del: fun_upd_apply)
    then show ?thesis using Cons.prems False l by (simp add: fun_upd_other del: fun_upd_apply)
  qed
qed simp

lemma sll_cut:
  assumes "sll m p (xs @ ys)" and "xs \<noteq> []"
  shows "sll (m(last xs := 0)) p xs \<and> sll m (m (last xs)) ys \<and> last xs \<noteq> 0"
  using assms
proof (induction xs arbitrary: p)
  case (Cons x xs)
  have d: "distinct ((x # xs) @ ys)" using sll_distinct [OF Cons.prems(1)] .
  show ?case
  proof (cases "xs = []")
    case True
    then show ?thesis using Cons.prems by simp
  next
    case False
    then have l: "last xs \<noteq> x" using d by auto
    have "sll (m(last xs := 0)) (m x) xs \<and> sll m (m (last xs)) ys \<and> last xs \<noteq> 0"
      using Cons.IH [of "m x"] Cons.prems False by (simp del: fun_upd_apply)
    then show ?thesis using Cons.prems False l by (simp add: fun_upd_other del: fun_upd_apply)
  qed
qed simp

subsection \<open>Lemmas\<close>

lemma SLL_walk_nth:
  "sll m p xs \<Longrightarrow> i < length xs \<Longrightarrow> SLL_walk m i p = Some (xs ! i)"
proof (induction i arbitrary: p xs)
  case 0
  then show ?case by (cases xs) auto
next
  case (Suc i)
  then obtain x ys where "xs = x # ys" by (cases xs) auto
  with Suc show ?case by (auto simp: SLL_Next_def)
qed

lemma SLL_count_length: "sll m p xs \<Longrightarrow> SLL_count m c p = Some (c + length xs)"
proof (induction xs arbitrary: p c)
  case Nil
  then show ?case by (subst SLL_count.simps) simp
next
  case (Cons x xs)
  then show ?case by (subst SLL_count.simps) (simp add: SLL_Next_def)
qed

subsection \<open>Properties\<close>

text \<open>C27 Taking a range off a free list and putting it on another moves exactly those objects:
  \<open>SLL_PopRange\<close> of at most the length of a list leaves the rest, hands out the first \<open>N\<close> objects
  as a null-terminated list with the right last node, and \<open>SLL_PushRange\<close> of that range onto any
  disjoint list yields the two lists appended; no other word of memory changes.\<close>

theorem SLL_range_transfer:
  assumes "sll m src xs" and "sll m dst ys" and "set xs \<inter> set ys = {}"
    and "0 < N" and "N \<le> int (length xs)"
  shows "\<exists>src' s e m1 m2 dst'.
      SLL_PopRange src N m = Some (src', s, e, m1)
    \<and> sll m1 src' (drop (nat N) xs) \<and> sll m1 s (take (nat N) xs) \<and> e = xs ! (nat N - 1)
    \<and> SLL_PushRange dst s e m1 = Some (dst', m2)
    \<and> sll m2 src' (drop (nat N) xs) \<and> sll m2 dst' (take (nat N) xs @ ys)
    \<and> (\<forall>a. a \<noteq> e \<longrightarrow> m2 a = m a)"
proof -
  define n where "n = nat N - 1"
  have n: "nat N = Suc n" "n < length xs" "nat (N - 1) = n" using assms(4,5) by (auto simp: n_def)
  define as where "as = take (Suc n) xs"
  define bs where "bs = drop (Suc n) xs"
  have xs: "xs = as @ bs" and ne: "as \<noteq> []" using n by (auto simp: as_def bs_def)
  have e: "last as = xs ! n" using n by (simp add: as_def take_Suc_conv_app_nth)
  note cut = sll_cut [OF assms(1) [unfolded xs] ne, unfolded e]
  have d: "distinct (as @ bs)" using sll_distinct [OF assms(1)] xs by simp
  have las: "xs ! n \<in> set as" using e ne last_in_set by metis
  then have nb: "xs ! n \<notin> set bs" "xs ! n \<notin> set ys" using d assms(3) xs by auto
  let ?m1 = "m(xs ! n := 0)"
  have pop: "SLL_PopRange src N m = Some (m (xs ! n), src, xs ! n, ?m1)"
    using SLL_walk_nth [OF assms(1) n(2)] cut assms(4)
    by (simp add: SLL_PopRange_def n(3) SLL_Next_def SLL_SetNext_def)
  have src: "src \<noteq> 0" using assms(1) n(2) by (metis length_pos_if_in_set nth_mem set_empty empty_iff sll_null)
  have push: "SLL_PushRange dst src (xs ! n) ?m1 = Some (src, ?m1(xs ! n := dst))"
    using src cut by (simp add: SLL_PushRange_def SLL_SetNext_def)
  have "sll ?m1 (m (xs ! n)) bs" "sll ?m1 dst ys" using cut nb assms(2) by simp_all
  moreover from this have "sll (?m1(xs ! n := dst)) (m (xs ! n)) bs" using nb by simp
  moreover have "sll (?m1(xs ! n := dst)) src (as @ ys)"
    using sll_append [of ?m1 src as dst ys] cut ne e nb assms(2) by simp
  ultimately show ?thesis
    using pop push cut by (intro exI conjI) (auto simp: n as_def bs_def)
qed

theorem SLL_range_transfer_witness:
  "\<exists>m2. SLL_PushRange 40 8 16 ((\<lambda>_. 0)(8 := 16, 16 := 0)) = Some (8, m2) \<and> sll m2 8 [8, 16, 40]"
proof -
  let ?m = "(\<lambda>_. 0 :: nat)(8 := 16, 16 := 24)"
  have "sll ?m 8 [8, 16, 24]" "sll ?m 40 [40]" by simp_all
  from SLL_range_transfer [OF this, of 2] obtain src' s e m1 m2 dst' where
    r: "SLL_PopRange 8 2 ?m = Some (src', s, e, m1)"
      "SLL_PushRange 40 s e m1 = Some (dst', m2)" "sll m2 dst' [8, 16, 40]"
    by (auto simp: eval_nat_numeral)
  from r(1) have "s = 8" "e = 16" "m1 = (\<lambda>_. 0)(8 := 16, 16 := 0)"
    by (auto simp: SLL_PopRange_def SLL_Next_def SLL_SetNext_def)
  moreover from this r(2) have "dst' = 8" by (simp add: SLL_PushRange_def SLL_SetNext_def)
  ultimately show ?thesis using r(2,3) by auto
qed

text \<open>C28 A push and a pop are inverse, and the size is the number of objects: pushing an object
  that is not on the list makes it the head, \<open>SLL_Size\<close> counts one more, and the next
  \<open>SLL_TryPop\<close> returns that object and restores the head and the list.\<close>

theorem SLL_Push_TryPop:
  assumes "sll m p xs" and "a \<noteq> 0" and "a \<notin> set xs"
  shows "\<exists>m'. SLL_Push p a m = Some (a, m') \<and> sll m' a (a # xs) \<and> sll m' p xs
    \<and> SLL_Size m' a = Some (length xs + 1)
    \<and> SLL_TryPop a m' = Some (p, Some a) \<and> SLL_Pop a m' = Some (p, a)"
proof -
  let ?m = "m(a := p)"
  have 1: "sll ?m p xs" using assms by (simp del: fun_upd_apply)
  then have 2: "sll ?m a (a # xs)" using assms by (simp add: fun_upd_same del: fun_upd_apply)
  have "SLL_Size ?m a = Some (length xs + 1)"
    using SLL_count_length [OF 2, of 0] by (simp add: SLL_Size_def)
  with 1 2 show ?thesis
    using assms(2)
    by (intro exI [of _ ?m])
      (simp add: SLL_Push_def SLL_SetNext_def SLL_TryPop_def SLL_Pop_def SLL_Next_def)
qed

theorem SLL_Push_TryPop_witness:
  "\<exists>m'. SLL_Push 8 64 (\<lambda>_. 0) = Some (64, m') \<and> SLL_Size m' 64 = Some 2
     \<and> SLL_TryPop 64 m' = Some (8, Some 64)"
proof -
  have "sll (\<lambda>_. 0) 8 [8]" "(64 :: nat) \<noteq> 0" "64 \<notin> set [8 :: nat]" by simp_all
  from SLL_Push_TryPop [OF this] show ?thesis by auto
qed

end
