(* ===== verification/CentralFreeList.thy ===== *)
theory CentralFreeList
  imports PageHeapReach SizeClasses "HOL-Library.Signed_Division"
begin

text \<open>
  The central free lists, one per size class: \<^verbatim>\<open>central_freelist.h\<close> and \<^verbatim>\<open>central_freelist.cc\<close>.
  A chain of free objects is the list of their addresses, in the order of the links, and the two
  lists of spans are lists of span addresses; the pointer structures behind both are treated in
  the theories of linked lists and of spans. Operations run with the locks that they take; a
  null pointer that is followed, a division by zero and an abort are \<^term>\<open>None\<close>.
\<close>

definition kMaxNumTransferEntries :: int where
  "kMaxNumTransferEntries = 64"

record central_freelist =
  size_class :: nat
  empty_spans :: "nat list"
  nonempty_spans :: "nat list"
  num_spans :: nat
  counter :: nat
  tc_slots :: "nat \<Rightarrow> nat list"
  used_slots :: int
  cache_size :: int
  max_cache_size :: int

text \<open>The static variables that the operations share; \<open>race_counter\<close> belongs to \<open>EvictRandomSizeClass\<close>.\<close>

record 'o central =
  pageheap :: "'o page_heap"
  size_map :: sizemap
  central_cache :: "nat \<Rightarrow> central_freelist"
  race_counter :: nat

definition CentralFreeList_Init :: "sizemap \<Rightarrow> nat \<Rightarrow> central_freelist \<Rightarrow> central_freelist option" where
  "CentralFreeList_Init sm cl c = do {
     let c = c\<lparr>size_class := cl, empty_spans := [], nonempty_spans := [], num_spans := 0, counter := 0,
               max_cache_size := kMaxNumTransferEntries, cache_size := 16\<rparr>;
     c \<leftarrow> (if 0 < cl then do {
            let bytes = i32 (int (ByteSizeForClass sm cl));
            let objs_to_move = num_objects_to_move sm cl;
            let product = i32 (bytes * objs_to_move);
            if product = 0 then None
            else do {
              let c = c\<lparr>max_cache_size := min (max_cache_size c) (max 1 (1024 * 1024 sdiv product))\<rparr>;
              Some (c\<lparr>cache_size := min (cache_size c) (max_cache_size c)\<rparr>) } }
          else Some c);
     Some (c\<lparr>used_slots := 0\<rparr>) }"

definition upd_cache :: "nat \<Rightarrow> (central_freelist \<Rightarrow> central_freelist) \<Rightarrow> 'o central \<Rightarrow> 'o central" where
  "upd_cache cl f st = st\<lparr>central_cache := (central_cache st)(cl := f (central_cache st cl))\<rparr>"

definition central_upd_span :: "nat \<Rightarrow> (span \<Rightarrow> span) \<Rightarrow> 'o central \<Rightarrow> 'o central" where
  "central_upd_span s f st = st\<lparr>pageheap := upd_span s f (pageheap st)\<rparr>"

text \<open>A span is unlinked from whichever of the two lists it is on; \<open>refcount\<close> has 16 bits.\<close>

definition unlink_span :: "nat \<Rightarrow> central_freelist \<Rightarrow> central_freelist" where
  "unlink_span s c = c\<lparr>empty_spans := remove1 s (empty_spans c), nonempty_spans := remove1 s (nonempty_spans c)\<rparr>"

definition ReleaseToSpans :: "'o env \<Rightarrow> nat \<Rightarrow> nat \<Rightarrow> 'o central \<Rightarrow> 'o central option" where
  "ReleaseToSpans E cl object st = do {
     s \<leftarrow> GetDescriptor (object div 2 ^ kPageShift) (pageheap st);
     let st = (if objects (spans (pageheap st) s) = []
               then upd_cache cl (\<lambda>c. (unlink_span s c)\<lparr>nonempty_spans := s # nonempty_spans (unlink_span s c)\<rparr>) st
               else st);
     let st = upd_cache cl (\<lambda>c. c\<lparr>counter := add64 (counter c) 1\<rparr>) st;
     let st = central_upd_span s (\<lambda>x. x\<lparr>refcount := (refcount x + 2 ^ 16 - 1) mod 2 ^ 16\<rparr>) st;
     let x = spans (pageheap st) s;
     if refcount x = 0 then do {
       let sz = ByteSizeForClass (size_map st) (sizeclass x);
       if sz = 0 then None
       else do {
         let st = upd_cache cl (\<lambda>c. c\<lparr>counter := sub64 (counter c) (page_bytes (slength x) div sz)\<rparr>) st;
         let st = upd_cache cl (\<lambda>c. (unlink_span s c)\<lparr>num_spans := sub64 (num_spans c) 1\<rparr>) st;
         h \<leftarrow> Delete E s (pageheap st);
         Some (st\<lparr>pageheap := h\<rparr>) } }
     else Some (central_upd_span s (\<lambda>x. x\<lparr>objects := object # objects x\<rparr>) st) }"

primrec ReleaseListToSpans :: "'o env \<Rightarrow> nat \<Rightarrow> nat list \<Rightarrow> 'o central \<Rightarrow> 'o central option" where
  "ReleaseListToSpans E cl [] st = Some st"
| "ReleaseListToSpans E cl (x # xs) st = do {
     st \<leftarrow> ReleaseToSpans E cl x st;
     ReleaseListToSpans E cl xs st }"

definition ShrinkCache :: "'o env \<Rightarrow> nat \<Rightarrow> bool \<Rightarrow> 'o central \<Rightarrow> (bool \<times> 'o central) option" where
  "ShrinkCache E cl force st =
     (let c = central_cache st cl
      in if cache_size c = 0 then Some (False, st)
         else if \<not> force \<and> used_slots c = cache_size c then Some (False, st)
         else if used_slots c = cache_size c then do {
           let st = upd_cache cl (\<lambda>c. c\<lparr>cache_size := cache_size c - 1, used_slots := used_slots c - 1\<rparr>) st;
           st \<leftarrow> ReleaseListToSpans E cl (tc_slots c (nat (used_slots c - 1))) st;
           Some (True, st) }
         else Some (True, upd_cache cl (\<lambda>c. c\<lparr>cache_size := cache_size c - 1\<rparr>) st))"

text \<open>The loop that subtracts the number of classes until the counter is below it is a remainder.\<close>

definition EvictRandomSizeClass :: "'o env \<Rightarrow> nat \<Rightarrow> bool \<Rightarrow> 'o central \<Rightarrow> (bool \<times> 'o central) option" where
  "EvictRandomSizeClass E locked_size_class force st = do {
     let t = race_counter st;
     let n = num_size_classes (size_map st);
     if n = 0 then None
     else do {
       let st = st\<lparr>race_counter := (if n \<le> t then t mod n else t + 1)\<rparr>;
       let t = t mod n;
       if t = locked_size_class then Some (False, st) else ShrinkCache E t force st } }"

definition MakeCacheSpace :: "'o env \<Rightarrow> nat \<Rightarrow> 'o central \<Rightarrow> (bool \<times> 'o central) option" where
  "MakeCacheSpace E cl st =
     (let c = central_cache st cl
      in if used_slots c < cache_size c then Some (True, st)
         else if cache_size c = max_cache_size c then Some (False, st)
         else do {
           (evicted, st) \<leftarrow> EvictRandomSizeClass E (size_class c) False st;
           (evicted, st) \<leftarrow> (if evicted then Some (True, st) else EvictRandomSizeClass E (size_class c) True st);
           if evicted \<and> cache_size (central_cache st cl) < max_cache_size (central_cache st cl)
           then Some (True, upd_cache cl (\<lambda>c. c\<lparr>cache_size := cache_size c + 1\<rparr>) st)
           else Some (False, st) })"

definition InsertRange :: "'o env \<Rightarrow> nat \<Rightarrow> nat list \<Rightarrow> int \<Rightarrow> 'o central \<Rightarrow> 'o central option" where
  "InsertRange E cl chain N st = do {
     (room, st) \<leftarrow> (if N = num_objects_to_move (size_map st) (size_class (central_cache st cl))
                    then MakeCacheSpace E cl st else Some (False, st));
     if room then do {
       let slot = nat (used_slots (central_cache st cl));
       Some (upd_cache cl (\<lambda>c. c\<lparr>used_slots := used_slots c + 1, tc_slots := (tc_slots c)(slot := chain)\<rparr>) st) }
     else ReleaseListToSpans E cl chain st }"

text \<open>
  The loop \<open>do ... while (++result < N && curr != nullptr)\<close> of \<open>FetchFromOneSpans\<close>: it takes one object in
  any case.
\<close>

fun fetch_objects :: "int \<Rightarrow> nat list \<Rightarrow> nat list \<times> nat list" where
  "fetch_objects N [] = ([], [])"
| "fetch_objects N (x # xs) =
     (if 1 < N \<and> xs \<noteq> [] then (let (taken, rest) = fetch_objects (N - 1) xs in (x # taken, rest))
      else ([x], xs))"

definition FetchFromOneSpans :: "nat \<Rightarrow> int \<Rightarrow> 'o central \<Rightarrow> (nat list \<times> 'o central) option" where
  "FetchFromOneSpans cl N st =
     (case nonempty_spans (central_cache st cl) of
        [] \<Rightarrow> Some ([], st)
      | s # _ \<Rightarrow>
          if objects (spans (pageheap st) s) = [] then None
          else do {
            let (taken, rest) = fetch_objects N (objects (spans (pageheap st) s));
            let st = (if rest = []
                      then upd_cache cl (\<lambda>c. (unlink_span s c)\<lparr>empty_spans := s # empty_spans (unlink_span s c)\<rparr>) st
                      else st);
            let st = central_upd_span s (\<lambda>x. x\<lparr>objects := rest, refcount := (refcount x + length taken) mod 2 ^ 16\<rparr>) st;
            Some (taken, upd_cache cl (\<lambda>c. c\<lparr>counter := sub64 (counter c) (length taken)\<rparr>) st) })"

text \<open>The loop that splits a span into objects: \<open>ptr + size\<close> may wrap.\<close>

partial_function (option) split_span :: "nat \<Rightarrow> nat \<Rightarrow> nat \<Rightarrow> nat list option" where
  "split_span sz limit ptr =
     (let nextptr = add64 ptr sz
      in if nextptr < ptr \<or> limit < nextptr then Some []
         else do { xs \<leftarrow> split_span sz limit nextptr; Some (ptr # xs) })"

definition cache_pages :: "nat \<Rightarrow> nat \<Rightarrow> nat \<Rightarrow> 'o page_heap \<Rightarrow> 'o page_heap" where
  "cache_pages first n cl h = fold (\<lambda>i. SetCachedSizeClass (first + i) cl) [0..<n] h"

definition Populate :: "'o env \<Rightarrow> nat \<Rightarrow> 'o central \<Rightarrow> 'o central option" where
  "Populate E cl st = do {
     let sc = size_class (central_cache st cl);
     let npages = class_to_pages (size_map st) sc;
     (s, h) \<leftarrow> NewWithSizeClass E npages sc (pageheap st);
     let st = st\<lparr>pageheap := h\<rparr>;
     if s = 0 then Some st
     else do {
       let st = st\<lparr>pageheap := cache_pages (start (spans h s)) npages sc h\<rparr>;
       let ptr = page_bytes (start (spans h s));
       let limit = add64 ptr (page_bytes npages);
       objs \<leftarrow> split_span (ByteSizeForClass (size_map st) sc) limit ptr;
       let st = central_upd_span s (\<lambda>x. x\<lparr>objects := objs, refcount := 0\<rparr>) st;
       Some (upd_cache cl (\<lambda>c. c\<lparr>nonempty_spans := s # nonempty_spans c, num_spans := add64 (num_spans c) 1,
                                 counter := add64 (counter c) (length objs)\<rparr>) st) } }"

definition FetchFromOneSpansSafe :: "'o env \<Rightarrow> nat \<Rightarrow> int \<Rightarrow> 'o central \<Rightarrow> (nat list \<times> 'o central) option" where
  "FetchFromOneSpansSafe E cl N st = do {
     (chain, st) \<leftarrow> FetchFromOneSpans cl N st;
     if chain = [] then do {
       st \<leftarrow> Populate E cl st;
       FetchFromOneSpans cl N st }
     else Some (chain, st) }"

function remove_loop :: "nat \<Rightarrow> int \<Rightarrow> nat list \<Rightarrow> 'o central \<Rightarrow> (nat list \<times> 'o central) option" where
  "remove_loop cl N chain st =
     (if int (length chain) < N then
        (case FetchFromOneSpans cl (N - int (length chain)) st of
           None \<Rightarrow> None
         | Some (taken, st) \<Rightarrow> if taken = [] then Some (chain, st) else remove_loop cl N (taken @ chain) st)
      else Some (chain, st))"
  by pat_completeness auto
termination
  by (relation "measure (\<lambda>(cl, N, chain, st). nat (N - int (length chain)))") (auto simp: neq_Nil_conv)

declare remove_loop.simps [simp del]

text \<open>The result is the number of objects, with the chain.\<close>

definition RemoveRange :: "'o env \<Rightarrow> nat \<Rightarrow> int \<Rightarrow> 'o central \<Rightarrow> (int \<times> nat list \<times> 'o central) option" where
  "RemoveRange E cl N st = do {
     let c = central_cache st cl;
     if N = num_objects_to_move (size_map st) (size_class c) \<and> 0 < used_slots c
     then Some (N, tc_slots c (nat (used_slots c - 1)), upd_cache cl (\<lambda>c. c\<lparr>used_slots := used_slots c - 1\<rparr>) st)
     else do {
       (chain, st) \<leftarrow> FetchFromOneSpansSafe E cl N st;
       if chain = [] then Some (0, [], st)
       else do {
         (chain, st) \<leftarrow> remove_loop cl N chain st;
         Some (int (length chain), chain, st) } } }"

text \<open>\<open>length\<close> returns the 64-bit counter as an \<open>int\<close>.\<close>

definition central_length :: "nat \<Rightarrow> 'o central \<Rightarrow> int" where
  "central_length cl st = int32_of (counter (central_cache st cl))"

definition tc_length :: "nat \<Rightarrow> 'o central \<Rightarrow> int" where
  "tc_length cl st = used_slots (central_cache st cl) * num_objects_to_move (size_map st) (size_class (central_cache st cl))"

definition OverheadBytes :: "nat \<Rightarrow> 'o central \<Rightarrow> nat option" where
  "OverheadBytes cl st =
     (let c = central_cache st cl; sm = size_map st
      in if size_class c = 0 then Some 0
         else if class_to_size sm (size_class c) = 0 then None
         else Some (mul64 (num_spans c) ((mul64 (class_to_pages sm (size_class c)) kPageSize) mod class_to_size sm (size_class c))))"

end
