(* ===== verification/CentralInv.thy ===== *)
theory CentralInv
  imports CentralFreeList
begin

text \<open>
  The invariant of the central free lists, and that every operation keeps it. The objects of a
  size class are the slots of its spans. Each slot is free in its span, in the transfer cache, or
  outstanding: with a thread cache or a client.
\<close>

subsection \<open>Slots\<close>

definition nslots :: "sizemap \<Rightarrow> nat \<Rightarrow> nat" where
  "nslots sm cl = class_to_pages sm cl * 2 ^ kPageShift div class_to_size sm cl"

definition slots :: "sizemap \<Rightarrow> nat \<Rightarrow> span \<Rightarrow> nat set" where
  "slots sm cl x = (\<lambda>k. start x * 2 ^ kPageShift + k * class_to_size sm cl) ` {..<nslots sm cl}"

text \<open>What the central lists need of the size classes.\<close>

definition class_sizes_ok :: "sizemap \<Rightarrow> nat \<Rightarrow> bool" where
  "class_sizes_ok sm cl \<longleftrightarrow> 0 < class_to_size sm cl \<and> class_to_size sm cl \<le> kMaxSize \<and> 0 < nslots sm cl \<and> nslots sm cl < 2 ^ 16
     \<and> 0 < num_objects_to_move sm cl \<and> num_objects_to_move sm cl \<le> 8192 \<and> 0 < class_to_pages sm cl \<and> class_to_pages sm cl < 2 ^ 35
     \<and> min_span_size_in_pages sm dvd class_to_pages sm cl"

definition sizes_ok :: "sizemap \<Rightarrow> bool" where
  "sizes_ok sm \<longleftrightarrow> 1 < num_size_classes sm \<and> num_size_classes sm \<le> 128
     \<and> (\<forall>cl. 0 < cl \<and> cl < num_size_classes sm \<longrightarrow> class_sizes_ok sm cl)"

lemma sizes_okD: "sizes_ok sm \<Longrightarrow> 0 < cl \<Longrightarrow> cl < num_size_classes sm \<Longrightarrow> class_sizes_ok sm cl"
  by (simp add: sizes_ok_def)

lemma card_slots: "0 < class_to_size sm cl \<Longrightarrow> card (slots sm cl x) = nslots sm cl"
  unfolding slots_def by (subst card_image) (auto simp: inj_on_def)

lemma finite_slots [simp]: "finite (slots sm cl x)"
  by (simp add: slots_def)

lemma slot_bytes:
  assumes "y \<in> slots sm cl x" and "slength x = class_to_pages sm cl" and "0 < class_to_size sm cl"
  shows "start x * 2 ^ kPageShift \<le> y" and "y + class_to_size sm cl \<le> (start x + slength x) * 2 ^ kPageShift"
proof -
  obtain k where k: "k < nslots sm cl" "y = start x * 2 ^ kPageShift + k * class_to_size sm cl"
    using assms(1) by (auto simp: slots_def)
  then show "start x * 2 ^ kPageShift \<le> y" by simp
  have "Suc k * class_to_size sm cl \<le> nslots sm cl * class_to_size sm cl" using k(1) by (intro mult_right_mono) auto
  also have "\<dots> \<le> class_to_pages sm cl * 2 ^ kPageShift" unfolding nslots_def by (rule div_times_less_eq_dividend)
  finally show "y + class_to_size sm cl \<le> (start x + slength x) * 2 ^ kPageShift"
    by (simp add: k(2) assms(2) add_mult_distrib)
qed

lemma slot_page:
  assumes "y \<in> slots sm cl x" and "slength x = class_to_pages sm cl" and "0 < class_to_size sm cl"
  shows "y div 2 ^ kPageShift \<in> extent x"
proof -
  note b = slot_bytes [OF assms]
  have "y < (start x + slength x) * 2 ^ kPageShift" using b(2) assms(3) by linarith
  then show ?thesis using b(1) by (simp add: less_mult_imp_div_less less_eq_div_iff_mult_less_eq)
qed

subsection \<open>The invariant\<close>

definition spans_of :: "central_freelist \<Rightarrow> nat list" where
  "spans_of c = nonempty_spans c @ empty_spans c"

lemma spans_of_cong [simp]:
  "spans_of (c\<lparr>counter := x\<rparr>) = spans_of c" "spans_of (c\<lparr>num_spans := y\<rparr>) = spans_of c"
  "spans_of (c\<lparr>tc_slots := z\<rparr>) = spans_of c" "spans_of (c\<lparr>used_slots := u\<rparr>) = spans_of c"
  "spans_of (c\<lparr>cache_size := v\<rparr>) = spans_of c"
  by (simp_all add: spans_of_def)

definition span_ok :: "sizemap \<Rightarrow> nat set \<Rightarrow> 'o page_heap \<Rightarrow> nat \<Rightarrow> nat \<Rightarrow> bool" where
  "span_ok sm H h cl s \<longleftrightarrow> s \<in> H \<and> sizeclass (spans h s) = cl \<and> slength (spans h s) = class_to_pages sm cl
     \<and> distinct (objects (spans h s)) \<and> set (objects (spans h s)) \<subseteq> slots sm cl (spans h s)
     \<and> refcount (spans h s) + length (objects (spans h s)) = nslots sm cl
     \<and> (\<forall>p \<in> extent (spans h s). GetDescriptor p h = Some s)"

definition lists_ok :: "sizemap \<Rightarrow> nat set \<Rightarrow> 'o page_heap \<Rightarrow> nat \<Rightarrow> central_freelist \<Rightarrow> bool" where
  "lists_ok sm H h cl c \<longleftrightarrow> size_class c = cl \<and> distinct (spans_of c)
     \<and> (\<forall>s \<in> set (spans_of c). span_ok sm H h cl s)
     \<and> (\<forall>s \<in> set (nonempty_spans c). objects (spans h s) \<noteq> []) \<and> (\<forall>s \<in> set (empty_spans c). objects (spans h s) = [])
     \<and> num_spans c = length (spans_of c) \<and> counter c = (\<Sum>s \<in> set (spans_of c). length (objects (spans h s)))"

text \<open>The slots that are not free in their spans, and the ones in the transfer cache.\<close>

definition taken_slots :: "sizemap \<Rightarrow> 'o page_heap \<Rightarrow> nat \<Rightarrow> central_freelist \<Rightarrow> nat set" where
  "taken_slots sm h cl c = (\<Union>s \<in> set (spans_of c). slots sm cl (spans h s) - set (objects (spans h s)))"

definition tc_objects :: "central_freelist \<Rightarrow> nat list" where
  "tc_objects c = concat (map (tc_slots c) [0..<nat (used_slots c)])"

definition tc_ok :: "sizemap \<Rightarrow> nat \<Rightarrow> nat set \<Rightarrow> central_freelist \<Rightarrow> bool" where
  "tc_ok sm cl A c \<longleftrightarrow> 0 \<le> used_slots c \<and> used_slots c \<le> cache_size c \<and> cache_size c \<le> max_cache_size c
     \<and> max_cache_size c \<le> kMaxNumTransferEntries
     \<and> distinct (tc_objects c) \<and> set (tc_objects c) \<subseteq> A
     \<and> (\<forall>i < nat (used_slots c). int (length (tc_slots c i)) = num_objects_to_move sm cl)
     \<and> (cl = 0 \<longrightarrow> used_slots c = 0)"

definition outstanding :: "'o central \<Rightarrow> nat \<Rightarrow> nat set" where
  "outstanding st cl = taken_slots (size_map st) (pageheap st) cl (central_cache st cl) - set (tc_objects (central_cache st cl))"

text \<open>
  A cached size class is never wrong: for each span in use that has a size class it may be asked
  for any page, for the others only for the first.
\<close>

definition cache_ok :: "nat set \<Rightarrow> 'o page_heap \<Rightarrow> bool" where
  "cache_ok H h \<longleftrightarrow> (\<forall>s\<in>H. \<forall>p \<in> extent (spans h s). sizeclass (spans h s) \<noteq> 0 \<or> p = start (spans h s) \<longrightarrow>
     (\<forall>k. TryGetSizeClass p h = Some k \<longrightarrow> k = sizeclass (spans h s) \<and> k \<noteq> 0))"

definition central_ok :: "'o env \<Rightarrow> ('o \<Rightarrow> nat set) \<Rightarrow> bool \<Rightarrow> nat set \<Rightarrow> 'o central \<Rightarrow> bool" where
  "central_ok E mapped a H st \<longleftrightarrow> heap_holds E mapped a H (pageheap st) \<and> sizes_ok (size_map st)
     \<and> smallest_span_size (pageheap st) = min_span_size_in_pages (size_map st) \<and> cache_ok H (pageheap st)
     \<and> spans_of (central_cache st 0) = []
     \<and> (\<forall>cl < num_size_classes (size_map st).
          lists_ok (size_map st) H (pageheap st) cl (central_cache st cl)
        \<and> tc_ok (size_map st) cl (taken_slots (size_map st) (pageheap st) cl (central_cache st cl)) (central_cache st cl))"

definition class_spans :: "'o central \<Rightarrow> nat set" where
  "class_spans st = (\<Union>cl < num_size_classes (size_map st). set (spans_of (central_cache st cl)))"

text \<open>
  What an operation of the central lists may change: the spans of the classes, and the sets of
  outstanding objects as \<open>out\<close> tells.
\<close>

definition central_to ::
  "'o env \<Rightarrow> ('o \<Rightarrow> nat set) \<Rightarrow> bool \<Rightarrow> nat set \<Rightarrow> 'o central \<Rightarrow> (nat \<Rightarrow> nat set) \<Rightarrow> nat set \<Rightarrow> 'o central \<Rightarrow> bool" where
  "central_to E mapped a H st out H' st' \<longleftrightarrow> central_ok E mapped a H' st' \<and> size_map st' = size_map st
     \<and> H' - class_spans st' = H - class_spans st
     \<and> untouched (H - class_spans st) (pageheap st) (pageheap st')
     \<and> (\<forall>cl < num_size_classes (size_map st). outstanding st' cl = out cl)"

subsection \<open>What a change to one class leaves alone\<close>

lemma untouched_mono: "untouched K h h' \<Longrightarrow> L \<subseteq> K \<Longrightarrow> untouched L h h'"
  by (auto simp: untouched_def)

lemma untouched_refl [simp]: "untouched K h h"
  by (simp add: untouched_def)

lemma untouched_trans: "untouched K h h1 \<Longrightarrow> untouched K h1 h2 \<Longrightarrow> untouched K h h2"
  by (simp add: untouched_def)

lemma lists_ok_frame:
  assumes "lists_ok sm H h cl c" and "set (spans_of c) \<subseteq> H'" and "untouched (set (spans_of c)) h h'"
  shows "lists_ok sm H' h' cl c" and "taken_slots sm h' cl c = taken_slots sm h cl c"
proof -
  have u: "spans h' s = spans h s" "p \<in> extent (spans h s) \<Longrightarrow> GetDescriptor p h' = GetDescriptor p h"
    if "s \<in> set (spans_of c)" for s p using assms(3) that by (auto simp: untouched_def)
  have "span_ok sm H' h' cl s" if "s \<in> set (spans_of c)" for s
    using assms(1,2) that u by (auto simp: lists_ok_def span_ok_def)
  moreover have "(\<Sum>s \<in> set (spans_of c). length (objects (spans h' s))) = (\<Sum>s \<in> set (spans_of c). length (objects (spans h s)))"
    by (rule sum.cong) (use u(1) in simp_all)
  moreover have "spans h' s = spans h s" if "s \<in> set (nonempty_spans c) \<or> s \<in> set (empty_spans c)" for s
    using u(1) that by (auto simp: spans_of_def)
  ultimately show "lists_ok sm H' h' cl c" using assms(1) unfolding lists_ok_def by simp
  show "taken_slots sm h' cl c = taken_slots sm h cl c" unfolding taken_slots_def using u(1) by simp
qed

lemma central_okD:
  assumes "central_ok E mapped a H st"
  shows "heap_holds E mapped a H (pageheap st)" and "sizes_ok (size_map st)"
    and "smallest_span_size (pageheap st) = min_span_size_in_pages (size_map st)" and "cache_ok H (pageheap st)"
    and "spans_of (central_cache st 0) = []"
    and "cl < num_size_classes (size_map st) \<Longrightarrow> lists_ok (size_map st) H (pageheap st) cl (central_cache st cl)"
    and "cl < num_size_classes (size_map st) \<Longrightarrow>
      tc_ok (size_map st) cl (taken_slots (size_map st) (pageheap st) cl (central_cache st cl)) (central_cache st cl)"
  using assms by (simp_all add: central_ok_def)

lemma lists_okD:
  assumes "lists_ok sm H h cl c" and "s \<in> set (spans_of c)"
  shows "s \<in> H" and "sizeclass (spans h s) = cl" and "slength (spans h s) = class_to_pages sm cl"
    and "distinct (objects (spans h s))" and "set (objects (spans h s)) \<subseteq> slots sm cl (spans h s)"
    and "refcount (spans h s) + length (objects (spans h s)) = nslots sm cl"
    and "p \<in> extent (spans h s) \<Longrightarrow> GetDescriptor p h = Some s"
  using assms unfolding lists_ok_def span_ok_def by blast+

lemma class_spans_apart:
  assumes "lists_ok sm H h cl c" and "lists_ok sm H h d c'" and "cl \<noteq> d"
  shows "set (spans_of c) \<inter> set (spans_of c') = {}"
  using lists_okD(2) [OF assms(1)] lists_okD(2) [OF assms(2)] assms(3) by (metis disjoint_iff)

lemma central_update:
  assumes ok: "central_ok E mapped a H st" and cl: "cl = 0 \<Longrightarrow> spans_of c' = []" "cl < num_size_classes (size_map st)"
    and st': "size_map st' = size_map st" "central_cache st' = (central_cache st)(cl := c')"
    and heap: "heap_holds E mapped a H' (pageheap st')" "cache_ok H' (pageheap st')"
      "smallest_span_size (pageheap st') = smallest_span_size (pageheap st)"
    and H': "H' - set (spans_of c') = H - set (spans_of (central_cache st cl))"
    and unt: "untouched (H - set (spans_of (central_cache st cl))) (pageheap st) (pageheap st')"
    and new: "lists_ok (size_map st) H' (pageheap st') cl c'"
      "tc_ok (size_map st) cl (taken_slots (size_map st) (pageheap st') cl c') c'"
  shows "central_to E mapped a H st
    ((outstanding st)(cl := taken_slots (size_map st) (pageheap st') cl c' - set (tc_objects c'))) H' st'"
proof -
  let ?S = "\<lambda>d. set (spans_of (central_cache st d))" and ?n = "num_size_classes (size_map st)"
  note d = central_okD [OF ok]
  have other: "?S d \<subseteq> H - ?S cl" if "d < ?n" "d \<noteq> cl" for d
    using class_spans_apart [OF d(6) [OF that(1)] d(6) [OF cl(2)] that(2)] lists_okD(1) [OF d(6) [OF that(1)]] by blast
  have frame: "lists_ok (size_map st) H' (pageheap st') d (central_cache st d)"
    "taken_slots (size_map st) (pageheap st') d (central_cache st d) = taken_slots (size_map st) (pageheap st) d (central_cache st d)"
    if "d < ?n" "d \<noteq> cl" for d
  proof -
    have s: "?S d \<subseteq> H'" using other [OF that] H' by blast
    note lists_ok_frame [OF d(6) [OF that(1)] s untouched_mono [OF unt other [OF that]]]
    then show "lists_ok (size_map st) H' (pageheap st') d (central_cache st d)"
      "taken_slots (size_map st) (pageheap st') d (central_cache st d) = taken_slots (size_map st) (pageheap st) d (central_cache st d)"
      by blast+
  qed
  have "central_ok E mapped a H' st'"
    using heap d(2,3,5) new frame d(7) st' cl by (auto simp: central_ok_def)
  moreover have "H' - class_spans st' = H - class_spans st"
  proof -
    let ?O = "\<Union>d \<in> {..<?n} - {cl}. ?S d"
    have "class_spans st' = ?O \<union> set (spans_of c')" "class_spans st = ?O \<union> ?S cl"
      unfolding class_spans_def st' using cl(2) by (auto split: if_splits)
    then show ?thesis using H' by blast
  qed
  moreover have "untouched (H - class_spans st) (pageheap st) (pageheap st')"
    by (rule untouched_mono [OF unt]) (use cl(2) in \<open>auto simp: class_spans_def\<close>)
  moreover have "outstanding st' d = ((outstanding st)(cl := taken_slots (size_map st) (pageheap st') cl c' - set (tc_objects c'))) d"
    if "d < ?n" for d using frame(2) [OF that] by (simp add: outstanding_def st')
  ultimately show ?thesis using st'(1) by (simp add: central_to_def)
qed

lemma central_to_trans:
  assumes "central_to E mapped a H st out H1 st1" and "central_to E mapped a H1 st1 out' H2 st2"
  shows "central_to E mapped a H st out' H2 st2"
  using assms untouched_trans unfolding central_to_def by metis

lemma cache_ok_frame:
  assumes "cache_ok H h" and "H' \<subseteq> H" and "pagemap_cache h' = pagemap_cache h"
    and "\<And>s. s \<in> H' \<Longrightarrow> start (spans h' s) = start (spans h s) \<and> slength (spans h' s) = slength (spans h s)
      \<and> sizeclass (spans h' s) = sizeclass (spans h s)"
  shows "cache_ok H' h'"
proof -
  have "TryGetSizeClass p h' = TryGetSizeClass p h" for p by (simp add: TryGetSizeClass_def assms(3))
  then show ?thesis using assms(1,2,4) by (auto simp: cache_ok_def)
qed

subsection \<open>Changing, dropping and adding a span of a class\<close>

lemma holds_card:
  assumes "heap_holds E mapped a H h"
  shows "card H \<le> 2 ^ 35"
proof -
  have "inj_on (\<lambda>s. start (spans h s)) H"
  proof (rule inj_onI)
    fix s t assume a: "s \<in> H" "t \<in> H" "start (spans h s) = start (spans h t)"
    have "0 < slength (spans h s)" "0 < slength (spans h t)"
      using holds_spans(2) [OF assms a(1)] holds_spans(2) [OF assms a(2)] by blast+
    then have "start (spans h s) \<in> extent (spans h s)" "start (spans h s) \<in> extent (spans h t)" using a(3) by auto
    then show "s = t" by (rule holds_spans(3) [OF assms a(1,2)])
  qed
  moreover have "start (spans h s) < 2 ^ 35" if "s \<in> H" for s
  proof -
    have "0 < slength (spans h s)" "start (spans h s) + slength (spans h s) \<le> 2 ^ 35"
      using holds_spans(2) [OF assms that] by blast+
    then show ?thesis by linarith
  qed
  then have "(\<lambda>s. start (spans h s)) ` H \<subseteq> {..<2 ^ 35}" by blast
  ultimately have "card H \<le> card {..<(2::nat) ^ 35}" by (rule card_inj_on_le) simp
  then show ?thesis by simp
qed

lemma lists_ok_bounds:
  assumes "heap_holds E mapped a H h" and l: "lists_ok sm H h cl c" and "nslots sm cl < 2 ^ 16"
  shows "num_spans c \<le> 2 ^ 35" and "counter c \<le> 2 ^ 51"
    and "s \<in> set (spans_of c) \<Longrightarrow> length (objects (spans h s)) \<le> counter c"
proof -
  have sub: "set (spans_of c) \<subseteq> H" using lists_okD(1) [OF l] by blast
  have c: "card (set (spans_of c)) \<le> 2 ^ 35"
    using card_mono [OF holds_spans(1) [OF assms(1)] sub] holds_card [OF assms(1)] by linarith
  have "num_spans c = card (set (spans_of c))" using l by (simp add: lists_ok_def distinct_card)
  then show "num_spans c \<le> 2 ^ 35" using c by simp
  have cn: "counter c = (\<Sum>s \<in> set (spans_of c). length (objects (spans h s)))" using l by (simp add: lists_ok_def)
  have "(\<Sum>s \<in> set (spans_of c). length (objects (spans h s))) \<le> (\<Sum>s \<in> set (spans_of c). 2 ^ 16)"
    by (rule sum_mono) (use lists_okD(6) [OF l] assms(3) in fastforce)
  also have "\<dots> \<le> 2 ^ 35 * 2 ^ 16" using c by simp
  finally show "counter c \<le> 2 ^ 51" unfolding cn by simp
  show "length (objects (spans h s)) \<le> counter c" if "s \<in> set (spans_of c)"
    unfolding cn by (rule member_le_sum [OF that]) simp_all
qed

lemma slots_disjoint:
  assumes h: "heap_holds E mapped a H h" and l: "lists_ok sm H h cl c" "lists_ok sm H h d c'"
    and s: "s \<in> set (spans_of c)" "t \<in> set (spans_of c')" "s \<noteq> t"
    and z: "0 < class_to_size sm cl" "0 < class_to_size sm d"
  shows "slots sm cl (spans h s) \<inter> slots sm d (spans h t) = {}"
proof (rule ccontr)
  assume "slots sm cl (spans h s) \<inter> slots sm d (spans h t) \<noteq> {}"
  then obtain x where "x \<in> slots sm cl (spans h s)" "x \<in> slots sm d (spans h t)" by blast
  then have "x div 2 ^ kPageShift \<in> extent (spans h s)" "x div 2 ^ kPageShift \<in> extent (spans h t)"
    using slot_page z lists_okD(3) [OF l(1) s(1)] lists_okD(3) [OF l(2) s(2)] by blast+
  then have "s = t" using holds_spans(3) [OF h] lists_okD(1) [OF l(1) s(1)] lists_okD(1) [OF l(2) s(2)] by blast
  then show False using s(3) by blast
qed

lemma lists_ok_change:
  assumes l: "lists_ok sm H h cl c" and s: "s \<in> set (spans_of c)"
    and h': "spans h' = (spans h)(s := y)" "pagemap h' = pagemap h"
    and y: "start y = start (spans h s)" "slength y = slength (spans h s)" "sizeclass y = cl" "distinct (objects y)"
      "set (objects y) \<subseteq> slots sm cl (spans h s)" "refcount y + length (objects y) = nslots sm cl"
    and c': "size_class c' = cl" "distinct (spans_of c')" "num_spans c' = num_spans c"
      "counter c' + length (objects (spans h s)) = counter c + length (objects y)"
      "set (nonempty_spans c') = {t \<in> set (spans_of c). objects (spans h' t) \<noteq> []}"
      "set (empty_spans c') = {t \<in> set (spans_of c). objects (spans h' t) = []}"
  shows "lists_ok sm H h' cl c'" and "set (spans_of c') = set (spans_of c)"
proof -
  let ?f = "\<lambda>h s. length (objects (spans h s))"
  show same: "set (spans_of c') = set (spans_of c)" using c'(5,6) by (auto simp: spans_of_def)
  have d: "distinct (spans_of c)" and n: "num_spans c = length (spans_of c)" and cn: "counter c = sum (?f h) (set (spans_of c))"
    using l by (simp_all add: lists_ok_def)
  have "length (spans_of c') = length (spans_of c)" using distinct_card [OF d] distinct_card [OF c'(2)] same by simp
  moreover have "span_ok sm H h' cl t" if "t \<in> set (spans_of c)" for t
    using lists_okD [OF l that] y by (auto simp: span_ok_def h' GetDescriptor_def slots_def)
  moreover have "counter c' = sum (?f h') (set (spans_of c))"
  proof -
    have a: "sum (?f h) (set (spans_of c)) = ?f h s + sum (?f h) (set (spans_of c) - {s})"
      by (rule sum.remove) (use s in simp_all)
    have b: "sum (?f h') (set (spans_of c)) = ?f h' s + sum (?f h') (set (spans_of c) - {s})"
      by (rule sum.remove) (use s in simp_all)
    have "sum (?f h') (set (spans_of c) - {s}) = sum (?f h) (set (spans_of c) - {s})"
      by (rule sum.cong) (auto simp: h')
    then show ?thesis using a b c'(4) cn by (simp add: h')
  qed
  ultimately show "lists_ok sm H h' cl c'"
    using c' n unfolding lists_ok_def same by simp
qed

lemma taken_change:
  assumes "set (spans_of c') = set (spans_of c)" and s: "s \<in> set (spans_of c)" and "spans h' = (spans h)(s := y)" "start y = start (spans h s)"
  shows "taken_slots sm h' cl c' = (\<Union>t \<in> set (spans_of c) - {s}. slots sm cl (spans h t) - set (objects (spans h t)))
      \<union> (slots sm cl (spans h s) - set (objects y))"
    and "taken_slots sm h cl c = (\<Union>t \<in> set (spans_of c) - {s}. slots sm cl (spans h t) - set (objects (spans h t)))
      \<union> (slots sm cl (spans h s) - set (objects (spans h s)))"
proof -
  have "slots sm cl y = slots sm cl (spans h s)" by (simp add: slots_def assms(4))
  then show "taken_slots sm h' cl c' = (\<Union>t \<in> set (spans_of c) - {s}. slots sm cl (spans h t) - set (objects (spans h t)))
      \<union> (slots sm cl (spans h s) - set (objects y))"
    using s unfolding taken_slots_def assms(1,3) by (auto split: if_splits)
qed (use s in \<open>auto simp: taken_slots_def\<close>)

lemma lists_ok_drop:
  assumes l: "lists_ok sm H h cl c" and s: "s \<in> set (spans_of c)" and unt: "untouched (H - {s}) h h'"
    and c': "size_class c' = cl" "nonempty_spans c' = remove1 s (nonempty_spans c)" "empty_spans c' = remove1 s (empty_spans c)"
      "num_spans c' = num_spans c - 1" "counter c' = counter c - length (objects (spans h s))"
  shows "lists_ok sm (H - {s}) h' cl c'" and "set (spans_of c') = set (spans_of c) - {s}"
    and "taken_slots sm h' cl c' = (\<Union>t \<in> set (spans_of c) - {s}. slots sm cl (spans h t) - set (objects (spans h t)))"
proof -
  have d: "distinct (spans_of c)" using l by (simp add: lists_ok_def)
  have r: "spans_of c' = remove1 s (spans_of c)"
    using d by (auto simp: spans_of_def c' remove1_append intro: remove1_idem)
  have set': "set (spans_of c') = set (spans_of c) - {s}" using d by (simp add: r set_remove1_eq)
  have u: "spans h' t = spans h t" "p \<in> extent (spans h t) \<Longrightarrow> GetDescriptor p h' = GetDescriptor p h"
    if "t \<in> set (spans_of c')" for t p
    using unt that lists_okD(1) [OF l, of t] by (auto simp: untouched_def set')
  have sp: "span_ok sm (H - {s}) h' cl t" if "t \<in> set (spans_of c')" for t
    using lists_okD [OF l, of t] u that by (auto simp: span_ok_def set')
  have "sum (\<lambda>s. length (objects (spans h' s))) (set (spans_of c')) = sum (\<lambda>s. length (objects (spans h s))) (set (spans_of c) - {s})"
    unfolding set' [symmetric] by (rule sum.cong) (use u(1) in auto)
  moreover have "counter c = length (objects (spans h s)) + sum (\<lambda>s. length (objects (spans h s))) (set (spans_of c) - {s})"
    using l s by (simp add: lists_ok_def sum.remove)
  moreover have "length (spans_of c') = length (spans_of c) - 1" using s by (simp add: r length_remove1)
  moreover have "set (nonempty_spans c') \<subseteq> set (nonempty_spans c)" "set (empty_spans c') \<subseteq> set (empty_spans c)"
    using set_remove1_subset [of s] by (auto simp: c')
  moreover have "spans h' t = spans h t" if "t \<in> set (nonempty_spans c') \<union> set (empty_spans c')" for t
    using u(1) that by (auto simp: spans_of_def)
  ultimately show "lists_ok sm (H - {s}) h' cl c'"
    using l sp c' distinct_remove1 [OF d, of s] unfolding lists_ok_def r [symmetric] by (auto simp: subset_iff)
  show "set (spans_of c') = set (spans_of c) - {s}" by (rule set')
  show "taken_slots sm h' cl c' = (\<Union>t \<in> set (spans_of c) - {s}. slots sm cl (spans h t) - set (objects (spans h t)))"
    using u(1) unfolding taken_slots_def set' [symmetric] by simp
qed

end
