(* ===== verification/CentralRelease.thy ===== *)
theory CentralRelease
  imports CentralInv
begin

text \<open>
  The operations of the central free lists keep the invariant; what each of them does to the set
  of outstanding objects.
\<close>

subsection \<open>Giving objects back to their spans\<close>

lemma outstanding_span:
  assumes "central_ok E mapped a H st" and "0 < cl" "cl < num_size_classes (size_map st)" and "x \<in> outstanding st cl"
  obtains s where "s \<in> set (spans_of (central_cache st cl))" "x \<in> slots (size_map st) cl (spans (pageheap st) s)"
    "x \<notin> set (objects (spans (pageheap st) s))" "GetDescriptor (x div 2 ^ kPageShift) (pageheap st) = Some s"
    "x \<notin> set (tc_objects (central_cache st cl))"
proof -
  obtain s where s: "s \<in> set (spans_of (central_cache st cl))" "x \<in> slots (size_map st) cl (spans (pageheap st) s)"
    "x \<notin> set (objects (spans (pageheap st) s))" "x \<notin> set (tc_objects (central_cache st cl))"
    using assms(4) by (auto simp: outstanding_def taken_slots_def)
  note l = lists_okD [OF central_okD(6) [OF assms(1,3)] s(1)]
  have "0 < class_to_size (size_map st) cl" using sizes_okD [OF central_okD(2) [OF assms(1)] assms(2,3)] by (simp add: class_sizes_ok_def)
  from l(7) [OF slot_page [OF s(2) l(3) this]] show ?thesis using that s by blast
qed

definition relinked :: "nat \<Rightarrow> span \<Rightarrow> central_freelist \<Rightarrow> central_freelist" where
  "relinked s y c = (if objects y = [] then (unlink_span s c)\<lparr>nonempty_spans := s # nonempty_spans (unlink_span s c)\<rparr> else c)"

lemma ReleaseToSpans_eq:
  assumes "GetDescriptor (x div 2 ^ kPageShift) (pageheap st) = Some s"
    and y: "y = spans (pageheap st) s" "0 < refcount y" "refcount y < 2 ^ 16" "0 < class_to_size (size_map st) (sizeclass y)"
  shows "ReleaseToSpans E cl x st = (if refcount y = 1 then do {
      h \<leftarrow> Delete E s (upd_span s (\<lambda>x. x\<lparr>refcount := 0\<rparr>) (pageheap st));
      Some (st\<lparr>central_cache := (central_cache st)(cl :=
        (unlink_span s ((relinked s y (central_cache st cl))\<lparr>counter := sub64 (add64 (counter (central_cache st cl)) 1)
            (page_bytes (slength y) div class_to_size (size_map st) (sizeclass y))\<rparr>))\<lparr>num_spans := sub64 (num_spans (central_cache st cl)) 1\<rparr>), pageheap := h\<rparr>) }
    else Some (st\<lparr>pageheap := upd_span s (\<lambda>z. z\<lparr>refcount := refcount y - 1, objects := x # objects y\<rparr>) (pageheap st),
       central_cache := (central_cache st)(cl :=
         (relinked s y (central_cache st cl))\<lparr>counter := add64 (counter (central_cache st cl)) 1\<rparr>)\<rparr>))"
proof -
  have r: "(65535 + refcount (spans (pageheap st) s)) mod 65536 = refcount (spans (pageheap st) s) - 1"
    using y by (simp add: mod_if)
  note sz = y(2,4) [unfolded y(1)]
  show ?thesis
    using sz unfolding y(1)
    by (cases "objects (spans (pageheap st) s) = []"; cases "refcount (spans (pageheap st) s) = 1")
      (simp_all add: ReleaseToSpans_def assms(1) [simplified] Let_def upd_cache_def central_upd_span_def relinked_def upd_span_def unlink_span_def
        ByteSizeForClass_def r)
qed

lemma relinked_lists:
  assumes l: "lists_ok sm H h cl c" and s: "s \<in> set (spans_of c)"
  shows "distinct (spans_of (relinked s (spans h s) c))"
    and "set (nonempty_spans (relinked s (spans h s) c)) = insert s (set (nonempty_spans c))"
    and "set (empty_spans (relinked s (spans h s) c)) = set (empty_spans c) - {s}"
    and "remove1 s (nonempty_spans (relinked s (spans h s) c)) = remove1 s (nonempty_spans c)"
    and "remove1 s (empty_spans (relinked s (spans h s) c)) = remove1 s (empty_spans c)"
proof -
  have d: "distinct (nonempty_spans c)" "distinct (empty_spans c)" "set (nonempty_spans c) \<inter> set (empty_spans c) = {}"
    using l by (auto simp: lists_ok_def spans_of_def)
  have e: "s \<in> set (empty_spans c)" "s \<notin> set (nonempty_spans c)" if "objects (spans h s) = []"
    using l s that by (auto simp: lists_ok_def spans_of_def)
  have n: "s \<in> set (nonempty_spans c)" "s \<notin> set (empty_spans c)" if "objects (spans h s) \<noteq> []"
    using l s that by (auto simp: lists_ok_def spans_of_def)
  have i: "remove1 s (remove1 s (empty_spans c)) = remove1 s (empty_spans c)" by (rule remove1_idem) (simp add: d)
  show "distinct (spans_of (relinked s (spans h s) c))"
    using d e n by (auto simp: relinked_def spans_of_def unlink_span_def remove1_idem)
  show "set (nonempty_spans (relinked s (spans h s) c)) = insert s (set (nonempty_spans c))"
    "set (empty_spans (relinked s (spans h s) c)) = set (empty_spans c) - {s}"
    "remove1 s (nonempty_spans (relinked s (spans h s) c)) = remove1 s (nonempty_spans c)"
    "remove1 s (empty_spans (relinked s (spans h s) c)) = remove1 s (empty_spans c)"
    using d e n i by (auto simp: relinked_def unlink_span_def remove1_idem)
qed

text \<open>The parts of the state that concern the transfer caches.\<close>

definition tc_same :: "nat \<Rightarrow> 'o central \<Rightarrow> 'o central \<Rightarrow> bool" where
  "tc_same cl st st' \<longleftrightarrow> race_counter st' = race_counter st \<and> (\<forall>d. d \<noteq> cl \<longrightarrow> central_cache st' d = central_cache st d)
     \<and> used_slots (central_cache st' cl) = used_slots (central_cache st cl)
     \<and> cache_size (central_cache st' cl) = cache_size (central_cache st cl)
     \<and> max_cache_size (central_cache st' cl) = max_cache_size (central_cache st cl)
     \<and> tc_slots (central_cache st' cl) = tc_slots (central_cache st cl)"

lemma tc_same_refl [simp]: "tc_same cl st st"
  by (simp add: tc_same_def)

lemma tc_same_trans: "tc_same cl st st1 \<Longrightarrow> tc_same cl st1 st2 \<Longrightarrow> tc_same cl st st2"
  by (simp add: tc_same_def)

lemma tc_ok_same:
  assumes "tc_ok sm cl A c" and "used_slots c' = used_slots c" "cache_size c' = cache_size c"
    "max_cache_size c' = max_cache_size c" "tc_slots c' = tc_slots c" and "set (tc_objects c) \<subseteq> B"
  shows "tc_ok sm cl B c'" and "tc_objects c' = tc_objects c"
  using assms by (simp_all add: tc_ok_def tc_objects_def)

lemma unlink_fields [simp]:
  "used_slots (unlink_span s c) = used_slots c" "cache_size (unlink_span s c) = cache_size c"
  "max_cache_size (unlink_span s c) = max_cache_size c" "tc_slots (unlink_span s c) = tc_slots c"
  "size_class (unlink_span s c) = size_class c" "counter (unlink_span s c) = counter c" "num_spans (unlink_span s c) = num_spans c"
  by (simp_all add: unlink_span_def)

lemma relinked_fields [simp]:
  "used_slots (relinked s y c) = used_slots c" "cache_size (relinked s y c) = cache_size c"
  "max_cache_size (relinked s y c) = max_cache_size c" "tc_slots (relinked s y c) = tc_slots c"
  "size_class (relinked s y c) = size_class c" "counter (relinked s y c) = counter c" "num_spans (relinked s y c) = num_spans c"
  by (simp_all add: relinked_def)

text \<open>The objects of a span are free in it or taken; if all but \<open>x\<close> are free, only \<open>x\<close> is taken.\<close>

lemma slots_last:
  assumes "card (slots sm cl y) = n" and "distinct xs" and "set xs \<subseteq> slots sm cl y" and "x \<in> slots sm cl y" "x \<notin> set xs"
  shows "length xs < n" and "Suc (length xs) = n \<Longrightarrow> slots sm cl y - set xs = {x}"
proof -
  have c: "card (slots sm cl y - set xs) = n - length xs"
    using assms by (simp add: card_Diff_subset distinct_card)
  have x: "x \<in> slots sm cl y - set xs" using assms(4,5) by blast
  then have "0 < card (slots sm cl y - set xs)" by (auto simp: card_gt_0_iff)
  then show "length xs < n" using c by simp
  show "slots sm cl y - set xs = {x}" if "Suc (length xs) = n"
  proof -
    have "card (slots sm cl y - set xs) = 1" using c that by simp
    then show ?thesis using x by (metis card_1_singletonE singletonD)
  qed
qed

lemma taken_others:
  assumes ok: "central_ok E mapped a H st" and cl: "0 < cl" "cl < num_size_classes (size_map st)"
    and s: "s \<in> set (spans_of (central_cache st cl))" "x \<in> slots (size_map st) cl (spans (pageheap st) s)"
  shows "x \<notin> (\<Union>t \<in> set (spans_of (central_cache st cl)) - {s}. slots (size_map st) cl (spans (pageheap st) t) - A t)"
proof -
  have z: "0 < class_to_size (size_map st) cl" using sizes_okD [OF central_okD(2) [OF ok] cl] by (simp add: class_sizes_ok_def)
  note l = central_okD(6) [OF ok cl(2)]
  show ?thesis using slots_disjoint [OF central_okD(1) [OF ok] l l s(1) _ _ z z] s(2) by blast
qed

lemma ReleaseToSpans_ok:
  assumes ok: "central_ok E mapped a H st" and cl: "0 < cl" "cl < num_size_classes (size_map st)" and x: "x \<in> outstanding st cl"
  shows "outcome (mad E) (ReleaseToSpans E cl x st) (\<lambda>st'. \<exists>H'. tc_same cl st st'
     \<and> central_to E mapped a H st ((outstanding st)(cl := outstanding st cl - {x})) H' st')"
proof -
  let ?sm = "size_map st" and ?h = "pageheap st" and ?c = "central_cache st cl"
  note d = central_okD [OF ok]
  obtain s where s: "s \<in> set (spans_of ?c)" "x \<in> slots ?sm cl (spans ?h s)" "x \<notin> set (objects (spans ?h s))"
    "GetDescriptor (x div 2 ^ kPageShift) ?h = Some s" "x \<notin> set (tc_objects ?c)"
    by (rule outstanding_span [OF ok cl x])
  note l = d(6) [OF cl(2)] note ls = lists_okD [OF l s(1)] and rl = relinked_lists [OF l s(1)]
  have z: "0 < class_to_size ?sm cl" "nslots ?sm cl < 2 ^ 16" using sizes_okD [OF d(2) cl] by (simp_all add: class_sizes_ok_def)
  note la = slots_last [OF card_slots [OF z(1)] ls(4,5) s(2,3)]
  note bd = lists_ok_bounds [OF d(1) l z(2)]
  have ref: "0 < refcount (spans ?h s)" "refcount (spans ?h s) < 2 ^ 16" using la(1) ls(6) z(2) by linarith+
  have sz: "0 < class_to_size ?sm (sizeclass (spans ?h s))" using z(1) ls(2) by simp
  have cnt: "add64 (counter ?c) 1 = counter ?c + 1" by (rule add64_eq) (use bd(2) in simp)
  have others: "x \<notin> (\<Union>t \<in> set (spans_of ?c) - {s}. slots ?sm cl (spans ?h t) - set (objects (spans ?h t)))"
    by (rule taken_others [OF ok cl s(1,2)])
  have tk: "taken_slots ?sm ?h cl ?c = (\<Union>t \<in> set (spans_of ?c) - {s}. slots ?sm cl (spans ?h t) - set (objects (spans ?h t)))
      \<union> (slots ?sm cl (spans ?h s) - set (objects (spans ?h s)))" by (rule taken_change(2) [OF refl s(1) _ refl]) simp
  have tc: "set (tc_objects ?c) \<subseteq> taken_slots ?sm ?h cl ?c - {x}" using d(7) [OF cl(2)] s(5) by (auto simp: tc_ok_def)
  have sH: "s \<in> H" by (rule ls(1))
  show ?thesis
  proof (cases "refcount (spans ?h s) = 1")
    case True
    let ?h1 = "upd_span s (\<lambda>x. x\<lparr>refcount := 0\<rparr>) ?h"
    define c' where "c' = (unlink_span s ((relinked s (spans ?h s) ?c)\<lparr>counter := sub64 (add64 (counter ?c) 1)
            (page_bytes (slength (spans ?h s)) div class_to_size ?sm (sizeclass (spans ?h s)))\<rparr>))\<lparr>num_spans := sub64 (num_spans ?c) 1\<rparr>"
    have n: "Suc (length (objects (spans ?h s))) = nslots ?sm cl" using ls(6) True by simp
    have w: "heap_holds E mapped a H ?h1" "untouched (H - {s}) ?h ?h1" by (rule write_span_holds [OF d(1) sH]; simp)+
    have pg: "page_bytes (slength (spans ?h s)) div class_to_size ?sm (sizeclass (spans ?h s)) = nslots ?sm cl"
      using sizes_okD [OF d(2) cl] unfolding ls(2,3) nslots_def by (subst shl64_eq) (simp_all add: class_sizes_ok_def)
    have cn: "counter c' = counter ?c - length (objects (spans ?h s))"
      unfolding c'_def cnt pg using bd(2) bd(3) [OF s(1)] n by (simp add: sub64_eq)
    have ns: "num_spans c' = num_spans ?c - 1"
    proof -
      have "1 \<le> num_spans ?c" using l s(1) by (cases "spans_of ?c") (auto simp: lists_ok_def)
      then show ?thesis using bd(1) by (simp add: c'_def sub64_eq)
    qed
    have fc: "size_class c' = cl" "nonempty_spans c' = remove1 s (nonempty_spans ?c)" "empty_spans c' = remove1 s (empty_spans ?c)"
      using l rl(4,5) by (simp_all add: c'_def lists_ok_def unlink_span_def)
    have "outcome (mad E) (Delete E s ?h1 \<bind> (\<lambda>h'. Some (st\<lparr>central_cache := (central_cache st)(cl := c'), pageheap := h'\<rparr>)))
      (\<lambda>st'. \<exists>H'. tc_same cl st st' \<and> central_to E mapped a H st ((outstanding st)(cl := outstanding st cl - {x})) H' st')"
    proof (rule outcome_bindI [OF Delete_holds [OF w(1) sH]], goal_cases)
      case (1 h')
      let ?st = "st\<lparr>central_cache := (central_cache st)(cl := c'), pageheap := h'\<rparr>"
      have u: "untouched (H - {s}) ?h h'" using 1(2) untouched_trans [OF w(2)] by blast
      note dr = lists_ok_drop [OF l s(1) u fc ns cn]
      have t': "taken_slots ?sm h' cl c' = taken_slots ?sm ?h cl ?c - {x}"
        unfolding dr(3) tk la(2) [OF n] using others by blast
      have tcs: "tc_ok ?sm cl (taken_slots ?sm h' cl c') c'" "tc_objects c' = tc_objects ?c"
        by (rule tc_ok_same [OF d(7) [OF cl(2)]]; use tc t' in \<open>simp add: c'_def\<close>)+
      have "central_to E mapped a H st ((outstanding st)(cl := taken_slots ?sm (pageheap ?st) cl c' - set (tc_objects c'))) (H - {s}) ?st"
      proof (rule central_update [OF ok _ cl(2)])
        show "heap_holds E mapped a (H - {s}) (pageheap ?st)" using 1(2) by simp
        show "smallest_span_size (pageheap ?st) = smallest_span_size ?h" using 1(2) by (simp add: upd_span_def)
        show "cache_ok (H - {s}) (pageheap ?st)"
          by (rule cache_ok_frame [OF d(4)]) (use 1(2) u in \<open>auto simp: untouched_def upd_span_def\<close>)
        show "H - {s} - set (spans_of c') = H - set (spans_of ?c)" using s(1) dr(2) by blast
        show "untouched (H - set (spans_of ?c)) ?h (pageheap ?st)" using untouched_mono [OF u] s(1) by (simp add: subset_iff) blast
      qed (use dr(1) tcs(1) cl(1) in simp_all)
      moreover have "taken_slots ?sm (pageheap ?st) cl c' - set (tc_objects c') = outstanding st cl - {x}"
        by (auto simp: t' tcs(2) outstanding_def)
      ultimately show ?case by (auto simp: tc_same_def c'_def)
    qed
    then show ?thesis unfolding ReleaseToSpans_eq [OF s(4) refl ref sz] if_P [OF True] c'_def .
  next
    case False
    define c' where "c' = (relinked s (spans ?h s) ?c)\<lparr>counter := add64 (counter ?c) 1\<rparr>"
    let ?f = "\<lambda>z::span. z\<lparr>refcount := refcount (spans ?h s) - 1, objects := x # objects (spans ?h s)\<rparr>"
    let ?h' = "upd_span s ?f ?h"
    let ?st = "st\<lparr>pageheap := ?h', central_cache := (central_cache st)(cl := c')\<rparr>"
    have w: "heap_holds E mapped a H ?h'" "untouched (H - {s}) ?h ?h'" by (rule write_span_holds [OF d(1) sH]; simp)+
    have sp: "spans ?h' = (spans ?h)(s := ?f (spans ?h s))" "pagemap ?h' = pagemap ?h" by (simp_all add: frame)
    have rc: "set (nonempty_spans c') = {t \<in> set (spans_of ?c). objects (spans ?h' t) \<noteq> []}"
      "set (empty_spans c') = {t \<in> set (spans_of ?c). objects (spans ?h' t) = []}"
      "distinct (spans_of c')"
      using rl(1-3) l s(1) by (auto simp: c'_def lists_ok_def spans_of_def frame)
    have ch: "lists_ok ?sm H ?h' cl c'" "set (spans_of c') = set (spans_of ?c)"
      by (rule lists_ok_change [OF l s(1) sp _ _ _ _ _ _ _ rc(3) _ _ rc(1,2)];
          use ls(2,4-6) s(2,3) False ref l cnt in \<open>simp add: c'_def lists_ok_def\<close>)+
    have "taken_slots ?sm ?h' cl c' = (\<Union>t \<in> set (spans_of ?c) - {s}. slots ?sm cl (spans ?h t) - set (objects (spans ?h t)))
      \<union> (slots ?sm cl (spans ?h s) - set (objects (?f (spans ?h s))))"
      by (rule taken_change(1) [OF ch(2) s(1) sp(1)]) simp
    then have t': "taken_slots ?sm ?h' cl c' = taken_slots ?sm ?h cl ?c - {x}" unfolding tk using others by auto
    have tcs: "tc_ok ?sm cl (taken_slots ?sm ?h' cl c') c'" "tc_objects c' = tc_objects ?c"
      by (rule tc_ok_same [OF d(7) [OF cl(2)]]; use tc t' in \<open>simp add: c'_def\<close>)+
    have "central_to E mapped a H st ((outstanding st)(cl := taken_slots ?sm (pageheap ?st) cl c' - set (tc_objects c'))) H ?st"
    proof (rule central_update [OF ok _ cl(2)])
      show "cache_ok H (pageheap ?st)" by (rule cache_ok_frame [OF d(4)]) (auto simp: upd_span_def)
      show "untouched (H - set (spans_of ?c)) ?h (pageheap ?st)" using untouched_mono [OF w(2)] s(1) by (simp add: subset_iff) blast
    qed (use w(1) ch tcs(1) cl(1) in \<open>simp_all add: upd_span_def\<close>)
    moreover have "taken_slots ?sm (pageheap ?st) cl c' - set (tc_objects c') = outstanding st cl - {x}"
      using t' by (auto simp: tcs(2) outstanding_def)
    ultimately have "\<exists>H'. tc_same cl st ?st \<and> central_to E mapped a H st ((outstanding st)(cl := outstanding st cl - {x})) H' ?st"
      by (auto simp: tc_same_def c'_def)
    then show ?thesis unfolding ReleaseToSpans_eq [OF s(4) refl ref sz] if_not_P [OF False] outcome_simps c'_def .
  qed
qed

end
