(* ===== verification/CentralTransfer.thy ===== *)
theory CentralTransfer
  imports CentralRelease
begin

text \<open>
  The transfer caches of the central free lists: inserting a chain of objects, making room by
  taking a slot from another size class, and releasing chains to their spans.
\<close>

subsection \<open>Releasing a chain\<close>

lemma central_to_size: "central_to E mapped a H st out H' st' \<Longrightarrow> size_map st' = size_map st"
  by (simp add: central_to_def)

lemma central_to_ok: "central_to E mapped a H st out H' st' \<Longrightarrow> central_ok E mapped a H' st'"
  by (simp add: central_to_def)

lemma central_to_out: "central_to E mapped a H st out H' st' \<Longrightarrow> cl < num_size_classes (size_map st) \<Longrightarrow> outstanding st' cl = out cl"
  by (simp add: central_to_def)

lemma central_to_refl: "central_ok E mapped a H st \<Longrightarrow> central_to E mapped a H st (outstanding st) H st"
  by (simp add: central_to_def)

lemma central_to_cong:
  assumes "central_to E mapped a H st out H' st'" and "\<And>cl. cl < num_size_classes (size_map st) \<Longrightarrow> out cl = out' cl"
  shows "central_to E mapped a H st out' H' st'"
  using assms by (simp add: central_to_def)

lemma ReleaseListToSpans_ok:
  assumes "central_ok E mapped a H st" and "0 < cl" "cl < num_size_classes (size_map st)"
    and "distinct chain" and "set chain \<subseteq> outstanding st cl"
  shows "outcome (mad E) (ReleaseListToSpans E cl chain st) (\<lambda>st'. \<exists>H'. tc_same cl st st'
     \<and> central_to E mapped a H st ((outstanding st)(cl := outstanding st cl - set chain)) H' st')"
  using assms
proof (induction chain arbitrary: st H)
  case Nil
  then show ?case using central_to_refl [OF Nil(1)] by auto
next
  case (Cons x chain)
  have x: "x \<in> outstanding st cl" using Cons(6) by simp
  show ?case unfolding ReleaseListToSpans.simps
  proof (rule outcome_bindI [OF ReleaseToSpans_ok [OF Cons(2-4) x]], elim exE conjE)
    fix st1 H1 assume 1: "tc_same cl st st1"
      "central_to E mapped a H st ((outstanding st)(cl := outstanding st cl - {x})) H1 st1"
    note sm = central_to_size [OF 1(2)]
    have o: "outstanding st1 d = ((outstanding st)(cl := outstanding st cl - {x})) d" if "d < num_size_classes (size_map st)" for d
      by (rule central_to_out [OF 1(2) that])
    have c: "set chain \<subseteq> outstanding st1 cl" "cl < num_size_classes (size_map st1)" "distinct chain"
      using Cons(4-6) o [of cl] by (auto simp: sm)
    show "outcome (mad E) (ReleaseListToSpans E cl chain st1) (\<lambda>st'. \<exists>H'. tc_same cl st st'
       \<and> central_to E mapped a H st ((outstanding st)(cl := outstanding st cl - set (x # chain))) H' st')"
    proof (rule outcome_mono [OF Cons.IH [OF central_to_ok [OF 1(2)] Cons(3) c(2,3,1)]], elim exE conjE)
      fix st2 H2 assume 2: "tc_same cl st1 st2"
        "central_to E mapped a H1 st1 ((outstanding st1)(cl := outstanding st1 cl - set chain)) H2 st2"
      have "central_to E mapped a H st ((outstanding st)(cl := outstanding st cl - set (x # chain))) H2 st2"
        by (rule central_to_cong [OF central_to_trans [OF 1(2) 2(2)]]) (use o Cons(4) in auto)
      then show "\<exists>H'. tc_same cl st st2
         \<and> central_to E mapped a H st ((outstanding st)(cl := outstanding st cl - set (x # chain))) H' st2"
        using tc_same_trans [OF 1(1) 2(1)] by blast
    qed
  qed
qed

subsection \<open>The transfer caches\<close>

lemma tc_update:
  assumes ok: "central_ok E mapped a H st" and cl: "cl < num_size_classes (size_map st)"
    and c': "nonempty_spans c' = nonempty_spans (central_cache st cl)" "empty_spans c' = empty_spans (central_cache st cl)"
      "size_class c' = size_class (central_cache st cl)" "num_spans c' = num_spans (central_cache st cl)"
      "counter c' = counter (central_cache st cl)"
    and tc: "tc_ok (size_map st) cl (taken_slots (size_map st) (pageheap st) cl (central_cache st cl)) c'"
  shows "central_to E mapped a H st
    ((outstanding st)(cl := taken_slots (size_map st) (pageheap st) cl (central_cache st cl) - set (tc_objects c')))
    H (st\<lparr>central_cache := (central_cache st)(cl := c')\<rparr>)"
proof -
  note d = central_okD [OF ok]
  have s: "spans_of c' = spans_of (central_cache st cl)" by (simp add: spans_of_def c')
  then have tk: "taken_slots (size_map st) (pageheap st) cl c' = taken_slots (size_map st) (pageheap st) cl (central_cache st cl)"
    by (simp add: taken_slots_def)
  have "lists_ok (size_map st) H (pageheap st) cl c'" using d(6) [OF cl] by (simp add: lists_ok_def c' s)
  then show ?thesis
    using central_update [OF ok _ cl, of c' "st\<lparr>central_cache := (central_cache st)(cl := c')\<rparr>" H] d(1,4,5) tc tk s by auto
qed

lemma tc_objects_pop:
  assumes "0 < used_slots c" and "used_slots c' = used_slots c - 1" "tc_slots c' = tc_slots c"
  shows "tc_objects c = tc_objects c' @ tc_slots c (nat (used_slots c - 1))"
proof -
  have "nat (used_slots c) = Suc (nat (used_slots c - 1))" using assms(1) by simp
  then show ?thesis by (simp add: tc_objects_def assms(2,3))
qed

lemma tc_objects_push:
  assumes "0 \<le> used_slots c" and "used_slots c' = used_slots c + 1" "tc_slots c' = (tc_slots c)(nat (used_slots c) := chain)"
  shows "tc_objects c' = tc_objects c @ chain"
proof -
  have "nat (used_slots c + 1) = Suc (nat (used_slots c))" using assms(1) by simp
  moreover have "map (tc_slots c') [0..<nat (used_slots c)] = map (tc_slots c) [0..<nat (used_slots c)]" by (simp add: assms(3))
  ultimately show ?thesis by (simp add: tc_objects_def assms(2,3))
qed

text \<open>The last entry of the transfer cache becomes outstanding when it is dropped from the cache.\<close>

lemma tc_pop:
  assumes ok: "central_ok E mapped a H st" and cl: "cl < num_size_classes (size_map st)"
    and used: "0 < used_slots (central_cache st cl)"
    and c': "c' = (central_cache st cl)\<lparr>used_slots := used_slots (central_cache st cl) - 1\<rparr>
      \<or> c' = (central_cache st cl)\<lparr>cache_size := cache_size (central_cache st cl) - 1, used_slots := used_slots (central_cache st cl) - 1\<rparr>"
    and chain: "chain = tc_slots (central_cache st cl) (nat (used_slots (central_cache st cl) - 1))"
  shows "central_to E mapped a H st ((outstanding st)(cl := outstanding st cl \<union> set chain))
      H (st\<lparr>central_cache := (central_cache st)(cl := c')\<rparr>)"
    and "distinct chain" and "set chain \<inter> outstanding st cl = {}" and "0 < cl"
    and "int (length chain) = num_objects_to_move (size_map st) cl"
proof -
  let ?c = "central_cache st cl" and ?A = "taken_slots (size_map st) (pageheap st) cl (central_cache st cl)"
  note t = central_okD(7) [OF ok cl, unfolded tc_ok_def]
  have u: "used_slots c' = used_slots ?c - 1" "tc_slots c' = tc_slots ?c" "max_cache_size c' = max_cache_size ?c"
    "used_slots c' \<le> cache_size c'" "cache_size c' \<le> cache_size ?c" using c' t by auto
  have o: "tc_objects ?c = tc_objects c' @ chain" unfolding chain by (rule tc_objects_pop [OF used u(1,2)])
  have "tc_ok (size_map st) cl ?A c'"
    unfolding tc_ok_def using t u used unfolding o by auto
  from tc_update [OF ok cl _ _ _ _ _ this] c'
  have "central_to E mapped a H st ((outstanding st)(cl := ?A - set (tc_objects c'))) H (st\<lparr>central_cache := (central_cache st)(cl := c')\<rparr>)" by auto
  moreover have "?A - set (tc_objects c') = outstanding st cl \<union> set chain" using t unfolding outstanding_def o by auto
  ultimately show "central_to E mapped a H st ((outstanding st)(cl := outstanding st cl \<union> set chain))
      H (st\<lparr>central_cache := (central_cache st)(cl := c')\<rparr>)" by simp
  show "distinct chain" "set chain \<inter> outstanding st cl = {}" using t unfolding outstanding_def o by auto
  show "0 < cl" using t used by (cases cl) auto
  show "int (length chain) = num_objects_to_move (size_map st) cl" unfolding chain using t used by simp
qed

lemma ShrinkCache_ok:
  assumes ok: "central_ok E mapped a H st" and cl: "cl < num_size_classes (size_map st)"
  shows "outcome (mad E) (ShrinkCache E cl force st) (\<lambda>(b, st'). (\<forall>d. d \<noteq> cl \<longrightarrow> central_cache st' d = central_cache st d)
     \<and> (\<exists>H'. central_to E mapped a H st (outstanding st) H' st'))"
proof -
  let ?c = "central_cache st cl"
  note t = central_okD(7) [OF ok cl, unfolded tc_ok_def]
  show ?thesis
  proof (cases "cache_size ?c = 0 \<or> \<not> force \<and> used_slots ?c = cache_size ?c")
    case True
    then show ?thesis using central_to_refl [OF ok] by (auto simp: ShrinkCache_def Let_def)
  next
    case no: False
    show ?thesis
    proof (cases "used_slots ?c = cache_size ?c")
      case True
      let ?c' = "?c\<lparr>cache_size := cache_size ?c - 1, used_slots := used_slots ?c - 1\<rparr>"
      let ?st = "st\<lparr>central_cache := (central_cache st)(cl := ?c')\<rparr>" and ?chain = "tc_slots ?c (nat (used_slots ?c - 1))"
      have used: "0 < used_slots ?c" using True no t by auto
      note p = tc_pop [OF ok cl used disjI2 [OF refl] refl]
      have c1: "set ?chain \<subseteq> outstanding ?st cl" "cl < num_size_classes (size_map ?st)"
        using central_to_out [OF p(1) cl] cl by auto
      have "outcome (mad E) (ReleaseListToSpans E cl ?chain ?st \<bind> (\<lambda>st. Some (True, st))) (\<lambda>(b, st').
         (\<forall>d. d \<noteq> cl \<longrightarrow> central_cache st' d = central_cache st d) \<and> (\<exists>H'. central_to E mapped a H st (outstanding st) H' st'))"
      proof (rule outcome_bindI [OF ReleaseListToSpans_ok [OF central_to_ok [OF p(1)] p(4) c1(2) p(2) c1(1)]], elim exE conjE)
        fix st2 H2 assume 2: "tc_same cl ?st st2" "central_to E mapped a H ?st ((outstanding ?st)(cl := outstanding ?st cl - set ?chain)) H2 st2"
        have "central_to E mapped a H st (outstanding st) H2 st2"
          by (rule central_to_cong [OF central_to_trans [OF p(1) 2(2)]]) (use p(3) central_to_out [OF p(1)] in auto)
        then show "outcome (mad E) (Some (True, st2)) (\<lambda>(b, st').
         (\<forall>d. d \<noteq> cl \<longrightarrow> central_cache st' d = central_cache st d) \<and> (\<exists>H'. central_to E mapped a H st (outstanding st) H' st'))"
          using 2(1) by (auto simp: tc_same_def)
      qed
      then show ?thesis using True no by (simp add: ShrinkCache_def Let_def upd_cache_def)
    next
      case False
      let ?c' = "?c\<lparr>cache_size := cache_size ?c - 1\<rparr>"
      have "tc_ok (size_map st) cl (taken_slots (size_map st) (pageheap st) cl ?c) ?c'"
        using t False by (auto simp: tc_ok_def tc_objects_def)
      from tc_update [OF ok cl _ _ _ _ _ this]
      have "central_to E mapped a H st ((outstanding st)(cl := outstanding st cl)) H (st\<lparr>central_cache := (central_cache st)(cl := ?c')\<rparr>)"
        by (simp add: outstanding_def tc_objects_def)
      then show ?thesis using False no by (auto simp: ShrinkCache_def Let_def upd_cache_def)
    qed
  qed
qed

lemma race_counter_cong [simp]:
  "central_ok E mapped a H (st\<lparr>race_counter := k\<rparr>) = central_ok E mapped a H st"
  "outstanding (st\<lparr>race_counter := k\<rparr>) = outstanding st"
  "central_to E mapped a H (st\<lparr>race_counter := k\<rparr>) out H' st' = central_to E mapped a H st out H' st'"
  by (simp_all add: central_ok_def outstanding_def central_to_def class_spans_def fun_eq_iff)

lemma EvictRandomSizeClass_ok:
  assumes ok: "central_ok E mapped a H st"
  shows "outcome (mad E) (EvictRandomSizeClass E cl force st) (\<lambda>(b, st'). central_cache st' cl = central_cache st cl
     \<and> (\<exists>H'. central_to E mapped a H st (outstanding st) H' st'))"
proof -
  let ?n = "num_size_classes (size_map st)" and ?t = "race_counter st mod num_size_classes (size_map st)"
  let ?st = "st\<lparr>race_counter := (if ?n \<le> race_counter st then ?t else race_counter st + 1)\<rparr>"
  have n: "?n \<noteq> 0" "?t < ?n" using central_okD(2) [OF ok] by (auto simp: sizes_ok_def)
  have ok': "central_ok E mapped a H ?st" using ok by simp
  have t': "?t < num_size_classes (size_map ?st)" using n(2) by simp
  show ?thesis
  proof (cases "?t = cl")
    case True
    have "central_to E mapped a H st (outstanding st) H ?st" using central_to_refl [OF ok'] by simp
    then show ?thesis using n True by (auto simp: EvictRandomSizeClass_def Let_def)
  next
    case False
    have "outcome (mad E) (ShrinkCache E ?t force ?st) (\<lambda>(b, st'). central_cache st' cl = central_cache st cl
       \<and> (\<exists>H'. central_to E mapped a H st (outstanding st) H' st'))"
      by (rule outcome_mono [OF ShrinkCache_ok [OF ok' t']]) (use False in auto)
    then show ?thesis using n False by (simp add: EvictRandomSizeClass_def Let_def)
  qed
qed

lemma MakeCacheSpace_ok:
  assumes ok: "central_ok E mapped a H st" and cl: "cl < num_size_classes (size_map st)"
  shows "outcome (mad E) (MakeCacheSpace E cl st) (\<lambda>(b, st').
     (b \<longrightarrow> used_slots (central_cache st' cl) < cache_size (central_cache st' cl))
     \<and> (\<exists>H'. central_to E mapped a H st (outstanding st) H' st'))"
proof -
  let ?c = "central_cache st cl"
  have sc: "size_class ?c = cl" using central_okD(6) [OF ok cl] by (simp add: lists_ok_def)
  show ?thesis
  proof (cases "used_slots ?c < cache_size ?c \<or> cache_size ?c = max_cache_size ?c")
    case True
    then show ?thesis using central_to_refl [OF ok] by (auto simp: MakeCacheSpace_def Let_def)
  next
    case False
    have c: "\<not> used_slots ?c < cache_size ?c" "\<not> cache_size ?c = max_cache_size ?c" using False by auto
    show ?thesis unfolding MakeCacheSpace_def Let_def if_not_P [OF c(1)] if_not_P [OF c(2)] sc
    proof (rule outcome_bindI [OF EvictRandomSizeClass_ok [OF ok]], goal_cases)
      case (1 x)
      obtain b1 st1 H1 where x: "x = (b1, st1)" "central_cache st1 cl = ?c" "central_to E mapped a H st (outstanding st) H1 st1"
        using 1(2) by (cases x) auto
      have e2: "outcome (mad E) (if b1 then Some (True, st1) else EvictRandomSizeClass E cl True st1)
        (\<lambda>(b, st'). central_cache st' cl = ?c \<and> (\<exists>H'. central_to E mapped a H st (outstanding st) H' st'))"
      proof (cases b1)
        case False
        show ?thesis unfolding if_not_P [OF False]
        proof (rule outcome_mono [OF EvictRandomSizeClass_ok [OF central_to_ok [OF x(3)]]], goal_cases)
          case (1 y)
          then obtain b2 st2 H2 where y: "y = (b2, st2)" "central_cache st2 cl = ?c" "central_to E mapped a H1 st1 (outstanding st1) H2 st2"
            using x(2) by (cases y) auto
          have "central_to E mapped a H st (outstanding st) H2 st2"
            by (rule central_to_cong [OF central_to_trans [OF x(3) y(3)]]) (rule central_to_out [OF x(3)])
          then show ?case using y by auto
        qed
      qed (use x in auto)
      show ?case unfolding x(1) prod.case
      proof (rule outcome_bindI [OF e2], goal_cases)
        case (1 y)
        obtain b2 st2 H2 where y: "y = (b2, st2)" "central_cache st2 cl = ?c" "central_to E mapped a H st (outstanding st) H2 st2"
          using 1(2) by (cases y) auto
        note ok2 = central_to_ok [OF y(3)]
        show ?case
        proof (cases "b2 \<and> cache_size (central_cache st2 cl) < max_cache_size (central_cache st2 cl)")
          case True
          let ?c' = "?c\<lparr>cache_size := cache_size ?c + 1\<rparr>"
          have cl2: "cl < num_size_classes (size_map st2)" using cl central_to_size [OF y(3)] by simp
          note t = central_okD(7) [OF ok2 cl2, unfolded tc_ok_def y(2)]
          have "tc_ok (size_map st2) cl (taken_slots (size_map st2) (pageheap st2) cl ?c) ?c'"
            using t True y(2) by (auto simp: tc_ok_def tc_objects_def)
          from tc_update [OF ok2 cl2, unfolded y(2), OF _ _ _ _ _ this]
          have "central_to E mapped a H2 st2 ((outstanding st2)(cl := outstanding st2 cl)) H2 (st2\<lparr>central_cache := (central_cache st2)(cl := ?c')\<rparr>)"
            by (simp add: outstanding_def tc_objects_def y(2))
          then have "central_to E mapped a H st (outstanding st) H2 (st2\<lparr>central_cache := (central_cache st2)(cl := ?c')\<rparr>)"
            using central_to_cong [OF central_to_trans [OF y(3)]] central_to_out [OF y(3)] by (metis fun_upd_triv)
          then show ?thesis using True t by (auto simp: y upd_cache_def)
        next
          case False
          then show ?thesis unfolding y(1) prod.case if_not_P [OF False] using y(3) by auto
        qed
      qed
    qed
  qed
qed

lemma InsertRange_ok:
  assumes ok: "central_ok E mapped a H st" and cl: "0 < cl" "cl < num_size_classes (size_map st)"
    and chain: "distinct chain" "set chain \<subseteq> outstanding st cl" "N = int (length chain)"
  shows "outcome (mad E) (InsertRange E cl chain N st) (\<lambda>st'. \<exists>H'.
     central_to E mapped a H st ((outstanding st)(cl := outstanding st cl - set chain)) H' st')"
proof -
  have sc: "size_class (central_cache st cl) = cl" using central_okD(6) [OF ok cl(2)] by (simp add: lists_ok_def)
  have r: "outcome (mad E) (if N = num_objects_to_move (size_map st) (size_class (central_cache st cl))
       then MakeCacheSpace E cl st else Some (False, st)) (\<lambda>(b, st').
     (b \<longrightarrow> used_slots (central_cache st' cl) < cache_size (central_cache st' cl) \<and> N = num_objects_to_move (size_map st) cl)
     \<and> (\<exists>H'. central_to E mapped a H st (outstanding st) H' st'))"
  proof (cases "N = num_objects_to_move (size_map st) cl")
    case True
    have *: "outcome (mad E) (MakeCacheSpace E cl st) (\<lambda>(b, st').
     (b \<longrightarrow> used_slots (central_cache st' cl) < cache_size (central_cache st' cl) \<and> N = num_objects_to_move (size_map st) cl)
     \<and> (\<exists>H'. central_to E mapped a H st (outstanding st) H' st'))"
      by (rule outcome_mono [OF MakeCacheSpace_ok [OF ok cl(2)]]) (use True in auto)
    show ?thesis unfolding sc if_P [OF True] by (rule *)
  next
    case False
    show ?thesis unfolding sc if_not_P [OF False] using central_to_refl [OF ok] by auto
  qed
  show ?thesis unfolding InsertRange_def
  proof (rule outcome_bindI [OF r], goal_cases)
    case (1 x)
    then obtain b st1 H1 where x: "x = (b, st1)" "central_to E mapped a H st (outstanding st) H1 st1"
      "b \<Longrightarrow> used_slots (central_cache st1 cl) < cache_size (central_cache st1 cl) \<and> N = num_objects_to_move (size_map st) cl"
      by (cases x) auto
    let ?c = "central_cache st1 cl" and ?A = "taken_slots (size_map st1) (pageheap st1) cl (central_cache st1 cl)"
    note ok1 = central_to_ok [OF x(2)] and sm = central_to_size [OF x(2)]
    have cl1: "cl < num_size_classes (size_map st1)" using cl(2) sm by simp
    have o1: "set chain \<subseteq> outstanding st1 cl" using central_to_out [OF x(2) cl(2)] chain(2) by simp
    show ?case
    proof (cases b)
      case True
      let ?c' = "?c\<lparr>used_slots := used_slots ?c + 1, tc_slots := (tc_slots ?c)(nat (used_slots ?c) := chain)\<rparr>"
      note t = central_okD(7) [OF ok1 cl1, unfolded tc_ok_def]
      have u0: "0 \<le> used_slots ?c" using t by blast
      have o: "tc_objects ?c' = tc_objects ?c @ chain" by (rule tc_objects_push [OF u0]) simp_all
      have "int (length (tc_slots ?c' i)) = num_objects_to_move (size_map st1) cl" if "i < nat (used_slots ?c')" for i
        using that t x(3) [OF True] chain(3) sm by (cases "i = nat (used_slots ?c)") auto
      moreover have "distinct (tc_objects ?c @ chain)" "set (tc_objects ?c @ chain) \<subseteq> ?A"
        using t chain(1) o1 by (auto simp: outstanding_def)
      ultimately have "tc_ok (size_map st1) cl ?A ?c'"
        unfolding tc_ok_def o using t x(3) [OF True] cl(1) by auto
      from tc_update [OF ok1 cl1 _ _ _ _ _ this]
      have "central_to E mapped a H1 st1 ((outstanding st1)(cl := outstanding st1 cl - set chain)) H1
          (st1\<lparr>central_cache := (central_cache st1)(cl := ?c')\<rparr>)" unfolding o by (simp add: outstanding_def Diff_eq Int_assoc)
      then have "central_to E mapped a H st ((outstanding st)(cl := outstanding st cl - set chain)) H1
          (st1\<lparr>central_cache := (central_cache st1)(cl := ?c')\<rparr>)"
        by (rule central_to_cong [OF central_to_trans [OF x(2)]]) (use central_to_out [OF x(2)] in auto)
      then show ?thesis using True by (auto simp: x(1) Let_def upd_cache_def)
    next
      case False
      have "outcome (mad E) (ReleaseListToSpans E cl chain st1) (\<lambda>st'. \<exists>H'.
         central_to E mapped a H st ((outstanding st)(cl := outstanding st cl - set chain)) H' st')"
      proof (rule outcome_mono [OF ReleaseListToSpans_ok [OF ok1 cl(1) cl1 chain(1) o1]], elim exE conjE)
        fix st2 H2 assume "central_to E mapped a H1 st1 ((outstanding st1)(cl := outstanding st1 cl - set chain)) H2 st2"
        then have "central_to E mapped a H st ((outstanding st)(cl := outstanding st cl - set chain)) H2 st2"
          by (rule central_to_cong [OF central_to_trans [OF x(2)]]) (use central_to_out [OF x(2)] in auto)
        then show "\<exists>H'. central_to E mapped a H st ((outstanding st)(cl := outstanding st cl - set chain)) H' st2" by blast
      qed
      then show ?thesis using False by (simp add: x(1))
    qed
  qed
qed

end
