(* ===== verification/CentralPopulate.thy ===== *)
theory CentralPopulate
  imports CentralTransfer
begin

text \<open>
  \<open>CentralFreeList::Populate\<close>: a new span is split into exactly the slots of its class, all of them
  free, and the cache of size classes is right for its pages.
\<close>

subsection \<open>Splitting a span\<close>

lemma split_span_eq:
  assumes "0 < sz" "sz < 2 ^ 64" "limit < 2 ^ 64" "ptr \<le> limit"
  shows "split_span sz limit ptr = Some (map (\<lambda>k. ptr + k * sz) [0..<(limit - ptr) div sz])"
  using assms(4)
proof (induction "limit - ptr" arbitrary: ptr rule: less_induct)
  case less
  show ?case
  proof (cases "ptr + sz \<le> limit")
    case True
    then have n: "add64 ptr sz = ptr + sz" using assms(3) by (intro add64_eq) linarith
    have d: "(limit - ptr) div sz = Suc ((limit - (ptr + sz)) div sz)"
      using True assms(1) by (subst div_if) (auto simp: diff_diff_left)
    have "split_span sz limit (ptr + sz) = Some (map (\<lambda>k. ptr + sz + k * sz) [0..<(limit - (ptr + sz)) div sz])"
      using less.hyps [of "ptr + sz"] True assms(1) by simp
    moreover have "map (\<lambda>k. ptr + k * sz) [0..<Suc m] = ptr # map (\<lambda>k. ptr + sz + k * sz) [0..<m]" for m
      by (simp add: upt_conv_Cons map_Suc_upt [symmetric] algebra_simps del: upt_Suc)
    ultimately show ?thesis unfolding d using True assms(1) by (subst split_span.simps) (simp add: n Let_def)
  next
    case False
    have "add64 ptr sz < ptr \<or> limit < add64 ptr sz"
    proof (cases "ptr + sz < 2 ^ 64")
      case True
      then show ?thesis using False by (simp add: add64_eq)
    next
      case wrap: False
      then have "add64 ptr sz = ptr + sz - 2 ^ 64" using less.prems assms(2,3) unfolding add64_def by (subst mod_if) simp
      then show ?thesis using assms(2) wrap by linarith
    qed
    moreover have "(limit - ptr) div sz = 0" using False assms(1) less.prems by (intro div_less) linarith
    ultimately show ?thesis by (subst split_span.simps) (simp add: Let_def)
  qed
qed

lemma split_span_slots:
  assumes "class_sizes_ok sm cl" and "start x + class_to_pages sm cl \<le> 2 ^ 35"
  shows "\<exists>objs. split_span (class_to_size sm cl) (add64 (page_bytes (start x)) (page_bytes (class_to_pages sm cl)))
      (page_bytes (start x)) = Some objs \<and> distinct objs \<and> set objs = slots sm cl x \<and> length objs = nslots sm cl"
proof -
  let ?a = "start x * 2 ^ kPageShift" and ?b = "class_to_pages sm cl * 2 ^ kPageShift" and ?sz = "class_to_size sm cl"
  have z: "0 < ?sz" "?sz < 2 ^ 64" using assms(1) by (auto simp: class_sizes_ok_def kMaxSize_def)
  have b: "?a + ?b < 2 ^ 64" using assms(2) by simp
  have e: "page_bytes (start x) = ?a" "page_bytes (class_to_pages sm cl) = ?b"
    using b unfolding kPageShift_def by (intro shl64_eq; linarith)+
  have l: "add64 ?a ?b = ?a + ?b" by (rule add64_eq [OF b])
  have s: "split_span ?sz (?a + ?b) ?a = Some (map (\<lambda>k. ?a + k * ?sz) [0..<?b div ?sz])"
    using split_span_eq [OF z b, of ?a] by simp
  have "distinct (map (\<lambda>k. ?a + k * ?sz) [0..<?b div ?sz])" using z(1) by (simp add: distinct_map inj_on_def)
  moreover have "set (map (\<lambda>k. ?a + k * ?sz) [0..<?b div ?sz]) = slots sm cl x"
    by (simp add: slots_def nslots_def atLeast0LessThan)
  ultimately show ?thesis unfolding e l s by (auto simp: nslots_def)
qed

subsection \<open>The cache of size classes\<close>

lemma cache_pages_eq:
  "cache_pages p n cl h = h\<lparr>pagemap_cache := fold (\<lambda>i c. Put c (of_nat (p + i)) (of_nat cl)) [0..<n] (pagemap_cache h)\<rparr>"
  by (induction n) (simp_all add: cache_pages_def SetCachedSizeClass_def)

lemma fold_Put:
  assumes "cl < 128" and "p + n \<le> 2 ^ 35" and "q < 2 ^ 35"
  shows "TryGet (fold (\<lambda>i c. Put c (of_nat (p + i)) (of_nat cl)) [0..<n] c0) (of_nat q) = Some v \<Longrightarrow>
    (if p \<le> q \<and> q < p + n then v = of_nat cl else TryGet c0 (of_nat q) = Some v)"
  using assms(2)
proof (induction n)
  case (Suc n)
  let ?c = "fold (\<lambda>i c. Put c (of_nat (p + i)) (of_nat cl)) [0..<n] c0"
  have w: "(of_nat cl :: 32 word) < 2 ^ kValuebits"
    using assms(1) by (simp add: word_less_nat_alt unat_of_nat)
  have inj: "(of_nat q :: 64 word) = of_nat (p + n) \<longleftrightarrow> q = p + n"
    using assms(3) Suc.prems(2) unfolding word_of_nat_eq_iff by (simp add: take_bit_nat_eq_self)
  have g: "TryGet (Put ?c (of_nat (p + n)) (of_nat cl)) (of_nat q) = Some v" using Suc.prems(1) by simp
  show ?case
  proof (cases "q = p + n")
    case True
    then show ?thesis using g by (simp add: TryGet_Put [OF w])
  next
    case False
    then have "TryGet ?c (of_nat q) = Some v" using g inj by (simp add: TryGet_Put [OF w] split: if_splits)
    from Suc.IH [OF this] Suc.prems(2) False show ?thesis by auto
  qed
qed auto

lemma TryGetSizeClass_iff: "(\<forall>k. TryGetSizeClass p h = Some k \<longrightarrow> P k) \<longleftrightarrow>
    (\<forall>v. TryGet (pagemap_cache h) (of_nat p) = Some v \<longrightarrow> P (unat v))"
  by (auto simp: TryGetSizeClass_def)

lemma cache_ok_Invalidate:
  assumes "cache_ok H h" and "\<forall>t\<in>H. spans h' t = spans h t"
    and "pagemap_cache h' = (if s = 0 then pagemap_cache h else Invalidate (pagemap_cache h) k)"
  shows "cache_ok H h'"
proof -
  have "TryGet (pagemap_cache h) q = Some v" if "TryGet (pagemap_cache h') q = Some v" for q v
    using that by (auto simp: assms(3) TryGet_Invalidate split: if_splits)
  then show ?thesis using assms(1,2) unfolding cache_ok_def TryGetSizeClass_iff by metis
qed

text \<open>After the pages of a new span were entered, no other span is affected.\<close>

lemma cache_ok_pages:
  assumes ok: "cache_ok H h" and hh: "heap_holds E mapped a (insert s H) h" and s: "s \<notin> H" "sizeclass (spans h s) = cl" "0 < cl" "cl < 128"
    and n: "n = slength (spans h s)"
  shows "cache_ok (insert s H) (cache_pages (start (spans h s)) n cl h)"
  unfolding cache_ok_def TryGetSizeClass_iff
proof (intro ballI impI allI)
  fix t q v assume t: "t \<in> insert s H" and q: "q \<in> extent (spans (cache_pages (start (spans h s)) n cl h) t)"
    and c: "sizeclass (spans (cache_pages (start (spans h s)) n cl h) t) \<noteq> 0 \<or> q = start (spans (cache_pages (start (spans h s)) n cl h) t)"
    and g: "TryGet (pagemap_cache (cache_pages (start (spans h s)) n cl h)) (of_nat q) = Some v"
  have b: "start (spans h u) + slength (spans h u) \<le> 2 ^ 35" if "u \<in> insert s H" for u using holds_spans(2) [OF hh that] by blast
  have qe: "q \<in> extent (spans h t)" using q by (simp add: cache_pages_eq)
  then have q35: "q < 2 ^ 35" using b [OF t] by simp
  have bs: "start (spans h s) + n \<le> 2 ^ 35" using b [of s] n by simp
  have "TryGet (fold (\<lambda>i c. Put c (of_nat (start (spans h s) + i)) (of_nat cl)) [0..<n] (pagemap_cache h)) (of_nat q) = Some v"
    using g by (simp add: cache_pages_eq)
  note f = fold_Put [OF s(4) bs q35 this]
  show "unat v = sizeclass (spans (cache_pages (start (spans h s)) n cl h) t) \<and> unat v \<noteq> 0"
  proof (cases "t = s")
    case True
    then have "v = of_nat cl" using f qe n by auto
    then show ?thesis using True s by (simp add: cache_pages_eq unat_of_nat)
  next
    case False
    have "q \<notin> extent (spans h s)" using holds_spans(3) [OF hh t _ qe, of s] False by blast
    then have "TryGet (pagemap_cache h) (of_nat q) = Some v" using f n by auto
    moreover have "t \<in> H" using t False by simp
    moreover have "sizeclass (spans h t) \<noteq> 0 \<or> q = start (spans h t)" using c by (simp add: cache_pages_eq)
    ultimately have "unat v = sizeclass (spans h t) \<and> unat v \<noteq> 0" using ok qe unfolding cache_ok_def TryGetSizeClass_iff by blast
    then show ?thesis by (simp add: cache_pages_eq)
  qed
qed

subsection \<open>A new span of a class\<close>

lemma round_exact:
  assumes "heap_holds E mapped a H h" and "smallest_span_size h dvd n" and "0 < n" "n < 2 ^ 35"
  shows "RoundUpSize n h = n"
proof -
  from assms(1) obtain U where "holds_with E mapped a H U h" by (auto simp: heap_holds_def)
  then obtain k where k: "smallest_span_size h = 2 ^ k" "k < 64" by (auto simp: holds_with_def heap_ok_def)
  have le: "(2::nat) ^ k \<le> n" using assms(2,3) dvd_imp_le unfolding k(1) by blast
  have p63: "(2::nat) ^ k \<le> 2 ^ 63" using power_increasing [of k 63 "2::nat"] k(2) by simp
  have n64: "n < 2 ^ 64" and "n \<le> 2 ^ 64 - 2 ^ k" using assms(4) p63 by auto
  note r = RoundUpSize_spec(1) [OF k n64] RoundUpSize_spec(3) [OF k n64 this(2)]
  obtain q where q: "n = 2 ^ k * q" using assms(2) unfolding k(1) by (rule dvdE)
  obtain q' where q': "RoundUpSize n h = 2 ^ k * q'" using r(1) by (rule dvdE)
  have "2 ^ k * q \<le> 2 ^ k * q'" "2 ^ k * q' < 2 ^ k * (q + 1)" using r(2) unfolding q' by (simp_all add: q)
  then have "q = q'" by (metis mult_le_cancel1 mult_less_cancel1 less_Suc_eq_le Suc_eq_plus1 le_antisym zero_less_power pos2)
  then show ?thesis using q q' by simp
qed

lemma lists_ok_add:
  assumes l: "lists_ok sm H h cl c" and s: "s \<notin> H" and unt: "untouched H h h'"
    and y: "span_ok sm (insert s H) h' cl s" "objects (spans h' s) \<noteq> []"
    and c': "c' = c\<lparr>nonempty_spans := s # nonempty_spans c, num_spans := num_spans c + 1,
      counter := counter c + length (objects (spans h' s))\<rparr>"
  shows "lists_ok sm (insert s H) h' cl c'" and "set (spans_of c') = insert s (set (spans_of c))"
    and "taken_slots sm h' cl c' = taken_slots sm h cl c \<union> (slots sm cl (spans h' s) - set (objects (spans h' s)))"
proof -
  have sub: "set (spans_of c) \<subseteq> insert s H" and new: "s \<notin> set (spans_of c)" using lists_okD(1) [OF l] s by auto
  have u: "untouched (set (spans_of c)) h h'" by (rule untouched_mono [OF unt]) (use lists_okD(1) [OF l] in blast)
  note f = lists_ok_frame [OF l sub u]
  have so: "spans_of c' = s # spans_of c" by (simp add: c' spans_of_def)
  then show "set (spans_of c') = insert s (set (spans_of c))" by simp
  show "lists_ok sm (insert s H) h' cl c'"
    using f(1) y new unfolding lists_ok_def so by (simp add: c' add.commute)
  show "taken_slots sm h' cl c' = taken_slots sm h cl c \<union> (slots sm cl (spans h' s) - set (objects (spans h' s)))"
    using f(2) unfolding taken_slots_def so by auto
qed

lemma central_heap:
  assumes ok: "central_ok E mapped a H st" and h': "heap_holds E mapped a H h'" "untouched H (pageheap st) h'" "cache_ok H h'"
    "smallest_span_size h' = smallest_span_size (pageheap st)"
  shows "central_to E mapped a H st (outstanding st) H (st\<lparr>pageheap := h'\<rparr>)"
proof -
  let ?st = "st\<lparr>pageheap := h'\<rparr>" and ?c = "central_cache st"
  note d = central_okD [OF ok]
  have sub: "set (spans_of (?c cl)) \<subseteq> H" if "cl < num_size_classes (size_map st)" for cl
    using lists_okD(1) [OF d(6) [OF that]] by blast
  note f = lists_ok_frame [OF d(6) sub untouched_mono [OF h'(2) sub]]
  have "central_ok E mapped a H ?st" using d h' f by (simp add: central_ok_def)
  moreover have "outstanding ?st cl = outstanding st cl" if "cl < num_size_classes (size_map st)" for cl
    using f(2) [OF that that that] by (simp add: outstanding_def)
  ultimately show ?thesis using untouched_mono [OF h'(2)] by (simp add: central_to_def class_spans_def)
qed

text \<open>The page heap does not return when it is asked for a span of the class.\<close>

definition no_span :: "'o env \<Rightarrow> nat \<Rightarrow> 'o central \<Rightarrow> bool" where
  "no_span E cl st \<longleftrightarrow> NewWithSizeClass E (class_to_pages (size_map st) cl) cl (pageheap st) = None"

lemma outcome_self: "outcome (r = None) r (\<lambda>_. True)"
  by (cases r) simp_all

lemma Populate_ok:
  assumes ok: "central_ok E mapped a H st" and tame: "tame mapped" and cl: "0 < cl" "cl < num_size_classes (size_map st)"
  shows "outcome (no_span E cl st) (Populate E cl st) (\<lambda>st'. tc_same cl st st' \<and> (\<exists>H'. central_to E mapped a H st (outstanding st) H' st')
     \<and> (nonempty_spans (central_cache st' cl) \<noteq> []
        \<or> (\<exists>h'. NewWithSizeClass E (class_to_pages (size_map st) cl) cl (pageheap st) = Some (0, h'))))"
proof -
  let ?sm = "size_map st" and ?h = "pageheap st" and ?c = "central_cache st cl"
  let ?n = "class_to_pages (size_map st) cl"
  note d = central_okD [OF ok]
  note cs = sizes_okD [OF d(2) cl]
  have sc: "size_class ?c = cl" using d(6) [OF cl(2)] by (simp add: lists_ok_def)
  have cl128: "cl < 128" "cl < 256" using d(2) cl(2) by (simp_all add: sizes_ok_def)
  have n: "0 < ?n" "?n < 2 ^ 35" "?n < 2 ^ 64" "smallest_span_size ?h dvd ?n" using cs d(3) by (auto simp: class_sizes_ok_def)
  show ?thesis unfolding Populate_def Let_def sc no_span_def
  proof (rule outcome_bindI [OF outcome_self], goal_cases)
    case (1 x)
    obtain s h where x: "x = (s, h)" by (cases x)
    note N = 1(1) [unfolded x]
    note nd = New_details [OF d(1) tame n(1,3) cl128(2) N] and nh = NewWithSizeClass_holds [OF d(1) tame n(1,3) cl128(2) N]
    have co: "cache_ok H h" by (rule cache_ok_Invalidate [OF d(4) _ nd(2)]) (use nh(2) in \<open>auto simp: untouched_def\<close>)
    show ?case
    proof (cases "s = 0")
      case True
      have "central_to E mapped a H st (outstanding st) H (st\<lparr>pageheap := h\<rparr>)"
        by (rule central_heap [OF ok _ nh(2) co nd(1)]) (use nh(1) True in simp)
      then show ?thesis using True N by (auto simp: x tc_same_def)
    next
      case False
      then have hh: "heap_holds E mapped a (insert s H) h" and s: "s \<notin> H" "slength (spans h s) = ?n" "sizeclass (spans h s) = cl"
        "\<forall>p \<in> extent (spans h s). GetDescriptor p h = Some s"
        using nh(1) nd(3) round_exact [OF d(1) n(4,1,2)] cl(1) by auto
      let ?h1 = "cache_pages (start (spans h s)) ?n cl h"
      have h1: "spans ?h1 = spans h" "pagemap ?h1 = pagemap h" "smallest_span_size ?h1 = smallest_span_size h" by (simp_all add: cache_pages_eq)
      have hh1: "heap_holds E mapped a (insert s H) ?h1" unfolding cache_pages_eq by (rule set_cache_holds [OF hh])
      have co1: "cache_ok (insert s H) ?h1" by (rule cache_ok_pages [OF co hh s(1,3) cl(1) cl128(1) s(2) [symmetric]])
      have "start (spans h s) + ?n \<le> 2 ^ 35" using holds_spans(2) [OF hh, of s] s(2) by simp
      from split_span_slots [OF cs this] obtain objs where
        o: "split_span (class_to_size ?sm cl) (add64 (page_bytes (start (spans h s))) (page_bytes ?n)) (page_bytes (start (spans h s))) = Some objs"
          "distinct objs" "set objs = slots ?sm cl (spans h s)" "length objs = nslots ?sm cl" by blast
      let ?f = "\<lambda>x::span. x\<lparr>objects := objs, refcount := 0\<rparr>"
      let ?h2 = "upd_span s ?f ?h1"
      have w: "heap_holds E mapped a (insert s H) ?h2" "untouched (insert s H - {s}) ?h1 ?h2"
        by (rule write_span_holds [OF hh1]; simp)+
      have u1: "untouched H h ?h1" by (simp add: untouched_def h1 GetDescriptor_def)
      have u2: "untouched H ?h1 ?h2" by (rule untouched_mono [OF w(2)]) (use s(1) in blast)
      have unt: "untouched H ?h ?h2" by (rule untouched_trans [OF nh(2) untouched_trans [OF u1 u2]])
      have sp: "spans ?h2 s = ?f (spans h s)" by (simp add: frame h1)
      have ns: "0 < nslots ?sm cl" "nslots ?sm cl < 2 ^ 16" using cs by (auto simp: class_sizes_ok_def)
      have so: "span_ok ?sm (insert s H) ?h2 cl s" "objects (spans ?h2 s) \<noteq> []"
        unfolding span_ok_def sp using o(2-4) s(2-4) ns(1) by (auto simp: GetDescriptor_def frame h1 slots_def)
      note bd = lists_ok_bounds [OF d(1) d(6) [OF cl(2)] ns(2)]
      define c' where "c' = ?c\<lparr>nonempty_spans := s # nonempty_spans ?c, num_spans := num_spans ?c + 1, counter := counter ?c + length (objects (spans ?h2 s))\<rparr>"
      note la = lists_ok_add [OF d(6) [OF cl(2)] s(1) unt so c'_def]
      have "slots ?sm cl (spans ?h2 s) - set (objects (spans ?h2 s)) = {}" unfolding sp using o(3) by (simp add: slots_def)
      then have tk: "taken_slots ?sm ?h2 cl c' = taken_slots ?sm ?h cl ?c" using la(3) by (simp only: Un_empty_right)
      let ?st = "st\<lparr>pageheap := ?h2, central_cache := (central_cache st)(cl := c')\<rparr>"
      have cs: "add64 (num_spans ?c) 1 = num_spans ?c + 1" "add64 (counter ?c) (length objs) = counter ?c + length objs"
        by (rule add64_eq; use bd(1,2) ns(2) o(4) in simp)+
      have st: "(if s = 0 then Some (st\<lparr>pageheap := h\<rparr>) else do {
          objs \<leftarrow> split_span (class_to_size ?sm cl) (add64 (page_bytes (start (spans h s))) (page_bytes ?n)) (page_bytes (start (spans h s)));
          Some (upd_cache cl (\<lambda>c. c\<lparr>nonempty_spans := s # nonempty_spans c, num_spans := add64 (num_spans c) 1,
             counter := add64 (counter c) (length objs)\<rparr>)
             (central_upd_span s (\<lambda>x. x\<lparr>objects := objs, refcount := 0\<rparr>) (st\<lparr>pageheap := ?h1\<rparr>))) }) = Some ?st"
        unfolding o(1) using False cs sp by (simp add: upd_cache_def central_upd_span_def c'_def)
      have tc: "tc_ok ?sm cl (taken_slots ?sm ?h2 cl c') c'" "tc_objects c' = tc_objects ?c"
      proof -
        have same: "used_slots c' = used_slots ?c" "cache_size c' = cache_size ?c" "max_cache_size c' = max_cache_size ?c" "tc_slots c' = tc_slots ?c"
          by (simp_all add: c'_def)
        have "set (tc_objects ?c) \<subseteq> taken_slots ?sm ?h2 cl c'" unfolding tk using d(7) [OF cl(2)] by (simp add: tc_ok_def)
        from tc_ok_same [OF d(7) [OF cl(2)] same this] show "tc_ok ?sm cl (taken_slots ?sm ?h2 cl c') c'" "tc_objects c' = tc_objects ?c" .
      qed
      have "central_to E mapped a H st ((outstanding st)(cl := taken_slots ?sm (pageheap ?st) cl c' - set (tc_objects c'))) (insert s H) ?st"
      proof (rule central_update [OF ok _ cl(2)])
        show "cache_ok (insert s H) (pageheap ?st)" by (rule cache_ok_frame [OF co1]) (auto simp: upd_span_def)
        show "untouched (H - set (spans_of ?c)) ?h (pageheap ?st)" using untouched_mono [OF unt] by simp
        show "insert s H - set (spans_of c') = H - set (spans_of ?c)" unfolding la(2) using s(1) by blast
        show "smallest_span_size (pageheap ?st) = smallest_span_size ?h" using nd(1) h1(3) by (simp add: upd_span_def)
      qed (use w(1) la(1) tc(1) cl(1) in simp_all)
      moreover have "taken_slots ?sm (pageheap ?st) cl c' - set (tc_objects c') = outstanding st cl"
        using tk tc(2) by (simp add: outstanding_def)
      ultimately have "central_to E mapped a H st (outstanding st) (insert s H) ?st" by simp
      moreover have "tc_same cl st ?st" by (simp add: tc_same_def c'_def)
      ultimately show ?thesis using st False by (auto simp: x ByteSizeForClass_def c'_def)
    qed
  qed
qed

end
