(* ===== verification/CentralFetch.thy ===== *)
theory CentralFetch
  imports CentralPopulate
begin

text \<open>
  Taking objects from the central free lists: from the spans, after fetching a new span from the
  page heap where necessary.
\<close>

subsection \<open>Taking objects out of a span\<close>

lemma fetch_objects_take:
  assumes "xs \<noteq> []"
  shows "fetch_objects N xs = (take (nat (max 1 (min N (int (length xs))))) xs, drop (nat (max 1 (min N (int (length xs))))) xs)"
  using assms
proof (induction N xs rule: fetch_objects.induct)
  case (2 N x xs)
  show ?case
  proof (cases "1 < N \<and> xs \<noteq> []")
    case True
    then have "nat (max 1 (min N (int (length (x # xs))))) = Suc (nat (max 1 (min (N - 1) (int (length xs)))))"
      by (cases xs) (auto simp: max_def min_def)
    then show ?thesis using 2 True by simp
  next
    case False
    then have "nat (max 1 (min N (int (length (x # xs))))) = 1" by auto
    then show ?thesis using False by auto
  qed
qed simp

lemma fetch_objects_split:
  assumes "xs \<noteq> []" and "fetch_objects N xs = (taken, rest)"
  shows "taken @ rest = xs" and "taken \<noteq> []" and "1 \<le> N \<Longrightarrow> int (length taken) \<le> N"
  using assms(2) unfolding fetch_objects_take [OF assms(1)] using assms(1) by auto

lemma FetchFromOneSpans_ok:
  assumes ok: "central_ok E mapped a H st" and cl: "0 < cl" "cl < num_size_classes (size_map st)"
  shows "outcome False (FetchFromOneSpans cl N st) (\<lambda>(chain, st'). tc_same cl st st' \<and> distinct chain
     \<and> set chain \<inter> outstanding st cl = {} \<and> (1 \<le> N \<longrightarrow> int (length chain) \<le> N)
     \<and> (chain = [] \<longleftrightarrow> nonempty_spans (central_cache st cl) = []) \<and> (chain = [] \<longrightarrow> st' = st)
     \<and> central_to E mapped a H st ((outstanding st)(cl := outstanding st cl \<union> set chain)) H st')"
proof -
  let ?sm = "size_map st" and ?h = "pageheap st" and ?c = "central_cache st cl"
  note d = central_okD [OF ok]
  note l = d(6) [OF cl(2)]
  show ?thesis
  proof (cases "nonempty_spans ?c")
    case Nil
    then show ?thesis using central_to_refl [OF ok] by (simp add: FetchFromOneSpans_def)
  next
    case (Cons s ss)
    have s: "s \<in> set (spans_of ?c)" using Cons by (simp add: spans_of_def)
    have ne: "objects (spans ?h s) \<noteq> []" using l Cons by (simp add: lists_ok_def)
    obtain taken rest where f: "fetch_objects N (objects (spans ?h s)) = (taken, rest)" by (cases "fetch_objects N (objects (spans ?h s))")
    note ft = fetch_objects_split [OF ne f]
    note ls = lists_okD [OF l s]
    have z: "nslots ?sm cl < 2 ^ 16" using sizes_okD [OF d(2) cl] by (simp_all add: class_sizes_ok_def)
    note bd = lists_ok_bounds [OF d(1) l z]
    have len: "length (objects (spans ?h s)) = length taken + length rest" using ft(1) by (metis length_append)
    have cnt: "sub64 (counter ?c) (length taken) = counter ?c - length taken"
      using bd(2) bd(3) [OF s] len by (simp add: sub64_eq)
    define c' where "c' = (if rest = [] then (unlink_span s ?c)\<lparr>empty_spans := s # empty_spans (unlink_span s ?c)\<rparr> else ?c)
       \<lparr>counter := sub64 (counter ?c) (length taken)\<rparr>"
    let ?f = "\<lambda>x::span. x\<lparr>objects := rest, refcount := (refcount x + length taken) mod 2 ^ 16\<rparr>"
    let ?h' = "upd_span s ?f ?h"
    let ?st = "st\<lparr>pageheap := ?h', central_cache := (central_cache st)(cl := c')\<rparr>"
    have fe: "FetchFromOneSpans cl N st = Some (taken, ?st)"
      using ne Cons by (simp add: FetchFromOneSpans_def f Let_def c'_def upd_cache_def central_upd_span_def)
    have r: "(refcount (spans ?h s) + length taken) mod 2 ^ 16 = refcount (spans ?h s) + length taken"
      by (rule mod_less) (use ls(6) z len in linarith)
    have w: "heap_holds E mapped a H ?h'" "untouched (H - {s}) ?h ?h'" by (rule write_span_holds [OF d(1) ls(1)]; simp)+
    have sp: "spans ?h' = (spans ?h)(s := ?f (spans ?h s))" "pagemap ?h' = pagemap ?h" by (simp_all add: frame)
    have dist: "distinct (nonempty_spans ?c)" "distinct (empty_spans ?c)" "set (nonempty_spans ?c) \<inter> set (empty_spans ?c) = {}"
      using l by (auto simp: lists_ok_def spans_of_def)
    have rc: "set (nonempty_spans c') = {t \<in> set (spans_of ?c). objects (spans ?h' t) \<noteq> []}"
      "set (empty_spans c') = {t \<in> set (spans_of ?c). objects (spans ?h' t) = []}" "distinct (spans_of c')"
      using l s Cons dist by (auto simp: c'_def lists_ok_def spans_of_def frame unlink_span_def remove1_idem)
    have ob: "distinct rest" "distinct taken" "set taken \<inter> set rest = {}" "set rest \<subseteq> set (objects (spans ?h s))"
      "set (objects (spans ?h s)) = set taken \<union> set rest"
      using ls(4) unfolding ft(1) [symmetric] by auto
    have ch: "lists_ok ?sm H ?h' cl c'" "set (spans_of c') = set (spans_of ?c)"
      by (rule lists_ok_change [OF l s sp _ _ _ _ _ _ _ rc(3) _ _ rc(1,2)];
          use ls(2,5,6) ob r l cnt len bd(3) [OF s] in \<open>auto simp: c'_def lists_ok_def\<close>)+
    have tk: "taken_slots ?sm ?h cl ?c = (\<Union>t \<in> set (spans_of ?c) - {s}. slots ?sm cl (spans ?h t) - set (objects (spans ?h t)))
      \<union> (slots ?sm cl (spans ?h s) - set (objects (spans ?h s)))" by (rule taken_change(2) [OF refl s _ refl]) simp
    have tk': "taken_slots ?sm ?h' cl c' = (\<Union>t \<in> set (spans_of ?c) - {s}. slots ?sm cl (spans ?h t) - set (objects (spans ?h t)))
      \<union> (slots ?sm cl (spans ?h s) - set (objects (?f (spans ?h s))))"
      by (rule taken_change(1) [OF ch(2) s sp(1)]) simp
    have t': "taken_slots ?sm ?h' cl c' = taken_slots ?sm ?h cl ?c \<union> set taken"
      unfolding tk tk' using ob(3,5) ls(5) by auto
    have fresh: "set taken \<inter> taken_slots ?sm ?h cl ?c = {}"
    proof -
      have "x \<notin> taken_slots ?sm ?h cl ?c" if "x \<in> set taken" for x
        unfolding tk using taken_others [OF ok cl s, of x] ls(5) ob(5) that by blast
      then show ?thesis by blast
    qed
    have tcs: "tc_ok ?sm cl (taken_slots ?sm ?h' cl c') c'" "tc_objects c' = tc_objects ?c"
      by (rule tc_ok_same [OF d(7) [OF cl(2)]]; use d(7) [OF cl(2)] t' in \<open>auto simp: c'_def tc_ok_def\<close>)+
    have "central_to E mapped a H st ((outstanding st)(cl := taken_slots ?sm (pageheap ?st) cl c' - set (tc_objects c'))) H ?st"
    proof (rule central_update [OF ok _ cl(2)])
      show "cache_ok H (pageheap ?st)" by (rule cache_ok_frame [OF d(4)]) (auto simp: upd_span_def)
      show "untouched (H - set (spans_of ?c)) ?h (pageheap ?st)" using untouched_mono [OF w(2)] s by (simp add: subset_iff) blast
    qed (use w(1) ch tcs(1) cl(1) in \<open>simp_all add: upd_span_def\<close>)
    moreover have "taken_slots ?sm (pageheap ?st) cl c' - set (tc_objects c') = outstanding st cl \<union> set taken"
    proof -
      have "set (tc_objects ?c) \<inter> set taken = {}" using fresh d(7) [OF cl(2)] by (auto simp: tc_ok_def)
      then show ?thesis using t' by (auto simp: tcs(2) outstanding_def)
    qed
    moreover have "tc_same cl st ?st" by (simp add: tc_same_def c'_def)
    ultimately show ?thesis unfolding fe outcome_simps prod.case
      using ft(2,3) ob(2) fresh Cons by (auto simp: outstanding_def)
  qed
qed

end
