(* ===== verification/CentralRemove.thy ===== *)
theory CentralRemove
  imports CentralFetch
begin

text \<open>
  \<open>CentralFreeList::RemoveRange\<close>: a chain from the transfer cache, or one that is collected from the
  spans, after a new span was fetched where necessary.
\<close>

text \<open>What a fetch yields: \<open>chain\<close> was not outstanding, and is now.\<close>

definition fetched ::
  "'o env \<Rightarrow> ('o \<Rightarrow> nat set) \<Rightarrow> bool \<Rightarrow> nat set \<Rightarrow> 'o central \<Rightarrow> nat \<Rightarrow> int \<Rightarrow> nat list \<Rightarrow> 'o central \<Rightarrow> bool" where
  "fetched E mapped a H st cl N chain st' \<longleftrightarrow> distinct chain \<and> set chain \<inter> outstanding st cl = {} \<and> int (length chain) \<le> N
     \<and> (\<exists>H'. central_to E mapped a H st ((outstanding st)(cl := outstanding st cl \<union> set chain)) H' st')"

lemma fetched_trans:
  assumes cl: "cl < num_size_classes (size_map st)"
    and c: "central_to E mapped a H st ((outstanding st)(cl := outstanding st cl \<union> set chain)) H1 st1"
      "distinct chain" "set chain \<inter> outstanding st cl = {}"
    and f: "fetched E mapped a H1 st1 cl (N - int (length chain)) new st2"
  shows "fetched E mapped a H st cl N (new @ chain) st2"
proof -
  have o: "outstanding st1 d = ((outstanding st)(cl := outstanding st cl \<union> set chain)) d" if "d < num_size_classes (size_map st)" for d
    by (rule central_to_out [OF c(1) that])
  from f obtain H2 where f2: "distinct new" "set new \<inter> outstanding st1 cl = {}" "int (length new) \<le> N - int (length chain)"
    "central_to E mapped a H1 st1 ((outstanding st1)(cl := outstanding st1 cl \<union> set new)) H2 st2" by (auto simp: fetched_def)
  have "central_to E mapped a H st ((outstanding st)(cl := outstanding st cl \<union> set (new @ chain))) H2 st2"
    by (rule central_to_cong [OF central_to_trans [OF c(1) f2(4)]]) (use o in auto)
  moreover have "distinct (new @ chain)" "set (new @ chain) \<inter> outstanding st cl = {}"
    using c(2,3) f2(1,2) o [OF cl] by auto
  moreover have "int (length (new @ chain)) \<le> N" using f2(3) by simp
  ultimately show ?thesis unfolding fetched_def by blast
qed

lemma FetchFromOneSpansSafe_ok:
  assumes ok: "central_ok E mapped a H st" and tame: "tame mapped" and cl: "0 < cl" "cl < num_size_classes (size_map st)" and N: "1 \<le> N"
  shows "outcome (no_span E cl st) (FetchFromOneSpansSafe E cl N st) (\<lambda>(chain, st'). fetched E mapped a H st cl N chain st'
     \<and> (chain = [] \<longrightarrow> (\<exists>h'. NewWithSizeClass E (class_to_pages (size_map st) cl) cl (pageheap st) = Some (0, h'))))"
  unfolding FetchFromOneSpansSafe_def
proof (rule outcome_bindI [OF outcome_weaken [OF FetchFromOneSpans_ok [OF ok cl]]], simp, goal_cases)
  case (1 x)
  obtain chain st1 where x: "x = (chain, st1)" by (cases x)
  note f = 1(2) [unfolded x prod.case]
  show ?case
  proof (cases "chain = []")
    case True
    then have st1: "st1 = st" using f by simp
    have p: "chain = [] \<longleftrightarrow> True" using True by simp
    have "outcome (no_span E cl st) (Populate E cl st \<bind> FetchFromOneSpans cl N) (\<lambda>(chain, st'). fetched E mapped a H st cl N chain st'
     \<and> (chain = [] \<longrightarrow> (\<exists>h'. NewWithSizeClass E (class_to_pages (size_map st) cl) cl (pageheap st) = Some (0, h'))))"
    proof (rule outcome_bindI [OF Populate_ok [OF ok tame cl]], elim conjE exE)
      fix st2 H2 assume 2: "nonempty_spans (central_cache st2 cl) \<noteq> []
        \<or> (\<exists>h'. NewWithSizeClass E (class_to_pages (size_map st) cl) cl (pageheap st) = Some (0, h'))"
        "central_to E mapped a H st (outstanding st) H2 st2"
      note ok2 = central_to_ok [OF 2(2)]
      have cl2: "cl < num_size_classes (size_map st2)" using cl(2) central_to_size [OF 2(2)] by simp
      have o: "outstanding st2 d = outstanding st d" if "d < num_size_classes (size_map st)" for d by (rule central_to_out [OF 2(2) that])
      show "outcome (no_span E cl st) (FetchFromOneSpans cl N st2) (\<lambda>(chain, st'). fetched E mapped a H st cl N chain st'
     \<and> (chain = [] \<longrightarrow> (\<exists>h'. NewWithSizeClass E (class_to_pages (size_map st) cl) cl (pageheap st) = Some (0, h'))))"
      proof (rule outcome_mono [OF outcome_weaken [OF FetchFromOneSpans_ok [OF ok2 cl(1) cl2]]], simp, goal_cases)
        case (1 y)
        obtain chain2 st3 where y: "y = (chain2, st3)" by (cases y)
        note g = 1(2) [unfolded y prod.case]
        have "central_to E mapped a H st ((outstanding st)(cl := outstanding st cl \<union> set chain2)) H2 st3"
          by (rule central_to_cong [OF central_to_trans [OF 2(2), of "(outstanding st2)(cl := outstanding st2 cl \<union> set chain2)"]])
            (use g o in auto)
        then have "fetched E mapped a H st cl N chain2 st3" using g N o [OF cl(2)] unfolding fetched_def by auto
        moreover have "chain2 = [] \<longrightarrow> (\<exists>h'. NewWithSizeClass E (class_to_pages (size_map st) cl) cl (pageheap st) = Some (0, h'))"
          using g 2(1) by blast
        ultimately show ?case by (simp add: y)
      qed
    qed
    then show ?thesis using True by (simp add: x st1)
  next
    case False
    have "fetched E mapped a H st cl N chain st1" unfolding fetched_def using f N by blast
    then show ?thesis using False by (simp add: x)
  qed
qed

lemma remove_loop_ok:
  assumes "fetched E mapped a H st cl N chain st1" and cl: "0 < cl" "cl < num_size_classes (size_map st)"
  shows "outcome False (remove_loop cl N chain st1) (\<lambda>(chain', st'). fetched E mapped a H st cl N chain' st'
     \<and> length chain \<le> length chain')"
  using assms(1)
proof (induction "nat (N - int (length chain))" arbitrary: chain st1 rule: less_induct)
  case less
  obtain H1 where f: "distinct chain" "set chain \<inter> outstanding st cl = {}"
    "central_to E mapped a H st ((outstanding st)(cl := outstanding st cl \<union> set chain)) H1 st1"
    using less.prems by (auto simp: fetched_def)
  have cl1: "cl < num_size_classes (size_map st1)" using cl(2) central_to_size [OF f(3)] by simp
  show ?case
  proof (cases "int (length chain) < N")
    case True
    have p: "1 \<le> N - int (length chain)" using True by simp
    from FetchFromOneSpans_ok [OF central_to_ok [OF f(3)] cl(1) cl1, of "N - int (length chain)"]
    obtain new st2 where g: "FetchFromOneSpans cl (N - int (length chain)) st1 = Some (new, st2)"
      "distinct new" "set new \<inter> outstanding st1 cl = {}" "int (length new) \<le> N - int (length chain)" "new = [] \<longrightarrow> st2 = st1"
      "central_to E mapped a H1 st1 ((outstanding st1)(cl := outstanding st1 cl \<union> set new)) H1 st2"
      using p unfolding outcome_total by auto
    show ?thesis
    proof (cases "new = []")
      case True
      then have "remove_loop cl N chain st1 = Some (chain, st1)"
        using g(1,5) \<open>int (length chain) < N\<close> by (subst remove_loop.simps) simp
      then show ?thesis using less.prems by simp
    next
      case False
      have "fetched E mapped a H1 st1 cl (N - int (length chain)) new st2" unfolding fetched_def using g by blast
      note ft = fetched_trans [OF cl(2) f(3,1,2) this]
      have "nat (N - int (length (new @ chain))) < nat (N - int (length chain))" using True False by (cases new) auto
      note IH = less.hyps [OF this ft]
      have r: "remove_loop cl N chain st1 = remove_loop cl N (new @ chain) st2"
        using g(1) True False by (subst remove_loop.simps) simp
      show ?thesis unfolding r by (rule outcome_mono [OF IH]) auto
    qed
  next
    case False
    then show ?thesis using less.prems by (subst remove_loop.simps) simp
  qed
qed

lemma RemoveRange_ok:
  assumes ok: "central_ok E mapped a H st" and tame: "tame mapped" and cl: "0 < cl" "cl < num_size_classes (size_map st)" and N: "1 \<le> N"
  shows "outcome (no_span E cl st) (RemoveRange E cl N st) (\<lambda>(n, chain, st'). n = int (length chain) \<and> fetched E mapped a H st cl N chain st'
     \<and> (chain = [] \<longrightarrow> (\<exists>h'. NewWithSizeClass E (class_to_pages (size_map st) cl) cl (pageheap st) = Some (0, h'))))"
proof -
  let ?c = "central_cache st cl"
  have sc: "size_class ?c = cl" using central_okD(6) [OF ok cl(2)] by (simp add: lists_ok_def)
  show ?thesis
  proof (cases "N = num_objects_to_move (size_map st) cl \<and> 0 < used_slots ?c")
    case True
    then have used: "0 < used_slots ?c" by simp
    note p = tc_pop [OF ok cl(2) used disjI1 [OF refl] refl]
    let ?chain = "tc_slots ?c (nat (used_slots ?c - 1))"
    let ?st = "st\<lparr>central_cache := (central_cache st)(cl := ?c\<lparr>used_slots := used_slots ?c - 1\<rparr>)\<rparr>"
    have "fetched E mapped a H st cl N ?chain ?st" unfolding fetched_def using p(1-3,5) True by auto
    moreover have "?chain \<noteq> []" using p(5) True N by auto
    ultimately show ?thesis using True p(5) by (simp add: RemoveRange_def Let_def sc upd_cache_def)
  next
    case False
    show ?thesis unfolding RemoveRange_def Let_def sc if_not_P [OF False]
    proof (rule outcome_bindI [OF FetchFromOneSpansSafe_ok [OF ok tame cl N]], goal_cases)
      case (1 x)
      obtain chain st1 where x: "x = (chain, st1)" by (cases x)
      note f = 1(2) [unfolded x prod.case]
      show ?case
      proof (cases "chain = []")
        case True
        then show ?thesis using f by (simp add: x)
      next
        case False
        have "outcome (no_span E cl st) (remove_loop cl N chain st1 \<bind> (\<lambda>(chain, st). Some (int (length chain), chain, st)))
          (\<lambda>(n, chain, st'). n = int (length chain) \<and> fetched E mapped a H st cl N chain st'
           \<and> (chain = [] \<longrightarrow> (\<exists>h'. NewWithSizeClass E (class_to_pages (size_map st) cl) cl (pageheap st) = Some (0, h'))))"
          by (rule outcome_bindI [OF outcome_weaken [OF remove_loop_ok [OF conjunct1 [OF f] cl]]], simp) (use False in auto)
        then show ?thesis using False by (simp add: x)
      qed
    qed
  qed
qed

end
