(* ===== verification/Sampler.thy ===== *)
theory Sampler
  imports Prelude "HOL-Library.Log_Nat"
begin

text \<open>
  The sampler of allocations: \<^verbatim>\<open>sampler.h\<close> and \<^verbatim>\<open>sampler.cc\<close>. A double is a rational number, and each
  operation on doubles rounds its exact result to 53 bits, to the nearest and to even on a tie.
  The functions \<open>log2\<close> and \<open>log\<close> of the mathematical library are parameters.
\<close>

subsection \<open>Double arithmetic\<close>

definition pow2 :: "int \<Rightarrow> rat" where
  "pow2 e = (if 0 \<le> e then 2 ^ nat e else 1 / 2 ^ nat (- e))"

definition round_even :: "rat \<Rightarrow> int" where
  "round_even y =
     (let f = \<lfloor>y\<rfloor>; d = y - of_int f
      in if d < 1 / 2 then f else if 1 / 2 < d then f + 1 else if even f then f else f + 1)"

text \<open>The exponent \<open>e\<close> of a positive number: it is at least \<open>pow2 e\<close> and less than twice as much.\<close>

definition fp_exponent :: "rat \<Rightarrow> int" where
  "fp_exponent x = (let (p, q) = quotient_of x; e = bitlen p - bitlen q in if x < pow2 e then e - 1 else e)"

definition fp_round_pos :: "rat \<Rightarrow> rat" where
  "fp_round_pos x = (let u = pow2 (fp_exponent x - 52) in of_int (round_even (x / u)) * u)"

definition fp_round :: "rat \<Rightarrow> rat" where
  "fp_round x = (if x = 0 then 0 else if 0 < x then fp_round_pos x else - fp_round_pos (- x))"

definition fp_truncate :: "rat \<Rightarrow> int" where
  "fp_truncate x = (if 0 \<le> x then \<lfloor>x\<rfloor> else \<lceil>x\<rceil>)"

subsection \<open>The model\<close>

text \<open>The flag \<open>FLAGS_tcmalloc_sample_parameter\<close>, which may change at run time, and the library.\<close>

record sampling =
  tcmalloc_sample_parameter :: int
  log2_fn :: "rat \<Rightarrow> rat"
  log_fn :: "rat \<Rightarrow> rat"

record sampler =
  bytes_until_sample :: int
  rnd :: nat
  initialized :: bool

definition Sampler_ctor :: sampler where
  "Sampler_ctor = \<lparr>bytes_until_sample = 0, rnd = 0, initialized = False\<rparr>"

definition NextRandom :: "nat \<Rightarrow> nat" where
  "NextRandom r =
     (let prng_mult = 0x5DEECE66D; prng_add = 0xB; prng_mod_power = 48;
          prng_mod_mask = not64 (shl64 (not64 0) prng_mod_power)
      in (add64 (mul64 prng_mult r) prng_add) AND prng_mod_mask)"

definition GetSamplePeriod :: "sampling \<Rightarrow> int" where
  "GetSamplePeriod S = i32 (tcmalloc_sample_parameter S)"

definition kMaxSSize :: int where
  "kMaxSSize = 2 ^ 63 - 1"

text \<open>\<open>(log2(q) - 26) * (-log(2.0) * FLAGS_tcmalloc_sample_parameter)\<close>, operation by operation.\<close>

definition sample_interval :: "sampling \<Rightarrow> rat \<Rightarrow> rat" where
  "sample_interval S q =
     fp_round (fp_round (log2_fn S q - 26)
               * fp_round (- log_fn S 2 * fp_round (of_int (tcmalloc_sample_parameter S))))"

text \<open>The conversion of a double outside the range of \<open>ssize_t\<close> is undefined.\<close>

definition ssize_of_double :: "rat \<Rightarrow> int option" where
  "ssize_of_double x =
     (let i = fp_truncate x in if - (2 ^ 63) \<le> i \<and> i < 2 ^ 63 then Some i else None)"

definition PickNextSamplingPoint :: "sampling \<Rightarrow> sampler \<Rightarrow> (int \<times> sampler) option" where
  "PickNextSamplingPoint S s =
     (if tcmalloc_sample_parameter S \<le> 0 then Some (16 * 2 ^ 20, s)
      else do {
        let s = s\<lparr>rnd := NextRandom (rnd s)\<rparr>;
        let prng_mod_power = 48;
        let q = fp_round (of_nat (rnd s div 2 ^ (prng_mod_power - 26) mod 2 ^ 32) + 1);
        let interval = sample_interval S q;
        i \<leftarrow> ssize_of_double (min interval (fp_round (of_int kMaxSSize)));
        Some (i, s) })"

text \<open>
  The first \<open>Sampler::Init\<close> of the process also reads \<open>TCMALLOC_SAMPLE_PARAMETER\<close> from the environment into the flag;
  \<open>tcmalloc_sample_parameter S\<close> is the value of the flag after that.
\<close>

definition Sampler_Init :: "sampling \<Rightarrow> nat \<Rightarrow> sampler \<Rightarrow> sampler option" where
  "Sampler_Init S seed s = do {
     let s = s\<lparr>rnd := (NextRandom ^^ 20) seed\<rparr>;
     (i, s) \<leftarrow> PickNextSamplingPoint S s;
     Some (s\<lparr>bytes_until_sample := i\<rparr>) }"

text \<open>
  The address of the sampler is the seed. A difference of \<open>ssize_t\<close> and \<open>size_t\<close> is taken modulo
  \<open>2 ^ 64\<close>.
\<close>

definition RecordAllocationSlow :: "sampling \<Rightarrow> nat \<Rightarrow> nat \<Rightarrow> sampler \<Rightarrow> (bool \<times> sampler) option" where
  "RecordAllocationSlow S this k s = do {
     s' \<leftarrow> (if \<not> initialized s then Sampler_Init S this (s\<lparr>initialized := True\<rparr>) else Some s);
     if \<not> initialized s \<and> k \<le> u64_of_int (bytes_until_sample s')
     then Some (True, s'\<lparr>bytes_until_sample := ssize64 (bytes_until_sample s' - int k)\<rparr>)
     else do {
       (i, s') \<leftarrow> PickNextSamplingPoint S s';
       Some (tcmalloc_sample_parameter S \<le> 0, s'\<lparr>bytes_until_sample := i\<rparr>) } }"

definition RecordAllocation :: "sampling \<Rightarrow> nat \<Rightarrow> nat \<Rightarrow> sampler \<Rightarrow> (bool \<times> sampler) option" where
  "RecordAllocation S this k s =
     (if u64_of_int (bytes_until_sample s) < k then RecordAllocationSlow S this k s
      else Some (True, s\<lparr>bytes_until_sample := ssize64 (bytes_until_sample s - int k)\<rparr>))"

definition TryRecordAllocationFast :: "nat \<Rightarrow> sampler \<Rightarrow> bool \<times> sampler" where
  "TryRecordAllocationFast k s =
     (let s = s\<lparr>bytes_until_sample := ssize64 (bytes_until_sample s - ssize64 (int k))\<rparr>
      in if bytes_until_sample s < 0
         then (False, s\<lparr>bytes_until_sample := ssize64 (bytes_until_sample s + int k)\<rparr>)
         else (True, s))"

subsection \<open>Rounding\<close>

lemma pow2_pos [simp]: "0 < pow2 e"
  by (simp add: pow2_def)

lemma pow2_diff: "2 ^ a / 2 ^ b = pow2 (int a - int b)"
proof (cases "b \<le> a")
  case True
  then show ?thesis by (simp add: pow2_def power_diff nat_diff_distrib)
next
  case False
  then have "(2::rat) ^ b = 2 ^ (b - a) * 2 ^ a" by (simp flip: power_add)
  with False show ?thesis by (simp add: pow2_def nat_diff_distrib)
qed

lemma fp_exponent_le:
  assumes "0 < x"
  shows "pow2 (fp_exponent x) \<le> x"
proof -
  obtain p q where pq: "quotient_of x = (p, q)" by (cases "quotient_of x")
  have q: "0 < q" using quotient_of_denom_pos [OF pq] .
  have x: "x = of_int p / of_int q" using quotient_of_div [OF pq] .
  with assms q have p: "0 < p" by (simp add: zero_less_divide_iff)
  have bp: "2 ^ nat (bitlen p - 1) \<le> p" and bq: "q < 2 ^ nat (bitlen q)"
    using bitlen_bounds [OF p] bitlen_bounds [OF q] by auto
  have "rat_of_int (2 ^ nat (bitlen p - 1)) \<le> of_int p" using bp by (rule of_int_le_iff [THEN iffD2])
  moreover have "rat_of_int q \<le> of_int (2 ^ nat (bitlen q))" using bq by (simp only: of_int_le_iff)
  ultimately have "2 ^ nat (bitlen p - 1) / 2 ^ nat (bitlen q) \<le> x"
    unfolding x using p q by (intro frac_le) auto
  moreover have "1 \<le> bitlen p" "0 \<le> bitlen q" using p by (auto simp: bitlen_ge_iff_power bitlen_nonneg)
  ultimately have "pow2 (bitlen p - bitlen q - 1) \<le> x" by (simp add: pow2_diff algebra_simps)
  then show ?thesis by (simp add: fp_exponent_def pq Let_def)
qed

lemma round_even_bounds: "y - 1 / 2 \<le> of_int (round_even y)" "of_int (round_even y) \<le> y + 1 / 2"
  using of_int_floor_le [of y] less_floor_iff [of "\<lfloor>y\<rfloor> - 1" y] floor_correct [of y]
  unfolding round_even_def Let_def by (simp_all add: field_simps split: if_splits, linarith+)

lemma fp_round_nonneg: "0 \<le> x \<Longrightarrow> 0 \<le> fp_round x"
proof -
  assume x: "0 \<le> x"
  have "0 \<le> round_even y" if "0 \<le> y" for y :: rat using that by (simp add: round_even_def Let_def)
  with x show ?thesis by (simp add: fp_round_def fp_round_pos_def Let_def zero_le_mult_iff less_imp_le)
qed

lemma fp_round_minus: "fp_round (- x) = - fp_round x"
  by (auto simp: fp_round_def)

lemma pow2_split: "pow2 (e - 52) * 2 ^ 52 = pow2 e"
proof -
  have "pow2 (e - 52) = 2 ^ nat e / 2 ^ (52 + nat (- e))" unfolding pow2_diff by (rule arg_cong [where f = pow2]) simp
  moreover have "pow2 e = 2 ^ nat e / 2 ^ nat (- e)" unfolding pow2_diff by (rule arg_cong [where f = pow2]) simp
  ultimately show ?thesis by (simp only: power_add) simp
qed

lemma fp_round_le:
  assumes "0 \<le> x"
  shows "fp_round x \<le> x * (1 + 1 / 2 ^ 53)"
proof (cases "x = 0")
  case False
  let ?u = "pow2 (fp_exponent x - 52)"
  from assms False have x: "0 < x" by simp
  have u: "?u * 2 ^ 52 \<le> x" using fp_exponent_le [OF x] by (simp only: pow2_split)
  have "of_int (round_even (x / ?u)) * ?u \<le> (x / ?u + 1 / 2) * ?u"
    by (intro mult_right_mono round_even_bounds) (simp add: less_imp_le)
  also have "\<dots> = x + ?u / 2" using pow2_pos [of "fp_exponent x - 52"] by (simp add: add_divide_distrib distrib_right less_imp_neq [symmetric])
  also have "\<dots> \<le> x + x / 2 ^ 53" using u by simp
  finally show ?thesis using x by (simp add: fp_round_def fp_round_pos_def Let_def field_simps)
qed (simp add: fp_round_def)

lemma fp_round_max: "fp_round (of_int kMaxSSize) = 2 ^ 63"
  by code_simp

lemma fp_round_of_nat:
  assumes "n \<le> 2 ^ 52"
  shows "fp_round (of_nat n) = of_nat n"
proof (cases "n = 0")
  case False
  let ?e = "fp_exponent (of_nat n)"
  have "pow2 ?e \<le> of_nat n" using False by (intro fp_exponent_le) simp
  also have "\<dots> \<le> of_nat (2 ^ 52)" using assms by (rule of_nat_mono)
  finally have e: "pow2 ?e \<le> 2 ^ 52" by simp
  have le: "?e \<le> 52"
  proof (rule ccontr)
    assume "\<not> ?e \<le> 52"
    then have "(2::rat) ^ 52 < 2 ^ nat ?e" by (intro power_strict_increasing) simp_all
    with e \<open>\<not> ?e \<le> 52\<close> show False by (simp add: pow2_def)
  qed
  define k where "k = nat (52 - ?e)"
  have u: "pow2 (?e - 52) = 1 / 2 ^ k" using le by (simp add: pow2_def k_def)
  have "round_even (of_nat n / (1 / 2 ^ k)) = int (n * 2 ^ k)"
  proof -
    have "of_nat n / (1 / 2 ^ k) = rat_of_int (int (n * 2 ^ k))" by simp
    then show ?thesis by (simp only: round_even_def floor_of_int Let_def) simp
  qed
  with False show ?thesis by (simp add: fp_round_def fp_round_pos_def u Let_def)
qed (simp add: fp_round_def)

subsection \<open>The interval between samples\<close>

definition libm_ok :: "sampling \<Rightarrow> bool" where
  "libm_ok S \<longleftrightarrow> (\<forall>q. 1 \<le> q \<and> q \<le> 2 ^ 26 \<longrightarrow> 0 \<le> log2_fn S q \<and> log2_fn S q \<le> 26)
     \<and> 0 \<le> log_fn S 2 \<and> log_fn S 2 \<le> 7 / 10"

lemma NextRandom_bound: "NextRandom r < 2 ^ 48"
proof -
  have "not64 (shl64 (not64 0) 48) = 2 ^ 48 - 1" by (simp add: not64_def shl64_def)
  then show ?thesis by (simp add: NextRandom_def and_low_mask [of _ 48, simplified])
qed

lemma sample_interval_bounds:
  assumes lib: "libm_ok S" and q: "1 \<le> q" "q \<le> 2 ^ 26" and p: "0 \<le> tcmalloc_sample_parameter S" "tcmalloc_sample_parameter S \<le> 2 ^ 58"
  shows "0 \<le> sample_interval S q" "sample_interval S q < 2 ^ 63"
proof -
  let ?p = "rat_of_int (tcmalloc_sample_parameter S)" and ?d = "1 + 1 / 2 ^ 53 :: rat"
  have l: "0 \<le> 26 - log2_fn S q" "26 - log2_fn S q \<le> 26" "0 \<le> log_fn S 2" "log_fn S 2 \<le> 7 / 10"
    using lib q by (auto simp: libm_ok_def)
  define a where "a = fp_round (26 - log2_fn S q)"
  define b where "b = fp_round ?p"
  define c where "c = fp_round (log_fn S 2 * b)"
  have a: "0 \<le> a" "a \<le> 26 * ?d" using fp_round_nonneg [OF l(1)] order_trans [OF fp_round_le [OF l(1)] mult_right_mono [OF l(2), of ?d]]
    by (simp_all add: a_def)
  have b: "0 \<le> b" "b \<le> 2 ^ 58 * ?d"
    using fp_round_nonneg [of ?p] order_trans [OF fp_round_le [of ?p] mult_right_mono [of ?p "2 ^ 58" ?d]] p by (simp_all add: b_def)
  have lb: "0 \<le> log_fn S 2 * b" "log_fn S 2 * b \<le> 7 / 10 * (2 ^ 58 * ?d)"
    by (rule mult_nonneg_nonneg [OF l(3) b(1)], rule mult_mono [OF l(4) b(2) _ b(1)]) simp
  have c: "0 \<le> c" "c \<le> 7 / 10 * (2 ^ 58 * ?d) * ?d"
    using fp_round_nonneg [OF lb(1)] order_trans [OF fp_round_le [OF lb(1)] mult_right_mono [OF lb(2), of ?d]] by (simp_all add: c_def)
  have ac: "0 \<le> a * c" "a * c \<le> 26 * ?d * (7 / 10 * (2 ^ 58 * ?d) * ?d)"
    by (rule mult_nonneg_nonneg [OF a(1) c(1)], rule mult_mono [OF a(2) c(2) _ c(1)]) simp
  have eq: "sample_interval S q = fp_round (a * c)"
    using fp_round_minus [of "26 - log2_fn S q"] fp_round_minus [of "log_fn S 2 * b"]
    by (simp add: sample_interval_def a_def b_def c_def)
  show "0 \<le> sample_interval S q" unfolding eq by (rule fp_round_nonneg [OF ac(1)])
  have "fp_round (a * c) \<le> 26 * ?d * (7 / 10 * (2 ^ 58 * ?d) * ?d) * ?d"
    by (rule order_trans [OF fp_round_le [OF ac(1)] mult_right_mono [OF ac(2)]]) simp
  also have "\<dots> < 2 ^ 63" by (simp add: field_simps)
  finally show "sample_interval S q < 2 ^ 63" unfolding eq .
qed

lemma PickNext_ok:
  assumes "libm_ok S" "tcmalloc_sample_parameter S \<le> 2 ^ 58"
  shows "\<exists>i s'. PickNextSamplingPoint S s = Some (i, s') \<and> 0 \<le> i \<and> i < 2 ^ 63 \<and> initialized s' = initialized s"
proof (cases "tcmalloc_sample_parameter S \<le> 0")
  case False
  define r where "r = NextRandom (rnd s)"
  define m where "m = r div 2 ^ 22 mod 2 ^ 32"
  have m: "m < 2 ^ 26" using NextRandom_bound [of "rnd s"] by (simp add: m_def r_def less_mult_imp_div_less)
  then have q: "fp_round (of_nat m + 1) = of_nat m + 1" using fp_round_of_nat [of "Suc m"] by (simp add: add.commute)
  have qb: "1 \<le> rat_of_nat m + 1" "rat_of_nat m + 1 \<le> 2 ^ 26" using of_nat_mono [of "Suc m" "2 ^ 26"] m by auto
  note iv = sample_interval_bounds [OF assms(1) qb, OF _ assms(2)]
  define x where "x = sample_interval S (of_nat m + 1)"
  have x: "0 \<le> x" "x < 2 ^ 63" using iv False by (auto simp: x_def)
  then have "0 \<le> \<lfloor>x\<rfloor>" "\<lfloor>x\<rfloor> < 2 ^ 63" by (auto simp: floor_less_iff)
  then have "ssize_of_double (min x (2 ^ 63)) = Some \<lfloor>x\<rfloor>" using x by (simp add: ssize_of_double_def fp_truncate_def Let_def)
  with False \<open>0 \<le> \<lfloor>x\<rfloor>\<close> \<open>\<lfloor>x\<rfloor> < 2 ^ 63\<close> show ?thesis
    unfolding PickNextSamplingPoint_def fp_round_max
    by (simp add: Let_def q x_def [symmetric] m_def [symmetric] r_def [symmetric] flip: m_def [simplified])
qed (simp add: PickNextSamplingPoint_def)

lemma Sampler_Init_ok:
  assumes "libm_ok S" "tcmalloc_sample_parameter S \<le> 2 ^ 58"
  shows "\<exists>s'. Sampler_Init S seed s = Some s' \<and> 0 \<le> bytes_until_sample s' \<and> bytes_until_sample s' < 2 ^ 63 \<and> initialized s' = initialized s"
  using PickNext_ok [OF assms, of "s\<lparr>rnd := (NextRandom ^^ 20) seed\<rparr>"] by (auto simp: Sampler_Init_def Let_def)

subsection \<open>Recording allocations\<close>

definition sampler_ok :: "sampler \<Rightarrow> bool" where
  "sampler_ok s \<longleftrightarrow> 0 \<le> bytes_until_sample s \<and> bytes_until_sample s < 2 ^ 63"

lemma sampler_ok_u64: "sampler_ok s \<Longrightarrow> int (u64_of_int (bytes_until_sample s)) = bytes_until_sample s"
  by (simp add: sampler_ok_def u64)

lemma RecordAllocation_counts:
  assumes "sampler_ok s" "int k \<le> bytes_until_sample s"
  shows "RecordAllocation S this k s = Some (True, s\<lparr>bytes_until_sample := bytes_until_sample s - int k\<rparr>)"
  using assms sampler_ok_u64 [OF assms(1)] by (auto simp: RecordAllocation_def sampler_ok_def)

lemma RecordAllocationSlow_ok:
  assumes "libm_ok S" "tcmalloc_sample_parameter S \<le> 2 ^ 58"
  shows "\<exists>r s'. RecordAllocationSlow S this k s = Some (r, s') \<and> sampler_ok s'
     \<and> (tcmalloc_sample_parameter S \<le> 0 \<longrightarrow> r) \<and> (0 < tcmalloc_sample_parameter S \<and> initialized s \<longrightarrow> \<not> r)"
proof (cases "initialized s")
  case True
  then show ?thesis using PickNext_ok [OF assms, of s] by (auto simp: RecordAllocationSlow_def sampler_ok_def)
next
  case False
  obtain s1 where s1: "Sampler_Init S this (s\<lparr>initialized := True\<rparr>) = Some s1" "sampler_ok s1"
    using Sampler_Init_ok [OF assms] by (auto simp: sampler_ok_def)
  show ?thesis
  proof (cases "k \<le> u64_of_int (bytes_until_sample s1)")
    case True
    then have "int k \<le> bytes_until_sample s1" using sampler_ok_u64 [OF s1(2)] by linarith
    with True False s1 show ?thesis by (auto simp: RecordAllocationSlow_def sampler_ok_def)
  next
    case False
    then show ?thesis using PickNext_ok [OF assms, of s1] s1 \<open>\<not> initialized s\<close> by (auto simp: RecordAllocationSlow_def sampler_ok_def)
  qed
qed

primrec record_all :: "sampling \<Rightarrow> nat \<Rightarrow> nat list \<Rightarrow> sampler \<Rightarrow> (bool list \<times> sampler) option" where
  "record_all S this [] s = Some ([], s)"
| "record_all S this (k # ks) s = do {
     (r, s) \<leftarrow> RecordAllocation S this k s;
     (rs, s) \<leftarrow> record_all S this ks s;
     Some (r # rs, s) }"

lemma record_all_counts:
  assumes "sampler_ok s" "int (sum_list ks) \<le> bytes_until_sample s"
  shows "record_all S this ks s = Some (replicate (length ks) True, s\<lparr>bytes_until_sample := bytes_until_sample s - int (sum_list ks)\<rparr>)"
  using assms
proof (induction ks arbitrary: s)
  case (Cons k ks)
  let ?s = "s\<lparr>bytes_until_sample := bytes_until_sample s - int k\<rparr>"
  have "sampler_ok ?s" using Cons.prems by (simp add: sampler_ok_def)
  from Cons.IH [OF this] Cons.prems(2) RecordAllocation_counts [OF Cons.prems(1), of k S this] show ?case
    by (simp add: algebra_simps)
qed simp

lemma RecordAllocation_slow:
  "sampler_ok s \<Longrightarrow> bytes_until_sample s < int k \<Longrightarrow> RecordAllocation S this k s = RecordAllocationSlow S this k s"
  using sampler_ok_u64 [of s] by (auto simp: RecordAllocation_def)

text \<open>C31 While sampling is on, the counter tells exactly when the next sample is due: allocations of
  no more bytes together than \<open>bytes_until_sample_\<close> are not sampled, the allocation that contains
  the next byte is, and the counter is then in range again. The flag is at most \<open>2 ^ 58\<close>, and
  the library functions satisfy \<open>0 \<le> log2 q \<le> 26\<close> for \<open>1 \<le> q \<le> 2 ^ 26\<close> and \<open>0 \<le> log 2 \<le> 0.7\<close>.\<close>

theorem sampler_spacing:
  assumes "libm_ok S" "0 < tcmalloc_sample_parameter S" "tcmalloc_sample_parameter S \<le> 2 ^ 58"
    and "sampler_ok s" "initialized s"
    and "int (sum_list ks) \<le> bytes_until_sample s" "bytes_until_sample s < int (sum_list ks + k)"
  shows "\<exists>s' s''. record_all S this ks s = Some (replicate (length ks) True, s')
     \<and> RecordAllocation S this k s' = Some (False, s'') \<and> sampler_ok s''"
proof -
  let ?s = "s\<lparr>bytes_until_sample := bytes_until_sample s - int (sum_list ks)\<rparr>"
  have "sampler_ok ?s" using assms(4,6) by (simp add: sampler_ok_def)
  then show ?thesis
    using record_all_counts [OF assms(4,6), of S this] RecordAllocationSlow_ok [OF assms(1,3), of this k ?s] assms(2,5,7)
    by (auto simp: RecordAllocation_slow)
qed

definition sampling_instance :: "int \<Rightarrow> sampling" where
  "sampling_instance p = \<lparr>tcmalloc_sample_parameter = p, log2_fn = (\<lambda>_. 0), log_fn = (\<lambda>_. 7 / 10)\<rparr>"

theorem sampler_spacing_witness:
  "\<exists>s' s''. record_all (sampling_instance 524288) 64 [8, 40] \<lparr>bytes_until_sample = 50, rnd = 1, initialized = True\<rparr>
       = Some ([True, True], s')
     \<and> RecordAllocation (sampling_instance 524288) 64 3 s' = Some (False, s'') \<and> sampler_ok s''"
  using sampler_spacing [of "sampling_instance 524288" "\<lparr>bytes_until_sample = 50, rnd = 1, initialized = True\<rparr>" "[8, 40]" 3 64]
  by (simp add: libm_ok_def sampling_instance_def sampler_ok_def numeral_2_eq_2)

text \<open>C32 The test of the malloc fast path is the full one restricted to the case that needs no more
  work: it either does exactly what \<open>RecordAllocation\<close> does, or changes nothing and asks for it.\<close>

theorem TryRecord_agrees:
  assumes "sampler_ok s" "k < 2 ^ 63"
  shows "if int k \<le> bytes_until_sample s
     then RecordAllocation S this k s = Some (TryRecordAllocationFast k s) \<and> fst (TryRecordAllocationFast k s)
     else TryRecordAllocationFast k s = (False, s)"
proof -
  have "int k < 2 ^ 63" using assms(2) by (metis of_nat_less_iff of_nat_numeral of_nat_power)
  then have "ssize64 (int k) = int k" "ssize64 (bytes_until_sample s - int k) = bytes_until_sample s - int k"
    "ssize64 (bytes_until_sample s) = bytes_until_sample s"
    using assms(1) by (auto simp: sampler_ok_def)
  then show ?thesis using RecordAllocation_counts [OF assms(1), of k S this]
    by (simp add: TryRecordAllocationFast_def Let_def)
qed

theorem TryRecord_agrees_witness:
  "RecordAllocation (sampling_instance 0) 64 8 \<lparr>bytes_until_sample = 50, rnd = 1, initialized = True\<rparr>
     = Some (TryRecordAllocationFast 8 \<lparr>bytes_until_sample = 50, rnd = 1, initialized = True\<rparr>)"
  using TryRecord_agrees [of "\<lparr>bytes_until_sample = 50, rnd = 1, initialized = True\<rparr>" 8 "sampling_instance 0" 64]
  by (simp add: sampler_ok_def)

text \<open>C33 The clamp of the interval does not clamp: \<open>kMaxSSize\<close> becomes \<open>2 ^ 63\<close> as a double, so for a
  flag so large that the interval reaches that, the conversion to \<open>ssize_t\<close> is undefined.\<close>

theorem PickNext_undefined:
  assumes "0 < tcmalloc_sample_parameter S"
    and "2 ^ 63 \<le> sample_interval S (fp_round (of_nat (NextRandom (rnd s) div 2 ^ 22 mod 2 ^ 32) + 1))"
  shows "PickNextSamplingPoint S s = None"
  using assms unfolding PickNextSamplingPoint_def fp_round_max
  by (simp add: Let_def min_def ssize_of_double_def fp_truncate_def)

lemma sampling_instance_interval: "sample_interval (sampling_instance p) q = sample_interval (sampling_instance p) r"
  by (simp add: sample_interval_def sampling_instance_def)

theorem PickNext_undefined_witness:
  "PickNextSamplingPoint (sampling_instance (2 ^ 60)) \<lparr>bytes_until_sample = 0, rnd = 1, initialized = True\<rparr> = None"
  by (rule PickNext_undefined) (simp add: sampling_instance_def, subst sampling_instance_interval [of _ _ 1], code_simp)

end
