(* ===== verification/ThreadCache.thy ===== *)
theory ThreadCache
  imports CentralRemove Sampler
begin

text \<open>
  The thread caches: \<^verbatim>\<open>thread_cache.h\<close> and \<^verbatim>\<open>thread_cache.cc\<close>. A free list is the list of the addresses
  on it; the list of all caches, which the source links through \<open>next_\<close> and \<open>prev_\<close>, is a list of
  the addresses of the caches. Fields of 32 bits wrap. A thread is not interrupted within an
  operation. \<^term>\<open>None\<close> is a crash or an endless loop.
\<close>

subsection \<open>Constants and arithmetic\<close>

definition kMaxThreadCacheSize :: nat where
  "kMaxThreadCacheSize = 4 * 2 ^ 20"

definition kDefaultOverallThreadCacheSize :: nat where
  "kDefaultOverallThreadCacheSize = 8 * kMaxThreadCacheSize"

definition kMinThreadCacheSize :: nat where
  "kMinThreadCacheSize = kMaxSize * 2"

definition kStealAmount :: nat where
  "kStealAmount = 2 ^ 16"

definition kMaxOverages :: nat where
  "kMaxOverages = 3"

definition kMaxDynamicFreeListLength :: nat where
  "kMaxDynamicFreeListLength = 8192"

text \<open>The value of a 32-bit unsigned variable after an assignment.\<close>

definition u32 :: "int \<Rightarrow> nat" where
  "u32 x = nat (x mod 2 ^ 32)"

subsection \<open>Free lists\<close>

record freelist =
  chain_of :: "nat list"
  fl_length :: nat
  lowater :: nat
  max_length :: nat
  length_overages :: nat
  object_size :: int

definition FreeList_Init :: "nat \<Rightarrow> freelist" where
  "FreeList_Init sz = \<lparr>chain_of = [], fl_length = 0, lowater = 0, max_length = 1, length_overages = 0, object_size = i32 (int sz)\<rparr>"

definition set_max_length :: "nat \<Rightarrow> freelist \<Rightarrow> freelist" where
  "set_max_length new_max l = l\<lparr>max_length := new_max mod 2 ^ 32\<rparr>"

definition set_length_overages :: "nat \<Rightarrow> freelist \<Rightarrow> freelist" where
  "set_length_overages new_count l = l\<lparr>length_overages := new_count mod 2 ^ 32\<rparr>"

definition clear_lowwatermark :: "freelist \<Rightarrow> freelist" where
  "clear_lowwatermark l = l\<lparr>lowater := fl_length l\<rparr>"

definition Push :: "nat \<Rightarrow> freelist \<Rightarrow> nat \<times> freelist" where
  "Push ptr l = (let n = (fl_length l + 1) mod 2 ^ 32 in (n, l\<lparr>chain_of := ptr # chain_of l, fl_length := n\<rparr>))"

text \<open>The length and the low-water mark after \<open>N\<close> objects were taken off the list.\<close>

definition shorten :: "int \<Rightarrow> freelist \<Rightarrow> freelist" where
  "shorten N l =
     (let n = u32 (int (fl_length l) - N)
      in l\<lparr>fl_length := n, lowater := (if n < lowater l then n else lowater l)\<rparr>)"

definition Pop :: "freelist \<Rightarrow> (nat \<times> freelist) option" where
  "Pop l = (case chain_of l of [] \<Rightarrow> None | x # xs \<Rightarrow> Some (x, (shorten 1 l)\<lparr>chain_of := xs\<rparr>))"

definition TryPop :: "freelist \<Rightarrow> (nat \<times> freelist) option" where
  "TryPop l = (case chain_of l of [] \<Rightarrow> None | x # xs \<Rightarrow> Some (x, (shorten 1 l)\<lparr>chain_of := xs\<rparr>))"

definition PushRange :: "int \<Rightarrow> nat list \<Rightarrow> freelist \<Rightarrow> freelist" where
  "PushRange N xs l = l\<lparr>chain_of := xs @ chain_of l, fl_length := u32 (int (fl_length l) + N)\<rparr>"

text \<open>\<open>SLL_PopRange\<close> follows \<open>N - 1\<close> links from the head, and takes nothing for \<open>N = 0\<close>.\<close>

definition PopRange :: "int \<Rightarrow> freelist \<Rightarrow> (nat list \<times> freelist) option" where
  "PopRange N l =
     (if N = 0 then Some ([], shorten N l)
      else if chain_of l = [] \<or> length (chain_of l) < nat N then None
      else let n = max 1 (nat N) in Some (take n (chain_of l), (shorten N l)\<lparr>chain_of := drop n (chain_of l)\<rparr>))"

subsection \<open>State\<close>

record thread_cache =
  list_of :: "nat \<Rightarrow> freelist"
  cached_size :: int
  max_size :: int
  sampler_of :: sampler

record 'o tcmalloc =
  ctl :: "'o central"
  heaps :: "nat \<Rightarrow> thread_cache"
  thread_heaps :: "nat list"
  thread_heap_count :: int
  next_memory_steal :: nat
  min_per_thread_cache_size :: nat
  overall_thread_cache_size :: nat
  per_thread_cache_size :: nat
  unclaimed_cache_space :: int
  threadcache_allocator :: object_pool

type_synonym ('o, 'm) tcm = "('o, 'm) tcmalloc_scheme"

definition sizeof_ThreadCache :: nat where
  "sizeof_ThreadCache = 4160"

definition upd_heap :: "nat \<Rightarrow> (thread_cache \<Rightarrow> thread_cache) \<Rightarrow> ('o, 'm) tcm \<Rightarrow> ('o, 'm) tcm" where
  "upd_heap heap f st = st\<lparr>heaps := (heaps st)(heap := f (heaps st heap))\<rparr>"

definition upd_list :: "nat \<Rightarrow> nat \<Rightarrow> (freelist \<Rightarrow> freelist) \<Rightarrow> ('o, 'm) tcm \<Rightarrow> ('o, 'm) tcm" where
  "upd_list heap cl f = upd_heap heap (\<lambda>c. c\<lparr>list_of := (list_of c)(cl := f (list_of c cl))\<rparr>)"

abbreviation sizes :: "('o, 'm) tcm \<Rightarrow> sizemap" where
  "sizes st \<equiv> size_map (ctl st)"

abbreviation the_list :: "nat \<Rightarrow> nat \<Rightarrow> ('o, 'm) tcm \<Rightarrow> freelist" where
  "the_list heap cl st \<equiv> list_of (heaps st heap) cl"

text \<open>The successor in the list of caches; null after the last.\<close>

fun next_heap :: "nat \<Rightarrow> nat list \<Rightarrow> nat" where
  "next_heap h (x # y # ys) = (if h = x then y else next_heap h (y # ys))"
| "next_heap h _ = 0"

definition first_heap :: "nat list \<Rightarrow> nat" where
  "first_heap hs = (case hs of [] \<Rightarrow> 0 | h # _ \<Rightarrow> h)"

subsection \<open>Shares of the total cache size\<close>

definition SetMaxSize :: "nat \<Rightarrow> int \<Rightarrow> ('o, 'm) tcm \<Rightarrow> ('o, 'm) tcm" where
  "SetMaxSize heap new_max_size = upd_heap heap (\<lambda>c. c\<lparr>max_size := i32 new_max_size\<rparr>)"

text \<open>
  The loop that looks for a cache to steal from. The test compares the 32-bit signed \<open>max_size_\<close>
  with a \<open>size_t\<close>; a null pointer is followed when there is no cache at all.
\<close>

primrec steal_loop :: "nat \<Rightarrow> nat \<Rightarrow> ('o, 'm) tcm \<Rightarrow> ('o, 'm) tcm option" where
  "steal_loop 0 this st = Some st"
| "steal_loop (Suc i) this st =
     (let st = (if next_memory_steal st = 0 then st\<lparr>next_memory_steal := first_heap (thread_heaps st)\<rparr> else st);
          v = next_memory_steal st;
          advanced = st\<lparr>next_memory_steal := next_heap v (thread_heaps st)\<rparr>
      in if v = this then steal_loop i this advanced
         else if v = 0 then None
         else if u64_of_int (max_size (heaps st v)) \<le> min_per_thread_cache_size st then steal_loop i this advanced
         else let st = SetMaxSize v (max_size (heaps st v) - int kStealAmount) st;
                  st = SetMaxSize this (max_size (heaps st this) + int kStealAmount) st
              in Some (st\<lparr>next_memory_steal := next_heap v (thread_heaps st)\<rparr>))"

definition IncreaseCacheLimitLocked :: "nat \<Rightarrow> ('o, 'm) tcm \<Rightarrow> ('o, 'm) tcm option" where
  "IncreaseCacheLimitLocked this st =
     (if 0 < unclaimed_cache_space st then
        let st = st\<lparr>unclaimed_cache_space := ssize64 (unclaimed_cache_space st - int kStealAmount)\<rparr>
        in Some (SetMaxSize this (max_size (heaps st this) + int kStealAmount) st)
      else steal_loop 10 this st)"

definition IncreaseCacheLimit :: "nat \<Rightarrow> ('o, 'm) tcm \<Rightarrow> ('o, 'm) tcm option" where
  "IncreaseCacheLimit this st = IncreaseCacheLimitLocked this st"

subsection \<open>Exchange with the central lists\<close>

text \<open>What an allocation function does: it returns a pointer or throws \<open>std::bad_alloc\<close>.\<close>

datatype result = Returned nat | Thrown

text \<open>\<open>PopRange\<close> followed by \<open>InsertRange\<close>.\<close>

definition move_range :: "'o env \<Rightarrow> nat \<Rightarrow> nat \<Rightarrow> int \<Rightarrow> ('o, 'm) tcm \<Rightarrow> ('o, 'm) tcm option" where
  "move_range E heap cl N st = do {
     (xs, l) \<leftarrow> PopRange N (the_list heap cl st);
     let st = upd_list heap cl (\<lambda>_. l) st;
     c \<leftarrow> InsertRange E cl xs N (ctl st);
     Some (st\<lparr>ctl := c\<rparr>) }"

partial_function (option) release_batches ::
  "'o env \<Rightarrow> nat \<Rightarrow> nat \<Rightarrow> int \<Rightarrow> int \<Rightarrow> ('o, 'm) tcm \<Rightarrow> ('o, 'm) tcm option" where
  "release_batches E heap cl batch_size N st =
     (if batch_size < N then do {
        st \<leftarrow> move_range E heap cl batch_size st;
        release_batches E heap cl batch_size (N - batch_size) st }
      else move_range E heap cl N st)"

definition ReleaseToCentralCache :: "'o env \<Rightarrow> nat \<Rightarrow> nat \<Rightarrow> int \<Rightarrow> ('o, 'm) tcm \<Rightarrow> ('o, 'm) tcm option" where
  "ReleaseToCentralCache E heap cl N st = do {
     let len = fl_length (the_list heap cl st);
     let N = (if len < u64_of_int N then i32 (int len) else N);
     let delta_bytes = N * int (ByteSizeForClass (sizes st) cl);
     let batch_size = num_objects_to_move (sizes st) cl;
     st \<leftarrow> release_batches E heap cl batch_size N st;
     Some (upd_heap heap (\<lambda>c. c\<lparr>cached_size := i32 (cached_size c - delta_bytes)\<rparr>) st) }"

text \<open>How the largest length of a list grows after a fetch; a batch of 0 is a division by 0.\<close>

definition grow_max_length :: "int \<Rightarrow> freelist \<Rightarrow> freelist option" where
  "grow_max_length batch_size l =
     (if max_length l < u64_of_int batch_size then Some (set_max_length (max_length l + 1) l)
      else if batch_size = 0 then None
      else let new_length = min (i32 (int (max_length l) + batch_size)) (int kMaxDynamicFreeListLength);
               new_length = new_length - new_length smod batch_size
           in Some (set_max_length (u64_of_int new_length) l))"

definition FetchFromCentralCache ::
  "'o env \<Rightarrow> nat \<Rightarrow> nat \<Rightarrow> int \<Rightarrow> (nat \<Rightarrow> ('o, 'm) tcm \<Rightarrow> (result \<times> ('o, 'm) tcm) option)
   \<Rightarrow> ('o, 'm) tcm \<Rightarrow> (result \<times> ('o, 'm) tcm) option" where
  "FetchFromCentralCache E heap cl byte_size oom_handler st = do {
     let batch_size = num_objects_to_move (sizes st) cl;
     let num_to_move = min (i32 (int (max_length (the_list heap cl st)))) batch_size;
     (fetch_count, xs, c) \<leftarrow> RemoveRange E cl num_to_move (ctl st);
     let st = st\<lparr>ctl := c\<rparr>;
     if fetch_count = 0 then oom_handler (u64_of_int byte_size) st
     else (case xs of
         [] \<Rightarrow> None
       | first # rest \<Rightarrow> do {
           let fetch_count = fetch_count - 1;
           let st = (if 0 \<le> fetch_count
                     then upd_list heap cl (PushRange fetch_count rest)
                            (upd_heap heap (\<lambda>c. c\<lparr>cached_size := i32 (cached_size c + byte_size * fetch_count)\<rparr>) st)
                     else st);
           l \<leftarrow> grow_max_length batch_size (the_list heap cl st);
           Some (Returned first, upd_list heap cl (\<lambda>_. l) st) }) }"

definition Allocate ::
  "'o env \<Rightarrow> nat \<Rightarrow> nat \<Rightarrow> nat \<Rightarrow> (nat \<Rightarrow> ('o, 'm) tcm \<Rightarrow> (result \<times> ('o, 'm) tcm) option)
   \<Rightarrow> ('o, 'm) tcm \<Rightarrow> (result \<times> ('o, 'm) tcm) option" where
  "Allocate E heap sz cl oom_handler st =
     (case TryPop (the_list heap cl st) of
        None \<Rightarrow> FetchFromCentralCache E heap cl (i32 (int sz)) oom_handler st
      | Some (rv, l) \<Rightarrow>
          Some (Returned rv, upd_heap heap (\<lambda>c. c\<lparr>cached_size := i32 (cached_size c - int sz)\<rparr>)
                               (upd_list heap cl (\<lambda>_. l) st)))"

subsection \<open>Scavenging\<close>

definition scavenge_list :: "'o env \<Rightarrow> nat \<Rightarrow> nat \<Rightarrow> ('o, 'm) tcm \<Rightarrow> ('o, 'm) tcm option" where
  "scavenge_list E heap cl st = do {
     let lowmark = i32 (int (lowater (the_list heap cl st)));
     st \<leftarrow> (if 0 < lowmark then do {
             let drop = (if 1 < lowmark then lowmark div 2 else 1);
             st \<leftarrow> ReleaseToCentralCache E heap cl drop st;
             let batch_size = num_objects_to_move (sizes st) cl;
             Some (upd_list heap cl (\<lambda>l. if u64_of_int batch_size < max_length l
                then set_max_length (u64_of_int (max (i32 (int (max_length l) - batch_size)) batch_size)) l else l) st) }
           else Some st);
     Some (upd_list heap cl clear_lowwatermark st) }"

primrec scavenge_lists :: "'o env \<Rightarrow> nat \<Rightarrow> nat list \<Rightarrow> ('o, 'm) tcm \<Rightarrow> ('o, 'm) tcm option" where
  "scavenge_lists E heap [] st = Some st"
| "scavenge_lists E heap (cl # cls) st = do {
     st \<leftarrow> scavenge_list E heap cl st;
     scavenge_lists E heap cls st }"

definition Scavenge :: "'o env \<Rightarrow> nat \<Rightarrow> ('o, 'm) tcm \<Rightarrow> ('o, 'm) tcm option" where
  "Scavenge E heap st = do {
     st \<leftarrow> scavenge_lists E heap [0..<num_size_classes (sizes st)] st;
     IncreaseCacheLimit heap st }"

definition adjust_max_length :: "int \<Rightarrow> freelist \<Rightarrow> freelist" where
  "adjust_max_length batch_size l =
     (if max_length l < u64_of_int batch_size then set_max_length (max_length l + 1) l
      else if u64_of_int batch_size < max_length l then
        let l = set_length_overages (length_overages l + 1) l
        in if kMaxOverages < length_overages l
           then set_length_overages 0 (set_max_length (sub64 (max_length l) (u64_of_int batch_size)) l)
           else l
      else l)"

definition ListTooLong :: "'o env \<Rightarrow> nat \<Rightarrow> nat \<Rightarrow> ('o, 'm) tcm \<Rightarrow> ('o, 'm) tcm option" where
  "ListTooLong E heap cl st = do {
     let st = upd_heap heap (\<lambda>c. c\<lparr>cached_size := i32 (cached_size c + object_size (list_of c cl))\<rparr>) st;
     let batch_size = num_objects_to_move (sizes st) cl;
     st \<leftarrow> ReleaseToCentralCache E heap cl batch_size st;
     let st = upd_list heap cl (adjust_max_length batch_size) st;
     if max_size (heaps st heap) < cached_size (heaps st heap) then Scavenge E heap st else Some st }"

definition Deallocate :: "'o env \<Rightarrow> nat \<Rightarrow> nat \<Rightarrow> nat \<Rightarrow> ('o, 'm) tcm \<Rightarrow> ('o, 'm) tcm option" where
  "Deallocate E heap ptr cl st =
     (let (len, l) = Push ptr (the_list heap cl st); st = upd_list heap cl (\<lambda>_. l) st
      in if max_length l < len then ListTooLong E heap cl st
         else let st = upd_heap heap (\<lambda>c. c\<lparr>cached_size := i32 (cached_size c + object_size l)\<rparr>) st
              in if max_size (heaps st heap) < cached_size (heaps st heap) then Scavenge E heap st else Some st)"

subsection \<open>Life cycle\<close>

text \<open>
  The seed of the sampler is the address of a local variable. The lists beyond the last size
  class are not initialised.
\<close>

definition ThreadCache_ctor :: "sampling \<Rightarrow> nat \<Rightarrow> nat \<Rightarrow> ('o, 'm) tcm \<Rightarrow> ('o, 'm) tcm option" where
  "ThreadCache_ctor S seed this st = do {
     let st = upd_heap this (\<lambda>c. c\<lparr>cached_size := 0, max_size := 0, sampler_of := Sampler_ctor\<rparr>) st;
     st \<leftarrow> IncreaseCacheLimitLocked this st;
     let st = (if max_size (heaps st this) = 0 then
                 let min_size = min_per_thread_cache_size st; st = SetMaxSize this (int min_size) st
                 in st\<lparr>unclaimed_cache_space := ssize64 (unclaimed_cache_space st - int min_size)\<rparr>
               else st);
     let st = fold (\<lambda>cl. upd_list this cl (\<lambda>_. FreeList_Init (class_to_size (sizes st) cl)))
                [0..<num_size_classes (sizes st)] st;
     s \<leftarrow> Sampler_Init S seed (sampler_of (heaps st this));
     Some (upd_heap this (\<lambda>c. c\<lparr>sampler_of := s\<rparr>) st) }"

primrec release_lists :: "'o env \<Rightarrow> nat \<Rightarrow> nat list \<Rightarrow> ('o, 'm) tcm \<Rightarrow> ('o, 'm) tcm option" where
  "release_lists E heap [] st = Some st"
| "release_lists E heap (cl # cls) st = do {
     st \<leftarrow> (if 0 < fl_length (the_list heap cl st)
           then ReleaseToCentralCache E heap cl (i32 (int (fl_length (the_list heap cl st)))) st else Some st);
     release_lists E heap cls st }"

definition ThreadCache_dtor :: "'o env \<Rightarrow> nat \<Rightarrow> ('o, 'm) tcm \<Rightarrow> ('o, 'm) tcm option" where
  "ThreadCache_dtor E this st = release_lists E this [0..<num_size_classes (sizes st)] st"

definition NewHeap :: "'o env \<Rightarrow> sampling \<Rightarrow> nat \<Rightarrow> ('o, 'm) tcm \<Rightarrow> (nat \<times> ('o, 'm) tcm) option" where
  "NewHeap E S seed st = do {
     (heap, pool, md) \<leftarrow> PageHeapAllocator_New (plat E) sizeof_ThreadCache (threadcache_allocator st) (meta (pageheap (ctl st)));
     let st = st\<lparr>threadcache_allocator := pool, ctl := (ctl st)\<lparr>pageheap := (pageheap (ctl st))\<lparr>meta := md\<rparr>\<rparr>\<rparr>;
     st \<leftarrow> ThreadCache_ctor S seed heap st;
     let st = (if thread_heaps st = [] then st\<lparr>next_memory_steal := heap\<rparr> else st);
     Some (heap, st\<lparr>thread_heaps := heap # thread_heaps st, thread_heap_count := thread_heap_count st + 1\<rparr>) }"

definition DeleteCache :: "'o env \<Rightarrow> nat \<Rightarrow> ('o, 'm) tcm \<Rightarrow> ('o, 'm) tcm option" where
  "DeleteCache E heap st = do {
     st \<leftarrow> ThreadCache_dtor E heap st;
     let next = next_heap heap (thread_heaps st);
     let st = st\<lparr>thread_heaps := remove1 heap (thread_heaps st), thread_heap_count := thread_heap_count st - 1\<rparr>;
     let st = (if next_memory_steal st = heap then st\<lparr>next_memory_steal := next\<rparr> else st);
     let st = (if next_memory_steal st = 0 then st\<lparr>next_memory_steal := first_heap (thread_heaps st)\<rparr> else st);
     let st = st\<lparr>unclaimed_cache_space := ssize64 (unclaimed_cache_space st + max_size (heaps st heap))\<rparr>;
     Some (st\<lparr>threadcache_allocator := PageHeapAllocator_Delete heap (threadcache_allocator st)\<rparr>) }"

subsection \<open>The total size of the caches\<close>

text \<open>\<open>double ratio = space / max(1, per_thread_cache_size_)\<close>, and the product with it, truncated.\<close>

definition cache_ratio :: "nat \<Rightarrow> nat \<Rightarrow> rat" where
  "cache_ratio space per_thread = fp_round (fp_round (of_nat space) / max 1 (fp_round (of_nat per_thread)))"

definition scaled_size :: "rat \<Rightarrow> int \<Rightarrow> int" where
  "scaled_size ratio sz = fp_truncate (fp_round (of_int sz * ratio))"

definition recompute_step :: "rat \<Rightarrow> nat \<Rightarrow> ('o, 'm) tcm \<times> nat \<Rightarrow> ('o, 'm) tcm \<times> nat" where
  "recompute_step ratio h = (\<lambda>(st, claimed).
     let st = (if ratio < 1 then SetMaxSize h (scaled_size ratio (max_size (heaps st h))) st else st)
     in (st, add64 claimed (u64_of_int (max_size (heaps st h)))))"

definition RecomputePerThreadCacheSize :: "('o, 'm) tcm \<Rightarrow> ('o, 'm) tcm" where
  "RecomputePerThreadCacheSize st =
     (let n = (if 0 < thread_heap_count st then thread_heap_count st else 1);
          space = overall_thread_cache_size st div nat n;
          min_size = min_per_thread_cache_size st;
          space = (if space < min_size then min_size else space);
          space = (if kMaxThreadCacheSize < space then kMaxThreadCacheSize else space);
          ratio = cache_ratio space (per_thread_cache_size st);
          (st, claimed) = fold (recompute_step ratio) (thread_heaps st) (st, 0)
      in st\<lparr>unclaimed_cache_space := ssize64 (int (overall_thread_cache_size st) - int claimed),
            per_thread_cache_size := space\<rparr>)"

definition set_overall_thread_cache_size :: "nat \<Rightarrow> ('o, 'm) tcm \<Rightarrow> ('o, 'm) tcm" where
  "set_overall_thread_cache_size new_size st =
     (let min_size = min_per_thread_cache_size st;
          new_size = (if new_size < min_size then min_size else new_size);
          new_size = (if 2 ^ 30 < new_size then 2 ^ 30 else new_size)
      in RecomputePerThreadCacheSize (st\<lparr>overall_thread_cache_size := new_size\<rparr>))"

definition set_min_per_thread_cache_size :: "nat \<Rightarrow> ('o, 'm) tcm \<Rightarrow> ('o, 'm) tcm" where
  "set_min_per_thread_cache_size new_size st = st\<lparr>min_per_thread_cache_size := new_size\<rparr>"

definition freelist_length :: "nat \<Rightarrow> thread_cache \<Rightarrow> int" where
  "freelist_length cl c = i32 (int (fl_length (list_of c cl)))"

definition Size :: "thread_cache \<Rightarrow> nat" where
  "Size c = u64_of_int (cached_size c)"

text \<open>Adds to the two counts; the second is left out when its pointer is null.\<close>

definition GetThreadStats ::
  "('o, 'm) tcm \<Rightarrow> nat \<Rightarrow> (nat \<Rightarrow> nat) option \<Rightarrow> nat \<times> (nat \<Rightarrow> nat) option" where
  "GetThreadStats st total_bytes class_count =
     fold (\<lambda>h (total, counts).
             (add64 total (Size (heaps st h)),
              map_option (\<lambda>f cl. if cl < num_size_classes (sizes st)
                 then add64 (f cl) (u64_of_int (freelist_length cl (heaps st h))) else f cl) counts))
       (thread_heaps st) (total_bytes, class_count)"

definition HeapsInUse :: "('o, 'm) tcm \<Rightarrow> int" where
  "HeapsInUse st = inuse (threadcache_allocator st)"

definition SampleAllocation :: "sampling \<Rightarrow> nat \<Rightarrow> nat \<Rightarrow> ('o, 'm) tcm \<Rightarrow> (bool \<times> ('o, 'm) tcm) option" where
  "SampleAllocation S heap k st = do {
     (r, s) \<leftarrow> RecordAllocation S (heap + 4104) k (sampler_of (heaps st heap));
     Some (\<not> r, upd_heap heap (\<lambda>c. c\<lparr>sampler_of := s\<rparr>) st) }"

definition TryRecordAllocation :: "nat \<Rightarrow> nat \<Rightarrow> ('o, 'm) tcm \<Rightarrow> bool \<times> ('o, 'm) tcm" where
  "TryRecordAllocation heap k st =
     (let (r, s) = TryRecordAllocationFast k (sampler_of (heaps st heap))
      in (r, upd_heap heap (\<lambda>c. c\<lparr>sampler_of := s\<rparr>) st))"

subsection \<open>Initialisation\<close>

primrec init_caches :: "sizemap \<Rightarrow> nat list \<Rightarrow> (nat \<Rightarrow> central_freelist) \<Rightarrow> (nat \<Rightarrow> central_freelist) option" where
  "init_caches sm [] cc = Some cc"
| "init_caches sm (i # is') cc = do {
     c \<leftarrow> CentralFreeList_Init sm i (cc i);
     init_caches sm is' (cc(i := c)) }"

text \<open>
  \<open>InitStaticVars\<close>: the page size of the system, the flag of \<open>NumMoveSize\<close> and the flag of aggressive
  decommit come from the environment. Two spans are taken from the pool and never used.
\<close>

definition InitStaticVars ::
  "'o env \<Rightarrow> nat \<Rightarrow> int \<Rightarrow> bool \<Rightarrow> span_store \<Rightarrow> object_pool \<Rightarrow> object_pool \<Rightarrow> (nat \<Rightarrow> central_freelist) \<Rightarrow> 'o metadata
   \<Rightarrow> 'o central option" where
  "InitStaticVars E native_page_size transfer_num_objects decommit sp pool stpool cc md =
     (case SizeMap_Init native_page_size transfer_num_objects of
        Inl _ \<Rightarrow> None
      | Inr sm \<Rightarrow> do {
          (pool, md) \<leftarrow> PageHeapAllocator_Init (plat E) sizeof_Span pool md;
          (_, pool, md) \<leftarrow> PageHeapAllocator_New (plat E) sizeof_Span pool md;
          (_, pool, md) \<leftarrow> PageHeapAllocator_New (plat E) sizeof_Span pool md;
          (stpool, md) \<leftarrow> PageHeapAllocator_Init (plat E) sizeof_StackTrace stpool md;
          cc \<leftarrow> init_caches sm [0..<num_size_classes sm] cc;
          h \<leftarrow> PageHeap_ctor (min_span_size_in_pages sm) sp pool stpool md;
          Some \<lparr>pageheap = SetAggressiveDecommit decommit h, size_map = sm, central_cache = cc, race_counter = 0\<rparr> })"

text \<open>
  The initial values of the static variables of the thread caches, and \<open>InitModule\<close> on them: the
  environment variable \<open>TCMALLOC_MAX_TOTAL_THREAD_CACHE_BYTES\<close> is an argument.
\<close>

definition InitModule ::
  "'o env \<Rightarrow> nat \<Rightarrow> int \<Rightarrow> bool \<Rightarrow> nat option \<Rightarrow> span_store \<Rightarrow> object_pool \<Rightarrow> object_pool \<Rightarrow> object_pool
   \<Rightarrow> (nat \<Rightarrow> central_freelist) \<Rightarrow> (nat \<Rightarrow> thread_cache) \<Rightarrow> 'o metadata \<Rightarrow> 'o tcmalloc option" where
  "InitModule E native_page_size transfer_num_objects decommit tcb sp pool stpool tcpool cc hp md = do {
     c \<leftarrow> InitStaticVars E native_page_size transfer_num_objects decommit sp pool stpool cc md;
     (tcpool, md) \<leftarrow> PageHeapAllocator_Init (plat E) sizeof_ThreadCache tcpool (meta (pageheap c));
     let st = \<lparr>ctl = c\<lparr>pageheap := (pageheap c)\<lparr>meta := md\<rparr>\<rparr>, heaps = hp, thread_heaps = [], thread_heap_count = 0,
       next_memory_steal = 0, min_per_thread_cache_size = kMinThreadCacheSize,
       overall_thread_cache_size = kDefaultOverallThreadCacheSize, per_thread_cache_size = kMaxThreadCacheSize,
       unclaimed_cache_space = int kDefaultOverallThreadCacheSize, threadcache_allocator = tcpool\<rparr>;
     Some (case tcb of None \<Rightarrow> st | Some new_size \<Rightarrow> set_overall_thread_cache_size new_size st) }"

end
