(* ===== verification/ThreadInv.thy ===== *)
theory ThreadInv
  imports ThreadCache
begin

text \<open>
  The invariant of the thread caches. Each object that is outstanding from the central lists is on
  at most one list of one thread cache; the others are live: with the client. A list knows its length,
  and a cache knows the bytes on its lists, up to an amount that an operation in progress still
  has to account for.
\<close>

subsection \<open>32-bit arithmetic\<close>

lemma i32_cong: "x mod 2 ^ 32 = y mod 2 ^ 32 \<Longrightarrow> i32 x = i32 y"
  unfolding i32_def by (metis mod_add_left_eq)

lemma i32_mod: "i32 x mod 2 ^ 32 = x mod 2 ^ 32"
  unfolding i32_def by (simp add: mod_simps)

lemma i32_add: "i32 (i32 x + y) = i32 (x + y)"
  by (rule i32_cong) (metis i32_mod mod_add_left_eq)

lemma i32_sub: "i32 (i32 x - y) = i32 (x - y)"
  using i32_add [of x "- y"] by simp

lemma u32_id: "0 \<le> x \<Longrightarrow> x < 2 ^ 32 \<Longrightarrow> u32 x = nat x"
  by (simp add: u32_def)

subsection \<open>The invariant\<close>

definition list_ok :: "sizemap \<Rightarrow> nat \<Rightarrow> freelist \<Rightarrow> bool" where
  "list_ok sm cl l \<longleftrightarrow> fl_length l = length (chain_of l) \<and> fl_length l < 2 ^ 31 \<and> distinct (chain_of l)
     \<and> lowater l \<le> fl_length l \<and> 1 \<le> max_length l \<and> max_length l \<le> kMaxDynamicFreeListLength
     \<and> object_size l = i32 (int (class_to_size sm cl)) \<and> (cl = 0 \<longrightarrow> chain_of l = [])"

definition cached_bytes :: "sizemap \<Rightarrow> thread_cache \<Rightarrow> int" where
  "cached_bytes sm c = (\<Sum>cl < num_size_classes sm. int (length (chain_of (list_of c cl)) * class_to_size sm cl))"

definition on_list :: "('o, 'm) tcm \<Rightarrow> nat \<Rightarrow> nat \<Rightarrow> nat set" where
  "on_list st h cl = set (chain_of (the_list h cl st))"

definition cached :: "('o, 'm) tcm \<Rightarrow> nat \<Rightarrow> nat set" where
  "cached st cl = (\<Union>h \<in> set (thread_heaps st). on_list st h cl)"

definition live :: "('o, 'm) tcm \<Rightarrow> nat \<Rightarrow> nat set" where
  "live st cl = outstanding (ctl st) cl - cached st cl"

definition heap_lists_ok :: "('o, 'm) tcm \<Rightarrow> nat \<Rightarrow> bool" where
  "heap_lists_ok st h \<longleftrightarrow> (\<forall>cl < num_size_classes (sizes st).
     list_ok (sizes st) cl (the_list h cl st) \<and> on_list st h cl \<subseteq> outstanding (ctl st) cl)"

definition caches_ok :: "(nat \<Rightarrow> int) \<Rightarrow> ('o, 'm) tcm \<Rightarrow> bool" where
  "caches_ok d st \<longleftrightarrow> distinct (thread_heaps st) \<and> 0 \<notin> set (thread_heaps st)
     \<and> (next_memory_steal st = 0 \<or> next_memory_steal st \<in> set (thread_heaps st))
     \<and> (\<forall>h \<in> set (thread_heaps st). heap_lists_ok st h
          \<and> cached_size (heaps st h) = i32 (cached_bytes (sizes st) (heaps st h) + d h))
     \<and> (\<forall>h \<in> set (thread_heaps st). \<forall>h' \<in> set (thread_heaps st). h \<noteq> h' \<longrightarrow>
          (\<forall>cl < num_size_classes (sizes st). on_list st h cl \<inter> on_list st h' cl = {}))"

definition threads_ok :: "'o env \<Rightarrow> ('o \<Rightarrow> nat set) \<Rightarrow> bool \<Rightarrow> nat set \<Rightarrow> (nat \<Rightarrow> int) \<Rightarrow> ('o, 'm) tcm \<Rightarrow> bool" where
  "threads_ok E mapped a H d st \<longleftrightarrow> central_ok E mapped a H (ctl st) \<and> caches_ok d st"

text \<open>What an operation may change: the spans of the size classes, the caches, and the live objects as \<open>out\<close> tells.\<close>

definition threads_to ::
  "'o env \<Rightarrow> ('o \<Rightarrow> nat set) \<Rightarrow> bool \<Rightarrow> nat set \<Rightarrow> ('o, 'm) tcm \<Rightarrow> (nat \<Rightarrow> int) \<Rightarrow> (nat \<Rightarrow> nat set) \<Rightarrow> nat set
   \<Rightarrow> ('o, 'm) tcm \<Rightarrow> bool" where
  "threads_to E mapped a H st d out H' st' \<longleftrightarrow> threads_ok E mapped a H' d st' \<and> sizes st' = sizes st
     \<and> H' - class_spans (ctl st') = H - class_spans (ctl st)
     \<and> untouched (H - class_spans (ctl st)) (pageheap (ctl st)) (pageheap (ctl st'))
     \<and> (\<forall>cl < num_size_classes (sizes st). live st' cl = out cl)"

lemma threads_to_refl: "threads_ok E mapped a H d st \<Longrightarrow> threads_to E mapped a H st d (live st) H st"
  by (simp add: threads_to_def)

lemma threads_to_trans:
  assumes "threads_to E mapped a H st d1 out1 H1 st1" and "threads_to E mapped a H1 st1 d2 out2 H2 st2"
  shows "threads_to E mapped a H st d2 out2 H2 st2"
  using assms unfolding threads_to_def by (metis untouched_trans)

lemma threads_to_cong:
  assumes "threads_to E mapped a H st d out H' st'" and "\<And>cl. cl < num_size_classes (sizes st) \<Longrightarrow> out cl = out' cl"
  shows "threads_to E mapped a H st d out' H' st'"
  using assms by (simp add: threads_to_def)

lemma threads_okD:
  assumes "threads_ok E mapped a H d st"
  shows "central_ok E mapped a H (ctl st)" and "distinct (thread_heaps st)" and "0 \<notin> set (thread_heaps st)"
    and "h \<in> set (thread_heaps st) \<Longrightarrow> cl < num_size_classes (sizes st) \<Longrightarrow> list_ok (sizes st) cl (the_list h cl st)"
    and "h \<in> set (thread_heaps st) \<Longrightarrow> cl < num_size_classes (sizes st) \<Longrightarrow> on_list st h cl \<subseteq> outstanding (ctl st) cl"
    and "h \<in> set (thread_heaps st) \<Longrightarrow> cached_size (heaps st h) = i32 (cached_bytes (sizes st) (heaps st h) + d h)"
  using assms by (auto simp: threads_ok_def caches_ok_def heap_lists_ok_def)

text \<open>The objects of a class on the lists of the other caches.\<close>

definition others :: "('o, 'm) tcm \<Rightarrow> nat \<Rightarrow> nat \<Rightarrow> nat set" where
  "others st heap cl = (\<Union>h \<in> set (thread_heaps st) - {heap}. on_list st h cl)"

lemma cached_others: "heap \<in> set (thread_heaps st) \<Longrightarrow> cached st cl = others st heap cl \<union> on_list st heap cl"
  by (auto simp: cached_def others_def)

lemma others_apart:
  assumes "threads_ok E mapped a H d st" "heap \<in> set (thread_heaps st)" "cl < num_size_classes (sizes st)"
  shows "others st heap cl \<inter> on_list st heap cl = {}" and "others st heap cl \<subseteq> outstanding (ctl st) cl"
proof -
  have "on_list st h cl \<inter> on_list st heap cl = {}" if "h \<in> set (thread_heaps st) - {heap}" for h
    using assms that unfolding threads_ok_def caches_ok_def by blast
  then show "others st heap cl \<inter> on_list st heap cl = {}" unfolding others_def by blast
  show "others st heap cl \<subseteq> outstanding (ctl st) cl" using threads_okD(5) [OF assms(1) _ assms(3)] unfolding others_def by blast
qed

subsection \<open>Changes to one list\<close>

text \<open>Nothing but the central lists and the lists and the size of one cache has changed.\<close>

definition kept :: "nat \<Rightarrow> ('o, 'm) tcm \<Rightarrow> ('o, 'm) tcm \<Rightarrow> bool" where
  "kept heap st st' \<longleftrightarrow> st' = st\<lparr>ctl := ctl st', heaps := (heaps st)(heap := heaps st' heap)\<rparr>
     \<and> max_size (heaps st' heap) = max_size (heaps st heap) \<and> sampler_of (heaps st' heap) = sampler_of (heaps st heap)"

lemma keptD:
  assumes "kept heap st st'"
  shows "thread_heaps st' = thread_heaps st" and "next_memory_steal st' = next_memory_steal st"
    and "h \<noteq> heap \<Longrightarrow> heaps st' h = heaps st h" and "max_size (heaps st' h) = max_size (heaps st h)"
proof -
  have eq: "st' = st\<lparr>ctl := ctl st', heaps := (heaps st)(heap := heaps st' heap)\<rparr>" using assms by (simp add: kept_def)
  show "thread_heaps st' = thread_heaps st" by (subst eq) simp
  show "next_memory_steal st' = next_memory_steal st" by (subst eq) simp
  show h: "h \<noteq> heap \<Longrightarrow> heaps st' h = heaps st h" by (subst eq) simp
  show "max_size (heaps st' h) = max_size (heaps st h)" using assms h by (cases "h = heap") (auto simp: kept_def)
qed

lemma kept_refl [simp]: "kept heap st st"
  by (simp add: kept_def)

lemma kept_trans:
  assumes "kept heap st st1" and "kept heap st1 st2"
  shows "kept heap st st2"
proof -
  have e1: "st1 = st\<lparr>ctl := ctl st1, heaps := (heaps st)(heap := heaps st1 heap)\<rparr>"
    and e2: "st2 = st1\<lparr>ctl := ctl st2, heaps := (heaps st1)(heap := heaps st2 heap)\<rparr>"
    using assms unfolding kept_def by blast+
  have h: "heaps st1 = (heaps st)(heap := heaps st1 heap)" using arg_cong [OF e1, of heaps] by simp
  have "(heaps st1)(heap := heaps st2 heap) = (heaps st)(heap := heaps st2 heap)" by (subst h) simp
  with e2 have "st2 = st1\<lparr>ctl := ctl st2, heaps := (heaps st)(heap := heaps st2 heap)\<rparr>" by simp
  also have "\<dots> = st\<lparr>ctl := ctl st2, heaps := (heaps st)(heap := heaps st2 heap)\<rparr>" by (subst e1) simp
  finally show ?thesis using assms unfolding kept_def by simp
qed

lemma cached_bytes_update:
  assumes "cl < num_size_classes sm" and "\<And>k. k \<noteq> cl \<Longrightarrow> list_of c' k = list_of c k"
  shows "cached_bytes sm c' = cached_bytes sm c
    + (int (length (chain_of (list_of c' cl))) - int (length (chain_of (list_of c cl)))) * int (class_to_size sm cl)"
proof -
  let ?f = "\<lambda>c k. int (length (chain_of (list_of c k)) * class_to_size sm k)"
  have "(\<Sum>k \<in> {..<num_size_classes sm} - {cl}. ?f c' k) = (\<Sum>k \<in> {..<num_size_classes sm} - {cl}. ?f c k)"
    by (rule sum.cong) (auto simp: assms(2))
  then show ?thesis using assms(1) unfolding cached_bytes_def
    by (simp add: sum.remove [of _ cl] left_diff_distrib)
qed

lemma local_change:
  assumes ok: "threads_ok E mapped a H d st" and heap: "heap \<in> set (thread_heaps st)" and cl: "cl < num_size_classes (sizes st)"
    and c: "central_to E mapped a H (ctl st) ((outstanding (ctl st))(cl := O')) H' (ctl st')"
    and k: "kept heap st st'" and same: "\<forall>j. j \<noteq> cl \<longrightarrow> the_list heap j st' = the_list heap j st"
    and l: "list_ok (sizes st) cl (the_list heap cl st')"
    and sz: "cached_size (heaps st' heap) = i32 (cached_bytes (sizes st) (heaps st' heap) + e)"
    and sub: "on_list st' heap cl \<subseteq> O'" "others st heap cl \<subseteq> O'" "others st heap cl \<inter> on_list st' heap cl = {}"
  shows "threads_to E mapped a H st (d(heap := e)) ((live st)(cl := O' - others st heap cl - on_list st' heap cl)) H' st'"
proof -
  note kd = keptD [OF k]
  have sm: "sizes st' = sizes st" using c by (simp add: central_to_def)
  have out: "outstanding (ctl st') j = (if j = cl then O' else outstanding (ctl st) j)" if "j < num_size_classes (sizes st)" for j
    using central_to_out [OF c that] by simp
  have on: "on_list st' h j = on_list st h j" if "h \<noteq> heap \<or> j \<noteq> cl" for h j
    using that kd(3) same by (cases "h = heap") (auto simp: on_list_def)
  have lists: "heap_lists_ok st' h" if h: "h \<in> set (thread_heaps st)" for h
    unfolding heap_lists_ok_def sm
  proof (intro allI impI conjI)
    fix j assume j: "j < num_size_classes (sizes st)"
    show "list_ok (sizes st) j (the_list h j st')"
    proof (cases "h = heap \<and> j = cl")
      case False
      then have "the_list h j st' = the_list h j st" using kd(3) same by (cases "h = heap") auto
      then show ?thesis using threads_okD(4) [OF ok h j] by simp
    qed (use l in simp)
    show "on_list st' h j \<subseteq> outstanding (ctl st') j"
    proof (cases "j = cl")
      case True
      have "on_list st h cl \<subseteq> others st heap cl" if "h \<noteq> heap" using h that by (auto simp: others_def)
      then show ?thesis using sub(1,2) on [of h cl] out [OF j] True by (cases "h = heap") auto
    next
      case False
      then show ?thesis using on [of h j] out [OF j] threads_okD(5) [OF ok h j] by simp
    qed
  qed
  have size: "cached_size (heaps st' h) = i32 (cached_bytes (sizes st) (heaps st' h) + (d(heap := e)) h)"
    if h: "h \<in> set (thread_heaps st)" for h
    using sz threads_okD(6) [OF ok h] kd(3) by (cases "h = heap") auto
  have apart: "on_list st' h j \<inter> on_list st' h' j = {}"
    if h: "h \<in> set (thread_heaps st)" "h' \<in> set (thread_heaps st)" "h \<noteq> h'" and j: "j < num_size_classes (sizes st)" for h h' j
  proof (cases "j = cl \<and> (h = heap \<or> h' = heap)")
    case True
    then have "on_list st' x cl \<subseteq> others st heap cl" if "x \<in> {h, h'} - {heap}" for x
      using that h on [of x cl] by (auto simp: others_def)
    then show ?thesis using sub(3) True h(3) by blast
  next
    case False
    then have "on_list st' h j = on_list st h j" "on_list st' h' j = on_list st h' j" using on by auto
    then show ?thesis using ok h j unfolding threads_ok_def caches_ok_def by simp
  qed
  have "caches_ok (d(heap := e)) st'"
    using ok lists size apart unfolding threads_ok_def caches_ok_def kd(1,2) sm by blast
  moreover have "live st' j = ((live st)(cl := O' - others st heap cl - on_list st' heap cl)) j"
    if j: "j < num_size_classes (sizes st)" for j
  proof (cases "j = cl")
    case True
    have "others st' heap cl = others st heap cl" using on by (auto simp: others_def kd(1))
    then show ?thesis using True out [OF cl] cached_others [of heap st' cl] heap by (auto simp: live_def kd(1))
  next
    case False
    then have "cached st' j = cached st j" using on by (auto simp: cached_def kd(1))
    then show ?thesis using False out [OF j] by (simp add: live_def)
  qed
  ultimately show ?thesis using c sm by (simp add: threads_to_def threads_ok_def central_to_def)
qed

text \<open>A change of the fields of a list, or of the objects on it, that needs nothing of the central lists.\<close>

lemma list_change:
  assumes ok: "threads_ok E mapped a H d st" and heap: "heap \<in> set (thread_heaps st)" and cl: "cl < num_size_classes (sizes st)"
    and st': "st' = upd_heap heap (\<lambda>c. c\<lparr>cached_size := s\<rparr>) (upd_list heap cl (\<lambda>_. l) st)"
    and l: "list_ok (sizes st) cl l" and s: "s = i32 (cached_size (heaps st heap) + z)"
    and e: "e = d heap + z - (int (length (chain_of l)) - int (length (chain_of (the_list heap cl st)))) * int (class_to_size (sizes st) cl)"
    and sub: "set (chain_of l) \<subseteq> outstanding (ctl st) cl" "others st heap cl \<inter> set (chain_of l) = {}"
  shows "threads_to E mapped a H st (d(heap := e))
      ((live st)(cl := outstanding (ctl st) cl - others st heap cl - set (chain_of l))) H st' \<and> kept heap st st'"
proof -
  have ctl: "ctl st' = ctl st" and h': "heaps st' heap = (heaps st heap)\<lparr>list_of := (list_of (heaps st heap))(cl := l), cached_size := s\<rparr>"
    by (simp_all add: st' upd_heap_def upd_list_def)
  have k: "kept heap st st'" unfolding kept_def ctl h' by (simp add: st' upd_heap_def upd_list_def)
  have b: "cached_bytes (sizes st) (heaps st' heap) = cached_bytes (sizes st) (heaps st heap)
      + (int (length (chain_of l)) - int (length (chain_of (the_list heap cl st)))) * int (class_to_size (sizes st) cl)"
    using cached_bytes_update [OF cl, of "heaps st' heap" "heaps st heap"] by (simp add: h')
  have on: "on_list st' heap cl = set (chain_of l)" by (simp add: on_list_def h')
  have c: "central_to E mapped a H (ctl st) ((outstanding (ctl st))(cl := outstanding (ctl st) cl)) H (ctl st')"
    using central_to_refl [OF threads_okD(1) [OF ok]] by (simp add: ctl)
  have "threads_to E mapped a H st (d(heap := e)) ((live st)(cl := outstanding (ctl st) cl - others st heap cl - on_list st' heap cl)) H st'"
  proof (rule local_change [OF ok heap cl c k])
    show "\<forall>j. j \<noteq> cl \<longrightarrow> the_list heap j st' = the_list heap j st" by (simp add: h')
    show "list_ok (sizes st) cl (the_list heap cl st')" using l by (simp add: h')
    show "cached_size (heaps st' heap) = i32 (cached_bytes (sizes st) (heaps st' heap) + e)"
    proof -
      have "cached_size (heaps st' heap) = s" by (simp add: h')
      then show ?thesis unfolding s threads_okD(6) [OF ok heap] i32_add b e by (simp add: algebra_simps)
    qed
  qed (use sub others_apart(2) [OF ok heap cl] on in auto)
  then show ?thesis using k on by simp
qed

subsection \<open>Free lists\<close>

lemma shorten_eq:
  assumes "0 \<le> N" "N \<le> int (fl_length l)" "fl_length l < 2 ^ 31"
  shows "shorten N l = l\<lparr>fl_length := fl_length l - nat N, lowater := min (lowater l) (fl_length l - nat N)\<rparr>"
  using assms by (simp add: shorten_def u32_id Let_def nat_diff_distrib min_def)

lemma PopRange_eq:
  assumes l: "list_ok sm cl l" and N: "0 \<le> N" "N \<le> int (fl_length l)"
  shows "PopRange N l = Some (take (nat N) (chain_of l), (shorten N l)\<lparr>chain_of := drop (nat N) (chain_of l)\<rparr>)"
proof (cases "N = 0")
  case True
  have "shorten N l = (shorten N l)\<lparr>chain_of := chain_of l\<rparr>" by (simp add: shorten_def Let_def)
  with True show ?thesis by (simp add: PopRange_def)
next
  case False
  with N have "1 \<le> nat N" "nat N \<le> length (chain_of l)" using l by (auto simp: list_ok_def)
  then show ?thesis using False by (auto simp: PopRange_def Let_def max_def)
qed

lemma list_ok_shorten:
  assumes l: "list_ok sm cl l" and N: "0 \<le> N" "N \<le> int (fl_length l)"
  shows "list_ok sm cl ((shorten N l)\<lparr>chain_of := drop (nat N) (chain_of l)\<rparr>)"
proof -
  have "length (chain_of l) < 2 ^ 31" using l by (auto simp: list_ok_def)
  then have "length (chain_of l) - nat N < 2 ^ 31" by linarith
  then show ?thesis using l N unfolding list_ok_def by (simp add: shorten_eq)
qed

lemma TryPop_Some:
  assumes "list_ok sm cl l" "TryPop l = Some (p, l')"
  shows "chain_of l = p # chain_of l'" and "list_ok sm cl l'" and "fl_length l' \<le> fl_length l" and "max_length l' = max_length l"
proof -
  obtain xs where c: "chain_of l = p # xs" and l': "l' = (shorten 1 l)\<lparr>chain_of := xs\<rparr>"
    using assms(2) by (auto simp: TryPop_def split: list.splits)
  have n: "fl_length l = Suc (length xs)" using assms(1) c by (simp add: list_ok_def)
  have s: "shorten 1 l = l\<lparr>fl_length := fl_length l - nat 1, lowater := min (lowater l) (fl_length l - nat 1)\<rparr>"
    by (rule shorten_eq) (use assms(1) n in \<open>auto simp: list_ok_def\<close>)
  show "chain_of l = p # chain_of l'" "fl_length l' \<le> fl_length l" "max_length l' = max_length l" using c by (simp_all add: l' s)
  show "list_ok sm cl l'" using assms(1) c n by (auto simp: list_ok_def l' s)
qed

text \<open>A new bound on the length of a list.\<close>

lemma list_ok_max: "list_ok sm cl l \<Longrightarrow> 1 \<le> k \<Longrightarrow> k \<le> 8192 \<Longrightarrow> list_ok sm cl (set_max_length k l)"
  by (simp add: list_ok_def set_max_length_def kMaxDynamicFreeListLength_def)

lemma list_ok_fields [simp]:
  "list_ok sm cl (set_length_overages j l) = list_ok sm cl l" "list_ok sm cl l \<Longrightarrow> list_ok sm cl (clear_lowwatermark l)"
  by (simp_all add: list_ok_def set_length_overages_def clear_lowwatermark_def)

lemma fields_unchanged [simp]:
  "chain_of (set_max_length k l) = chain_of l" "fl_length (set_max_length k l) = fl_length l"
  "chain_of (set_length_overages j l) = chain_of l" "fl_length (set_length_overages j l) = fl_length l"
  "chain_of (clear_lowwatermark l) = chain_of l" "fl_length (clear_lowwatermark l) = fl_length l"
  "max_length (set_length_overages j l) = max_length l"
  by (simp_all add: set_max_length_def set_length_overages_def clear_lowwatermark_def)

lemma grow_max_length_ok:
  assumes l: "list_ok sm cl l" and b: "0 < b" "b \<le> 8192"
  shows "\<exists>k. grow_max_length b l = Some (set_max_length k l) \<and> 1 \<le> k \<and> k \<le> 8192"
proof (cases "max_length l < nat b")
  case True
  then show ?thesis using b by (intro exI [of _ "max_length l + 1"]) (simp add: grow_max_length_def u64)
next
  case False
  have m: "1 \<le> max_length l" "max_length l \<le> 8192" using l by (auto simp: list_ok_def kMaxDynamicFreeListLength_def)
  define n where "n = min (int (max_length l) + b) 8192"
  have n: "b \<le> n" "n \<le> 8192" using b False by (auto simp: n_def)
  have "n smod b = n mod b" using b n by (simp add: signed_modulo_int_def signed_divide_int_def sgn_if minus_mult_div_eq_mod [symmetric] mult.commute)
  moreover have "1 \<le> n - n mod b" "n - n mod b \<le> 8192"
  proof -
    have "n - n mod b = n div b * b" by (simp add: minus_mod_eq_div_mult)
    moreover have "1 \<le> n div b" using n b by (simp add: pos_imp_zdiv_pos_iff int_one_le_iff_zero_less)
    ultimately show "1 \<le> n - n mod b" using b mult_mono [of 1 "n div b" 1 b] by simp
    show "n - n mod b \<le> 8192" using n b pos_mod_sign [of b n] by linarith
  qed
  ultimately have "1 \<le> nat (n - n mod b)" "nat (n - n mod b) \<le> 8192" "n smod b = n mod b" "0 \<le> n - n mod b" by linarith+
  then show ?thesis using b False m
    by (intro exI [of _ "nat (n - n mod b)"]) (simp add: grow_max_length_def u64 i32_id Let_def kMaxDynamicFreeListLength_def n_def [symmetric])
qed

lemma adjust_max_length_ok:
  assumes l: "list_ok sm cl l" and b: "0 < b" "b \<le> 8192"
  shows "list_ok sm cl (adjust_max_length b l)" and "chain_of (adjust_max_length b l) = chain_of l"
    and "fl_length (adjust_max_length b l) = fl_length l"
proof -
  have m: "1 \<le> max_length l" "max_length l \<le> 8192" using l by (auto simp: list_ok_def kMaxDynamicFreeListLength_def)
  have u: "u64_of_int b = nat b" using b by (simp add: u64)
  have s: "sub64 (max_length l) (nat b) = max_length l - nat b" if "nat b < max_length l" using that m by (intro sub64_eq) auto
  show "list_ok sm cl (adjust_max_length b l)"
    using m b s l by (auto simp: adjust_max_length_def u Let_def intro!: list_ok_max)
  show "chain_of (adjust_max_length b l) = chain_of l" "fl_length (adjust_max_length b l) = fl_length l"
    by (simp_all add: adjust_max_length_def Let_def)
qed

end
