(* ===== verification/ThreadOps.thy ===== *)
theory ThreadOps
  imports ThreadInv
begin

text \<open>
  The operations of the thread caches keep the invariant; what each of them does to the live
  objects.
\<close>

subsection \<open>Giving objects back to the central lists\<close>

text \<open>\<open>N\<close> objects of one list are gone, and no other list has changed.\<close>

definition list_released :: "nat \<Rightarrow> nat \<Rightarrow> nat \<Rightarrow> ('o, 'm) tcm \<Rightarrow> ('o, 'm) tcm \<Rightarrow> bool" where
  "list_released heap cl N st st' \<longleftrightarrow> kept heap st st' \<and> (\<forall>j. j \<noteq> cl \<longrightarrow> the_list heap j st' = the_list heap j st)
     \<and> fl_length (the_list heap cl st') + N = fl_length (the_list heap cl st)"

lemma list_released_trans: "list_released heap cl M st st1 \<Longrightarrow> list_released heap cl N st1 st2 \<Longrightarrow> list_released heap cl (M + N) st st2"
  unfolding list_released_def by (auto intro: kept_trans)

lemma list_released_heaps: "list_released heap cl N st st' \<Longrightarrow> thread_heaps st' = thread_heaps st"
  unfolding list_released_def by (blast dest: keptD(1))

abbreviation class_bytes :: "('o, 'm) tcm \<Rightarrow> nat \<Rightarrow> int" where
  "class_bytes st cl \<equiv> int (class_to_size (sizes st) cl)"

lemma move_range_ok:
  assumes ok: "threads_ok E mapped a H d st" and heap: "heap \<in> set (thread_heaps st)"
    and cl: "0 < cl" "cl < num_size_classes (sizes st)" and N: "0 \<le> N" "N \<le> int (fl_length (the_list heap cl st))"
  shows "outcome (mad E) (move_range E heap cl N st) (\<lambda>st'. list_released heap cl (nat N) st st'
     \<and> (\<exists>H'. threads_to E mapped a H st (d(heap := d heap + N * class_bytes st cl)) (live st) H' st'))"
proof -
  let ?l = "the_list heap cl st" and ?O = "outstanding (ctl st) cl"
  define l' where "l' = (shorten N ?l)\<lparr>chain_of := drop (nat N) (chain_of ?l)\<rparr>"
  define xs where "xs = take (nat N) (chain_of ?l)"
  define st1 where "st1 = upd_list heap cl (\<lambda>_. l') st"
  note l = threads_okD(4) [OF ok heap cl(2)]
  have pop: "PopRange N ?l = Some (xs, l')" using PopRange_eq [OF l N] by (simp add: xs_def l'_def)
  have l': "list_ok (sizes st) cl l'" unfolding l'_def by (rule list_ok_shorten [OF l N])
  have len: "length (chain_of l') + nat N = length (chain_of ?l)" "fl_length l' + nat N = fl_length ?l"
    using l l' N by (auto simp: l'_def list_ok_def)
  have diff: "int (length (chain_of l')) - int (length (chain_of ?l)) = - N" using len(1) N by linarith
  have split: "set xs \<union> set (chain_of l') = set (chain_of ?l)" "set xs \<inter> set (chain_of l') = {}" "distinct xs" "N = int (length xs)"
  proof -
    have "chain_of ?l = xs @ chain_of l'" by (simp add: xs_def l'_def)
    moreover have "distinct (chain_of ?l)" using l by (simp add: list_ok_def)
    ultimately show "set xs \<union> set (chain_of l') = set (chain_of ?l)" "set xs \<inter> set (chain_of l') = {}" "distinct xs" by auto
    show "N = int (length xs)" using N l by (simp add: xs_def list_ok_def)
  qed
  have on: "on_list st heap cl = set xs \<union> set (chain_of l')" by (simp add: on_list_def split(1))
  have sub: "set xs \<subseteq> ?O" "set (chain_of l') \<subseteq> ?O" using threads_okD(5) [OF ok heap cl(2)] on by auto
  have c1: "ctl st1 = ctl st" by (simp add: st1_def upd_list_def upd_heap_def)
  have "outcome (mad E) (InsertRange E cl xs N (ctl st1)) (\<lambda>c. list_released heap cl (nat N) st (st1\<lparr>ctl := c\<rparr>)
     \<and> (\<exists>H'. threads_to E mapped a H st (d(heap := d heap + N * class_bytes st cl)) (live st) H' (st1\<lparr>ctl := c\<rparr>)))"
    unfolding c1
  proof (rule outcome_mono [OF InsertRange_ok [OF threads_okD(1) [OF ok] cl split(3) sub(1) split(4)]], elim exE)
    fix c H'
    let ?st' = "st1\<lparr>ctl := c\<rparr>"
    assume c: "central_to E mapped a H (ctl st) ((outstanding (ctl st))(cl := ?O - set xs)) H' c"
    have h': "heaps st1 heap = (heaps st heap)\<lparr>list_of := (list_of (heaps st heap))(cl := l')\<rparr>"
      by (simp add: st1_def upd_list_def upd_heap_def)
    have k: "kept heap st ?st'" unfolding kept_def by (simp add: st1_def upd_heap_def upd_list_def)
    have on': "on_list ?st' heap cl = set (chain_of l')" by (simp add: on_list_def h')
    have rel: "list_released heap cl (nat N) st ?st'" unfolding list_released_def using k len(2) by (simp add: h')
    note oth = others_apart [OF ok heap cl(2)]
    have "threads_to E mapped a H st (d(heap := d heap + N * class_bytes st cl))
        ((live st)(cl := ?O - set xs - others st heap cl - on_list ?st' heap cl)) H' ?st'"
    proof (rule local_change [OF ok heap cl(2) _ k])
      show "central_to E mapped a H (ctl st) ((outstanding (ctl st))(cl := ?O - set xs)) H' (ctl ?st')" using c by simp
      show "\<forall>j. j \<noteq> cl \<longrightarrow> the_list heap j ?st' = the_list heap j st" "list_ok (sizes st) cl (the_list heap cl ?st')"
        using l' by (simp_all add: h')
      show "on_list ?st' heap cl \<subseteq> ?O - set xs" "others st heap cl \<subseteq> ?O - set xs" "others st heap cl \<inter> on_list ?st' heap cl = {}"
        using on' split(2) sub oth on by auto
      have "cached_bytes (sizes st) (heaps ?st' heap) = cached_bytes (sizes st) (heaps st heap) - N * class_bytes st cl"
        using cached_bytes_update [OF cl(2), of "heaps ?st' heap" "heaps st heap"] diff by (simp add: h')
      moreover have "cached_size (heaps ?st' heap) = cached_size (heaps st heap)" by (simp add: h')
      ultimately show "cached_size (heaps ?st' heap) = i32 (cached_bytes (sizes st) (heaps ?st' heap) + (d heap + N * class_bytes st cl))"
        using threads_okD(6) [OF ok heap] by simp
    qed
    then have "threads_to E mapped a H st (d(heap := d heap + N * class_bytes st cl)) (live st) H' ?st'"
      by (rule threads_to_cong) (use on on' cached_others [OF heap, of cl] in \<open>auto simp: live_def\<close>)
    then show "list_released heap cl (nat N) st ?st' \<and> (\<exists>H'. threads_to E mapped a H st (d(heap := d heap + N * class_bytes st cl)) (live st) H' ?st')"
      using rel by blast
  qed
  then show ?thesis unfolding move_range_def
    by (simp add: pop outcome_bind st1_def [symmetric])
qed

lemma class_sizes:
  assumes "threads_ok E mapped a H d st" "0 < cl" "cl < num_size_classes (sizes st)"
  shows "0 < num_objects_to_move (sizes st) cl" "num_objects_to_move (sizes st) cl \<le> 8192" "class_to_size (sizes st) cl \<le> kMaxSize"
    "0 < class_to_size (sizes st) cl"
  using sizes_okD [OF central_okD(2) [OF threads_okD(1) [OF assms(1)]] assms(2,3)] by (auto simp: class_sizes_ok_def)

lemma threads_to_live: "threads_to E mapped a H st d out H' st' \<Longrightarrow> cl < num_size_classes (sizes st) \<Longrightarrow> live st' cl = out cl"
  by (simp add: threads_to_def)

lemma threads_to_ok: "threads_to E mapped a H st d out H' st' \<Longrightarrow> threads_ok E mapped a H' d st' \<and> sizes st' = sizes st"
  by (simp add: threads_to_def)

text \<open>Two operations one after the other that both leave the live objects alone.\<close>

lemma threads_to_idle_trans:
  assumes "threads_to E mapped a H st d1 (live st) H1 st1" and "threads_to E mapped a H1 st1 d2 (live st1) H2 st2"
  shows "threads_to E mapped a H st d2 (live st) H2 st2"
  by (rule threads_to_cong [OF threads_to_trans [OF assms]]) (use threads_to_live [OF assms(1)] in simp)

lemma release_batches_ok:
  assumes "threads_ok E mapped a H d st" and "heap \<in> set (thread_heaps st)"
    and cl: "0 < cl" "cl < num_size_classes (sizes st)" and "0 \<le> N" "N \<le> int (fl_length (the_list heap cl st))" and b: "0 < b"
  shows "outcome (mad E) (release_batches E heap cl b N st) (\<lambda>st'. list_released heap cl (nat N) st st'
     \<and> (\<exists>H'. threads_to E mapped a H st (d(heap := d heap + N * class_bytes st cl)) (live st) H' st'))"
  using assms
proof (induction "nat N" arbitrary: N st H d rule: less_induct)
  case less
  note ok = less.prems(1) and heap = less.prems(2) and cl = less.prems(3,4) and N = less.prems(5,6)
  show ?case
  proof (cases "b < N")
    case False
    then show ?thesis using move_range_ok [OF ok heap cl N] by (subst release_batches.simps) simp
  next
    case True
    let ?d = "d(heap := d heap + b * class_bytes st cl)"
    have bN: "0 \<le> b" "b \<le> int (fl_length (the_list heap cl st))" using b True N by auto
    have "outcome (mad E) (move_range E heap cl b st \<bind> release_batches E heap cl b (N - b)) (\<lambda>st'. list_released heap cl (nat N) st st'
     \<and> (\<exists>H'. threads_to E mapped a H st (d(heap := d heap + N * class_bytes st cl)) (live st) H' st'))"
    proof (rule outcome_bindI [OF move_range_ok [OF ok heap cl bN]])
      fix st1
      assume "list_released heap cl (nat b) st st1 \<and> (\<exists>H'. threads_to E mapped a H st ?d (live st) H' st1)"
      then obtain H1 where r: "list_released heap cl (nat b) st st1" and t: "threads_to E mapped a H st ?d (live st) H1 st1" by blast
      have heap1: "heap \<in> set (thread_heaps st1)" using list_released_heaps [OF r] heap by simp
      have sm: "sizes st1 = sizes st" and ok1: "threads_ok E mapped a H1 ?d st1" using threads_to_ok [OF t] by auto
      have N1: "0 \<le> N - b" "N - b \<le> int (fl_length (the_list heap cl st1))" using r True N b by (auto simp: list_released_def)
      have "nat (N - b) < nat N" using b True by simp
      from less.hyps [OF this ok1 heap1 cl(1) _ N1 b] cl(2) sm
      have IH: "outcome (mad E) (release_batches E heap cl b (N - b) st1) (\<lambda>st'. list_released heap cl (nat (N - b)) st1 st'
        \<and> (\<exists>H'. threads_to E mapped a H1 st1 (?d(heap := ?d heap + (N - b) * class_bytes st1 cl)) (live st1) H' st'))" by simp
      have d: "?d(heap := ?d heap + (N - b) * class_bytes st1 cl) = d(heap := d heap + N * class_bytes st cl)"
        by (simp add: sm algebra_simps)
      show "outcome (mad E) (release_batches E heap cl b (N - b) st1) (\<lambda>st'. list_released heap cl (nat N) st st'
        \<and> (\<exists>H'. threads_to E mapped a H st (d(heap := d heap + N * class_bytes st cl)) (live st) H' st'))"
      proof (rule outcome_mono [OF IH], elim conjE exE)
        fix st' H'
        assume r': "list_released heap cl (nat (N - b)) st1 st'"
          and t': "threads_to E mapped a H1 st1 (?d(heap := ?d heap + (N - b) * class_bytes st1 cl)) (live st1) H' st'"
        have "nat b + nat (N - b) = nat N" using b True by simp
        with list_released_trans [OF r r'] threads_to_idle_trans [OF t t'] show "list_released heap cl (nat N) st st'
          \<and> (\<exists>H'. threads_to E mapped a H st (d(heap := d heap + N * class_bytes st cl)) (live st) H' st')"
          by (simp only: d) blast
      qed
    qed
    then show ?thesis using True by (subst release_batches.simps) simp
  qed
qed

lemma upd_list_triv [simp]: "upd_list heap cl (\<lambda>_. the_list heap cl st) st = st"
  by (simp add: upd_list_def upd_heap_def)

lemma size_change:
  assumes ok: "threads_ok E mapped a H d st" and heap: "heap \<in> set (thread_heaps st)"
  shows "threads_to E mapped a H st (d(heap := d heap + z)) (live st) H
      (upd_heap heap (\<lambda>c. c\<lparr>cached_size := i32 (cached_size c + z)\<rparr>) st)"
    and "list_released heap cl 0 st (upd_heap heap (\<lambda>c. c\<lparr>cached_size := i32 (cached_size c + z)\<rparr>) st)"
proof -
  let ?l = "the_list heap 0 st" and ?st' = "upd_heap heap (\<lambda>c. c\<lparr>cached_size := i32 (cached_size c + z)\<rparr>) st"
  have n: "0 < num_size_classes (sizes st)" using central_okD(2) [OF threads_okD(1) [OF ok]] by (simp add: sizes_ok_def)
  note l = threads_okD(4) [OF ok heap n]
  have e: "chain_of ?l = []" using l by (simp add: list_ok_def)
  have st': "?st' = upd_heap heap (\<lambda>c. c\<lparr>cached_size := i32 (cached_size (heaps st heap) + z)\<rparr>) (upd_list heap 0 (\<lambda>_. ?l) st)"
    by (simp add: upd_heap_def)
  have "threads_to E mapped a H st (d(heap := d heap + z))
      ((live st)(0 := outstanding (ctl st) 0 - others st heap 0 - set (chain_of ?l))) H ?st' \<and> kept heap st ?st'"
    by (rule list_change [OF ok heap n st' l]) (use e in simp_all)
  then have t: "threads_to E mapped a H st (d(heap := d heap + z))
      ((live st)(0 := outstanding (ctl st) 0 - others st heap 0 - set (chain_of ?l))) H ?st'" and k: "kept heap st ?st'" by blast+
  have "(live st)(0 := outstanding (ctl st) 0 - others st heap 0 - set (chain_of ?l)) = live st"
    using cached_others [OF heap, of 0] e by (simp add: fun_eq_iff live_def on_list_def)
  with t show "threads_to E mapped a H st (d(heap := d heap + z)) (live st) H ?st'" by simp
  show "list_released heap cl 0 st ?st'" using k by (simp add: list_released_def upd_heap_def)
qed

lemma ReleaseToCentralCache_ok:
  assumes ok: "threads_ok E mapped a H d st" and heap: "heap \<in> set (thread_heaps st)"
    and cl: "0 < cl" "cl < num_size_classes (sizes st)" and N: "0 \<le> N" "N < 2 ^ 31"
  shows "outcome (mad E) (ReleaseToCentralCache E heap cl N st) (\<lambda>st'.
     list_released heap cl (min (nat N) (fl_length (the_list heap cl st))) st st' \<and> (\<exists>H'. threads_to E mapped a H st d (live st) H' st'))"
proof -
  let ?len = "fl_length (the_list heap cl st)" and ?b = "num_objects_to_move (sizes st) cl"
  define M where "M = min N (int ?len)"
  have len: "?len < 2 ^ 31" using threads_okD(4) [OF ok heap cl(2)] by (simp add: list_ok_def)
  have M: "0 \<le> M" "M \<le> int ?len" "nat M = min (nat N) ?len" using N by (auto simp: M_def)
  have eq: "(if ?len < u64_of_int N then i32 (int ?len) else N) = M"
    using N len by (auto simp: M_def u64 i32_id)
  let ?d = "d(heap := d heap + M * class_bytes st cl)"
  have "outcome (mad E) (release_batches E heap cl ?b M st \<bind>
      (\<lambda>st1. Some (upd_heap heap (\<lambda>c. c\<lparr>cached_size := i32 (cached_size c + - (M * class_bytes st cl))\<rparr>) st1)))
    (\<lambda>st'. list_released heap cl (nat M) st st' \<and> (\<exists>H'. threads_to E mapped a H st d (live st) H' st'))"
  proof (rule outcome_bindI [OF release_batches_ok [OF ok heap cl M(1,2) class_sizes(1) [OF ok cl]]], elim conjE exE)
    fix st1 H1
    assume r: "list_released heap cl (nat M) st st1" and t: "threads_to E mapped a H st ?d (live st) H1 st1"
    have heap1: "heap \<in> set (thread_heaps st1)" using list_released_heaps [OF r] heap by simp
    have ok1: "threads_ok E mapped a H1 ?d st1" and sm: "sizes st1 = sizes st" using threads_to_ok [OF t] by auto
    have d: "?d(heap := ?d heap + - (M * class_bytes st cl)) = d" by simp
    note s = size_change [OF ok1 heap1, where z = "- (M * class_bytes st cl)"]
    show "outcome (mad E) (Some (upd_heap heap (\<lambda>c. c\<lparr>cached_size := i32 (cached_size c + - (M * class_bytes st cl))\<rparr>) st1))
      (\<lambda>st'. list_released heap cl (nat M) st st' \<and> (\<exists>H'. threads_to E mapped a H st d (live st) H' st'))"
      using list_released_trans [OF r s(2)] threads_to_idle_trans [OF t s(1)] unfolding d by auto
  qed
  moreover have "ReleaseToCentralCache E heap cl N st = release_batches E heap cl ?b M st \<bind>
      (\<lambda>st1. Some (upd_heap heap (\<lambda>c. c\<lparr>cached_size := i32 (cached_size c - M * class_bytes st cl)\<rparr>) st1))"
    unfolding ReleaseToCentralCache_def Let_def eq ByteSizeForClass_def by simp
  ultimately show ?thesis using M(3) by simp
qed

subsection \<open>Fetching objects\<close>

lemma outstanding_nonzero:
  assumes ok: "central_ok E mapped a H st" and cl: "cl < num_size_classes (size_map st)" and p: "p \<in> outstanding st cl"
  shows "p \<noteq> 0" and "0 < cl"
proof -
  note l = central_okD(6) [OF ok cl]
  from p obtain s where s: "s \<in> set (spans_of (central_cache st cl))" "p \<in> slots (size_map st) cl (spans (pageheap st) s)"
    by (auto simp: outstanding_def taken_slots_def)
  have "0 < start (spans (pageheap st) s)" using holds_spans(2) [OF central_okD(1) [OF ok]] lists_okD(1) [OF l s(1)] by blast
  then show "p \<noteq> 0" using s(2) by (auto simp: slots_def)
  show "0 < cl" using s(1) central_okD(5) [OF ok] by (cases "cl = 0") auto
qed

lemma live_triv: "heap \<in> set (thread_heaps st) \<Longrightarrow> (live st)(cl := outstanding (ctl st) cl - others st heap cl - on_list st heap cl) = live st"
  by (simp add: fun_eq_iff live_def cached_others Diff_Diff_Int Diff_Un Int_Diff) blast

definition no_handler :: "nat \<Rightarrow> ('o, 'm) tcm \<Rightarrow> (result \<times> ('o, 'm) tcm) option" where
  "no_handler sz st = Some (Returned 0, st)"

text \<open>What an allocation from the cache of a thread yields: a pointer that was not live, and is now; or null.\<close>

definition allocated ::
  "'o env \<Rightarrow> ('o \<Rightarrow> nat set) \<Rightarrow> bool \<Rightarrow> nat set \<Rightarrow> (nat \<Rightarrow> int) \<Rightarrow> nat \<Rightarrow> ('o, 'm) tcm \<Rightarrow> nat \<Rightarrow> result \<Rightarrow> ('o, 'm) tcm \<Rightarrow> bool" where
  "allocated E mapped a H d heap st cl r st' \<longleftrightarrow> kept heap st st'
     \<and> (\<forall>j. j \<noteq> cl \<longrightarrow> the_list heap j st' = the_list heap j st)
     \<and> fl_length (the_list heap cl st') \<le> max (fl_length (the_list heap cl st)) 8192
     \<and> (\<exists>p H'. r = Returned p \<and> (if p = 0 then
          threads_to E mapped a H st d (live st) H' st'
          \<and> (\<exists>h'. NewWithSizeClass E (class_to_pages (sizes st) cl) cl (pageheap (ctl st)) = Some (0, h'))
        else p \<notin> live st cl \<and> threads_to E mapped a H st d ((live st)(cl := insert p (live st cl))) H' st'))"

lemma FetchFromCentralCache_ok:
  assumes ok: "threads_ok E mapped a H d st" and heap: "heap \<in> set (thread_heaps st)" and tame: "tame mapped"
    and cl: "0 < cl" "cl < num_size_classes (sizes st)" and empty: "chain_of (the_list heap cl st) = []"
  shows "outcome (no_span E cl (ctl st)) (FetchFromCentralCache E heap cl (class_bytes st cl) no_handler st)
     (\<lambda>(r, st'). allocated E mapped a H d heap st cl r st')"
proof -
  let ?l = "the_list heap cl st" and ?O = "outstanding (ctl st) cl" and ?b = "num_objects_to_move (sizes st) cl"
  note l = threads_okD(4) [OF ok heap cl(2)] and b = class_sizes(1,2) [OF ok cl]
  note cok = threads_okD(1) [OF ok]
  define N where "N = min (int (max_length ?l)) ?b"
  have m: "1 \<le> max_length ?l" "max_length ?l \<le> 8192" using l by (auto simp: list_ok_def kMaxDynamicFreeListLength_def)
  have N: "1 \<le> N" "N \<le> 8192" "min (i32 (int (max_length ?l))) ?b = N" using m b by (auto simp: N_def i32_id)
  have len0: "fl_length ?l = 0" using l empty by (simp add: list_ok_def)
  show ?thesis unfolding FetchFromCentralCache_def Let_def N(3)
  proof (rule outcome_bindI [OF RemoveRange_ok [OF cok tame cl N(1)]], goal_cases)
    case (1 x)
    obtain n xs c where x: "x = (n, xs, c)" by (cases x)
    from 1(2) obtain H' where n: "n = int (length xs)" and f: "distinct xs" "set xs \<inter> ?O = {}" "int (length xs) \<le> N"
      and c: "central_to E mapped a H (ctl st) ((outstanding (ctl st))(cl := ?O \<union> set xs)) H' c"
      and null: "xs = [] \<Longrightarrow> \<exists>h'. NewWithSizeClass E (class_to_pages (sizes st) cl) cl (pageheap (ctl st)) = Some (0, h')"
      by (auto simp: x fetched_def)
    show ?case
    proof (cases xs)
      case Nil
      have k: "kept heap st (st\<lparr>ctl := c\<rparr>)" by (simp add: kept_def)
      have "threads_to E mapped a H st (d(heap := d heap)) ((live st)(cl := ?O - others st heap cl - on_list (st\<lparr>ctl := c\<rparr>) heap cl)) H' (st\<lparr>ctl := c\<rparr>)"
        by (rule local_change [OF ok heap cl(2) _ k])
          (use c Nil l threads_okD(6) [OF ok heap] others_apart [OF ok heap cl(2)] threads_okD(5) [OF ok heap cl(2)] in \<open>auto simp: on_list_def\<close>)
      moreover have "on_list (st\<lparr>ctl := c\<rparr>) heap cl = on_list st heap cl" by (simp add: on_list_def)
      ultimately have "threads_to E mapped a H st d (live st) H' (st\<lparr>ctl := c\<rparr>)" using live_triv [OF heap, of cl] by simp
      then show ?thesis using null [OF Nil] k Nil by (auto simp: x n allocated_def no_handler_def)
    next
      case (Cons p rest)
      define l1 where "l1 = PushRange (int (length rest)) rest ?l"
      have l1: "list_ok (sizes st) cl l1" "chain_of l1 = rest" "fl_length l1 = length rest" "length rest < 8192"
        using l empty len0 f N(2) cl Cons by (auto simp: l1_def PushRange_def list_ok_def u32_id)
      obtain k where g: "grow_max_length ?b l1 = Some (set_max_length k l1)" and k: "1 \<le> k" "k \<le> 8192"
        using grow_max_length_ok [OF l1(1) b] by blast
      define l2 where "l2 = set_max_length k l1"
      have l2: "list_ok (sizes st) cl l2" "chain_of l2 = rest" "fl_length l2 = length rest"
        using list_ok_max [OF l1(1) k] l1 by (simp_all add: l2_def)
      define h2 where "h2 = (heaps st heap)\<lparr>cached_size := i32 (cached_size (heaps st heap) + class_bytes st cl * int (length rest)),
        list_of := (list_of (heaps st heap))(cl := l2)\<rparr>"
      define st' where "st' = st\<lparr>ctl := c, heaps := (heaps st)(heap := h2)\<rparr>"
      have h': "heaps st' heap = h2" "ctl st' = c" by (simp_all add: st'_def)
      have kk: "kept heap st st'" by (simp add: kept_def st'_def h2_def)
      have on: "on_list st' heap cl = set rest" "on_list st heap cl = {}" using empty by (simp_all add: on_list_def st'_def h2_def l2)
      note oth = others_apart [OF ok heap cl(2)]
      have pO: "p \<notin> ?O" "p \<notin> set rest" "set rest \<inter> ?O = {}" using f(1,2) Cons by auto
      have "p \<in> outstanding c cl" using central_to_out [OF c cl(2)] Cons by simp
      then have p0: "p \<noteq> 0" using outstanding_nonzero(1) [OF central_to_ok [OF c], of cl] cl(2) central_to_size [OF c] by simp
      have "threads_to E mapped a H st (d(heap := d heap)) ((live st)(cl := ?O \<union> set xs - others st heap cl - on_list st' heap cl)) H' st'"
      proof (rule local_change [OF ok heap cl(2) _ kk])
        show "central_to E mapped a H (ctl st) ((outstanding (ctl st))(cl := ?O \<union> set xs)) H' (ctl st')" using c by (simp add: h')
        have "cached_bytes (sizes st) h2 = cached_bytes (sizes st) (heaps st heap) + class_bytes st cl * int (length rest)"
          using cached_bytes_update [OF cl(2), of h2 "heaps st heap"] by (simp add: h2_def l2 empty)
        moreover have "cached_size h2 = i32 (cached_size (heaps st heap) + class_bytes st cl * int (length rest))" by (simp add: h2_def)
        ultimately show "cached_size (heaps st' heap) = i32 (cached_bytes (sizes st) (heaps st' heap) + d heap)"
          unfolding h' threads_okD(6) [OF ok heap] i32_add by (simp add: algebra_simps)
      qed (use l2 on oth pO Cons in \<open>auto simp: h' h2_def\<close>)
      then have t: "threads_to E mapped a H st d ((live st)(cl := insert p (live st cl))) H' st'"
        by (simp, elim threads_to_cong) (use on oth pO Cons cached_others [OF heap, of cl] in \<open>auto simp: live_def\<close>)
      have "p \<notin> live st cl" using pO by (simp add: live_def)
      then have "allocated E mapped a H d heap st cl (Returned p) st'"
        using kk t p0 l2(3) l1(4) unfolding allocated_def by (auto simp: h' h2_def)
      moreover have "upd_list heap cl (\<lambda>_. l2) (upd_list heap cl (PushRange (int (length rest)) rest)
          (upd_heap heap (\<lambda>c. c\<lparr>cached_size := i32 (cached_size c + class_bytes st cl * int (length rest))\<rparr>) (st\<lparr>ctl := c\<rparr>))) = st'"
        by (simp add: upd_list_def upd_heap_def st'_def h2_def)
      ultimately show ?thesis
        using Cons g by (simp add: x n l2_def) (simp add: l1_def upd_list_def upd_heap_def)
    qed
  qed
qed

end
