(* ===== verification/ThreadLimits.thy ===== *)
theory ThreadLimits
  imports ThreadOps
begin

text \<open>
  The shares of the caches in the total cache size. The source says that \<open>unclaimed_cache_space_\<close> is the
  total size minus the sum of the shares; the shares have 32 bits, and this is what holds of them.
\<close>

subsection \<open>Shares\<close>

definition shares :: "nat set \<Rightarrow> ('o, 'm) tcm \<Rightarrow> int" where
  "shares A st = unclaimed_cache_space st + (\<Sum>h \<in> A. max_size (heaps st h))"

lemma ssize64_mod: "ssize64 x mod 2 ^ 32 = x mod 2 ^ 32"
proof -
  have "(x + 2 ^ 63) mod 2 ^ 64 mod 2 ^ 32 = (x + 2 ^ 63) mod (2 ^ 32 :: int)" by (rule mod_mod_cancel) simp
  then have "((x + 2 ^ 63) mod 2 ^ 64 - 2 ^ 63) mod 2 ^ 32 = (x + 2 ^ 63 - 2 ^ 63) mod (2 ^ 32 :: int)" by (rule mod_diff_cong) simp
  then show ?thesis by (simp add: ssize64_def)
qed

lemma shares_SetMaxSize:
  assumes "finite A" "h \<in> A"
  shows "shares A (SetMaxSize h x st) mod 2 ^ 32 = (shares A st - max_size (heaps st h) + x) mod 2 ^ 32"
proof -
  have "(\<Sum>k \<in> A - {h}. max_size (heaps (SetMaxSize h x st) k)) = (\<Sum>k \<in> A - {h}. max_size (heaps st k))"
    by (rule sum.cong) (auto simp: SetMaxSize_def upd_heap_def)
  then have "shares A (SetMaxSize h x st) = shares A st - max_size (heaps st h) + i32 x"
    using assms by (simp add: shares_def sum.remove [OF assms] SetMaxSize_def upd_heap_def)
  then show ?thesis by (metis i32_mod mod_add_right_eq)
qed

text \<open>A change of the limits only.\<close>

definition relimited :: "nat set \<Rightarrow> ('o, 'm) tcm \<Rightarrow> ('o, 'm) tcm \<Rightarrow> bool" where
  "relimited A st st' \<longleftrightarrow>
     st' = st\<lparr>heaps := heaps st', next_memory_steal := next_memory_steal st', unclaimed_cache_space := unclaimed_cache_space st'\<rparr>
     \<and> (\<forall>h. heaps st' h = (heaps st h)\<lparr>max_size := max_size (heaps st' h)\<rparr>)
     \<and> (next_memory_steal st' = next_memory_steal st \<or> next_memory_steal st' = 0 \<or> next_memory_steal st' \<in> set (thread_heaps st))
     \<and> shares A st' mod 2 ^ 32 = shares A st mod 2 ^ 32"

lemma relimited_refl [simp]: "relimited A st st"
  by (simp add: relimited_def)

lemma relimitedD:
  assumes "relimited A st st'"
  shows "ctl st' = ctl st" and "thread_heaps st' = thread_heaps st" and "list_of (heaps st' h) = list_of (heaps st h)"
    and "cached_size (heaps st' h) = cached_size (heaps st h)" and "sampler_of (heaps st' h) = sampler_of (heaps st h)"
    and "min_per_thread_cache_size st' = min_per_thread_cache_size st"
proof -
  have e: "st' = st\<lparr>heaps := heaps st', next_memory_steal := next_memory_steal st', unclaimed_cache_space := unclaimed_cache_space st'\<rparr>"
    and h: "heaps st' h = (heaps st h)\<lparr>max_size := max_size (heaps st' h)\<rparr>" for h using assms unfolding relimited_def by blast+
  show "ctl st' = ctl st" "thread_heaps st' = thread_heaps st" "min_per_thread_cache_size st' = min_per_thread_cache_size st"
    by (subst e, simp)+
  show "list_of (heaps st' h) = list_of (heaps st h)" "cached_size (heaps st' h) = cached_size (heaps st h)"
    "sampler_of (heaps st' h) = sampler_of (heaps st h)" by (subst h, simp)+
qed

lemma relimited_trans:
  assumes "relimited A st st1" and "relimited A st1 st2"
  shows "relimited A st st2"
proof -
  have e1: "st1 = st\<lparr>heaps := heaps st1, next_memory_steal := next_memory_steal st1, unclaimed_cache_space := unclaimed_cache_space st1\<rparr>"
    and e2: "st2 = st1\<lparr>heaps := heaps st2, next_memory_steal := next_memory_steal st2, unclaimed_cache_space := unclaimed_cache_space st2\<rparr>"
    using assms unfolding relimited_def by blast+
  have e: "st2 = st\<lparr>heaps := heaps st2, next_memory_steal := next_memory_steal st2, unclaimed_cache_space := unclaimed_cache_space st2\<rparr>"
    by (subst e2, subst e1) simp
  have h: "heaps st2 h = (heaps st h)\<lparr>max_size := max_size (heaps st2 h)\<rparr>" for h
  proof -
    have h1: "heaps st1 h = (heaps st h)\<lparr>max_size := max_size (heaps st1 h)\<rparr>"
      and h2: "heaps st2 h = (heaps st1 h)\<lparr>max_size := max_size (heaps st2 h)\<rparr>" using assms unfolding relimited_def by blast+
    show ?thesis by (subst h2, subst h1) simp
  qed
  show ?thesis using assms e h relimitedD(2) [OF assms(1)] unfolding relimited_def by auto
qed

lemma next_heap_in: "next_heap h hs = 0 \<or> next_heap h hs \<in> set hs"
  by (induction h hs rule: next_heap.induct) auto

lemma steal_loop_ok:
  assumes "this \<in> A" "set (thread_heaps st) \<subseteq> A" "finite A" "thread_heaps st \<noteq> []" "0 \<notin> set (thread_heaps st)"
    and "next_memory_steal st = 0 \<or> next_memory_steal st \<in> set (thread_heaps st)"
  shows "\<exists>st'. steal_loop i this st = Some st' \<and> relimited A st st'"
  using assms
proof (induction i arbitrary: st)
  case (Suc i)
  define st1 where "st1 = (if next_memory_steal st = 0 then st\<lparr>next_memory_steal := first_heap (thread_heaps st)\<rparr> else st)"
  define v where "v = next_memory_steal st1"
  define st2 where "st2 = st1\<lparr>next_memory_steal := next_heap v (thread_heaps st1)\<rparr>"
  have "first_heap (thread_heaps st) \<in> set (thread_heaps st)" using Suc.prems(4) by (cases "thread_heaps st") (auto simp: first_heap_def)
  then have v: "v \<in> set (thread_heaps st)" using Suc.prems(6) by (auto simp: v_def st1_def)
  then have v0: "v \<noteq> 0" using Suc.prems(5) by metis
  have r1: "relimited A st st1" using v by (auto simp: relimited_def st1_def v_def shares_def)
  note d1 = relimitedD [OF r1]
  have r2: "relimited A st1 st2" using next_heap_in [of v "thread_heaps st1"] by (auto simp: relimited_def st2_def shares_def)
  note d2 = relimitedD [OF r2]
  have n2: "next_memory_steal st2 = 0 \<or> next_memory_steal st2 \<in> set (thread_heaps st2)"
    using next_heap_in [of v "thread_heaps st1"] by (simp add: st2_def)
  obtain st3 where st3: "steal_loop i this st2 = Some st3" "relimited A st2 st3"
    using Suc.IH [of st2] Suc.prems d1 d2 n2 by auto
  have go_on: "relimited A st st3" using relimited_trans [OF relimited_trans [OF r1 r2] st3(2)] .
  define st4 where "st4 = SetMaxSize v (max_size (heaps st1 v) - int kStealAmount) st1"
  define st5 where "st5 = SetMaxSize this (max_size (heaps st4 this) + int kStealAmount) st4"
  define st6 where "st6 = st5\<lparr>next_memory_steal := next_heap v (thread_heaps st5)\<rparr>"
  have "relimited A st1 st6" if "v \<noteq> this"
  proof -
    have "shares A st6 = shares A st5" by (simp add: st6_def shares_def)
    also have "shares A st5 mod 2 ^ 32 = (shares A st4 - max_size (heaps st4 this) + (max_size (heaps st4 this) + int kStealAmount)) mod 2 ^ 32"
      unfolding st5_def by (rule shares_SetMaxSize [OF Suc.prems(3,1)])
    also have "\<dots> = (shares A st4 + int kStealAmount) mod 2 ^ 32" by simp
    also have "\<dots> = (shares A st1 - max_size (heaps st1 v) + (max_size (heaps st1 v) - int kStealAmount) + int kStealAmount) mod 2 ^ 32"
      unfolding st4_def by (rule mod_add_cong [OF shares_SetMaxSize refl]) (use Suc.prems v in auto)
    finally have s: "shares A st6 mod 2 ^ 32 = shares A st1 mod 2 ^ 32" by simp
    show ?thesis unfolding relimited_def using s next_heap_in [of v "thread_heaps st1"]
      by (auto simp: st6_def st5_def st4_def SetMaxSize_def upd_heap_def fun_eq_iff)
  qed
  then have stolen: "relimited A st st6" if "v \<noteq> this" using relimited_trans [OF r1] that by blast
  have "steal_loop (Suc i) this st = (if v = this then steal_loop i this st2 else if v = 0 then None
      else if u64_of_int (max_size (heaps st1 v)) \<le> min_per_thread_cache_size st1 then steal_loop i this st2 else Some st6)"
    by (simp only: steal_loop.simps Let_def st1_def [symmetric] v_def [symmetric] st2_def [symmetric]
      st4_def [symmetric] st5_def [symmetric] st6_def [symmetric])
  then show ?case using st3(1) go_on stolen v0 by auto
qed simp

lemma IncreaseCacheLimitLocked_ok:
  assumes "this \<in> A" "set (thread_heaps st) \<subseteq> A" "finite A" "0 \<notin> set (thread_heaps st)"
    and "thread_heaps st \<noteq> [] \<or> 0 < unclaimed_cache_space st"
    and "next_memory_steal st = 0 \<or> next_memory_steal st \<in> set (thread_heaps st)"
  shows "\<exists>st'. IncreaseCacheLimitLocked this st = Some st' \<and> relimited A st st'"
proof (cases "0 < unclaimed_cache_space st")
  case False
  then show ?thesis using steal_loop_ok [OF assms(1-3) _ assms(4,6)] assms(5) by (simp add: IncreaseCacheLimitLocked_def)
next
  case True
  define st1 where "st1 = st\<lparr>unclaimed_cache_space := ssize64 (unclaimed_cache_space st - int kStealAmount)\<rparr>"
  define st2 where "st2 = SetMaxSize this (max_size (heaps st1 this) + int kStealAmount) st1"
  have "shares A st2 mod 2 ^ 32 = (shares A st1 - max_size (heaps st1 this) + (max_size (heaps st1 this) + int kStealAmount)) mod 2 ^ 32"
    unfolding st2_def by (rule shares_SetMaxSize [OF assms(3,1)])
  also have "\<dots> = (ssize64 (unclaimed_cache_space st - int kStealAmount) + ((\<Sum>h \<in> A. max_size (heaps st h)) + int kStealAmount)) mod 2 ^ 32"
    by (simp add: shares_def st1_def algebra_simps)
  also have "\<dots> = (unclaimed_cache_space st - int kStealAmount + ((\<Sum>h \<in> A. max_size (heaps st h)) + int kStealAmount)) mod 2 ^ 32"
    by (rule mod_add_cong [OF ssize64_mod refl])
  finally have "shares A st2 mod 2 ^ 32 = shares A st mod 2 ^ 32" by (simp add: shares_def algebra_simps)
  then have "relimited A st st2" unfolding relimited_def by (auto simp: st2_def st1_def SetMaxSize_def upd_heap_def fun_eq_iff)
  then show ?thesis using True by (simp add: IncreaseCacheLimitLocked_def st1_def [symmetric] st2_def [symmetric] Let_def)
qed

end
