(* ===== verification/ThreadSteps.thy ===== *)
theory ThreadSteps
  imports ThreadLimits
begin

text \<open>
  The public operations of the thread caches: \<open>Allocate\<close>, \<open>Deallocate\<close> and \<open>Scavenge\<close>.
\<close>

subsection \<open>What every operation keeps\<close>

definition caches_steady :: "('o, 'm) tcm \<Rightarrow> ('o, 'm) tcm \<Rightarrow> bool" where
  "caches_steady st st' \<longleftrightarrow>
     st' = st\<lparr>ctl := ctl st', heaps := heaps st', next_memory_steal := next_memory_steal st', unclaimed_cache_space := unclaimed_cache_space st'\<rparr>
     \<and> (\<forall>h. sampler_of (heaps st' h) = sampler_of (heaps st h))
     \<and> shares (set (thread_heaps st)) st' mod 2 ^ 32 = shares (set (thread_heaps st)) st mod 2 ^ 32
     \<and> (\<forall>h j. fl_length (the_list h j st') \<le> max (fl_length (the_list h j st)) 8192)"

lemma caches_steady_refl [simp]: "caches_steady st st"
  by (simp add: caches_steady_def)

lemma caches_steady_heaps: "caches_steady st st' \<Longrightarrow> thread_heaps st' = thread_heaps st"
  unfolding caches_steady_def by (elim conjE) (erule ssubst, simp)

lemma caches_steady_trans:
  assumes "caches_steady st st1" and "caches_steady st1 st2"
  shows "caches_steady st st2"
proof -
  have e1: "st1 = st\<lparr>ctl := ctl st1, heaps := heaps st1, next_memory_steal := next_memory_steal st1, unclaimed_cache_space := unclaimed_cache_space st1\<rparr>"
    and e2: "st2 = st1\<lparr>ctl := ctl st2, heaps := heaps st2, next_memory_steal := next_memory_steal st2, unclaimed_cache_space := unclaimed_cache_space st2\<rparr>"
    using assms unfolding caches_steady_def by blast+
  have e: "st2 = st\<lparr>ctl := ctl st2, heaps := heaps st2, next_memory_steal := next_memory_steal st2, unclaimed_cache_space := unclaimed_cache_space st2\<rparr>"
    by (subst e2, subst e1) simp
  have l: "fl_length (the_list h j st2) \<le> max (fl_length (the_list h j st)) 8192" for h j
  proof -
    have "fl_length (the_list h j st2) \<le> max (fl_length (the_list h j st1)) 8192"
      "fl_length (the_list h j st1) \<le> max (fl_length (the_list h j st)) 8192" using assms unfolding caches_steady_def by blast+
    then show ?thesis by linarith
  qed
  have "sampler_of (heaps st2 h) = sampler_of (heaps st h)" for h using assms unfolding caches_steady_def by metis
  moreover have "shares (set (thread_heaps st)) st2 mod 2 ^ 32 = shares (set (thread_heaps st)) st mod 2 ^ 32"
    using assms caches_steady_heaps [OF assms(1)] unfolding caches_steady_def by metis
  ultimately show ?thesis using e l unfolding caches_steady_def by blast
qed

lemma kept_steady:
  assumes k: "kept heap st st'" and l: "\<And>j. fl_length (the_list heap j st') \<le> max (fl_length (the_list heap j st)) 8192"
  shows "caches_steady st st'"
proof -
  have e: "st' = st\<lparr>ctl := ctl st', heaps := (heaps st)(heap := heaps st' heap)\<rparr>" using k by (simp add: kept_def)
  have "heaps st' = (heaps st)(heap := heaps st' heap)" using arg_cong [OF e, of heaps] by simp
  with e have e': "st' = st\<lparr>ctl := ctl st', heaps := heaps st'\<rparr>" by simp
  have u: "unclaimed_cache_space st' = unclaimed_cache_space st" "next_memory_steal st' = next_memory_steal st" by (subst e, simp)+
  have "st' = st\<lparr>ctl := ctl st', heaps := heaps st', next_memory_steal := next_memory_steal st', unclaimed_cache_space := unclaimed_cache_space st'\<rparr>"
    using e' u by simp
  moreover have "sampler_of (heaps st' h) = sampler_of (heaps st h)" for h
    using k keptD(3) [OF k, of h] by (cases "h = heap") (auto simp: kept_def)
  moreover have "fl_length (the_list h j st') \<le> max (fl_length (the_list h j st)) 8192" for h j
    using l [of j] keptD(3) [OF k, of h] by (cases "h = heap") auto
  ultimately show ?thesis using keptD(4) [OF k] u unfolding caches_steady_def shares_def by simp
qed

lemma list_released_steady: "list_released heap cl N st st' \<Longrightarrow> caches_steady st st'"
proof (rule kept_steady [of heap])
  assume r: "list_released heap cl N st st'"
  then show "kept heap st st'" by (simp add: list_released_def)
  show "fl_length (the_list heap j st') \<le> max (fl_length (the_list heap j st)) 8192" for j
    using r by (cases "j = cl") (auto simp: list_released_def)
qed

lemma relimited_steady:
  assumes "relimited (set (thread_heaps st)) st st'"
  shows "caches_steady st st'"
proof -
  have e: "st' = st\<lparr>heaps := heaps st', next_memory_steal := next_memory_steal st', unclaimed_cache_space := unclaimed_cache_space st'\<rparr>"
    using assms unfolding relimited_def by blast
  have "st' = st\<lparr>ctl := ctl st', heaps := heaps st', next_memory_steal := next_memory_steal st', unclaimed_cache_space := unclaimed_cache_space st'\<rparr>"
    using e relimitedD(1) [OF assms] by simp
  then show ?thesis using relimitedD(3,5) [OF assms] assms unfolding caches_steady_def relimited_def by simp
qed

lemma relimited_to:
  assumes ok: "threads_ok E mapped a H d st" and r: "relimited A st st'"
  shows "threads_to E mapped a H st d (live st) H st'"
proof -
  note k = relimitedD [OF r]
  have on: "on_list st' h j = on_list st h j" for h j by (simp add: on_list_def k(3))
  have "heap_lists_ok st' h = heap_lists_ok st h" for h by (simp add: heap_lists_ok_def k on)
  moreover have "cached_bytes sm (heaps st' h) = cached_bytes sm (heaps st h)" for sm h by (simp add: cached_bytes_def k(3))
  moreover have "next_memory_steal st' = 0 \<or> next_memory_steal st' \<in> set (thread_heaps st')"
    using ok r k(2) unfolding threads_ok_def caches_ok_def relimited_def by metis
  ultimately have "threads_ok E mapped a H d st'" using ok by (simp add: threads_ok_def caches_ok_def k on)
  moreover have "live st' j = live st j" for j by (simp add: live_def cached_def k on)
  ultimately show ?thesis by (simp add: threads_to_def k(1))
qed

text \<open>Two caches_steady operations one after the other, of which the second leaves the live objects alone.\<close>

lemma then_idle:
  assumes "caches_steady st st1 \<and> (\<exists>H1. threads_to E mapped a H st d1 out H1 st1)"
    and "\<And>H1. threads_ok E mapped a H1 d1 st1 \<Longrightarrow> sizes st1 = sizes st \<Longrightarrow> thread_heaps st1 = thread_heaps st
      \<Longrightarrow> outcome D r (\<lambda>st2. caches_steady st1 st2 \<and> (\<exists>H2. threads_to E mapped a H1 st1 d2 (live st1) H2 st2))"
  shows "outcome D r (\<lambda>st2. caches_steady st st2 \<and> (\<exists>H2. threads_to E mapped a H st d2 out H2 st2))"
proof -
  from assms(1) obtain H1 where s: "caches_steady st st1" and t: "threads_to E mapped a H st d1 out H1 st1" by blast
  have o: "threads_ok E mapped a H1 d1 st1" "sizes st1 = sizes st" using threads_to_ok [OF t] by auto
  show ?thesis
  proof (rule outcome_mono [OF assms(2) [OF o caches_steady_heaps [OF s]]], elim conjE exE)
    fix st2 H2
    assume "caches_steady st1 st2" and t2: "threads_to E mapped a H1 st1 d2 (live st1) H2 st2"
    then show "caches_steady st st2 \<and> (\<exists>H2. threads_to E mapped a H st d2 out H2 st2)"
      using caches_steady_trans [OF s] threads_to_cong [OF threads_to_trans [OF t t2]] threads_to_live [OF t] by auto
  qed
qed

subsection \<open>Scavenging\<close>

text \<open>A change of the bounds of a list.\<close>

lemma field_change:
  assumes ok: "threads_ok E mapped a H d st" and heap: "heap \<in> set (thread_heaps st)" and cl: "cl < num_size_classes (sizes st)"
    and l: "list_ok (sizes st) cl (f (the_list heap cl st))" and same: "chain_of (f (the_list heap cl st)) = chain_of (the_list heap cl st)"
  shows "caches_steady st (upd_list heap cl f st)" and "threads_to E mapped a H st d (live st) H (upd_list heap cl f st)"
proof -
  let ?l = "f (the_list heap cl st)" and ?st' = "upd_list heap cl f st"
  have st': "?st' = upd_heap heap (\<lambda>c. c\<lparr>cached_size := cached_size (heaps st heap)\<rparr>) (upd_list heap cl (\<lambda>_. ?l) st)"
    by (simp add: upd_list_def upd_heap_def)
  have on: "set (chain_of ?l) = on_list st heap cl" by (simp add: on_list_def same)
  have "threads_to E mapped a H st (d(heap := d heap))
      ((live st)(cl := outstanding (ctl st) cl - others st heap cl - set (chain_of ?l))) H ?st' \<and> kept heap st ?st'"
    by (rule list_change [OF ok heap cl st' l])
      (use threads_okD(6) [OF ok heap] i32_add [of _ 0] others_apart [OF ok heap cl] threads_okD(5) [OF ok heap cl] on in \<open>auto simp: same\<close>)
  then show t: "threads_to E mapped a H st d (live st) H ?st'" and "caches_steady st ?st'"
  proof -
    assume r: "threads_to E mapped a H st (d(heap := d heap))
      ((live st)(cl := outstanding (ctl st) cl - others st heap cl - set (chain_of ?l))) H ?st' \<and> kept heap st ?st'"
    then show "threads_to E mapped a H st d (live st) H ?st'" unfolding on live_triv [OF heap] by simp
    have "list_ok (sizes st) cl (the_list heap cl st)" by (rule threads_okD(4) [OF ok heap cl])
    then have "fl_length ?l = fl_length (the_list heap cl st)" using l same by (simp add: list_ok_def)
    then show "caches_steady st ?st'" by (intro kept_steady [of heap]) (use r in \<open>auto simp: upd_list_def upd_heap_def\<close>)
  qed
qed

lemma idle_step:
  assumes "threads_to E mapped a H st d (live st) H' st'" "caches_steady st st'"
  shows "outcome D (Some st') (\<lambda>st'. caches_steady st st' \<and> (\<exists>H'. threads_to E mapped a H st d (live st) H' st'))"
  using assms by auto

lemma scavenge_list_ok:
  fixes st :: "('o, 'm) tcm"
  assumes ok: "threads_ok E mapped a H d st" and heap: "heap \<in> set (thread_heaps st)" and cl: "cl < num_size_classes (sizes st)"
  shows "outcome (mad E) (scavenge_list E heap cl st)
     (\<lambda>st'. caches_steady st st' \<and> (\<exists>H'. threads_to E mapped a H st d (live st) H' st'))"
proof -
  let ?l = "the_list heap cl st"
  define lowmark where "lowmark = int (lowater ?l)"
  note l = threads_okD(4) [OF ok heap cl]
  have lm: "i32 (int (lowater ?l)) = lowmark" "lowmark < 2 ^ 31" "cl = 0 \<Longrightarrow> lowmark = 0"
    using l by (auto simp: list_ok_def lowmark_def i32_id)
  define b where "b = num_objects_to_move (sizes st) cl"
  let ?drop = "if 1 < lowmark then lowmark div 2 else 1"
  define f where "f = (\<lambda>l. if u64_of_int b < max_length l then set_max_length (u64_of_int (max (i32 (int (max_length l) - b)) b)) l else l)"
  define F :: "('o, 'm) tcm \<Rightarrow> ('o, 'm) tcm" where "F = (\<lambda>st. upd_list heap cl (\<lambda>l. if u64_of_int (num_objects_to_move (sizes st) cl) < max_length l
     then set_max_length (u64_of_int (max (i32 (int (max_length l) - num_objects_to_move (sizes st) cl)) (num_objects_to_move (sizes st) cl))) l
     else l) st)"
  have first: "outcome (mad E) (if 0 < lowmark then do { st \<leftarrow> ReleaseToCentralCache E heap cl ?drop st; Some (F st) } else Some st)
     (\<lambda>st'. caches_steady st st' \<and> (\<exists>H'. threads_to E mapped a H st d (live st) H' st'))"
  proof (cases "0 < lowmark")
    case False
    then show ?thesis using threads_to_refl [OF ok] by auto
  next
    case True
    then have cl0: "0 < cl" using lm(3) by (cases "cl = 0") auto
    have drop: "0 \<le> ?drop" "?drop < 2 ^ 31" using True lm(2) by auto
    note b = class_sizes(1,2) [OF ok cl0 cl, folded b_def]
    have "outcome (mad E) (ReleaseToCentralCache E heap cl ?drop st \<bind> (\<lambda>st. Some (F st)))
     (\<lambda>st'. caches_steady st st' \<and> (\<exists>H'. threads_to E mapped a H st d (live st) H' st'))"
    proof (rule outcome_bindI [OF ReleaseToCentralCache_ok [OF ok heap cl0 cl drop]], rule then_idle)
      fix st1
      assume "list_released heap cl (min (nat ?drop) (fl_length ?l)) st st1 \<and> (\<exists>H'. threads_to E mapped a H st d (live st) H' st1)"
      then show "caches_steady st st1 \<and> (\<exists>H1. threads_to E mapped a H st d (live st) H1 st1)" using list_released_steady by blast
    next
      fix st1 :: "('o, 'm) tcm" and H1
      assume ok1: "threads_ok E mapped a H1 d st1" and sm: "sizes st1 = sizes st" and hs: "thread_heaps st1 = thread_heaps st"
      have heap1: "heap \<in> set (thread_heaps st1)" and cl1: "cl < num_size_classes (sizes st1)" using heap cl by (simp_all add: hs sm)
      note l1 = threads_okD(4) [OF ok1 heap1 cl1]
      have "max_length (the_list heap cl st1) \<le> 8192" using l1 by (simp add: list_ok_def kMaxDynamicFreeListLength_def)
      then have "list_ok (sizes st1) cl (f (the_list heap cl st1))" "chain_of (f (the_list heap cl st1)) = chain_of (the_list heap cl st1)"
        using l1 b by (auto simp: f_def u64 i32_id intro!: list_ok_max)
      moreover have "F st1 = upd_list heap cl f st1" unfolding F_def f_def b_def sm ..
      ultimately show "outcome (mad E) (Some (F st1)) (\<lambda>st2. caches_steady st1 st2 \<and> (\<exists>H2. threads_to E mapped a H1 st1 d (live st1) H2 st2))"
        using field_change [OF ok1 heap1 cl1, of f] by auto
    qed
    then show ?thesis using True by simp
  qed
  have "outcome (mad E) ((if 0 < lowmark then do { st \<leftarrow> ReleaseToCentralCache E heap cl ?drop st; Some (F st) } else Some st)
      \<bind> (\<lambda>st. Some (upd_list heap cl clear_lowwatermark st))) (\<lambda>st'. caches_steady st st' \<and> (\<exists>H'. threads_to E mapped a H st d (live st) H' st'))"
  proof (rule outcome_bindI [OF first], erule then_idle)
    fix st1 :: "('o, 'm) tcm" and H1
    assume ok1: "threads_ok E mapped a H1 d st1" and sm: "sizes st1 = sizes st" and hs: "thread_heaps st1 = thread_heaps st"
    have heap1: "heap \<in> set (thread_heaps st1)" and cl1: "cl < num_size_classes (sizes st1)" using heap cl by (simp_all add: hs sm)
    show "outcome (mad E) (Some (upd_list heap cl clear_lowwatermark st1))
      (\<lambda>st2. caches_steady st1 st2 \<and> (\<exists>H2. threads_to E mapped a H1 st1 d (live st1) H2 st2))"
      using field_change [OF ok1 heap1 cl1, of clear_lowwatermark] threads_okD(4) [OF ok1 heap1 cl1] by auto
  qed
  then show ?thesis unfolding scavenge_list_def Let_def lm(1) F_def .
qed

lemma scavenge_lists_ok:
  assumes "threads_ok E mapped a H d st" and "heap \<in> set (thread_heaps st)" and "\<forall>cl \<in> set cls. cl < num_size_classes (sizes st)"
  shows "outcome (mad E) (scavenge_lists E heap cls st)
     (\<lambda>st'. caches_steady st st' \<and> (\<exists>H'. threads_to E mapped a H st d (live st) H' st'))"
  using assms
proof (induction cls arbitrary: st H)
  case Nil
  then show ?case using idle_step [OF threads_to_refl caches_steady_refl] by simp
next
  case (Cons cl cls)
  show ?case unfolding scavenge_lists.simps
    by (rule outcome_bindI [OF scavenge_list_ok [OF Cons.prems(1,2)]], use Cons.prems in simp, erule then_idle, rule Cons.IH)
      (use Cons.prems in auto)
qed

lemma Scavenge_ok:
  assumes ok: "threads_ok E mapped a H d st" and heap: "heap \<in> set (thread_heaps st)"
  shows "outcome (mad E) (Scavenge E heap st) (\<lambda>st'. caches_steady st st' \<and> (\<exists>H'. threads_to E mapped a H st d (live st) H' st'))"
  unfolding Scavenge_def
proof (rule outcome_bindI [OF scavenge_lists_ok [OF ok heap]], simp, erule then_idle)
  fix st1 H1
  assume ok1: "threads_ok E mapped a H1 d st1" and hs: "thread_heaps st1 = thread_heaps st"
  have heap1: "heap \<in> set (thread_heaps st1)" using heap hs by simp
  then have "\<exists>st'. IncreaseCacheLimitLocked heap st1 = Some st' \<and> relimited (set (thread_heaps st1)) st1 st'"
    using ok1 by (intro IncreaseCacheLimitLocked_ok) (auto simp: threads_ok_def caches_ok_def)
  then obtain st2 where s: "IncreaseCacheLimitLocked heap st1 = Some st2" and r: "relimited (set (thread_heaps st1)) st1 st2" by blast
  show "outcome (mad E) (IncreaseCacheLimit heap st1) (\<lambda>st2. caches_steady st1 st2 \<and> (\<exists>H2. threads_to E mapped a H1 st1 d (live st1) H2 st2))"
    using idle_step [OF relimited_to [OF ok1 r] relimited_steady [OF r]] by (simp add: IncreaseCacheLimit_def s)
qed

subsection \<open>Allocation and deallocation\<close>

lemma allocated_steady: "allocated E mapped a H d heap st cl r st' \<Longrightarrow> caches_steady st st'"
proof (rule kept_steady [of heap])
  assume r: "allocated E mapped a H d heap st cl r st'"
  then show "kept heap st st'" by (simp add: allocated_def)
  show "fl_length (the_list heap j st') \<le> max (fl_length (the_list heap j st)) 8192" for j
    using r unfolding allocated_def by (cases "j = cl") auto
qed

lemma Allocate_ok:
  assumes ok: "threads_ok E mapped a H d st" and heap: "heap \<in> set (thread_heaps st)" and tame: "tame mapped"
    and cl: "0 < cl" "cl < num_size_classes (sizes st)"
  shows "outcome (no_span E cl (ctl st)) (Allocate E heap (class_to_size (sizes st) cl) cl no_handler st) (\<lambda>(r, st'). allocated E mapped a H d heap st cl r st')"
proof -
  let ?l = "the_list heap cl st" and ?sz = "class_to_size (sizes st) cl"
  note l = threads_okD(4) [OF ok heap cl(2)]
  have sz: "i32 (int ?sz) = int ?sz" using class_sizes(3) [OF ok cl] by (intro i32_id) (auto simp: kMaxSize_def)
  show ?thesis
  proof (cases "TryPop ?l")
    case None
    then have "chain_of ?l = []" by (auto simp: TryPop_def split: list.splits)
    then show ?thesis using FetchFromCentralCache_ok [OF ok heap tame cl] None by (simp add: Allocate_def sz)
  next
    case (Some x)
    obtain p l' where x: "x = (p, l')" by (cases x)
    note pop = TryPop_Some [OF l Some [unfolded x]]
    define st' where "st' = upd_heap heap (\<lambda>c. c\<lparr>cached_size := i32 (cached_size c - int ?sz)\<rparr>) (upd_list heap cl (\<lambda>_. l') st)"
    have st': "st' = upd_heap heap (\<lambda>c. c\<lparr>cached_size := i32 (cached_size (heaps st heap) + - int ?sz)\<rparr>) (upd_list heap cl (\<lambda>_. l') st)"
      by (simp add: st'_def upd_heap_def upd_list_def)
    have on: "on_list st heap cl = insert p (set (chain_of l'))" "p \<notin> set (chain_of l')"
      using pop(1) l by (auto simp: on_list_def list_ok_def)
    note oth = others_apart [OF ok heap cl(2)] and sub = threads_okD(5) [OF ok heap cl(2)]
    have "threads_to E mapped a H st (d(heap := d heap))
      ((live st)(cl := outstanding (ctl st) cl - others st heap cl - set (chain_of l'))) H st' \<and> kept heap st st'"
      by (rule list_change [OF ok heap cl(2) st' pop(2) refl]) (use on oth sub pop(1) in \<open>auto simp: algebra_simps\<close>)
    moreover have "outstanding (ctl st) cl - others st heap cl - set (chain_of l') = insert p (live st cl)"
      using on oth sub cached_others [OF heap, of cl] by (auto simp: live_def)
    ultimately have t: "threads_to E mapped a H st d ((live st)(cl := insert p (live st cl))) H st'" and k: "kept heap st st'" by simp_all
    have "p \<notin> live st cl" "p \<noteq> 0"
      using on sub cached_others [OF heap, of cl] outstanding_nonzero(1) [OF threads_okD(1) [OF ok] cl(2)] by (auto simp: live_def)
    then have "allocated E mapped a H d heap st cl (Returned p) st'"
      using t k pop(3) unfolding allocated_def by (auto simp: st'_def upd_heap_def upd_list_def)
    then show ?thesis using Some x by (simp add: Allocate_def st'_def)
  qed
qed

definition short :: "('o, 'm) tcm \<Rightarrow> bool" where
  "short st \<longleftrightarrow> (\<forall>h \<in> set (thread_heaps st). \<forall>j < num_size_classes (sizes st). fl_length (the_list h j st) \<le> 8192)"

lemma caches_steady_short: "caches_steady st st' \<Longrightarrow> sizes st' = sizes st \<Longrightarrow> short st \<Longrightarrow> short st'"
proof -
  assume s: "caches_steady st st'" and sm: "sizes st' = sizes st" and st: "short st"
  have "fl_length (the_list h j st') \<le> 8192" if "h \<in> set (thread_heaps st')" "j < num_size_classes (sizes st')" for h j
  proof -
    have "fl_length (the_list h j st') \<le> max (fl_length (the_list h j st)) 8192" using s by (simp add: caches_steady_def)
    moreover have "fl_length (the_list h j st) \<le> 8192" using st that caches_steady_heaps [OF s] sm by (simp add: short_def)
    ultimately show ?thesis by simp
  qed
  then show ?thesis by (simp add: short_def)
qed

text \<open>A list on which an object has just been pushed.\<close>

lemma push_change:
  assumes ok: "threads_ok E mapped a H d st" and heap: "heap \<in> set (thread_heaps st)" and cl: "cl < num_size_classes (sizes st)"
    and p: "p \<in> live st cl" and len: "fl_length (the_list heap cl st) \<le> 8192" and l: "Push p (the_list heap cl st) = (n, l)"
  shows "threads_to E mapped a H st (d(heap := d heap - class_bytes st cl)) ((live st)(cl := live st cl - {p})) H (upd_list heap cl (\<lambda>_. l) st)"
    and "kept heap st (upd_list heap cl (\<lambda>_. l) st)" and "n = fl_length l" "fl_length l = Suc (fl_length (the_list heap cl st))"
    and "object_size l = class_bytes st cl" and "max_length l = max_length (the_list heap cl st)"
proof -
  let ?l = "the_list heap cl st" and ?st' = "upd_list heap cl (\<lambda>_. l) st"
  note lo = threads_okD(4) [OF ok heap cl]
  have leq: "l = ?l\<lparr>chain_of := p # chain_of ?l, fl_length := Suc (fl_length ?l)\<rparr>" "n = Suc (fl_length ?l)"
    using l len by (auto simp: Push_def Let_def)
  then show "n = fl_length l" "fl_length l = Suc (fl_length ?l)" "max_length l = max_length ?l" by simp_all
  have st': "?st' = upd_heap heap (\<lambda>c. c\<lparr>cached_size := cached_size (heaps st heap)\<rparr>) ?st'" by (simp add: upd_list_def upd_heap_def)
  have pO: "p \<in> outstanding (ctl st) cl" "p \<notin> others st heap cl" "p \<notin> on_list st heap cl"
    using p cached_others [OF heap, of cl] by (auto simp: live_def)
  then have cl0: "cl \<noteq> 0" using outstanding_nonzero(2) [OF threads_okD(1) [OF ok] cl] by blast
  then have "i32 (class_bytes st cl) = class_bytes st cl" using class_sizes(3) [OF ok _ cl] by (intro i32_id) (auto simp: kMaxSize_def)
  then show "object_size l = class_bytes st cl" using lo by (simp add: leq list_ok_def)
  have on: "set (chain_of l) = insert p (on_list st heap cl)" by (simp add: leq on_list_def)
  have lok: "list_ok (sizes st) cl l" using lo len pO(3) cl0 by (simp add: list_ok_def leq on_list_def)
  have s: "cached_size (heaps st heap) = i32 (cached_size (heaps st heap) + 0)"
    using threads_okD(6) [OF ok heap] i32_add [of "cached_bytes (sizes st) (heaps st heap) + d heap" 0] by simp
  have "threads_to E mapped a H st (d(heap := d heap - class_bytes st cl))
      ((live st)(cl := outstanding (ctl st) cl - others st heap cl - set (chain_of l))) H ?st' \<and> kept heap st ?st'"
    by (rule list_change [OF ok heap cl st' lok s])
      (use on pO others_apart [OF ok heap cl] threads_okD(5) [OF ok heap cl] in \<open>auto simp: leq\<close>)
  moreover have "outstanding (ctl st) cl - others st heap cl - set (chain_of l) = live st cl - {p}"
    using on cached_others [OF heap, of cl] by (auto simp: live_def)
  ultimately show "threads_to E mapped a H st (d(heap := d heap - class_bytes st cl)) ((live st)(cl := live st cl - {p})) H ?st'"
    "kept heap st ?st'" by simp_all
qed

text \<open>The end of \<open>Deallocate\<close> and of \<open>ListTooLong\<close>.\<close>

lemma maybe_Scavenge_ok:
  assumes "threads_ok E mapped a H d st" and "heap \<in> set (thread_heaps st)"
  shows "outcome (mad E) (if b then Scavenge E heap st else Some st)
     (\<lambda>st'. caches_steady st st' \<and> (\<exists>H'. threads_to E mapped a H st d (live st) H' st'))"
  using Scavenge_ok [OF assms] idle_step [OF threads_to_refl [OF assms(1)] caches_steady_refl] by simp

definition settle :: "'o env \<Rightarrow> nat \<Rightarrow> nat \<Rightarrow> int \<Rightarrow> ('o, 'm) tcm \<Rightarrow> ('o, 'm) tcm option" where
  "settle E heap cl b st = (let st = upd_list heap cl (adjust_max_length b) st
     in if max_size (heaps st heap) < cached_size (heaps st heap) then Scavenge E heap st else Some st)"

lemma settle_ok:
  assumes ok: "threads_ok E mapped a H d st" and heap: "heap \<in> set (thread_heaps st)" and cl: "cl < num_size_classes (sizes st)"
    and b: "0 < b" "b \<le> 8192"
  shows "outcome (mad E) (settle E heap cl b st) (\<lambda>st'. caches_steady st st' \<and> (\<exists>H'. threads_to E mapped a H st d (live st) H' st'))"
proof -
  note f = field_change [OF ok heap cl, of "adjust_max_length b"]
  note a = adjust_max_length_ok [OF threads_okD(4) [OF ok heap cl] b]
  show ?thesis unfolding settle_def Let_def
    by (rule then_idle [OF _ maybe_Scavenge_ok]) (use f [OF a(1,2)] heap in auto)
qed

text \<open>\<open>ListTooLong\<close>, from the state \<open>st2\<close> in which the list has grown by one object.\<close>

lemma shrink_list_ok:
  assumes t: "threads_to E mapped a H st d out H2 st2" and k: "kept heap st st2"
    and same: "\<And>j. j \<noteq> cl \<Longrightarrow> the_list heap j st2 = the_list heap j st"
    and len: "fl_length (the_list heap cl st2) = Suc (fl_length (the_list heap cl st))"
    and heap: "heap \<in> set (thread_heaps st)" and cl: "0 < cl" "cl < num_size_classes (sizes st)"
    and b: "0 < b" "b \<le> 8192"
  shows "outcome (mad E) (do { st \<leftarrow> ReleaseToCentralCache E heap cl b st2; settle E heap cl b st })
     (\<lambda>st'. caches_steady st st' \<and> (\<exists>H'. threads_to E mapped a H st d out H' st'))"
proof -
  have heap2: "heap \<in> set (thread_heaps st2)" and sm2: "sizes st2 = sizes st" and ok2: "threads_ok E mapped a H2 d st2"
    using heap keptD(1) [OF k] threads_to_ok [OF t] by auto
  have cl2: "cl < num_size_classes (sizes st2)" using cl sm2 by simp
  show ?thesis
  proof (rule outcome_bindI [OF ReleaseToCentralCache_ok [OF ok2 heap2 cl(1) cl2]])
    fix st3
    assume "list_released heap cl (min (nat b) (fl_length (the_list heap cl st2))) st2 st3 \<and> (\<exists>H'. threads_to E mapped a H2 st2 d (live st2) H' st3)"
    then obtain H3 where r: "list_released heap cl (min (nat b) (fl_length (the_list heap cl st2))) st2 st3"
      and t': "threads_to E mapped a H2 st2 d (live st2) H3 st3" by blast
    have "fl_length (the_list heap cl st3) \<le> fl_length (the_list heap cl st)" using r b len by (auto simp: list_released_def)
    moreover have "the_list heap j st3 = the_list heap j st" if "j \<noteq> cl" for j using r that same by (simp add: list_released_def)
    ultimately have "fl_length (the_list heap j st3) \<le> max (fl_length (the_list heap j st)) 8192" for j by (cases "j = cl") auto
    then have s3: "caches_steady st st3" using kept_steady [OF kept_trans [OF k]] r by (auto simp: list_released_def)
    have t3: "threads_to E mapped a H st d out H3 st3"
      by (rule threads_to_cong [OF threads_to_trans [OF t t']]) (use threads_to_live [OF t] sm2 in simp)
    show "outcome (mad E) (settle E heap cl b st3) (\<lambda>st'. caches_steady st st' \<and> (\<exists>H'. threads_to E mapped a H st d out H' st'))"
      by (rule then_idle [of st st3], use s3 t3 in blast, rule settle_ok) (use heap cl b in auto)
  qed (use b in auto)
qed

lemma Deallocate_ok:
  assumes ok: "threads_ok E mapped a H d st" and heap: "heap \<in> set (thread_heaps st)" and cl: "cl < num_size_classes (sizes st)"
    and p: "p \<in> live st cl" and short: "short st"
  shows "outcome (mad E) (Deallocate E heap p cl st) (\<lambda>st'. caches_steady st st'
     \<and> (\<exists>H'. threads_to E mapped a H st d ((live st)(cl := live st cl - {p})) H' st'))"
proof -
  let ?l = "the_list heap cl st" and ?out = "(live st)(cl := live st cl - {p})"
  have len: "fl_length ?l \<le> 8192" using short heap cl by (simp add: short_def)
  obtain n l where push: "Push p ?l = (n, l)" by (cases "Push p ?l")
  note pc = push_change [OF ok heap cl p len push]
  have cl0: "0 < cl" using outstanding_nonzero(2) [OF threads_okD(1) [OF ok] cl, of p] p by (simp add: live_def)
  define st1 where "st1 = upd_list heap cl (\<lambda>_. l) st"
  define st2 where "st2 = upd_heap heap (\<lambda>c. c\<lparr>cached_size := i32 (cached_size c + class_bytes st cl)\<rparr>) st1"
  note t1 = pc(1) [folded st1_def]
  have heap1: "heap \<in> set (thread_heaps st1)" using heap keptD(1) [OF pc(2)] by (simp add: st1_def)
  note ok1 = threads_to_ok [OF t1, THEN conjunct1] and sm1 = threads_to_ok [OF t1, THEN conjunct2]
  note t2 = size_change [OF ok1 heap1, where z = "class_bytes st cl", folded st2_def]
  have dd: "(d(heap := d heap - class_bytes st cl))(heap := (d(heap := d heap - class_bytes st cl)) heap + class_bytes st cl) = d" by simp
  have t12: "threads_to E mapped a H st d ?out H st2"
    by (rule threads_to_cong [OF threads_to_trans [OF t1 t2(1) [unfolded dd]]]) (use threads_to_live [OF t1] in simp)
  have l2: "the_list h j st2 = (if h = heap \<and> j = cl then l else the_list h j st)" for h j
    by (simp add: st2_def st1_def upd_list_def upd_heap_def)
  have k2: "kept heap st st2"
    using pc(2) t2(2) kept_trans [of heap st st1 st2] unfolding list_released_def st1_def by blast
  have eq: "Deallocate E heap p cl st = (if max_length l < n then ListTooLong E heap cl st1
      else if max_size (heaps st2 heap) < cached_size (heaps st2 heap) then Scavenge E heap st2 else Some st2)"
    by (simp add: Deallocate_def push st1_def [symmetric] st2_def Let_def pc(5))
  show ?thesis
  proof (cases "max_length l < n")
    case False
    have "max_length ?l \<le> 8192" using threads_okD(4) [OF ok heap cl] by (simp add: list_ok_def kMaxDynamicFreeListLength_def)
    with False have "fl_length l \<le> 8192" using pc(3,6) by simp
    then have "caches_steady st st2" by (intro kept_steady [OF k2]) (simp add: l2 le_max_iff_disj)
    with t12 have "caches_steady st st2 \<and> (\<exists>H1. threads_to E mapped a H st d ?out H1 st2)" by blast
    from then_idle [OF this maybe_Scavenge_ok] heap show ?thesis unfolding eq using False by simp
  next
    case True
    let ?b = "num_objects_to_move (sizes st) cl"
    have sm2: "sizes st2 = sizes st" using threads_to_ok [OF t12] by simp
    have b: "0 < ?b" "?b \<le> 8192" using class_sizes(1,2) [OF ok cl0 cl] by auto
    have "outcome (mad E) (do { st \<leftarrow> ReleaseToCentralCache E heap cl ?b st2; settle E heap cl ?b st })
       (\<lambda>st'. caches_steady st st' \<and> (\<exists>H'. threads_to E mapped a H st d ?out H' st'))"
      by (rule shrink_list_ok [OF t12 k2 _ _ heap cl0 cl b]) (use pc(4) in \<open>simp_all add: l2\<close>)
    moreover have "ListTooLong E heap cl st1 = do { st \<leftarrow> ReleaseToCentralCache E heap cl ?b st2; settle E heap cl ?b st }"
    proof -
      have "object_size (list_of (heaps st1 heap) cl) = class_bytes st cl" using pc(5) by (simp add: st1_def upd_list_def upd_heap_def)
      then have e: "upd_heap heap (\<lambda>c. c\<lparr>cached_size := i32 (cached_size c + object_size (list_of c cl))\<rparr>) st1 = st2"
        by (simp add: st2_def upd_heap_def)
      show ?thesis unfolding ListTooLong_def settle_def Let_def e sm2 ..
    qed
    ultimately show ?thesis unfolding eq using True by simp
  qed
qed

end
