(* ===== verification/PageHeapWalk.thy ===== *)
theory PageHeapWalk
  imports PageHeapReach
begin

text \<open>
  What no operation of the page heap spoils, whatever the state: memory that was reserved for metadata stays so, and
  no span becomes a sampled one.
\<close>

definition reserved :: "'o env \<Rightarrow> ('o \<Rightarrow> nat set) \<Rightarrow> nat set \<Rightarrow> bool \<Rightarrow> 'o page_heap \<Rightarrow> bool" where
  "reserved E mapped G b h \<longleftrightarrow> meta_ok (plat E) mapped G (meta h) \<and> (b \<longrightarrow> (\<forall>s. \<not> sample (spans h s)))"

lemma PageHeapAllocator_New_meta:
  assumes "PageHeapAllocator_New pl k pool md = Some (x, pool', md')" and "meta_ok pl mapped G md"
  shows "meta_ok pl mapped G md'"
proof -
  have "md' = md \<or> (\<exists>r. MetaDataAlloc pl kAllocIncrement md = Some (r, md'))"
    using assms(1) by (auto simp: PageHeapAllocator_New_def split: list.splits if_splits bind_splits)
  then show ?thesis using MetaDataAlloc_fresh [OF assms(2), of kAllocIncrement] assms(2) by (auto simp: kAllocIncrement_def)
qed

subsection \<open>Operations that keep metadata and samples\<close>

lemma reserved_frame [simp]:
  "reserved E mapped G b (h\<lparr>pagemap_cache := v1\<rparr>) = reserved E mapped G b h"
  "reserved E mapped G b (h\<lparr>pagemap := v2\<rparr>) = reserved E mapped G b h"
  "reserved E mapped G b (h\<lparr>release_index := v3\<rparr>) = reserved E mapped G b h"
  "reserved E mapped G b (h\<lparr>scavenge_counter := v4\<rparr>) = reserved E mapped G b h"
  "reserved E mapped G b (h\<lparr>span_allocator := v5\<rparr>) = reserved E mapped G b h"
  "reserved E mapped G b (h\<lparr>free_normal := v6\<rparr>) = reserved E mapped G b h"
  "reserved E mapped G b (h\<lparr>free_returned := v6\<rparr>) = reserved E mapped G b h"
  "reserved E mapped G b (h\<lparr>large_normal := v7\<rparr>) = reserved E mapped G b h"
  "reserved E mapped G b (h\<lparr>large_returned := v7\<rparr>) = reserved E mapped G b h"
  "reserved E mapped G b (upd_stats f h) = reserved E mapped G b h"
  "reserved E mapped G b (heap_DeleteSpan s h) = reserved E mapped G b h"
  "reserved E mapped G b (InvalidateCachedSizeClass p h) = reserved E mapped G b h"
  "reserved E mapped G b (SetCachedSizeClass p cl h) = reserved E mapped G b h"
  by (simp_all add: reserved_def upd_stats_def heap_DeleteSpan_def InvalidateCachedSizeClass_def SetCachedSizeClass_def)

lemma reserved_span: "reserved E mapped G b h \<Longrightarrow> \<not> sample (f (spans h s)) \<or> sample (f (spans h s)) = sample (spans h s)
  \<Longrightarrow> reserved E mapped G b (upd_span s f h)"
  by (auto simp: reserved_def upd_span_def)

lemma reserved_lists [simp]:
  "reserved E mapped G b (PrependToFreeList s h) = reserved E mapped G b h"
  "reserved E mapped G b (RemoveFromFreeList s h) = reserved E mapped G b h"
  by (auto simp: PrependToFreeList_def RemoveFromFreeList_def Let_def reserved_def upd_stats_def SetSpanSetIterator_def ExtractSpanSetIterator_def)

lemma reserved_pagemap:
  "pagemap_set p s h = Some h' \<Longrightarrow> reserved E mapped G b h \<Longrightarrow> reserved E mapped G b h'"
  "RecordSpan s h = Some h' \<Longrightarrow> reserved E mapped G b h \<Longrightarrow> reserved E mapped G b h'"
  by (auto simp: pagemap_set_def RecordSpan_def split: bind_splits if_splits)

lemma reserved_NewSpan:
  assumes "reserved E mapped G b h" and "heap_NewSpan E p n h = Some (s, h')"
  shows "reserved E mapped G b h'"
proof -
  from assms(2) obtain pool where "PageHeapAllocator_New (plat E) sizeof_Span (span_allocator h) (meta h) = Some (s, pool, meta h')"
    and h': "spans h' = (spans h)(s := Span_ctor\<lparr>start := p, slength := n\<rparr>)"
    by (auto simp: heap_NewSpan_def NewSpan_def split: bind_splits)
  from PageHeapAllocator_New_meta [OF this(1)] assms(1) show ?thesis by (simp add: reserved_def h' Span_ctor_def)
qed

lemma reserved_unlock:
  assumes "reserved E mapped G b h" and "HandleUnlock E g h = Some h'"
  shows "reserved E mapped G b h'"
proof (cases "g = 0")
  case False
  then obtain t pool where "PageHeapAllocator_New (plat E) sizeof_StackTrace (stacktrace_allocator h) (meta h) = Some (t, pool, meta h')"
    and h': "spans h' = spans h"
    using assms(2) by (auto simp: HandleUnlock_def split: bind_splits)
  from PageHeapAllocator_New_meta [OF this(1)] assms(1) show ?thesis by (simp add: reserved_def h')
qed (use assms in \<open>simp add: HandleUnlock_def\<close>)

lemma reserved_commit [simp]: "reserved E mapped G b h \<Longrightarrow> reserved E mapped G b (CommitSpan s h)"
  by (simp add: CommitSpan_def Let_def reserved_def upd_stats_def TCMalloc_SystemCommit_def)

lemma reserved_decommit:
  assumes "reserved E mapped G b h" and "DecommitSpan E s h = Some (rv, h')"
  shows "reserved E mapped G b h'"
proof -
  from assms(2) obtain sm where "TCMalloc_SystemRelease (plat E) (page_bytes (start (spans h s))) (page_bytes (slength (spans h s))) (sysmem (meta h)) = Some (rv, sm)"
    and h': "meta h' = (meta h)\<lparr>sysmem := sm\<rparr>" "spans h' = spans h"
    by (auto simp: DecommitSpan_def Let_def upd_stats_def split: bind_splits if_splits)
  from outcomeD [OF SystemRelease_ok this(1)] assms(1) show ?thesis by (auto simp: reserved_def h')
qed

subsection \<open>Merging and releasing\<close>

lemma reserved_premerge:
  "reserved E mapped G b h \<Longrightarrow> CheckAndHandlePreMerge E s t h = Some (r, h') \<Longrightarrow> reserved E mapped G b h'"
  by (auto simp: CheckAndHandlePreMerge_def split: option.splits if_splits bind_splits) (metis reserved_decommit)+

lemma reserved_merge:
  assumes r: "reserved E mapped G b h" and m: "MergeIntoFreeList E s h = Some h'"
  shows "reserved E mapped G b h'"
proof -
  from m obtain h1 prev h2 h3 nxt h4 h5 where
    1: "(if aggressive_decommit h \<and> location (spans h s) = ON_NORMAL_FREELIST
          then do {
            (rv, h) \<leftarrow> DecommitSpan E s h;
            Some (if rv then upd_span s (\<lambda>x. x\<lparr>location := ON_RETURNED_FREELIST\<rparr>) h else h) }
          else Some h) = Some h1"
    and 2: "CheckAndHandlePreMerge E s (GetDescriptor (start (spans h s) - 1) h1) h1 = Some (prev, h2)"
    and 3: "(case prev of None \<Rightarrow> Some h2 | Some t \<Rightarrow> do {
             let len = slength (spans h2 t);
             let h = heap_DeleteSpan t h2;
             let h = upd_span s (\<lambda>x. x\<lparr>start := start x - len, slength := slength x + len\<rparr>) h;
             pagemap_set (start (spans h s)) s h }) = Some h3"
    and 4: "CheckAndHandlePreMerge E s (GetDescriptor (start (spans h s) + slength (spans h s)) h3) h3 = Some (nxt, h4)"
    and 5: "(case nxt of None \<Rightarrow> Some h4 | Some t \<Rightarrow> do {
             let len = slength (spans h4 t);
             let h = heap_DeleteSpan t h4;
             let h = upd_span s (\<lambda>x. x\<lparr>slength := slength x + len\<rparr>) h;
             pagemap_set (start (spans h s) + slength (spans h s) - 1) s h }) = Some h5"
    and h': "h' = PrependToFreeList s h5"
    unfolding MergeIntoFreeList_def by (auto simp: Let_def split: bind_splits)
  have "reserved E mapped G b h1" using 1 r
    by (auto intro!: reserved_span split: if_splits bind_splits) (metis reserved_decommit)+
  then have "reserved E mapped G b h2" using 2 by (rule reserved_premerge)
  then have "reserved E mapped G b h3" using 3 by (auto simp: Let_def intro!: reserved_span elim!: reserved_pagemap split: option.splits)
  then have "reserved E mapped G b h4" using 4 by (rule reserved_premerge)
  then have "reserved E mapped G b h5" using 5 by (auto simp: Let_def intro!: reserved_span elim!: reserved_pagemap split: option.splits)
  then show ?thesis by (simp add: h')
qed

lemma reserved_release:
  assumes "reserved E mapped G b h" and "ReleaseSpan E s h = Some (n, h')"
  shows "reserved E mapped G b h'"
proof -
  from assms(2) obtain rv h1 where 1: "DecommitSpan E s h = Some (rv, h1)"
    and 2: "(if rv then do {
       let h = RemoveFromFreeList s h1;
       let n = slength (spans h s);
       let h = upd_span s (\<lambda>x. x\<lparr>location := ON_RETURNED_FREELIST\<rparr>) h;
       h \<leftarrow> MergeIntoFreeList E s h;
       Some (n, h) } else Some (0, h1)) = Some (n, h')"
    by (auto simp: ReleaseSpan_def split: bind_splits)
  have "reserved E mapped G b h1" using assms(1) 1 by (rule reserved_decommit)
  then have "reserved E mapped G b (upd_span s (\<lambda>x. x\<lparr>location := ON_RETURNED_FREELIST\<rparr>) (RemoveFromFreeList s h1))"
    by (intro reserved_span) simp_all
  from reserved_merge [OF this] 2 \<open>reserved E mapped G b h1\<close> show ?thesis
    by (auto simp: Let_def split: if_splits bind_splits)
qed

lemma reserved_round:
  "reserved E mapped G b h \<Longrightarrow> release_round E m i r h = Some (x, r', h') \<Longrightarrow> reserved E mapped G b h'"
proof (induction i arbitrary: r h)
  case (Suc i)
  let ?h = "if kMaxPages < release_index h then h\<lparr>release_index := 0\<rparr> else h"
  have h: "reserved E mapped G b ?h" using Suc.prems(1) by simp
  show ?case
  proof (cases "r < m")
    case True
    define c where "c = (if release_index ?h = kMaxPages then (case large_normal ?h of [] \<Rightarrow> None | e # _ \<Rightarrow> Some (fst e))
                         else (case free_normal ?h (release_index ?h) of [] \<Rightarrow> None | xs \<Rightarrow> Some (last xs)))"
    have eq: "(case c of None \<Rightarrow> release_round E m i r (?h\<lparr>release_index := release_index ?h + 1\<rparr>)
        | Some s \<Rightarrow> do {
            (released_len, h) \<leftarrow> ReleaseSpan E s ?h;
            if released_len = 0 then Some (True, r, h)
            else release_round E m i (r + released_len) (h\<lparr>release_index := release_index h + 1\<rparr>) }) = Some (x, r', h')"
      using Suc.prems(2) True unfolding release_round.simps Let_def c_def by simp
    show ?thesis
    proof (cases c)
      case None
      with eq Suc.IH [of "?h\<lparr>release_index := release_index ?h + 1\<rparr>"] h show ?thesis by simp
    next
      case (Some s)
      from eq obtain n h1 where 1: "ReleaseSpan E s ?h = Some (n, h1)"
        and 2: "(if n = 0 then Some (True, r, h1) else release_round E m i (r + n) (h1\<lparr>release_index := release_index h1 + 1\<rparr>)) = Some (x, r', h')"
        unfolding Some by (auto split: bind_splits)
      have "reserved E mapped G b h1" using h 1 by (rule reserved_release)
      then show ?thesis using 2 Suc.IH [of "h1\<lparr>release_index := release_index h1 + 1\<rparr>" "r + n"] by (simp split: if_splits)
    qed
  qed (use Suc.prems in simp)
qed simp

lemma reserved_release_loop:
  assumes "release_loop_pages E m r h = Some x"
  shows "reserved E mapped G b h \<longrightarrow> reserved E mapped G b (snd x)"
proof (rule release_loop_pages.raw_induct [OF _ assms], goal_cases)
  case (1 loop E m r h y)
  show ?case
  proof (cases "r < m \<and> 0 < free_bytes (stats h)")
    case True
    with 1(2) obtain ret r1 h1 where "release_round E m (kMaxPages + 1) r h = Some (ret, r1, h1)"
      "(if ret then Some (r1, h1) else loop E m r1 h1) = Some y"
      by (auto split: bind_splits)
    then show ?thesis using reserved_round [of E mapped G b h m "kMaxPages + 1" r] 1(1) by (auto split: if_splits)
  qed (use 1(2) in auto)
qed

lemma reserved_ReleaseAtLeastNPages:
  "reserved E mapped G b h \<Longrightarrow> ReleaseAtLeastNPages E n h = Some (r, h') \<Longrightarrow> reserved E mapped G b h'"
  using reserved_release_loop [of E n 0 h] by (auto simp: ReleaseAtLeastNPages_def)

lemma reserved_scavenge:
  "reserved E mapped G b h \<Longrightarrow> IncrementalScavenge E n h = Some h' \<Longrightarrow> reserved E mapped G b h'"
  using reserved_ReleaseAtLeastNPages [of E mapped G b "upd_stats (\<lambda>st. st\<lparr>scavenge_count := add64 (scavenge_count st) 1\<rparr>) (h\<lparr>scavenge_counter := scavenge_counter h - int n\<rparr>)" 1]
  by (auto simp: IncrementalScavenge_def Let_def split: if_splits bind_splits)

lemma reserved_DeleteLocked:
  assumes "reserved E mapped G b h" and "DeleteLocked E s h = Some h'"
  shows "reserved E mapped G b h'"
proof -
  let ?h = "upd_span s (\<lambda>x. x\<lparr>sizeclass := 0, sample := False, location := ON_NORMAL_FREELIST\<rparr>) h"
  obtain h1 where 1: "MergeIntoFreeList E s ?h = Some h1" and 2: "IncrementalScavenge E (slength (spans h s)) h1 = Some h'"
    using assms(2) by (auto simp: DeleteLocked_def Let_def split: bind_splits)
  have "reserved E mapped G b ?h" by (rule reserved_span [OF assms(1)]) simp
  from reserved_scavenge [OF reserved_merge [OF this 1] 2] show ?thesis .
qed

subsection \<open>Allocating\<close>

lemma reserved_EnsureLimit:
  "reserved E mapped G b h \<Longrightarrow> EnsureLimit E n w h = Some (ok, h') \<Longrightarrow> reserved E mapped G b h'"
  using reserved_ReleaseAtLeastNPages [of E mapped G b h] by (auto simp: EnsureLimit_def Let_def split: if_splits bind_splits)

lemma reserved_Carve:
  assumes r: "reserved E mapped G b h"
  shows "outcome True (Carve E s n h) (\<lambda>(t, h'). reserved E mapped G b h')"
  unfolding Carve_def Let_def
proof (rule outcome_bindI [where P = "reserved E mapped G b"], goal_cases)
  case 1
  let ?h1 = "upd_span s (\<lambda>x. x\<lparr>location := IN_USE\<rparr>) (RemoveFromFreeList s h)"
  have h1: "reserved E mapped G b ?h1" by (rule reserved_span) (use r in simp_all)
  show ?case
  proof (cases "0 < int32_of (sub64 (slength (spans ?h1 s)) n)")
    case True
    show ?thesis unfolding if_P [OF True]
    proof (rule outcome_bindI [OF outcome_True], clarify, rule outcome_bindI [OF outcome_True], goal_cases)
      case (1 t h2 h3)
      have "reserved E mapped G b h2" using h1 1(1) by (rule reserved_NewSpan)
      then have "reserved E mapped G b (upd_span t (\<lambda>x. x\<lparr>location := location (spans h s)\<rparr>) h2)" by (rule reserved_span) simp
      then have "reserved E mapped G b h3" using reserved_pagemap(2) 1(3) by blast
      then have "reserved E mapped G b (upd_span s (\<lambda>x. x\<lparr>slength := n\<rparr>) (PrependToFreeList t h3))" by (intro reserved_span) simp_all
      then show ?case by (intro outcomeI) (use reserved_pagemap(1) in blast, simp)
    qed
  qed (use h1 in simp)
qed simp

lemma reserved_AllocLarge:
  assumes "AllocLarge E n h = Some x"
  shows "reserved E mapped G b h \<longrightarrow> reserved E mapped G b (snd x)"
proof (rule AllocLarge.raw_induct [OF _ assms], goal_cases)
  case (1 loop E n h y)
  have c: "reserved E mapped G b (snd y)" if "reserved E mapped G b h1" "Carve E t n h1 = Some y" for t h1
    using outcomeD [OF reserved_Carve [OF that(1)] that(2)] by (cases y) simp
  have e: "reserved E mapped G b h2" if "reserved E mapped G b h1" "EnsureLimit E n w h1 = Some (ok, h2)" for w ok h1 h2
    using that by (rule reserved_EnsureLimit)
  show ?case
    using 1(2) unfolding Let_def
    by (auto simp: 1(1) c split: if_splits bind_splits option.splits) (metis 1(1) c e snd_conv)+
qed

lemma reserved_search_lists:
  "reserved E mapped G b h \<Longrightarrow> search_lists E n k h = Some x \<Longrightarrow> reserved E mapped G b (snd x)"
proof (induction E n k h rule: search_lists.induct)
  case (1 E n k h)
  have c: "reserved E mapped G b (snd x)" if "reserved E mapped G b h1" "Carve E t n h1 = Some x" for t h1
    using outcomeD [OF reserved_Carve [OF that(1)] that(2)] by (cases x) simp
  show ?case
  proof (cases "k \<le> kMaxPages")
    case False
    then have "AllocLarge E n h = Some x" using 1(5) by (subst (asm) search_lists.simps) simp
    then show ?thesis using reserved_AllocLarge 1(4) by blast
  next
    case True
    note IH = 1(1-3) [OF True]
    show ?thesis
    proof (cases "EnsureLimit E n True h")
      case None
      then show ?thesis using 1(4,5) True c IH(1) by (subst (asm) search_lists.simps) (auto split: if_splits list.splits)
    next
      case (Some y)
      obtain ok h1 where y: "y = (ok, h1)" by (cases y)
      have h1: "reserved E mapped G b h1" using 1(4) Some [unfolded y] by (rule reserved_EnsureLimit)
      show ?thesis using 1(4,5) True c c [OF h1] IH(1) IH(2,3) [OF _ _ _ Some y [symmetric] _] h1 Some
        by (subst (asm) search_lists.simps) (auto simp: y split: if_splits list.splits)
    qed
  qed
qed

lemma reserved_search:
  "reserved E mapped G b h \<Longrightarrow> SearchFreeAndLargeLists E n h = Some (r, h') \<Longrightarrow> reserved E mapped G b h'"
  using reserved_search_lists [of E mapped G b h n n "(r, h')"] by (simp add: SearchFreeAndLargeLists_def)

lemma reserved_attempt:
  assumes r: "reserved E mapped G b h" and ask: "ask \<le> kMaxValidPages"
    and a: "do {
      (ok, h) \<leftarrow> EnsureLimit E ask True h;
      if ok then do {
        (ptr, actual_size, sm) \<leftarrow> TCMalloc_SystemAlloc (plat E) (page_bytes ask) kPageSize (sysmem (meta h));
        Some (ptr, actual_size, h\<lparr>meta := (meta h)\<lparr>sysmem := sm\<rparr>\<rparr>) }
      else Some (0, 0, h) } = Some (ptr, actual, h')"
  shows "reserved E mapped G b h'"
proof -
  obtain ok h1 where e: "EnsureLimit E ask True h = Some (ok, h1)" using a by (auto split: bind_splits)
  have h1: "reserved E mapped G b h1" using r e by (rule reserved_EnsureLimit)
  show ?thesis
  proof (cases ok)
    case True
    with a e obtain sm where s: "TCMalloc_SystemAlloc (plat E) (page_bytes ask) kPageSize (sysmem (meta h1)) = Some (ptr, actual, sm)"
      and h': "h' = h1\<lparr>meta := (meta h1)\<lparr>sysmem := sm\<rparr>\<rparr>" by (auto split: bind_splits)
    from grow_block(2) [OF _ ask s] h1 show ?thesis by (simp add: reserved_def h')
  qed (use a e h1 in auto)
qed

lemma reserved_GrowHeap:
  assumes r: "reserved E mapped G b h"
  shows "outcome True (GrowHeap E n g h) (\<lambda>(ok, g', h'). reserved E mapped G b h')"
proof (cases "n > kMaxValidPages")
  case True
  then show ?thesis using r by (simp add: GrowHeap_def)
next
  case False
  let ?ask = "if n > kMinSystemAlloc then n else kMinSystemAlloc"
  have ask: "n \<le> kMaxValidPages" "?ask \<le> kMaxValidPages"
    using False by (auto simp: kMaxValidPages_def kMinSystemAlloc_def)
  show ?thesis
    unfolding GrowHeap_def if_not_P [OF False] Let_def
  proof (rule outcome_bindI [OF outcome_True], goal_cases)
    case (1 x)
    obtain ptr a h1 where x: "x = (ptr, a, h1)" by (cases x) auto
    have h1: "reserved E mapped G b h1" by (rule reserved_attempt [OF r ask(2) 1(1) [unfolded x]])
    show ?case unfolding x prod.case
    proof (rule outcome_bindI [OF outcome_True], goal_cases)
      case (1 y)
      obtain ptr2 a2 h2 where y: "y = (ptr2, a2, h2)" by (cases y) auto
      have h2: "reserved E mapped G b h2"
      proof (cases "ptr = 0 \<and> n < ?ask")
        case True
        from reserved_attempt [OF h1 ask(1) 1(1) [unfolded if_P [OF True] y]] show ?thesis .
      next
        case False
        then show ?thesis using 1(1) h1 unfolding if_not_P [OF False] by (simp add: y)
      qed
      define k where "k = a2 div 2 ^ kPageShift"
      define p where "p = ptr2 div 2 ^ kPageShift"
      define F where "F = (\<lambda>st :: heap_stats. st\<lparr>
                    reserve_count := add64 (reserve_count st) 1,
                    commit_count := add64 (commit_count st) 1,
                    system_bytes := add64 (system_bytes st) (page_bytes k),
                    committed_bytes := add64 (committed_bytes st) (page_bytes k),
                    total_commit_bytes := add64 (total_commit_bytes st) (page_bytes k),
                    total_reserve_bytes := add64 (total_reserve_bytes st) (page_bytes k)\<rparr>)"
      obtain ok pm mdo where e: "PageMap2_Ensure pagemap_bits (pagemap_allocator E) (p - 1) (k + 2)
          (pagemap h2) (Some (meta h2)) = (ok, pm, mdo)" by (metis prod_cases3)
      have rest: "outcome True (mdo \<bind> (\<lambda>md. if ok then do {
            (s, h) \<leftarrow> heap_NewSpan E p k (upd_stats F h2\<lparr>pagemap := pm, meta := md\<rparr>);
            h \<leftarrow> RecordSpan s h; h \<leftarrow> DeleteLocked E s h; Some (True, gg, h) }
          else Some (False, gg, upd_stats F h2\<lparr>pagemap := pm, meta := md\<rparr>))) (\<lambda>(ok, g', h'). reserved E mapped G b h')" for gg
      proof (cases mdo)
        case (Some md)
        let ?h3 = "upd_stats F h2\<lparr>pagemap := pm, meta := md\<rparr>"
        have "meta_ok (plat E) mapped G md" using Ensure_meta_ok [OF _ e [unfolded Some]] h2 by (simp add: reserved_def)
        then have h3: "reserved E mapped G b ?h3" using h2 by (simp add: reserved_def upd_stats_def)
        have "outcome True (do { (s, h) \<leftarrow> heap_NewSpan E p k ?h3; h \<leftarrow> RecordSpan s h; h \<leftarrow> DeleteLocked E s h; Some (True, gg, h) })
           (\<lambda>(ok, g', h'). reserved E mapped G b h')"
        proof (rule outcome_bindI [OF outcome_True], clarify, rule outcome_bindI [OF outcome_True], rule outcome_bindI [OF outcome_True], goal_cases)
          case (1 s h4 h5 h6)
          have "reserved E mapped G b h4" using h3 1(1) by (rule reserved_NewSpan)
          then have "reserved E mapped G b h5" by (rule reserved_pagemap(2) [OF 1(3)])
          from reserved_DeleteLocked [OF this 1(5)] show ?case by simp
        qed
        then show ?thesis using h3 by (simp add: Some)
      qed simp
      have f: "pagemap (upd_stats f h2) = pagemap h2" "meta (upd_stats f h2) = meta h2" for f by (simp_all add: frame)
      show ?case
      proof (cases "ptr2 = 0")
        case p2: False
        show ?thesis unfolding y prod.case if_not_P [OF p2] k_def [symmetric] p_def [symmetric] no_Preallocate f if_cancel e prod.case Let_def F_def [symmetric]
          by (rule rest)
      qed (use h2 in \<open>simp add: y\<close>)
    qed
  qed
qed

lemma reserved_NewLocked:
  assumes r: "reserved E mapped G b h"
  shows "outcome True (NewLocked E n g h) (\<lambda>(s, g', h'). reserved E mapped G b h')"
  unfolding NewLocked_def Let_def
proof (rule outcome_bindI [OF outcome_True], clarify, goal_cases)
  case (1 s h1)
  have h1: "reserved E mapped G b h1" using r 1(1) by (rule reserved_search)
  show ?case
  proof (cases "s = 0")
    case s: True
    show ?thesis unfolding if_not_P [OF not_not [THEN iffD2, OF s]]
    proof (rule outcome_bindI [where P = "\<lambda>(s, h'). reserved E mapped G b h'"], goal_cases)
      case 1
      have "outcome True (ReleaseAtLeastNPages E 0x7fffffff h1 \<bind> (\<lambda>(_, h). SearchFreeAndLargeLists E m h)) (\<lambda>(s, h'). reserved E mapped G b h')" for m
      proof (rule outcome_bindI [OF outcome_True], clarify, rule outcomeI, clarify, goal_cases)
        case (1 x h2 t h3)
        have "reserved E mapped G b h2" using h1 1(1) by (rule reserved_ReleaseAtLeastNPages)
        then show ?case using 1(3) by (rule reserved_search)
      qed simp
      then show ?case using h1 by simp
    next
      case (2 x)
      obtain t h2 where x: "x = (t, h2)" by (cases x)
      have h2: "reserved E mapped G b h2" using 2(2) by (simp add: x)
      show ?case
      proof (cases "t = 0")
        case t: True
        show ?thesis unfolding x prod.case if_not_P [OF not_not [THEN iffD2, OF t]]
        proof (rule outcome_bindI [OF reserved_GrowHeap [OF h2]], goal_cases)
          case (1 y)
          obtain ok g3 h3 where y: "y = (ok, g3, h3)" by (cases y) auto
          have h3: "reserved E mapped G b h3" using 1(2) by (simp add: y)
          show ?case
          proof (cases ok)
            case True
            then show ?thesis using reserved_search [OF h3] by (auto simp: y intro!: outcomeI split: bind_splits)
          qed (use h3 in \<open>simp add: y\<close>)
        qed
      qed (use h2 in \<open>simp add: x\<close>)
    qed
  qed (use h1 in simp)
qed

lemma reserved_New:
  assumes r: "reserved E mapped G b h" and n: "NewWithSizeClass E n sc h = Some (s, h')"
  shows "reserved E mapped G b h'"
proof -
  obtain g h1 h2 where 1: "NewLocked E n 0 h = Some (s, g, h1)"
    and 2: "(if s = 0 then Some h1 else do {
            let h = InvalidateCachedSizeClass (start (spans h1 s)) h1;
            if sc \<noteq> 0 then RegisterSizeClass s sc h else Some h }) = Some h2"
    and 3: "HandleUnlock E g h2 = Some h'"
    using n by (auto simp: NewWithSizeClass_def split: bind_splits)
  have "reserved E mapped G b h1" using outcomeD [OF reserved_NewLocked [OF r] 1] by simp
  then have "reserved E mapped G b h2" using 2
    by (auto simp: RegisterSizeClass_def Let_def intro!: reserved_span split: if_splits bind_splits)
  then show ?thesis using 3 by (rule reserved_unlock)
qed

lemma reserved_Delete: "reserved E mapped G b h \<Longrightarrow> Delete E s h = Some h' \<Longrightarrow> reserved E mapped G b h'"
  unfolding Delete_def by (rule reserved_DeleteLocked)

end
