(* ===== verification/ThreadLife.thy ===== *)
theory ThreadLife
  imports ThreadSteps PageHeapWalk
begin

text \<open>
  The life cycle of the thread caches, and changes of the total cache size.
\<close>

subsection \<open>Metadata\<close>

text \<open>Memory that is taken for metadata is none that the page heap or the central lists use.\<close>

lemma heap_holds_meta:
  assumes "heap_holds E mapped a H h" and "\<And>G. meta_ok (plat E) mapped G (meta h) \<Longrightarrow> meta_ok (plat E) mapped G md"
  shows "heap_holds E mapped a H (h\<lparr>meta := md\<rparr>)"
proof -
  from assms(1) obtain U where U: "holds_with E mapped a H U h" by (auto simp: heap_holds_def)
  have "memory_ok E mapped U (covered U (spans h)) (span_allocator h) (stacktrace_allocator h) md (system_bytes (stats h))"
    by (rule memory_ok_meta [OF _ assms(2)]) (use U in \<open>auto simp: holds_with_def heap_ok_def heap_inv_def\<close>)
  then have "holds_with E mapped a H U (h\<lparr>meta := md\<rparr>)"
    using U by (simp add: holds_with_def heap_ok_def heap_inv_def commit_ok_def on_lists_def inuse_spans_def)
  then show ?thesis by (auto simp: heap_holds_def)
qed

lemma central_ok_meta:
  assumes ok: "central_ok E mapped a H c" and "\<And>G. meta_ok (plat E) mapped G (meta (pageheap c)) \<Longrightarrow> meta_ok (plat E) mapped G md"
  shows "central_to E mapped a H c (outstanding c) H (c\<lparr>pageheap := (pageheap c)\<lparr>meta := md\<rparr>\<rparr>)"
proof -
  let ?h = "(pageheap c)\<lparr>meta := md\<rparr>"
  have d: "GetDescriptor p ?h = GetDescriptor p (pageheap c)" "TryGetSizeClass p ?h = TryGetSizeClass p (pageheap c)" for p
    by (simp_all add: GetDescriptor_def TryGetSizeClass_def)
  have u: "untouched K (pageheap c) ?h" for K by (simp add: untouched_def d)
  note l = lists_ok_frame [OF central_okD(6) [OF ok], OF _ _ u]
  have s: "set (spans_of (central_cache c cl)) \<subseteq> H" if "cl < num_size_classes (size_map c)" for cl
    using lists_okD(1) [OF central_okD(6) [OF ok that]] by blast
  have "central_ok E mapped a H (c\<lparr>pageheap := ?h\<rparr>)"
    using ok heap_holds_meta [OF central_okD(1) [OF ok] assms(2)] l(1) [OF _ s] l(2) [OF _ s] unfolding central_ok_def cache_ok_def
    by (simp add: d)
  then show ?thesis using u l(2) [OF _ s] by (simp add: central_to_def class_spans_def outstanding_def)
qed

subsection \<open>Construction\<close>

lemma fold_upd_list:
  "fold (\<lambda>cl. upd_list this cl (\<lambda>_. g cl)) cls st
   = upd_heap this (\<lambda>c. c\<lparr>list_of := (\<lambda>j. if j \<in> set cls then g j else list_of c j)\<rparr>) st"
proof (induction cls arbitrary: st)
  case Nil
  then show ?case by (simp add: upd_heap_def)
next
  case (Cons cl cls)
  have "(\<lambda>j. if j \<in> set cls then g j else if j = cl then g cl else list_of (heaps st this) j)
    = (\<lambda>j. if j = cl \<or> j \<in> set cls then g j else list_of (heaps st this) j)" by auto
  then show ?case unfolding fold_simps Cons.IH by (simp add: upd_list_def upd_heap_def cong: if_cong)
qed

definition constructed :: "nat \<Rightarrow> ('o, 'm) tcm \<Rightarrow> ('o, 'm) tcm \<Rightarrow> bool" where
  "constructed this st st' \<longleftrightarrow>
     st' = st\<lparr>heaps := heaps st', next_memory_steal := next_memory_steal st', unclaimed_cache_space := unclaimed_cache_space st'\<rparr>
     \<and> (\<forall>h \<in> set (thread_heaps st). heaps st' h = (heaps st h)\<lparr>max_size := max_size (heaps st' h)\<rparr>)
     \<and> (\<forall>j < num_size_classes (sizes st). the_list this j st' = FreeList_Init (class_to_size (sizes st) j))
     \<and> cached_size (heaps st' this) = 0
     \<and> (next_memory_steal st' = 0 \<or> next_memory_steal st' \<in> set (thread_heaps st))
     \<and> shares (insert this (set (thread_heaps st))) st' mod 2 ^ 32 = shares (set (thread_heaps st)) st mod 2 ^ 32"

lemma ThreadCache_ctor_ok:
  assumes fresh: "this \<notin> set (thread_heaps st)" and z: "0 \<notin> set (thread_heaps st)"
    and n: "next_memory_steal st = 0 \<or> next_memory_steal st \<in> set (thread_heaps st)"
    and room: "thread_heaps st \<noteq> [] \<or> 0 < unclaimed_cache_space st"
    and r: "ThreadCache_ctor S seed this st = Some st'"
  shows "constructed this st st'"
proof -
  let ?A = "insert this (set (thread_heaps st))"
  define st1 where "st1 = upd_heap this (\<lambda>c. c\<lparr>cached_size := 0, max_size := 0, sampler_of := Sampler_ctor\<rparr>) st"
  have s1: "shares ?A st1 = shares (set (thread_heaps st)) st"
  proof -
    have "(\<Sum>h \<in> set (thread_heaps st). max_size (heaps st1 h)) = (\<Sum>h \<in> set (thread_heaps st). max_size (heaps st h))"
      by (rule sum.cong) (use fresh in \<open>auto simp: st1_def upd_heap_def\<close>)
    then show ?thesis using fresh by (simp add: shares_def st1_def upd_heap_def)
  qed
  have f1: "thread_heaps st1 = thread_heaps st" "unclaimed_cache_space st1 = unclaimed_cache_space st" "next_memory_steal st1 = next_memory_steal st"
    by (simp_all add: st1_def upd_heap_def)
  have "\<exists>st2. IncreaseCacheLimitLocked this st1 = Some st2 \<and> relimited ?A st1 st2"
    by (rule IncreaseCacheLimitLocked_ok) (use z n room in \<open>auto simp: f1\<close>)
  then obtain st2 where st2: "IncreaseCacheLimitLocked this st1 = Some st2" and r2: "relimited ?A st1 st2" by blast
  note k2 = relimitedD [OF r2]
  define m where "m = min_per_thread_cache_size st2"
  define st3 where "st3 = (if max_size (heaps st2 this) = 0 then
      (SetMaxSize this (int m) st2)\<lparr>unclaimed_cache_space := ssize64 (unclaimed_cache_space (SetMaxSize this (int m) st2) - int m)\<rparr> else st2)"
  have s3: "shares ?A st3 mod 2 ^ 32 = shares ?A st2 mod 2 ^ 32"
  proof (cases "max_size (heaps st2 this) = 0")
    case True
    let ?x = "SetMaxSize this (int m) st2"
    have "shares ?A st3 = ssize64 (unclaimed_cache_space ?x - int m) + (\<Sum>h \<in> ?A. max_size (heaps ?x h))" using True by (simp add: st3_def shares_def)
    also have "\<dots> mod 2 ^ 32 = (unclaimed_cache_space ?x - int m + (\<Sum>h \<in> ?A. max_size (heaps ?x h))) mod 2 ^ 32"
      by (rule mod_add_cong [OF ssize64_mod refl])
    also have "\<dots> = (shares ?A ?x - int m) mod 2 ^ 32" by (simp add: shares_def algebra_simps)
    also have "\<dots> = (shares ?A st2 - max_size (heaps st2 this) + int m - int m) mod 2 ^ 32"
      by (rule mod_diff_cong [OF shares_SetMaxSize refl]) simp_all
    finally show ?thesis using True by simp
  qed (simp add: st3_def)
  have f3: "list_of (heaps st3 h) = list_of (heaps st2 h)" "cached_size (heaps st3 h) = cached_size (heaps st2 h)" "h \<noteq> this \<Longrightarrow> heaps st3 h = heaps st2 h"
    "ctl st3 = ctl st2" "thread_heaps st3 = thread_heaps st2" "next_memory_steal st3 = next_memory_steal st2"
    "st3 = st2\<lparr>heaps := heaps st3, unclaimed_cache_space := unclaimed_cache_space st3\<rparr>" for h
    by (simp_all add: st3_def SetMaxSize_def upd_heap_def)
  define g where "g = (\<lambda>cl. FreeList_Init (class_to_size (sizes st3) cl))"
  define st4 where "st4 = fold (\<lambda>cl. upd_list this cl (\<lambda>_. g cl)) [0..<num_size_classes (sizes st3)] st3"
  have st4: "st4 = upd_heap this (\<lambda>c. c\<lparr>list_of := (\<lambda>j. if j < num_size_classes (sizes st3) then g j else list_of c j)\<rparr>) st3"
    unfolding st4_def fold_upd_list by simp
  have "ThreadCache_ctor S seed this st = Sampler_Init S seed (sampler_of (heaps st4 this)) \<bind> (\<lambda>s. Some (upd_heap this (\<lambda>c. c\<lparr>sampler_of := s\<rparr>) st4))"
    unfolding ThreadCache_ctor_def Let_def st1_def [symmetric] st2 Option.bind.simps m_def [symmetric] st3_def [symmetric]
    unfolding st4_def g_def by (rule refl)
  then obtain s where st': "st' = upd_heap this (\<lambda>c. c\<lparr>sampler_of := s\<rparr>) st4" using r by (auto split: bind_splits)
  have ctl: "ctl st4 = ctl st" using k2(1) f3(4) by (simp add: st4 upd_heap_def st1_def)
  have sm: "sizes st3 = sizes st" using k2(1) f3(4) by (simp add: upd_heap_def st1_def)
  have h': "heaps st' this = (heaps st3 this)\<lparr>list_of := (\<lambda>j. if j < num_size_classes (sizes st) then g j else the_list this j st3), sampler_of := s\<rparr>"
    by (simp add: st' st4 upd_heap_def sm)
  have o: "heaps st' h = heaps st3 h" if "h \<noteq> this" for h using that by (simp add: st' st4 upd_heap_def)
  have mx: "max_size (heaps st' h) = max_size (heaps st3 h)" for h using o [of h] h' by (cases "h = this") auto
  show ?thesis unfolding constructed_def
  proof (intro conjI allI ballI impI)
    have e2: "st2 = st1\<lparr>heaps := heaps st2, next_memory_steal := next_memory_steal st2, unclaimed_cache_space := unclaimed_cache_space st2\<rparr>"
      using r2 unfolding relimited_def by blast
    have e1: "st1 = st\<lparr>heaps := heaps st1\<rparr>" by (simp add: st1_def upd_heap_def)
    have e4: "st' = st3\<lparr>heaps := heaps st'\<rparr>" by (simp add: st' st4 upd_heap_def)
    show "st' = st\<lparr>heaps := heaps st', next_memory_steal := next_memory_steal st', unclaimed_cache_space := unclaimed_cache_space st'\<rparr>"
      by (subst e4, subst f3(7), subst e2, subst e1) (simp add: st' st4 upd_heap_def f3(6))
    have hd: "heaps st2 h = (heaps st1 h)\<lparr>max_size := max_size (heaps st2 h)\<rparr>" for h using r2 unfolding relimited_def by blast
    show "heaps st' h = (heaps st h)\<lparr>max_size := max_size (heaps st' h)\<rparr>" if "h \<in> set (thread_heaps st)" for h
    proof -
      have "h \<noteq> this" using that fresh by blast
      then have "heaps st' h = heaps st2 h" "heaps st1 h = heaps st h" using o f3(3) by (simp_all add: st1_def upd_heap_def)
      then show ?thesis using hd [of h] by simp
    qed
    show "the_list this j st' = FreeList_Init (class_to_size (sizes st) j)" if "j < num_size_classes (sizes st)" for j
      using that by (simp add: h' g_def sm)
    show "cached_size (heaps st' this) = 0" using k2(4) [of this] f3(2) [of this] by (simp add: h' st1_def upd_heap_def)
    have "next_memory_steal st' = next_memory_steal st2" using f3(6) by (simp add: st' st4 upd_heap_def)
    then show "next_memory_steal st' = 0 \<or> next_memory_steal st' \<in> set (thread_heaps st)"
      using r2 n unfolding relimited_def f1 by metis
    have "shares ?A st' = shares ?A st3" by (simp add: shares_def mx) (simp add: st' st4 upd_heap_def)
    then show "shares ?A st' mod 2 ^ 32 = shares (set (thread_heaps st)) st mod 2 ^ 32"
      using s3 r2 s1 unfolding relimited_def by simp
  qed
qed

text \<open>What a change of the list of caches keeps.\<close>

definition same_rest :: "('o, 'm) tcm \<Rightarrow> ('o, 'm) tcm \<Rightarrow> bool" where
  "same_rest st st' \<longleftrightarrow> tcmalloc.more st' = tcmalloc.more st \<and> overall_thread_cache_size st' = overall_thread_cache_size st
     \<and> min_per_thread_cache_size st' = min_per_thread_cache_size st
     \<and> shares (set (thread_heaps st')) st' mod 2 ^ 32 = shares (set (thread_heaps st)) st mod 2 ^ 32"

lemma no_room:
  assumes "thread_heaps st = []" "next_memory_steal st = 0" "unclaimed_cache_space st \<le> 0" "this \<noteq> 0"
  shows "ThreadCache_ctor S seed this st = None"
proof -
  have "steal_loop 10 this (st\<lparr>heaps := hs\<rparr>) = None" for hs
    using assms by (simp add: numeral_eq_Suc Let_def first_heap_def)
  then show ?thesis using assms by (simp add: ThreadCache_ctor_def IncreaseCacheLimitLocked_def upd_heap_def)
qed

lemma lists_apart:
  "threads_ok E mapped a H d st \<Longrightarrow> h \<in> set (thread_heaps st) \<Longrightarrow> h' \<in> set (thread_heaps st) \<Longrightarrow> h \<noteq> h'
   \<Longrightarrow> j < num_size_classes (sizes st) \<Longrightarrow> on_list st h j \<inter> on_list st h' j = {}"
  unfolding threads_ok_def caches_ok_def by blast

lemma FreeList_Init_ok: "list_ok sm cl (FreeList_Init (class_to_size sm cl))" "chain_of (FreeList_Init k) = []" "fl_length (FreeList_Init k) = 0"
  by (simp_all add: list_ok_def FreeList_Init_def kMaxDynamicFreeListLength_def)

lemma NewHeap_ok:
  assumes ok: "threads_ok E mapped a H (\<lambda>_. 0) st" and short: "short st"
    and r: "NewHeap E S seed st = Some (heap, st')" and fresh: "heap \<notin> set (thread_heaps st)" "heap \<noteq> 0"
  shows "threads_to E mapped a H st (\<lambda>_. 0) (live st) H st'" and "thread_heaps st' = heap # thread_heaps st"
    and "short st'" and "same_rest st st'"
proof -
  obtain pool md where p: "PageHeapAllocator_New (plat E) sizeof_ThreadCache (threadcache_allocator st) (meta (pageheap (ctl st))) = Some (heap, pool, md)"
    using r by (auto simp: NewHeap_def Let_def split: bind_splits)
  define c1 where "c1 = (ctl st)\<lparr>pageheap := (pageheap (ctl st))\<lparr>meta := md\<rparr>\<rparr>"
  define st1 where "st1 = st\<lparr>threadcache_allocator := pool, ctl := c1\<rparr>"
  obtain st2 where ctor: "ThreadCache_ctor S seed heap st1 = Some st2"
    and st': "st' = (if thread_heaps st2 = [] then st2\<lparr>next_memory_steal := heap\<rparr> else st2)
        \<lparr>thread_heaps := heap # thread_heaps st2, thread_heap_count := thread_heap_count st2 + 1\<rparr>"
    using r by (auto simp: NewHeap_def p c1_def [symmetric] st1_def [symmetric] Let_def split: bind_splits)
  have c: "central_to E mapped a H (ctl st) (outstanding (ctl st)) H c1"
    unfolding c1_def by (rule central_ok_meta [OF threads_okD(1) [OF ok] PageHeapAllocator_New_meta [OF p]])
  have f1: "thread_heaps st1 = thread_heaps st" "heaps st1 = heaps st" "ctl st1 = c1" "next_memory_steal st1 = next_memory_steal st"
    "unclaimed_cache_space st1 = unclaimed_cache_space st" by (simp_all add: st1_def)
  have n: "0 \<notin> set (thread_heaps st)" "next_memory_steal st = 0 \<or> next_memory_steal st \<in> set (thread_heaps st)"
    using ok by (auto simp: threads_ok_def caches_ok_def)
  have room: "thread_heaps st1 \<noteq> [] \<or> 0 < unclaimed_cache_space st1"
  proof (rule ccontr)
    assume "\<not> ?thesis"
    then have "ThreadCache_ctor S seed heap st1 = None" by (intro no_room) (use n fresh(2) f1 in auto)
    then show False using ctor by simp
  qed
  have "constructed heap st1 st2" by (rule ThreadCache_ctor_ok [OF _ _ _ room ctor]) (use fresh n in \<open>simp_all add: f1\<close>)
  note k = this [unfolded constructed_def]
  have e2: "st2 = st1\<lparr>heaps := heaps st2, next_memory_steal := next_memory_steal st2, unclaimed_cache_space := unclaimed_cache_space st2\<rparr>" using k by blast
  have sm: "size_map c1 = sizes st" using central_to_size [OF c] .
  have f2: "thread_heaps st2 = thread_heaps st" "ctl st2 = c1" "tcmalloc.more st2 = tcmalloc.more st"
    "overall_thread_cache_size st2 = overall_thread_cache_size st" "min_per_thread_cache_size st2 = min_per_thread_cache_size st"
    by (subst e2, simp add: st1_def)+
  have f': "thread_heaps st' = heap # thread_heaps st" "ctl st' = c1" "heaps st' = heaps st2" "tcmalloc.more st' = tcmalloc.more st"
    "overall_thread_cache_size st' = overall_thread_cache_size st" "min_per_thread_cache_size st' = min_per_thread_cache_size st"
    "unclaimed_cache_space st' = unclaimed_cache_space st2"
    by (simp_all add: st' f2)
  show "thread_heaps st' = heap # thread_heaps st" by (rule f'(1))
  have old: "list_of (heaps st' h) = list_of (heaps st h)" "cached_size (heaps st' h) = cached_size (heaps st h)" if "h \<in> set (thread_heaps st)" for h
  proof -
    have "heaps st2 h = (heaps st h)\<lparr>max_size := max_size (heaps st2 h)\<rparr>" using k that by (simp add: f1)
    then show "list_of (heaps st' h) = list_of (heaps st h)" "cached_size (heaps st' h) = cached_size (heaps st h)" unfolding f' by (metis thread_cache.select_convs(1,2) thread_cache.surjective thread_cache.update_convs(3))+
  qed
  have new: "the_list heap j st' = FreeList_Init (class_to_size (sizes st) j)" if "j < num_size_classes (sizes st)" for j
    using k that by (simp add: f1 f' sm)
  have on: "on_list st' h j = (if h = heap then {} else on_list st h j)"
    if "h \<in> set (thread_heaps st')" "j < num_size_classes (sizes st)" for h j
    using that old new fresh(1) FreeList_Init_ok(2) by (auto simp: on_list_def f')
  have lists: "heap_lists_ok st' h \<and> cached_size (heaps st' h) = i32 (cached_bytes (sizes st') (heaps st' h) + 0)"
    if h: "h \<in> set (thread_heaps st')" for h
  proof (cases "h = heap")
    case True
    have "cached_bytes (sizes st) (heaps st' heap) = 0" using new FreeList_Init_ok(2) by (simp add: cached_bytes_def)
    moreover have "cached_size (heaps st' heap) = 0" using k by (simp add: f')
    ultimately show ?thesis using True new on [OF h] FreeList_Init_ok(1) by (simp add: heap_lists_ok_def f' sm i32_def)
  next
    case False
    then have h: "h \<in> set (thread_heaps st)" using h f' by simp
    have "outstanding c1 j = outstanding (ctl st) j" if "j < num_size_classes (sizes st)" for j using central_to_out [OF c that] .
    then show ?thesis using threads_okD(4-6) [OF ok h] old [OF h] by (simp add: heap_lists_ok_def on_list_def f' sm cached_bytes_def)
  qed
  have apart: "on_list st' h j \<inter> on_list st' h' j = {}"
    if "h \<in> set (thread_heaps st')" "h' \<in> set (thread_heaps st')" "h \<noteq> h'" "j < num_size_classes (sizes st)" for h h' j
    using that on [OF that(1,4)] on [OF that(2,4)] lists_apart [OF ok _ _ that(3,4)] by (auto simp: f')
  have next': "next_memory_steal st' = 0 \<or> next_memory_steal st' \<in> set (thread_heaps st')"
    using k by (auto simp: st' f1 f2)
  have "caches_ok (\<lambda>_. 0) st'"
    using lists apart next' ok fresh unfolding threads_ok_def caches_ok_def by (auto simp: f' sm)
  moreover have "live st' j = live st j" if "j < num_size_classes (sizes st)" for j
    using central_to_out [OF c that] on that fresh(1) by (auto simp: live_def cached_def f')
  ultimately show "threads_to E mapped a H st (\<lambda>_. 0) (live st) H st'" using c by (simp add: threads_to_def threads_ok_def central_to_def f')
  show "short st'" using short old new FreeList_Init_ok(3) by (auto simp: short_def f' sm)
  have "shares (set (thread_heaps st')) st' = shares (insert heap (set (thread_heaps st))) st2" by (simp add: shares_def f')
  then show "same_rest st st'" using k by (simp add: same_rest_def f' f1 shares_def)
qed

subsection \<open>Destruction\<close>

lemma release_lists_ok:
  assumes "threads_ok E mapped a H d st" and "heap \<in> set (thread_heaps st)" and "distinct cls" "\<forall>cl \<in> set cls. cl < num_size_classes (sizes st)"
  shows "outcome (mad E) (release_lists E heap cls st) (\<lambda>st'. kept heap st st' \<and> (\<exists>H'. threads_to E mapped a H st d (live st) H' st')
     \<and> (\<forall>j. if j \<in> set cls then fl_length (the_list heap j st') = 0 else the_list heap j st' = the_list heap j st))"
  using assms
proof (induction cls arbitrary: st H)
  case Nil
  then show ?case using threads_to_refl [OF Nil.prems(1)] by auto
next
  case (Cons cl cls)
  note ok = Cons.prems(1) and heap = Cons.prems(2)
  have cl: "cl < num_size_classes (sizes st)" "cl \<notin> set cls" using Cons.prems by auto
  let ?len = "fl_length (the_list heap cl st)"
  note l = threads_okD(4) [OF ok heap cl(1)]
  have len: "?len < 2 ^ 31" "i32 (int ?len) = int ?len" using l by (auto simp: list_ok_def i32_id)
  have first: "outcome (mad E) (if 0 < ?len then ReleaseToCentralCache E heap cl (i32 (int ?len)) st else Some st)
     (\<lambda>st'. list_released heap cl ?len st st' \<and> (\<exists>H'. threads_to E mapped a H st d (live st) H' st'))"
  proof (cases "0 < ?len")
    case True
    then have "0 < cl" using l by (cases "cl = 0") (auto simp: list_ok_def)
    from ReleaseToCentralCache_ok [OF ok heap this cl(1), of "int ?len"] len True show ?thesis by simp
  next
    case False
    then show ?thesis using threads_to_refl [OF ok] by (auto simp: list_released_def)
  qed
  show ?case unfolding release_lists.simps
  proof (rule outcome_bindI [OF first], elim conjE exE)
    fix st1 H1
    assume r: "list_released heap cl ?len st st1" and t: "threads_to E mapped a H st d (live st) H1 st1"
    have hs: "thread_heaps st1 = thread_heaps st" using list_released_heaps [OF r] .
    have ok1: "threads_ok E mapped a H1 d st1" and sm: "sizes st1 = sizes st" using threads_to_ok [OF t] by auto
    have IH: "outcome (mad E) (release_lists E heap cls st1) (\<lambda>st'. kept heap st1 st' \<and> (\<exists>H'. threads_to E mapped a H1 st1 d (live st1) H' st')
      \<and> (\<forall>j. if j \<in> set cls then fl_length (the_list heap j st') = 0 else the_list heap j st' = the_list heap j st1))"
      by (rule Cons.IH [OF ok1]) (use Cons.prems in \<open>simp_all add: hs sm\<close>)
    show "outcome (mad E) (release_lists E heap cls st1) (\<lambda>st'. kept heap st st' \<and> (\<exists>H'. threads_to E mapped a H st d (live st) H' st')
      \<and> (\<forall>j. if j \<in> set (cl # cls) then fl_length (the_list heap j st') = 0 else the_list heap j st' = the_list heap j st))"
    proof (rule outcome_mono [OF IH], elim conjE exE)
      fix st' H'
      assume k: "kept heap st1 st'" and t': "threads_to E mapped a H1 st1 d (live st1) H' st'"
        and j: "\<forall>j. if j \<in> set cls then fl_length (the_list heap j st') = 0 else the_list heap j st' = the_list heap j st1"
      have "the_list heap cl st' = the_list heap cl st1" using j cl(2) by metis
      then have "fl_length (the_list heap cl st') = 0" using r by (simp add: list_released_def)
      moreover have "the_list heap i st' = the_list heap i st" if "i \<notin> set (cl # cls)" for i
      proof -
        have "the_list heap i st' = the_list heap i st1" using j that by (metis list.set_intros(2))
        then show ?thesis using r that by (simp add: list_released_def)
      qed
      moreover have "fl_length (the_list heap i st') = 0" if "i \<in> set cls" for i using j that by metis
      moreover have "kept heap st st'" using r k kept_trans by (auto simp: list_released_def)
      ultimately show "kept heap st st' \<and> (\<exists>H'. threads_to E mapped a H st d (live st) H' st')
        \<and> (\<forall>j. if j \<in> set (cl # cls) then fl_length (the_list heap j st') = 0 else the_list heap j st' = the_list heap j st)"
        using threads_to_idle_trans [OF t t'] by auto
    qed
  qed
qed

lemma next_heap_neq: "distinct hs \<Longrightarrow> next_heap h hs = 0 \<or> next_heap h hs \<in> set (remove1 h hs)"
  by (induction h hs rule: next_heap.induct) auto

lemma DeleteCache_ok:
  assumes ok: "threads_ok E mapped a H (\<lambda>_. 0) st" and short: "short st" and heap: "heap \<in> set (thread_heaps st)"
  shows "outcome (mad E) (DeleteCache E heap st) (\<lambda>st'. (\<exists>H'. threads_to E mapped a H st (\<lambda>_. 0) (live st) H' st')
     \<and> thread_heaps st' = remove1 heap (thread_heaps st) \<and> short st' \<and> same_rest st st')"
  unfolding DeleteCache_def ThreadCache_dtor_def
proof (rule outcome_bindI [OF release_lists_ok [OF ok heap]], simp, simp, elim conjE exE)
  fix st1 H1
  assume k: "kept heap st st1" and t: "threads_to E mapped a H st (\<lambda>_. 0) (live st) H1 st1"
    and e: "\<forall>j. if j \<in> set [0..<num_size_classes (sizes st)] then fl_length (the_list heap j st1) = 0 else the_list heap j st1 = the_list heap j st"
  note kd = keptD [OF k]
  have ek: "st1 = st\<lparr>ctl := ctl st1, heaps := (heaps st)(heap := heaps st1 heap)\<rparr>" using k by (simp add: kept_def)
  have rest: "tcmalloc.more st1 = tcmalloc.more st" "overall_thread_cache_size st1 = overall_thread_cache_size st"
    "min_per_thread_cache_size st1 = min_per_thread_cache_size st" "unclaimed_cache_space st1 = unclaimed_cache_space st"
    by (subst ek, simp)+
  have ok1: "threads_ok E mapped a H1 (\<lambda>_. 0) st1" and sm: "sizes st1 = sizes st" using threads_to_ok [OF t] by auto
  have heap1: "heap \<in> set (thread_heaps st1)" using heap kd(1) by simp
  define hs where "hs = remove1 heap (thread_heaps st1)"
  have dist: "distinct (thread_heaps st1)" by (rule threads_okD(2) [OF ok1])
  have hs: "set hs = set (thread_heaps st1) - {heap}" "distinct hs" using dist by (simp_all add: hs_def)
  define n1 where "n1 = (if next_memory_steal st1 = heap then next_heap heap (thread_heaps st1) else next_memory_steal st1)"
  define n2 where "n2 = (if n1 = 0 then first_heap hs else n1)"
  define st' where "st' = st1\<lparr>thread_heaps := hs, thread_heap_count := thread_heap_count st1 - 1, next_memory_steal := n2,
    unclaimed_cache_space := ssize64 (unclaimed_cache_space st1 + max_size (heaps st1 heap)),
    threadcache_allocator := PageHeapAllocator_Delete heap (threadcache_allocator st1)\<rparr>"
  have n2: "n2 = 0 \<or> n2 \<in> set hs"
  proof -
    have "n1 = 0 \<or> n1 \<in> set hs"
      using ok1 next_heap_neq [OF dist, of heap] hs(1) unfolding threads_ok_def caches_ok_def n1_def hs_def [symmetric] by auto
    moreover have "first_heap hs = 0 \<or> first_heap hs \<in> set hs" by (cases hs) (simp_all add: first_heap_def)
    ultimately show ?thesis by (auto simp: n2_def)
  qed
  have on: "on_list st' h j = on_list st1 h j" for h j by (simp add: on_list_def st'_def)
  have empty: "on_list st1 heap j = {}" if "j < num_size_classes (sizes st)" for j
  proof -
    have "fl_length (the_list heap j st1) = 0" using e that by (metis atLeastLessThan_iff set_upt zero_le)
    moreover have "list_ok (sizes st1) j (the_list heap j st1)" by (rule threads_okD(4) [OF ok1 heap1]) (use that sm in simp)
    ultimately show ?thesis by (simp add: on_list_def list_ok_def)
  qed
  have "heap_lists_ok st' h = heap_lists_ok st1 h" for h by (simp add: heap_lists_ok_def on) (simp add: st'_def)
  then have "threads_ok E mapped a H1 (\<lambda>_. 0) st'"
    using ok1 n2 hs unfolding threads_ok_def caches_ok_def on by (auto simp: st'_def)
  moreover have "live st' j = live st1 j" if "j < num_size_classes (sizes st1)" for j
  proof -
    have "cached st' j = cached st1 j" using empty that heap1 unfolding cached_def on by (auto simp: st'_def hs(1) sm)
    then show ?thesis by (simp add: live_def) (simp add: st'_def)
  qed
  ultimately have "threads_to E mapped a H1 st1 (\<lambda>_. 0) (live st1) H1 st'" by (simp add: threads_to_def) (simp add: st'_def)
  note t' = threads_to_idle_trans [OF t this]
  have fl: "fl_length (the_list h j st1) \<le> fl_length (the_list h j st)" if "j < num_size_classes (sizes st)" for h j
  proof (cases "h = heap")
    case True
    have "fl_length (the_list heap j st1) = 0" using e that by (metis atLeastLessThan_iff set_upt zero_le)
    then show ?thesis using True by simp
  qed (simp add: kd(3))
  have "fl_length (the_list h j st1) \<le> 8192" if "h \<in> set (thread_heaps st)" "j < num_size_classes (sizes st)" for h j
    using fl [OF that(2), of h] short that unfolding short_def by (meson order_trans)
  then have "short st'" by (simp add: short_def st'_def hs(1) kd(1) sm)
  moreover have "shares (set hs) st' mod 2 ^ 32 = shares (set (thread_heaps st)) st mod 2 ^ 32"
  proof -
    have "shares (set hs) st' = ssize64 (unclaimed_cache_space st + max_size (heaps st heap)) + (\<Sum>h \<in> set hs. max_size (heaps st h))"
      by (simp add: shares_def st'_def rest kd(4))
    also have "\<dots> mod 2 ^ 32 = (unclaimed_cache_space st + max_size (heaps st heap) + (\<Sum>h \<in> set hs. max_size (heaps st h))) mod 2 ^ 32"
      by (rule mod_add_cong [OF ssize64_mod refl])
    finally show ?thesis using heap by (simp add: shares_def hs(1) kd(1) sum.remove algebra_simps)
  qed
  ultimately have "(\<exists>H'. threads_to E mapped a H st (\<lambda>_. 0) (live st) H' st') \<and> thread_heaps st' = remove1 heap (thread_heaps st)
      \<and> short st' \<and> same_rest st st'"
    using t' unfolding same_rest_def by (auto simp: st'_def rest hs_def kd(1))
  moreover have "do {
       let next = next_heap heap (thread_heaps st1);
       let st = st1\<lparr>thread_heaps := remove1 heap (thread_heaps st1), thread_heap_count := thread_heap_count st1 - 1\<rparr>;
       let st = (if next_memory_steal st = heap then st\<lparr>next_memory_steal := next\<rparr> else st);
       let st = (if next_memory_steal st = 0 then st\<lparr>next_memory_steal := first_heap (thread_heaps st)\<rparr> else st);
       let st = st\<lparr>unclaimed_cache_space := ssize64 (unclaimed_cache_space st + max_size (heaps st heap))\<rparr>;
       Some (st\<lparr>threadcache_allocator := PageHeapAllocator_Delete heap (threadcache_allocator st)\<rparr>) } = Some st'"
    by (simp add: st'_def n2_def n1_def hs_def Let_def)
  ultimately show "outcome (mad E) (do {
       let next = next_heap heap (thread_heaps st1);
       let st = st1\<lparr>thread_heaps := remove1 heap (thread_heaps st1), thread_heap_count := thread_heap_count st1 - 1\<rparr>;
       let st = (if next_memory_steal st = heap then st\<lparr>next_memory_steal := next\<rparr> else st);
       let st = (if next_memory_steal st = 0 then st\<lparr>next_memory_steal := first_heap (thread_heaps st)\<rparr> else st);
       let st = st\<lparr>unclaimed_cache_space := ssize64 (unclaimed_cache_space st + max_size (heaps st heap))\<rparr>;
       Some (st\<lparr>threadcache_allocator := PageHeapAllocator_Delete heap (threadcache_allocator st)\<rparr>) })
     (\<lambda>st'. (\<exists>H'. threads_to E mapped a H st (\<lambda>_. 0) (live st) H' st') \<and> thread_heaps st' = remove1 heap (thread_heaps st)
      \<and> short st' \<and> same_rest st st')"
    by simp
qed

end
