(* ===== verification/ThreadCachePtr.thy ===== *)
theory ThreadCachePtr
  imports ThreadCache
begin

text \<open>
  The cache of the calling thread: \<^verbatim>\<open>thread_cache_ptr.h\<close> and \<^verbatim>\<open>thread_cache_ptr.cc\<close>, on a platform with
  good thread-local storage and without emergency malloc. A thread is identified by the address of its
  \<open>tls_data_\<close>. A chain of the hash table is the list of its entries; an entry is found by its
  thread, of which a chain has at most one entry. \<open>std::hash\<close> is a parameter, and \<open>SetTlsValue\<close> does not
  call back into malloc.
\<close>

record tls_entry =
  entry_cache :: nat
  emergency_malloc :: bool
  was_allocated :: bool
  thread_id :: nat

record 'o tls = "'o tcmalloc" +
  fast_path_cache :: "nat \<Rightarrow> nat"
  tls_value :: "nat \<Rightarrow> nat"
  tls_key_ready :: bool
  hash_table :: "nat \<Rightarrow> tls_entry list"

definition kTableSize :: nat where
  "kTableSize = 257"

definition sizeof_Entry :: nat where
  "sizeof_Entry = 40"

definition ht_place :: "(nat \<Rightarrow> nat) \<Rightarrow> nat \<Rightarrow> nat" where
  "ht_place hash t = hash t mod kTableSize"

definition Lookup :: "(nat \<Rightarrow> nat) \<Rightarrow> nat \<Rightarrow> ('o, 'm) tls_scheme \<Rightarrow> tls_entry option" where
  "Lookup hash t st = find (\<lambda>e. thread_id e = t) (hash_table st (ht_place hash t))"

definition RegisterEntry :: "(nat \<Rightarrow> nat) \<Rightarrow> nat \<Rightarrow> tls_entry \<Rightarrow> ('o, 'm) tls_scheme \<Rightarrow> ('o, 'm) tls_scheme" where
  "RegisterEntry hash t e st =
     (let i = ht_place hash t
      in st\<lparr>hash_table := (hash_table st)(i := e\<lparr>thread_id := t\<rparr> # hash_table st i)\<rparr>)"

fun remove_entry :: "nat \<Rightarrow> tls_entry list \<Rightarrow> tls_entry list" where
  "remove_entry t [] = []"
| "remove_entry t (e # es) = (if thread_id e = t then es else e # remove_entry t es)"

definition UnregisterEntry :: "(nat \<Rightarrow> nat) \<Rightarrow> nat \<Rightarrow> ('o, 'm) tls_scheme \<Rightarrow> ('o, 'm) tls_scheme" where
  "UnregisterEntry hash t st =
     (let i = ht_place hash t in st\<lparr>hash_table := (hash_table st)(i := remove_entry t (hash_table st i))\<rparr>)"

text \<open>The cache that was registered before the key was ready, once it is; null otherwise.\<close>

definition TryToReleaseCacheFromAllocation ::
  "(nat \<Rightarrow> nat) \<Rightarrow> nat \<Rightarrow> tls_entry \<Rightarrow> ('o, 'm) tls_scheme \<Rightarrow> nat \<times> ('o, 'm) tls_scheme" where
  "TryToReleaseCacheFromAllocation hash t e st =
     (if was_allocated e \<and> tls_key_ready st then (entry_cache e, UnregisterEntry hash t st) else (0, st))"

definition SetTlsValue :: "nat \<Rightarrow> nat \<Rightarrow> ('o, 'm) tls_scheme \<Rightarrow> ('o, 'm) tls_scheme" where
  "SetTlsValue t v st = st\<lparr>tls_value := (tls_value st)(t := v)\<rparr>"

definition set_fast_path_cache :: "nat \<Rightarrow> nat \<Rightarrow> ('o, 'm) tls_scheme \<Rightarrow> ('o, 'm) tls_scheme" where
  "set_fast_path_cache t v st = st\<lparr>fast_path_cache := (fast_path_cache st)(t := v)\<rparr>"

definition GetIfPresent :: "nat \<Rightarrow> ('o, 'm) tls_scheme \<Rightarrow> nat" where
  "GetIfPresent t st = fast_path_cache st t"

text \<open>
  The module is initialised, so \<open>InitModule\<close> returns at once. The registration of a cache before the
  key is ready takes its memory from the metadata allocator.
\<close>

definition GetReallySlow ::
  "'o env \<Rightarrow> sampling \<Rightarrow> nat \<Rightarrow> (nat \<Rightarrow> nat) \<Rightarrow> nat \<Rightarrow> ('o, 'm) tls_scheme \<Rightarrow> (nat \<times> bool \<times> ('o, 'm) tls_scheme) option" where
  "GetReallySlow E S seed hash t st =
     (case Lookup hash t st of
        Some e \<Rightarrow> Some (entry_cache e, emergency_malloc e, st)
      | None \<Rightarrow> do {
          (cache, st) \<leftarrow> NewHeap E S seed st;
          (memory, md) \<leftarrow> MetaDataAlloc (plat E) sizeof_Entry (meta (pageheap (ctl st)));
          if memory = 0 then None
          else do {
            let st = st\<lparr>ctl := (ctl st)\<lparr>pageheap := (pageheap (ctl st))\<lparr>meta := md\<rparr>\<rparr>\<rparr>;
            let e = \<lparr>entry_cache = cache, emergency_malloc = False, was_allocated = True, thread_id = 0\<rparr>;
            Some (cache, False, RegisterEntry hash t e st) } })"

definition attach_cache ::
  "(nat \<Rightarrow> nat) \<Rightarrow> nat \<Rightarrow> nat \<Rightarrow> ('o, 'm) tls_scheme \<Rightarrow> ('o, 'm) tls_scheme" where
  "attach_cache hash t cache st =
     (let e = \<lparr>entry_cache = cache, emergency_malloc = False, was_allocated = False, thread_id = 0\<rparr>;
          st = RegisterEntry hash t e st;
          st = SetTlsValue t cache st;
          st = UnregisterEntry hash t st
      in set_fast_path_cache t cache st)"

definition GetSlow ::
  "'o env \<Rightarrow> sampling \<Rightarrow> nat \<Rightarrow> (nat \<Rightarrow> nat) \<Rightarrow> nat \<Rightarrow> ('o, 'm) tls_scheme \<Rightarrow> (nat \<times> bool \<times> ('o, 'm) tls_scheme) option" where
  "GetSlow E S seed hash t st =
     (case Lookup hash t st of
        Some e \<Rightarrow>
          if emergency_malloc e then Some (0, True, st)
          else (case TryToReleaseCacheFromAllocation hash t e st of
              (cache, st) \<Rightarrow> if cache = 0 then Some (entry_cache e, False, st)
                            else Some (cache, False, attach_cache hash t cache st))
      | None \<Rightarrow>
          if \<not> tls_key_ready st then GetReallySlow E S seed hash t st
          else do {
            (cache, st) \<leftarrow> NewHeap E S seed st;
            Some (cache, False, attach_cache hash t cache st) })"

definition Grab ::
  "'o env \<Rightarrow> sampling \<Rightarrow> nat \<Rightarrow> (nat \<Rightarrow> nat) \<Rightarrow> nat \<Rightarrow> ('o, 'm) tls_scheme \<Rightarrow> (nat \<times> bool \<times> ('o, 'm) tls_scheme) option" where
  "Grab E S seed hash t st =
     (let cache = GetIfPresent t st in if cache \<noteq> 0 then Some (cache, False, st) else GetSlow E S seed hash t st)"

definition ReleaseAndClear :: "nat \<Rightarrow> ('o, 'm) tls_scheme \<Rightarrow> nat \<times> ('o, 'm) tls_scheme" where
  "ReleaseAndClear t st =
     (let cache = GetIfPresent t st
      in (cache, if cache \<noteq> 0 then SetTlsValue t 0 (set_fast_path_cache t 0 st) else st))"

text \<open>The destructor of the key, which the system runs when a thread exits with a value other than null.\<close>

definition tls_destructor :: "'o env \<Rightarrow> nat \<Rightarrow> ('o, 'm) tls_scheme \<Rightarrow> ('o, 'm) tls_scheme option" where
  "tls_destructor E t st =
     (let ptr = tls_value st t; st = SetTlsValue t 0 st
      in if ptr = 0 then Some st else DeleteCache E ptr (set_fast_path_cache t 0 st))"

definition InitThreadCachePtrLate :: "('o, 'm) tls_scheme \<Rightarrow> ('o, 'm) tls_scheme" where
  "InitThreadCachePtrLate st = st\<lparr>tls_key_ready := True\<rparr>"

end
