(* ===== verification/Tcmalloc.thy ===== *)
theory Tcmalloc
  imports ThreadCachePtr
begin

text \<open>
  The allocation functions: \<^verbatim>\<open>tcmalloc.cc\<close>, in a build without debug assertions and without emergency
  malloc, after the module was initialised. Calls to hooks, reports and the accesses of
  \<open>memset\<close> and \<open>memcpy\<close> are recorded in the state. A call that aborts or does not return is \<^term>\<open>None\<close>.
\<close>

subsection \<open>State and environment\<close>

datatype hook_call = NewHook result nat | DeleteHook nat

datatype mem_access = Memset nat nat | Memcpy nat nat nat

record 'o api = "'o tls" +
  tc_new_mode :: int
  new_hooks :: bool
  delete_hooks :: bool
  hook_calls :: "hook_call list"
  sampled_objects :: "nat list"
  trace_size :: "nat \<Rightarrow> nat"
  large_alloc_threshold :: nat
  large_reports :: "(nat \<times> nat) list"
  mem_accesses :: "mem_access list"
  extra_bytes_released :: nat

text \<open>
  What the functions take from outside: the platform and the flags, the seed of the sampler of a
  new cache, the hash function of the library, the handler that \<open>std::get_new_handler\<close> yields, whether
  large allocations are reported and from which size, and the page size of the system. A handler
  returns or throws \<open>std::bad_alloc\<close>, which the boolean tells.
\<close>

record 'o world =
  env_of :: "'o env"
  sampling_of :: sampling
  seed_of :: nat
  hash_of :: "nat \<Rightarrow> nat"
  get_new_handler :: "'o api \<Rightarrow> ('o api \<Rightarrow> (bool \<times> 'o api) option) option"
  report_enabled :: bool
  report_threshold :: int
  native_page_size :: nat

definition with_pageheap :: "'o page_heap \<Rightarrow> 'o api \<Rightarrow> 'o api" where
  "with_pageheap h st = st\<lparr>ctl := (ctl st)\<lparr>pageheap := h\<rparr>\<rparr>"

abbreviation the_heap :: "'o api \<Rightarrow> 'o page_heap" where
  "the_heap st \<equiv> pageheap (ctl st)"

definition InvokeNewHook :: "result \<Rightarrow> nat \<Rightarrow> 'o api \<Rightarrow> 'o api" where
  "InvokeNewHook p sz st = (if new_hooks st then st\<lparr>hook_calls := NewHook p sz # hook_calls st\<rparr> else st)"

definition InvokeDeleteHook :: "nat \<Rightarrow> 'o api \<Rightarrow> 'o api" where
  "InvokeDeleteHook p st = (if delete_hooks st then st\<lparr>hook_calls := DeleteHook p # hook_calls st\<rparr> else st)"

definition tc_set_new_mode :: "int \<Rightarrow> 'o api \<Rightarrow> int \<times> 'o api" where
  "tc_set_new_mode flag st = (tc_new_mode st, st\<lparr>tc_new_mode := flag\<rparr>)"

subsection \<open>Sizes\<close>

definition align_size_up :: "nat \<Rightarrow> nat \<Rightarrow> nat" where
  "align_size_up sz align =
     (let new_size = sub64 (add64 sz align) 1 AND not64 (sub64 align 1)
      in if new_size = 0 then (if sz = 0 then align else sz) else new_size)"

definition size_class_with_alignment :: "sizemap \<Rightarrow> nat \<Rightarrow> nat \<Rightarrow> nat option" where
  "size_class_with_alignment sm sz align =
     (if kPageSize < align then None else GetSizeClass sm (align_size_up sz align))"

definition nallocx_slow :: "nat \<Rightarrow> int \<Rightarrow> 'o api \<Rightarrow> nat" where
  "nallocx_slow sz flags st =
     (let align = shl64 1 (nat (flags mod 64))
      in case size_class_with_alignment (sizes st) sz align of
           Some cl \<Rightarrow> ByteSizeForClass (sizes st) cl
         | None \<Rightarrow> page_bytes (RoundUpSize (pages sz) (the_heap st)))"

definition tc_nallocx :: "nat \<Rightarrow> int \<Rightarrow> 'o api \<Rightarrow> nat" where
  "tc_nallocx sz flags st =
     (if flags \<noteq> 0 then nallocx_slow sz flags st
      else case GetSizeClass (sizes st) sz of
          None \<Rightarrow> nallocx_slow sz 0 st
        | Some cl \<Rightarrow> if cl \<noteq> 0 then ByteSizeForClass (sizes st) cl else nallocx_slow sz 0 st)"

text \<open>The check of a debug build: a cached size class is the one of the span.\<close>

definition CheckCachedSizeClass :: "nat \<Rightarrow> 'o api \<Rightarrow> bool option" where
  "CheckCachedSizeClass ptr st =
     (let p = ptr div 2 ^ kPageShift
      in case TryGetSizeClass p (the_heap st) of
           None \<Rightarrow> Some True
         | Some cached_value \<Rightarrow> do {
             s \<leftarrow> GetDescriptor p (the_heap st);
             Some (cached_value = sizeclass (spans (the_heap st) s)) })"

definition SpanToMallocResult :: "nat \<Rightarrow> 'o api \<Rightarrow> nat" where
  "SpanToMallocResult s st = page_bytes (start (spans (the_heap st) s))"

subsection \<open>Allocation\<close>

definition DoSampledAllocation :: "'o world \<Rightarrow> nat \<Rightarrow> 'o api \<Rightarrow> (result \<times> 'o api) option" where
  "DoSampledAllocation W sz st = do {
     (s, h) \<leftarrow> New (env_of W) (pages (if sz = 0 then 1 else sz)) (the_heap st);
     let st = with_pageheap h st;
     if s = 0 then Some (Returned 0, st)
     else do {
       (stack, pool, md) \<leftarrow> PageHeapAllocator_New (plat (env_of W)) sizeof_StackTrace (stacktrace_allocator h) (meta h);
       let st = with_pageheap (h\<lparr>stacktrace_allocator := pool, meta := md\<rparr>) st;
       let st = (if stack \<noteq> 0 then
                   (with_pageheap (upd_span s (\<lambda>x. x\<lparr>sample := True, objects := [stack]\<rparr>) (the_heap st)) st)
                     \<lparr>trace_size := (trace_size st)(stack := sz), sampled_objects := s # sampled_objects st\<rparr>
                 else st);
       Some (Returned (SpanToMallocResult s st), st) } }"

text \<open>
  The loop of \<open>handle_oom\<close>: the handler of the moment is called until an allocation succeeds. Without a
  handler, or when it throws, the allocation fails.
\<close>

partial_function (option) oom_loop ::
  "'o world \<Rightarrow> ('o api \<Rightarrow> (result \<times> 'o api) option) \<Rightarrow> bool \<Rightarrow> 'o api \<Rightarrow> (result \<times> 'o api) option" where
  "oom_loop W retry_fn nothrow st =
     (if get_new_handler W st = None then Some (if nothrow then Returned 0 else Thrown, st)
      else do {
        (returned, st) \<leftarrow> the (get_new_handler W st) st;
        if \<not> returned then Some (if nothrow then Returned 0 else Thrown, st)
        else do {
          (rv, st) \<leftarrow> retry_fn st;
          if rv \<noteq> Returned 0 then Some (rv, st) else oom_loop W retry_fn nothrow st } })"

definition handle_oom ::
  "'o world \<Rightarrow> ('o api \<Rightarrow> (result \<times> 'o api) option) \<Rightarrow> bool \<Rightarrow> bool \<Rightarrow> 'o api \<Rightarrow> (result \<times> 'o api) option" where
  "handle_oom W retry_fn from_operator nothrow st =
     (if \<not> from_operator \<and> tc_new_mode st = 0 then Some (Returned 0, st) else oom_loop W retry_fn nothrow st)"

text \<open>
  When a large allocation is reported: \<open>value\<close> has 64 bits and a sign. The exchange of the threshold
  succeeds at once, as no other thread interferes.
\<close>

definition initial_threshold :: "int \<Rightarrow> nat" where
  "initial_threshold v =
     (let v = (if v < 0 then ssize64 (2 ^ 64 - 1) else v)
      in u64_of_int (max (int kPageSize) v))"

definition should_report_large :: "'o world \<Rightarrow> nat \<Rightarrow> 'o api \<Rightarrow> bool \<times> 'o api" where
  "should_report_large W num_pages st =
     (if \<not> report_enabled W then (False, st)
      else let threshold = (if large_alloc_threshold st = 0 then initial_threshold (report_threshold W) else large_alloc_threshold st);
               st = st\<lparr>large_alloc_threshold := threshold\<rparr>
           in if num_pages < threshold div 2 ^ kPageShift then (False, st)
              else let new_threshold = add64 threshold (threshold div 8);
                       new_threshold = (if new_threshold < threshold then 2 ^ 64 - 1 else new_threshold);
                       new_threshold = max new_threshold (page_bytes num_pages)
                   in (True, st\<lparr>large_alloc_threshold := new_threshold\<rparr>))"

fun ptr_of :: "result \<Rightarrow> nat" where
  "ptr_of (Returned p) = p"
| "ptr_of Thrown = 0"

definition do_malloc_pages :: "'o world \<Rightarrow> nat \<Rightarrow> nat \<Rightarrow> 'o api \<Rightarrow> (result \<times> 'o api) option" where
  "do_malloc_pages W heap sz st = do {
     let num_pages = pages sz;
     (sampled, st) \<leftarrow> SampleAllocation (sampling_of W) heap sz st;
     (r, st) \<leftarrow> (if sampled then DoSampledAllocation W sz st
                else do {
                  (s, h) \<leftarrow> New (env_of W) num_pages (the_heap st);
                  let st = with_pageheap h st;
                  Some (Returned (if s = 0 then 0 else SpanToMallocResult s st), st) });
     let (report, st) = should_report_large W num_pages st;
     Some (r, if report then st\<lparr>large_reports := (num_pages, ptr_of r) # large_reports st\<rparr> else st) }"

definition nop_oom_handler :: "nat \<Rightarrow> 'o api \<Rightarrow> (result \<times> 'o api) option" where
  "nop_oom_handler sz st = Some (Returned 0, st)"

text \<open>A cache of null, which an emergency malloc would need, is followed.\<close>

definition do_malloc :: "'o world \<Rightarrow> nat \<Rightarrow> nat \<Rightarrow> 'o api \<Rightarrow> (result \<times> 'o api) option" where
  "do_malloc W t sz st = do {
     (cache, _, st) \<leftarrow> Grab (env_of W) (sampling_of W) (seed_of W) (hash_of W) t st;
     if cache = 0 then None
     else (case GetSizeClass (sizes st) sz of
         None \<Rightarrow> do_malloc_pages W cache sz st
       | Some cl \<Rightarrow> do {
           let allocated_size = class_to_size (sizes st) cl;
           (sampled, st) \<leftarrow> SampleAllocation (sampling_of W) cache allocated_size st;
           if sampled then DoSampledAllocation W sz st
           else Allocate (env_of W) cache allocated_size cl nop_oom_handler st }) }"

definition do_malloc_or_cpp_alloc :: "'o world \<Rightarrow> nat \<Rightarrow> nat \<Rightarrow> 'o api \<Rightarrow> (result \<times> 'o api) option" where
  "do_malloc_or_cpp_alloc W t sz st = do {
     (rv, st) \<leftarrow> do_malloc W t sz st;
     if rv \<noteq> Returned 0 then Some (rv, st) else handle_oom W (do_malloc W t sz) False True st }"

definition do_calloc :: "'o world \<Rightarrow> nat \<Rightarrow> nat \<Rightarrow> nat \<Rightarrow> 'o api \<Rightarrow> (result \<times> 'o api) option" where
  "do_calloc W t n elem_size st =
     (let sz = mul64 n elem_size
      in if elem_size \<noteq> 0 \<and> sz div elem_size \<noteq> n then Some (Returned 0, st)
         else do {
           (r, st) \<leftarrow> do_malloc_or_cpp_alloc W t sz st;
           Some (r, if r \<noteq> Returned 0
                    then st\<lparr>mem_accesses := Memset (ptr_of r) (tc_nallocx sz 0 st) # mem_accesses st\<rparr> else st) })"

definition do_memalign_pages :: "'o world \<Rightarrow> nat \<Rightarrow> nat \<Rightarrow> 'o api \<Rightarrow> (result \<times> 'o api) option" where
  "do_memalign_pages W align sz st =
     (if add64 sz align < sz then Some (Returned 0, st)
      else do {
        let sz = (if sz = 0 then 1 else sz);
        (s, h) \<leftarrow> NewAligned (env_of W) (pages sz) (pages align) (the_heap st);
        let st = with_pageheap h st;
        Some (Returned (if s = 0 then 0 else SpanToMallocResult s st), st) })"

subsection \<open>Deallocation\<close>

definition InvalidFree :: "nat \<Rightarrow> 'o api \<Rightarrow> 'o api option" where
  "InvalidFree ptr st = None"

definition free_null_or_invalid :: "nat \<Rightarrow> (nat \<Rightarrow> 'o api \<Rightarrow> 'o api option) \<Rightarrow> 'o api \<Rightarrow> 'o api option" where
  "free_null_or_invalid ptr invalid_free_fn st = (if ptr \<noteq> 0 then invalid_free_fn ptr st else Some st)"

text \<open>The part of \<open>do_free_pages\<close> on the list of sampled objects runs with the same lock as the rest.\<close>

definition do_free_pages :: "'o world \<Rightarrow> nat \<Rightarrow> nat \<Rightarrow> 'o api \<Rightarrow> 'o api option" where
  "do_free_pages W s ptr st =
     (let x = spans (the_heap st) s
      in if location x \<noteq> IN_USE then None
         else if page_bytes (start x) \<noteq> ptr then None
         else do {
           h \<leftarrow> PrepareAndDelete (env_of W) s
             (\<lambda>h. if sample (spans h s) then
                    upd_span s (\<lambda>x. x\<lparr>objects := []\<rparr>)
                      (h\<lparr>stacktrace_allocator := PageHeapAllocator_Delete (hd (objects (spans h s))) (stacktrace_allocator h)\<rparr>)
                  else h) (the_heap st);
           let st = (if sample x then st\<lparr>sampled_objects := remove1 s (sampled_objects st)\<rparr> else st);
           Some (with_pageheap h st) })"

text \<open>The size class of a freed object, or what is done where it has none.\<close>

definition do_free_with_callback ::
  "'o world \<Rightarrow> nat \<Rightarrow> nat \<Rightarrow> (nat \<Rightarrow> 'o api \<Rightarrow> 'o api option) \<Rightarrow> bool \<Rightarrow> nat \<Rightarrow> 'o api \<Rightarrow> 'o api option" where
  "do_free_with_callback W t ptr invalid_free_fn use_hint size_hint st =
     (let heap = GetIfPresent t st;
          p = ptr div 2 ^ kPageShift;
          release = (\<lambda>cl st. if heap \<noteq> 0 then Deallocate (env_of W) heap ptr cl st
             else do { c \<leftarrow> InsertRange (env_of W) cl [ptr] 1 (ctl st); Some (st\<lparr>ctl := c\<rparr>) });
          hint = (if use_hint then GetSizeClass (sizes st) size_hint else None)
      in case hint of
           Some cl \<Rightarrow> release cl st
         | None \<Rightarrow>
             (case (if use_hint then None else TryGetSizeClass p (the_heap st)) of
                Some cl \<Rightarrow> release cl st
              | None \<Rightarrow>
                  (case GetDescriptor p (the_heap st) of
                     None \<Rightarrow> free_null_or_invalid ptr invalid_free_fn st
                   | Some s \<Rightarrow>
                       let cl = sizeclass (spans (the_heap st) s)
                       in if cl = 0 then do_free_pages W s ptr st
                          else release cl (if use_hint then st
                                           else with_pageheap (SetCachedSizeClass p cl (the_heap st)) st))))"

definition do_free :: "'o world \<Rightarrow> nat \<Rightarrow> nat \<Rightarrow> 'o api \<Rightarrow> 'o api option" where
  "do_free W t ptr st = do_free_with_callback W t ptr InvalidFree False 0 st"

definition GetSizeWithCallback :: "nat \<Rightarrow> (nat \<Rightarrow> nat option) \<Rightarrow> 'o api \<Rightarrow> nat option" where
  "GetSizeWithCallback ptr invalid_getsize_fn st =
     (if ptr = 0 then Some 0
      else let p = ptr div 2 ^ kPageShift
           in case TryGetSizeClass p (the_heap st) of
                Some cl \<Rightarrow> Some (ByteSizeForClass (sizes st) cl)
              | None \<Rightarrow>
                  (case GetDescriptor p (the_heap st) of
                     None \<Rightarrow> invalid_getsize_fn ptr
                   | Some s \<Rightarrow>
                       let x = spans (the_heap st) s
                       in if sizeclass x \<noteq> 0 then Some (ByteSizeForClass (sizes st) (sizeclass x))
                          else if sample x then Some (tc_nallocx (trace_size st (hd (objects x))) 0 st)
                          else Some (page_bytes (slength x))))"

text \<open>How much to ask for first when a block grows by little, and whether a block must move at all.\<close>

definition lower_bound_to_grow :: "nat \<Rightarrow> nat" where
  "lower_bound_to_grow old_size = add64 old_size (min (old_size div 4) (2 ^ 64 - 1 - old_size))"

definition realloc_moves :: "nat \<Rightarrow> nat \<Rightarrow> bool" where
  "realloc_moves old_size new_size \<longleftrightarrow> old_size < new_size \<or> new_size < old_size div 2"

definition do_realloc_with_callback ::
  "'o world \<Rightarrow> nat \<Rightarrow> nat \<Rightarrow> nat \<Rightarrow> (nat \<Rightarrow> 'o api \<Rightarrow> 'o api option) \<Rightarrow> (nat \<Rightarrow> nat option) \<Rightarrow> 'o api
   \<Rightarrow> (result \<times> 'o api) option" where
  "do_realloc_with_callback W t old_ptr new_size invalid_free_fn invalid_get_size_fn st = do {
     old_size \<leftarrow> GetSizeWithCallback old_ptr invalid_get_size_fn st;
     if realloc_moves old_size new_size then do {
       (r, st) \<leftarrow> (if old_size < new_size \<and> new_size < lower_bound_to_grow old_size
                  then do_malloc_or_cpp_alloc W t (lower_bound_to_grow old_size) st else Some (Returned 0, st));
       (r, st) \<leftarrow> (if r = Returned 0 then do_malloc_or_cpp_alloc W t new_size st else Some (r, st));
       if r = Returned 0 then Some (r, st)
       else do {
         let st = InvokeNewHook r new_size st;
         let st = st\<lparr>mem_accesses := Memcpy (ptr_of r) old_ptr (min old_size new_size) # mem_accesses st\<rparr>;
         let st = InvokeDeleteHook old_ptr st;
         st \<leftarrow> do_free_with_callback W t old_ptr invalid_free_fn False 0 st;
         Some (r, st) } }
     else Some (Returned old_ptr, InvokeNewHook (Returned old_ptr) new_size (InvokeDeleteHook old_ptr st)) }"

subsection \<open>Exported functions\<close>

text \<open>What to do when an allocation fails: \<open>malloc\<close>, \<open>operator new\<close>, and \<open>operator new\<close> with \<open>nothrow\<close>.\<close>

datatype oom_kind = MallocOom | CppThrowOom | CppNothrowOom

fun from_operator :: "oom_kind \<Rightarrow> bool" where
  "from_operator k \<longleftrightarrow> k \<noteq> MallocOom"

fun nothrow_of :: "oom_kind \<Rightarrow> bool" where
  "nothrow_of k \<longleftrightarrow> k \<noteq> CppThrowOom"

definition oom_handler_of :: "'o world \<Rightarrow> nat \<Rightarrow> oom_kind \<Rightarrow> nat \<Rightarrow> 'o api \<Rightarrow> (result \<times> 'o api) option" where
  "oom_handler_of W t k sz st = handle_oom W (do_malloc W t sz) (from_operator k) (nothrow_of k) st"

definition do_allocate_full :: "'o world \<Rightarrow> nat \<Rightarrow> oom_kind \<Rightarrow> nat \<Rightarrow> 'o api \<Rightarrow> (result \<times> 'o api) option" where
  "do_allocate_full W t k sz st = do {
     (p, st) \<leftarrow> do_malloc W t sz st;
     (p, st) \<leftarrow> (if p = Returned 0 then oom_handler_of W t k sz st else Some (p, st));
     Some (p, if p = Thrown then st else InvokeNewHook p sz st) }"

definition memalign_pages :: "'o world \<Rightarrow> nat \<Rightarrow> nat \<Rightarrow> nat \<Rightarrow> bool \<Rightarrow> bool \<Rightarrow> 'o api \<Rightarrow> (result \<times> 'o api) option" where
  "memalign_pages W t align sz from_op nothrow st = do {
     (rv, st) \<leftarrow> do_memalign_pages W align sz st;
     (rv, st) \<leftarrow> (if rv = Returned 0 then handle_oom W (do_memalign_pages W align sz) from_op nothrow st else Some (rv, st));
     Some (rv, if rv = Thrown then st else InvokeNewHook rv sz st) }"

definition malloc_fast_path :: "'o world \<Rightarrow> nat \<Rightarrow> oom_kind \<Rightarrow> nat \<Rightarrow> 'o api \<Rightarrow> (result \<times> 'o api) option" where
  "malloc_fast_path W t k sz st =
     (let cache = GetIfPresent t st
      in if new_hooks st then do_allocate_full W t k sz st
         else if cache = 0 then do_allocate_full W t k sz st
         else case GetSizeClass (sizes st) sz of
             None \<Rightarrow> do_allocate_full W t k sz st
           | Some cl \<Rightarrow>
               let allocated_size = ByteSizeForClass (sizes st) cl;
                   (recorded, st') = TryRecordAllocation cache allocated_size st
               in if \<not> recorded then do_allocate_full W t k sz st'
                  else Allocate (env_of W) cache allocated_size cl (oom_handler_of W t k) st')"

definition memalign_fast_path :: "'o world \<Rightarrow> nat \<Rightarrow> oom_kind \<Rightarrow> nat \<Rightarrow> nat \<Rightarrow> 'o api \<Rightarrow> (result \<times> 'o api) option" where
  "memalign_fast_path W t k align sz st =
     (if kPageSize < align then memalign_pages W t align sz (from_operator k) (nothrow_of k) st
      else malloc_fast_path W t k (align_size_up sz align) st)"

definition tc_malloc :: "'o world \<Rightarrow> nat \<Rightarrow> nat \<Rightarrow> 'o api \<Rightarrow> (result \<times> 'o api) option" where
  "tc_malloc W t sz st = malloc_fast_path W t MallocOom sz st"

definition invoke_hooks_and_free :: "'o world \<Rightarrow> nat \<Rightarrow> nat \<Rightarrow> 'o api \<Rightarrow> 'o api option" where
  "invoke_hooks_and_free W t ptr st = do_free W t ptr (InvokeDeleteHook ptr st)"

definition free_fast_path :: "'o world \<Rightarrow> nat \<Rightarrow> nat \<Rightarrow> 'o api \<Rightarrow> 'o api option" where
  "free_fast_path W t ptr st = (if delete_hooks st then invoke_hooks_and_free W t ptr st else do_free W t ptr st)"

definition tc_free :: "'o world \<Rightarrow> nat \<Rightarrow> nat \<Rightarrow> 'o api \<Rightarrow> 'o api option" where
  "tc_free W t ptr st = free_fast_path W t ptr st"

definition tc_free_sized :: "'o world \<Rightarrow> nat \<Rightarrow> nat \<Rightarrow> nat \<Rightarrow> 'o api \<Rightarrow> 'o api option" where
  "tc_free_sized W t ptr sz st =
     (if delete_hooks st then invoke_hooks_and_free W t ptr st
      else if ptr AND (kPageSize - 1) = 0 then tc_free W t ptr st
      else do_free_with_callback W t ptr InvalidFree True sz st)"

definition tc_calloc :: "'o world \<Rightarrow> nat \<Rightarrow> nat \<Rightarrow> nat \<Rightarrow> 'o api \<Rightarrow> (result \<times> 'o api) option" where
  "tc_calloc W t n elem_size st = do {
     (r, st) \<leftarrow> do_calloc W t n elem_size st;
     Some (r, InvokeNewHook r (mul64 n elem_size) st) }"

definition tc_realloc :: "'o world \<Rightarrow> nat \<Rightarrow> nat \<Rightarrow> nat \<Rightarrow> 'o api \<Rightarrow> (result \<times> 'o api) option" where
  "tc_realloc W t old_ptr new_size st =
     (if old_ptr = 0 then do {
        (r, st) \<leftarrow> do_malloc_or_cpp_alloc W t new_size st;
        Some (r, InvokeNewHook r new_size st) }
      else if new_size = 0 then do {
        st \<leftarrow> do_free W t old_ptr (InvokeDeleteHook old_ptr st);
        Some (Returned 0, st) }
      else do_realloc_with_callback W t old_ptr new_size InvalidFree (\<lambda>_. None) st)"

definition tc_new :: "'o world \<Rightarrow> nat \<Rightarrow> nat \<Rightarrow> 'o api \<Rightarrow> (result \<times> 'o api) option" where
  "tc_new W t sz st = malloc_fast_path W t CppThrowOom sz st"

definition tc_new_nothrow :: "'o world \<Rightarrow> nat \<Rightarrow> nat \<Rightarrow> 'o api \<Rightarrow> (result \<times> 'o api) option" where
  "tc_new_nothrow W t sz st = malloc_fast_path W t CppNothrowOom sz st"

definition tc_delete :: "'o world \<Rightarrow> nat \<Rightarrow> nat \<Rightarrow> 'o api \<Rightarrow> 'o api option" where
  "tc_delete W t p st = free_fast_path W t p st"

definition tc_delete_nothrow :: "'o world \<Rightarrow> nat \<Rightarrow> nat \<Rightarrow> 'o api \<Rightarrow> 'o api option" where
  "tc_delete_nothrow W t p st = (if delete_hooks st then invoke_hooks_and_free W t p st else do_free W t p st)"

definition tc_memalign :: "'o world \<Rightarrow> nat \<Rightarrow> nat \<Rightarrow> nat \<Rightarrow> 'o api \<Rightarrow> (result \<times> 'o api) option" where
  "tc_memalign W t align sz st = memalign_fast_path W t MallocOom align sz st"

definition EINVAL :: int where
  "EINVAL = 22"

definition ENOMEM :: int where
  "ENOMEM = 12"

text \<open>The second component is what is stored through \<open>result_ptr\<close>, if anything is.\<close>

definition tc_posix_memalign :: "'o world \<Rightarrow> nat \<Rightarrow> nat \<Rightarrow> nat \<Rightarrow> 'o api \<Rightarrow> (int \<times> nat option \<times> 'o api) option" where
  "tc_posix_memalign W t align sz st =
     (if align mod 8 \<noteq> 0 \<or> align AND sub64 align 1 \<noteq> 0 \<or> align = 0 then Some (EINVAL, None, st)
      else do {
        (r, st) \<leftarrow> tc_memalign W t align sz st;
        Some (if r = Returned 0 then (ENOMEM, None, st) else (0, Some (ptr_of r), st)) })"

definition tc_new_aligned :: "'o world \<Rightarrow> nat \<Rightarrow> nat \<Rightarrow> nat \<Rightarrow> 'o api \<Rightarrow> (result \<times> 'o api) option" where
  "tc_new_aligned W t sz align st = memalign_fast_path W t CppThrowOom align sz st"

definition tc_new_aligned_nothrow :: "'o world \<Rightarrow> nat \<Rightarrow> nat \<Rightarrow> nat \<Rightarrow> 'o api \<Rightarrow> (result \<times> 'o api) option" where
  "tc_new_aligned_nothrow W t sz align st = memalign_fast_path W t CppNothrowOom align sz st"

definition tc_delete_aligned :: "'o world \<Rightarrow> nat \<Rightarrow> nat \<Rightarrow> nat \<Rightarrow> 'o api \<Rightarrow> 'o api option" where
  "tc_delete_aligned W t p align st = free_fast_path W t p st"

definition tc_delete_sized_aligned :: "'o world \<Rightarrow> nat \<Rightarrow> nat \<Rightarrow> nat \<Rightarrow> nat \<Rightarrow> 'o api \<Rightarrow> 'o api option" where
  "tc_delete_sized_aligned W t p sz align st = free_fast_path W t p st"

definition tc_valloc :: "'o world \<Rightarrow> nat \<Rightarrow> nat \<Rightarrow> 'o api \<Rightarrow> (result \<times> 'o api) option" where
  "tc_valloc W t sz st = tc_memalign W t (native_page_size W) sz st"

definition tc_pvalloc :: "'o world \<Rightarrow> nat \<Rightarrow> nat \<Rightarrow> 'o api \<Rightarrow> (result \<times> 'o api) option" where
  "tc_pvalloc W t sz st =
     (let pagesize = native_page_size W;
          sz = (if sz = 0 then pagesize else sz);
          sz = sub64 (add64 sz pagesize) 1 AND not64 (sub64 pagesize 1)
      in tc_memalign W t pagesize sz st)"

definition tc_malloc_skip_new_handler :: "'o world \<Rightarrow> nat \<Rightarrow> nat \<Rightarrow> 'o api \<Rightarrow> (result \<times> 'o api) option" where
  "tc_malloc_skip_new_handler W t sz st = do {
     (r, st) \<leftarrow> do_malloc W t sz st;
     Some (r, InvokeNewHook r sz st) }"

end
