(* ===== verification/MallocExtension.thy ===== *)
theory MallocExtension
  imports Tcmalloc
begin

text \<open>
  Statistics and the extension interface of \<^verbatim>\<open>tcmalloc.cc\<close> (\<open>TCMallocImplementation\<close>): the properties that
  can be read and set, the release of memory to the system, ownership of a pointer, and the list of
  free lists. Printed output is not modelled.
\<close>

subsection \<open>Statistics\<close>

record tcmalloc_stats =
  thread_bytes :: nat
  central_bytes :: nat
  transfer_bytes :: nat
  metadata_bytes :: nat
  pageheap_stats :: heap_stats

text \<open>One size class: products and sums of \<open>size_t\<close> and \<open>int\<close> wrap.\<close>

definition class_stats :: "'o api \<Rightarrow> nat \<Rightarrow> tcmalloc_stats \<Rightarrow> tcmalloc_stats option" where
  "class_stats st cl r = do {
     let len = central_length cl (ctl st);
     let tc_len = tc_length cl (ctl st);
     cache_overhead \<leftarrow> OverheadBytes cl (ctl st);
     let sz = ByteSizeForClass (sizes st) cl;
     Some (r\<lparr>central_bytes := add64 (central_bytes r) (add64 (mul64 sz (u64_of_int len)) cache_overhead),
             transfer_bytes := add64 (transfer_bytes r) (mul64 sz (u64_of_int tc_len))\<rparr>) }"

primrec sum_class_stats :: "'o api \<Rightarrow> nat list \<Rightarrow> tcmalloc_stats \<Rightarrow> tcmalloc_stats option" where
  "sum_class_stats st [] r = Some r"
| "sum_class_stats st (cl # cls) r = do {
     r \<leftarrow> class_stats st cl r;
     sum_class_stats st cls r }"

text \<open>The counts per class and the statistics of spans are filled in on request.\<close>

definition ExtractStats :: "'o api \<Rightarrow> (nat \<Rightarrow> nat) option \<Rightarrow> (tcmalloc_stats \<times> (nat \<Rightarrow> nat) option) option" where
  "ExtractStats st class_count = do {
     r \<leftarrow> sum_class_stats st [0..<num_size_classes (sizes st)]
           \<lparr>thread_bytes = 0, central_bytes = 0, transfer_bytes = 0, metadata_bytes = 0, pageheap_stats = stats (the_heap st)\<rparr>;
     let counts = map_option (\<lambda>f cl. if cl < num_size_classes (sizes st)
           then u64_of_int (i32 (central_length cl (ctl st) + tc_length cl (ctl st))) else f cl) class_count;
     let (total, counts) = GetThreadStats st 0 counts;
     Some (r\<lparr>thread_bytes := total, metadata_bytes := metadata_system_bytes (meta (the_heap st))\<rparr>, counts) }"

definition bytes_in_use :: "tcmalloc_stats \<Rightarrow> nat" where
  "bytes_in_use r =
     sub64 (sub64 (sub64 (sub64 (sub64 (system_bytes (pageheap_stats r)) (thread_bytes r)) (central_bytes r))
       (transfer_bytes r)) (free_bytes (pageheap_stats r))) (unmapped_bytes (pageheap_stats r))"

record mallinfo =
  arena :: nat
  fsmblks :: nat
  fordblks :: nat
  uordblks :: nat

text \<open>The variant with fields of type \<open>size_t\<close>.\<close>

definition do_mallinfo :: "'o api \<Rightarrow> mallinfo option" where
  "do_mallinfo st = do {
     (r, _) \<leftarrow> ExtractStats st None;
     Some \<lparr>arena = system_bytes (pageheap_stats r),
       fsmblks = add64 (add64 (thread_bytes r) (central_bytes r)) (transfer_bytes r),
       fordblks = add64 (free_bytes (pageheap_stats r)) (unmapped_bytes (pageheap_stats r)),
       uordblks = bytes_in_use r\<rparr> }"

subsection \<open>Properties\<close>

text \<open>
  The value of a property; the first component is the environment with its flags. A name that is
  not known yields no value, and so does the portal for tests.
\<close>

definition GetNumericProperty :: "'o world \<Rightarrow> string \<Rightarrow> 'o api \<Rightarrow> nat option option" where
  "GetNumericProperty W name st =
     (let ps = stats (the_heap st); from_stats = (\<lambda>f. do { (r, _) \<leftarrow> ExtractStats st None; Some (Some (f r)) })
      in if name = ''generic.current_allocated_bytes'' then from_stats bytes_in_use
         else if name = ''generic.heap_size'' then from_stats (\<lambda>r. system_bytes (pageheap_stats r))
         else if name = ''generic.total_physical_bytes''
           then from_stats (\<lambda>r. sub64 (add64 (system_bytes (pageheap_stats r)) (metadata_bytes r)) (unmapped_bytes (pageheap_stats r)))
         else if name = ''tcmalloc.slack_bytes'' then Some (Some (add64 (free_bytes ps) (unmapped_bytes ps)))
         else if name = ''tcmalloc.central_cache_free_bytes'' then from_stats central_bytes
         else if name = ''tcmalloc.transfer_cache_free_bytes'' then from_stats transfer_bytes
         else if name = ''tcmalloc.thread_cache_free_bytes'' then from_stats thread_bytes
         else if name = ''tcmalloc.pageheap_free_bytes'' then Some (Some (free_bytes ps))
         else if name = ''tcmalloc.pageheap_unmapped_bytes'' then Some (Some (unmapped_bytes ps))
         else if name = ''tcmalloc.pageheap_committed_bytes'' then Some (Some (committed_bytes ps))
         else if name = ''tcmalloc.pageheap_scavenge_count'' then Some (Some (scavenge_count ps))
         else if name = ''tcmalloc.pageheap_commit_count'' then Some (Some (commit_count ps))
         else if name = ''tcmalloc.pageheap_total_commit_bytes'' then Some (Some (total_commit_bytes ps))
         else if name = ''tcmalloc.pageheap_decommit_count'' then Some (Some (decommit_count ps))
         else if name = ''tcmalloc.pageheap_total_decommit_bytes'' then Some (Some (total_decommit_bytes ps))
         else if name = ''tcmalloc.pageheap_reserve_count'' then Some (Some (reserve_count ps))
         else if name = ''tcmalloc.pageheap_total_reserve_bytes'' then Some (Some (total_reserve_bytes ps))
         else if name = ''tcmalloc.max_total_thread_cache_bytes'' then Some (Some (overall_thread_cache_size st))
         else if name = ''tcmalloc.min_per_thread_cache_bytes'' then Some (Some (min_per_thread_cache_size st))
         else if name = ''tcmalloc.current_total_thread_cache_bytes'' then from_stats thread_bytes
         else if name = ''tcmalloc.aggressive_memory_decommit'' then Some (Some (if aggressive_decommit (the_heap st) then 1 else 0))
         else if name = ''tcmalloc.heap_limit_mb'' then Some (Some (u64_of_int (tcmalloc_heap_limit_mb (env_of W))))
         else if name = ''tcmalloc.impl.thread_cache_count'' then Some (Some (u64_of_int (thread_heap_count st)))
         else if name = ''tcmalloc.sample_parameter'' then Some (Some (u64_of_int (tcmalloc_sample_parameter (sampling_of W))))
         else Some None)"

definition MarkThreadIdle :: "'o world \<Rightarrow> nat \<Rightarrow> 'o api \<Rightarrow> 'o api option" where
  "MarkThreadIdle W t st =
     (let (cache, st) = ReleaseAndClear t st in if cache \<noteq> 0 then DeleteCache (env_of W) cache st else Some st)"

definition MarkThreadBusy :: "'o world \<Rightarrow> nat \<Rightarrow> 'o api \<Rightarrow> 'o api option" where
  "MarkThreadBusy W t st = do {
     (r, st) \<leftarrow> do_malloc W t 0 st;
     do_free W t (ptr_of r) st }"

text \<open>Two of the properties are flags, so the environment is part of the result. They have 64 signed bits.\<close>

definition SetNumericProperty :: "'o world \<Rightarrow> nat \<Rightarrow> string \<Rightarrow> nat \<Rightarrow> 'o api \<Rightarrow> (bool \<times> 'o world \<times> 'o api) option" where
  "SetNumericProperty W t name v st =
     (if name = ''tcmalloc.max_total_thread_cache_bytes'' then Some (True, W, set_overall_thread_cache_size v st)
      else if name = ''tcmalloc.min_per_thread_cache_bytes'' then Some (True, W, set_min_per_thread_cache_size v st)
      else if name = ''tcmalloc.aggressive_memory_decommit''
        then Some (True, W, with_pageheap (SetAggressiveDecommit (v \<noteq> 0) (the_heap st)) st)
      else if name = ''tcmalloc.heap_limit_mb''
        then Some (True, W\<lparr>env_of := (env_of W)\<lparr>tcmalloc_heap_limit_mb := ssize64 (int v)\<rparr>\<rparr>, st)
      else if name = ''tcmalloc.sample_parameter'' then do {
        let W = W\<lparr>sampling_of := (sampling_of W)\<lparr>tcmalloc_sample_parameter := ssize64 (int v)\<rparr>\<rparr>;
        st \<leftarrow> MarkThreadIdle W t st;
        Some (True, W, st) }
      else Some (False, W, st))"

subsection \<open>Memory of the system, ownership, free lists\<close>

definition ReleaseToSystem :: "'o world \<Rightarrow> nat \<Rightarrow> 'o api \<Rightarrow> 'o api option" where
  "ReleaseToSystem W num_bytes st =
     (if num_bytes \<le> extra_bytes_released st
      then Some (st\<lparr>extra_bytes_released := extra_bytes_released st - num_bytes\<rparr>)
      else do {
        let num_bytes = num_bytes - extra_bytes_released st;
        let num_pages = max (num_bytes div 2 ^ kPageShift) 1;
        (released, h) \<leftarrow> ReleaseAtLeastNPages (env_of W) num_pages (the_heap st);
        let bytes_released = page_bytes released;
        let st = with_pageheap h st;
        Some (st\<lparr>extra_bytes_released := (if num_bytes < bytes_released then bytes_released - num_bytes else 0)\<rparr>) })"

definition GetOwnership :: "nat \<Rightarrow> 'o api \<Rightarrow> bool" where
  "GetOwnership ptr st =
     (let p = ptr div 2 ^ kPageShift
      in if 0 < p div 2 ^ (kAddressBits - kPageShift) then False
         else TryGetSizeClass p (the_heap st) \<noteq> None \<or> GetDescriptor p (the_heap st) \<noteq> None)"

definition GetThreadCacheSize :: "nat \<Rightarrow> 'o api \<Rightarrow> nat" where
  "GetThreadCacheSize t st = (let tc = GetIfPresent t st in if tc = 0 then 0 else Size (heaps st tc))"

definition GetAllocatedSize :: "nat \<Rightarrow> 'o api \<Rightarrow> nat option" where
  "GetAllocatedSize ptr st = (if ptr = 0 then Some 0 else GetSizeWithCallback ptr (\<lambda>_. None) st)"

definition GetEstimatedAllocatedSize :: "nat \<Rightarrow> 'o api \<Rightarrow> nat" where
  "GetEstimatedAllocatedSize sz st = tc_nallocx sz 0 st"

datatype free_list_type = CentralCacheType | TransferCacheType | ThreadCacheType | PageHeapType
  | PageHeapUnmappedType | LargeSpanType | LargeUnmappedSpanType

record free_list_info =
  info_type :: free_list_type
  min_object_size :: nat
  max_object_size :: nat
  total_bytes_free :: nat

abbreviation info :: "free_list_type \<Rightarrow> nat \<Rightarrow> nat \<Rightarrow> nat \<Rightarrow> free_list_info" where
  "info t lo hi n \<equiv> \<lparr>info_type = t, min_object_size = lo, max_object_size = hi, total_bytes_free = n\<rparr>"

text \<open>A class begins one byte above the class before it; class 0 has size 0.\<close>

definition class_low :: "'o api \<Rightarrow> nat \<Rightarrow> nat" where
  "class_low st cl = add64 (if cl = 1 then 0 else ByteSizeForClass (sizes st) (cl - 1)) 1"

definition GetFreeListSizes :: "'o api \<Rightarrow> free_list_info list" where
  "GetFreeListSizes st =
     (let sz = ByteSizeForClass (sizes st); classes = [1..<num_size_classes (sizes st)];
          central = concat (map (\<lambda>cl.
            [info CentralCacheType (class_low st cl) (sz cl) (mul64 (u64_of_int (central_length cl (ctl st))) (sz cl)),
             info TransferCacheType (class_low st cl) (sz cl) (mul64 (u64_of_int (tc_length cl (ctl st))) (sz cl))]) classes);
          counts = the (snd (GetThreadStats st 0 (Some (\<lambda>_. 0))));
          thread = map (\<lambda>cl. info ThreadCacheType (class_low st cl) (sz cl) (mul64 (counts cl) (sz cl))) classes;
          large = GetLargeSpanStatsLocked (the_heap st);
          small = GetSmallSpanStatsLocked (the_heap st);
          span_infos = concat (map (\<lambda>s.
            [info PageHeapType (page_bytes (s - 1)) (page_bytes s) (mul64 (page_bytes s) (fst (small ! (s - 1)))),
             info PageHeapUnmappedType (page_bytes (s - 1)) (page_bytes s) (mul64 (page_bytes s) (snd (small ! (s - 1))))]) [1..<kMaxPages + 1])
      in central @ thread
         @ [info LargeSpanType (page_bytes kMaxPages) (2 ^ 64 - 1) (page_bytes (normal_pages large)),
            info LargeUnmappedSpanType (page_bytes kMaxPages) (2 ^ 64 - 1) (page_bytes (returned_pages large))]
         @ span_infos)"

end
