(* ===== verification/Spec2Isabelle.thy ===== *)
theory Spec2Isabelle
  imports SizeClasses PageHeapProps LinkedList ThreadLife MallocExtension
begin

text \<open>
  A verification development of tcmalloc, the allocator of gperftools, whose sources are below \<^verbatim>\<open>src/src/src\<close>.

  \<^bold>\<open>The program.\<close> A request for memory is served in layers. The allocation functions (\<^verbatim>\<open>tcmalloc.cc\<close>) find the
  cache of the calling thread (\<^verbatim>\<open>thread_cache_ptr.cc\<close>) and map a small request to a size class (\<open>SizeMap\<close> in
  \<^verbatim>\<open>common.h\<close>, \<^verbatim>\<open>common.cc\<close>). A thread cache (\<^verbatim>\<open>thread_cache.cc\<close>) keeps a free list per size class; it exchanges
  chains of objects with the central free list of the class (\<^verbatim>\<open>central_freelist.cc\<close>), which keeps a transfer cache of
  whole chains and cuts spans, runs of pages, into objects. Spans come from the page heap (\<^verbatim>\<open>page_heap.cc\<close>), which
  also serves large requests: it keeps free spans on lists and in sets by length, finds the span of a page in a radix
  tree (\<^verbatim>\<open>pagemap.h\<close>) and the size class of a page in a small cache (\<^verbatim>\<open>packed-cache-inl.h\<close>), and obtains memory
  from the system (\<^verbatim>\<open>system-alloc.cc\<close>). Its own data come from pools (\<^verbatim>\<open>page_heap_allocator.h\<close>) on a metadata
  allocator (\<open>MetaDataAlloc\<close> in \<^verbatim>\<open>common.cc\<close>).

  \<^bold>\<open>The theories\<close>, in the order of the layers from below.

  \<^item> \<^verbatim>\<open>Prelude\<close>: unsigned 64-bit and signed 32-bit and 64-bit arithmetic with its wrap-around; the
    calculus \<open>outcome D r P\<close>: if the result \<open>r\<close> is None then \<open>D\<close>, and if it is Some \<open>x\<close> then \<open>P x\<close>.
  \<^item> \<^verbatim>\<open>SizeMap\<close> models \<open>SizeMap::Init\<close> and the lookups; \<^verbatim>\<open>SizeClasses\<close> shows that a request gets the smallest class
    that holds it, that spans waste at most an eighth, natural alignment, the 85 classes of the default build, and for
    which flags initialisation ends, fails or hangs.
  \<^item> \<^verbatim>\<open>PageMap\<close> models the three radix maps; the locales \<open>page_map\<close> and \<open>page_map_total\<close> state the laws of a map, the
    locale \<open>radix_ensure\<close> what the allocation of nodes promises, and all are interpreted on the maps.
  \<^item> \<^verbatim>\<open>PackedCache\<close>: the cache of size classes, an interpretation of the locale \<open>lossy_cache\<close>: what it answers was
    stored last for that key.
  \<^item> \<^verbatim>\<open>SystemAlloc\<close>: the two system allocators and the default one that chains them, over a record \<open>platform\<close> of system
    calls; \<open>os_laws\<close> states what the calls promise, and \<open>flat_platform\<close> satisfies it. A block is aligned and new.
  \<^item> \<^verbatim>\<open>LinkedList\<close>, \<^verbatim>\<open>Span\<close>: the intrusive lists of objects and of spans, pointer by pointer, with their refinement of
    lists (locale \<open>span_list\<close>).
  \<^item> \<^verbatim>\<open>Metadata\<close>: the metadata allocator and the pools; the locale \<open>object_allocator\<close> carries the history of
    allocations and is interpreted on the pool and on its STL wrapper.
  \<^item> \<^verbatim>\<open>PageHeap\<close> models every operation of the page heap on one record. \<^verbatim>\<open>PageHeapInv\<close> states its invariant
    (geometry, page map, lists, byte counts, memory), \<^verbatim>\<open>PageHeapOps\<close>, \<^verbatim>\<open>PageHeapFree\<close>, \<^verbatim>\<open>PageHeapAlloc\<close>, \<^verbatim>\<open>PageHeapGrow\<close>,
    \<^verbatim>\<open>PageHeapNew\<close> and \<^verbatim>\<open>PageHeapWalk\<close> show what each operation does to it, \<^verbatim>\<open>PageHeapReach\<close> defines the states that
    clients can bring about (\<open>heap_reach\<close>), \<^verbatim>\<open>FlatHeap\<close> evaluates a first allocation, and \<^verbatim>\<open>PageHeapProps\<close> holds the
    properties.
  \<^item> \<^verbatim>\<open>CentralFreeList\<close> models the central free lists; \<^verbatim>\<open>CentralInv\<close> states that every slot of a span of a class is free in
    its span, in the transfer cache, or outstanding, and \<^verbatim>\<open>CentralRelease\<close>, \<^verbatim>\<open>CentralTransfer\<close>, \<^verbatim>\<open>CentralFetch\<close>,
    \<^verbatim>\<open>CentralPopulate\<close> and \<^verbatim>\<open>CentralRemove\<close> show what each operation does to the outstanding ones.
  \<^item> \<^verbatim>\<open>Sampler\<close> models the sampler; a double is a rational number that is rounded to 53 bits after each operation.
  \<^item> \<^verbatim>\<open>ThreadCache\<close> models the thread caches, \<^verbatim>\<open>ThreadCachePtr\<close> the ways of a thread to its cache. \<^verbatim>\<open>ThreadInv\<close> extends the
    invariant to the lists of the caches and to their byte counts, \<^verbatim>\<open>ThreadLimits\<close> treats the shares of the caches in the
    total size, and \<^verbatim>\<open>ThreadOps\<close>, \<^verbatim>\<open>ThreadSteps\<close> and \<^verbatim>\<open>ThreadLife\<close> the operations.
  \<^item> \<^verbatim>\<open>Tcmalloc\<close> models the allocation functions and \<^verbatim>\<open>MallocExtension\<close> the extension interface.

  \<^bold>\<open>How code is translated.\<close> A class is a record, a method a function on it, an address a natural number, null is 0.
  A result of None means that the process aborts, does not return, or does what C++ leaves undefined. Loops that may not
  end are defined by \<^theory_text>\<open>partial_function (option)\<close>; no definition uses fuel, except that \<open>release_round\<close>, \<open>steal_loop\<close>
  and their like count the iterations that the code counts. The build is the 64-bit POSIX one with the default
  constants (8 KiB pages, 48 address bits), without debug assertions.

  \<^bold>\<open>Choices of the model.\<close> Each operation runs with its locks held and is not interleaved with others, so that races are
  out of scope. \<open>tame\<close>, a hypothesis of the properties of the page heap, says that the process never has \<open>2 ^ 44\<close> bytes or
  more mapped: from there on the \<open>int\<close> variables of \<open>Carve\<close> and \<open>Split\<close> overflow, as \<open>Carve_length\<close> shows. \<open>mad\<close> says
  that \<open>madvise\<close> can answer \<open>EAGAIN\<close> forever, and \<open>unlimited\<close> that no heap limit is configured. The counters
  \<open>inuse_\<close> of a pool and the results of \<open>DLL_Length\<close> and \<open>SLL_Size\<close>, \<open>int\<close>s that count objects in memory, do not wrap
  in the model. Sums of lengths of neighbouring spans in \<open>MergeIntoFreeList\<close> are natural numbers; the invariant bounds them
  by the address space. \<open>PageMap1_Ensure\<close> is exact for at most 30 bits, where its \<open>1 << BITS\<close> is defined. The delay
  that \<open>IncrementalScavenge\<close> computes from the release rate is an exact rational. The flag of the sampler has the value
  that it has after the environment was read.

  \<^bold>\<open>Not modelled\<close> are the debug allocator, the profilers, hooks, stack traces, logging, the Windows port and the
  replacement of the C library: the first ones are other programs or observe the allocator, the last ones belong to the
  linker and to other platforms. Printing, locking around fork and emergency malloc are left out.
\<close>

end
